(* ===== verification/Prelude.thy ===== *)
theory Prelude
  imports Main "HOL-Library.Word" "HOL-Library.List_Lexorder" "HOL-Library.Product_Lexorder"
    "HOL-Library.Sublist" "HOL-Library.Multiset"
begin

unbundle bit_operations_syntax

text \<open>
  Shared vocabulary of the development: the machine types of the C code, the error codes of
  \<^verbatim>\<open>include/fastgit/fastgit.h\<close>, the C library idioms the sources use on buffers and strings
  (memchr, memcmp, strcmp, snprintf of numbers, strtoul, big-endian loads and stores, binary
  search), and the \<open>codec\<close> interface that every encoder/decoder pair of the program satisfies.

  A buffer (pointer and length) is a byte list. A C string is a byte list without NUL, its
  terminator is left implicit. Undefined behaviour of C (reading outside an object, a shift by
  the width of the type or more) is the extra outcome \<open>Undefined\<close> of the error type.
\<close>

section \<open>Machine types and error codes\<close>

type_synonym byte = "8 word"
type_synonym bytes = "byte list"
type_synonym u16 = "16 word"
type_synonym u32 = "32 word"
type_synonym u64 = "64 word"

datatype fg_error =
    ERROR | ENOMEM | EINVAL | ENOENT | EEXIST | EIO | EBUSY | EAGAIN | EOVERFLOW | EUNSUPPORTED
  | Undefined \<comment> \<open>not a code of the source: the C standard gives the execution no meaning\<close>

type_synonym 'a res = "fg_error + 'a"

named_theorems fg_defs \<open>definitions of the C library idioms\<close>
named_theorems codec_simps \<open>decoding an encoded value followed by more input\<close>

definition bindr :: "'a res \<Rightarrow> ('a \<Rightarrow> 'b res) \<Rightarrow> 'b res" where
  "bindr m f = (case m of Inl e \<Rightarrow> Inl e | Inr x \<Rightarrow> f x)"

lemma bindr_simps [simp]: "bindr (Inl e) f = Inl e" "bindr (Inr x) f = f x"
  by (simp_all add: bindr_def)

lemma bindr_Inr_right [simp]: "bindr m Inr = m"
  by (cases m) simp_all

lemma bindr_Inr_iff: "bindr m f = Inr y \<longleftrightarrow> (\<exists>x. m = Inr x \<and> f x = Inr y)"
  by (cases m) auto

fun mapr :: "('a \<Rightarrow> 'b res) \<Rightarrow> 'a list \<Rightarrow> 'b list res" where
  "mapr f [] = Inr []"
| "mapr f (x # xs) = bindr (f x) (\<lambda>y. bindr (mapr f xs) (\<lambda>ys. Inr (y # ys)))"

lemma mapr_Inl: "x \<in> set xs \<Longrightarrow> f x = Inl e \<Longrightarrow> \<exists>e'. mapr f xs = Inl e'"
  by (induction xs) (auto simp: bindr_def split: sum.splits)

lemma mapr_Inr: "(\<And>x. x \<in> set xs \<Longrightarrow> f x = Inr (g x)) \<Longrightarrow> mapr f xs = Inr (map g xs)"
  by (induction xs) auto

lemma unat_byte: "unat (w :: byte) < 256"
  using unsigned_less[of w] by simp

lemma unat_u32: "unat (w :: u32) < 4294967296"
  using unsigned_less[of w] by simp

lemma unat_u64: "unat (w :: u64) < 18446744073709551616"
  using unsigned_less[of w] by simp

section \<open>Characters and strings\<close>

definition str :: "string \<Rightarrow> bytes" where
  "str s = map of_char s"

lemma str_append: "str (a @ b) = str a @ str b"
  by (simp add: str_def)

lemma str_Cons: "str (c # s) = of_char c # str s"
  by (simp add: str_def)

lemma length_str [simp]: "length (str s) = length s"
  by (simp add: str_def)

lemma str_Nil [simp]: "str [] = []"
  by (simp add: str_def)

definition nul_free :: "bytes \<Rightarrow> bool" where
  "nul_free s \<longleftrightarrow> 0 \<notin> set s"

lemma nul_free_simps [simp]:
  "nul_free []" "nul_free (x # xs) \<longleftrightarrow> x \<noteq> 0 \<and> nul_free xs"
  "nul_free (xs @ ys) \<longleftrightarrow> nul_free xs \<and> nul_free ys"
  by (auto simp: nul_free_def)

section \<open>memchr, memcmp and strcmp\<close>

text \<open>\<open>split_at c xs\<close> is the memchr idiom: the part before the first \<open>c\<close> and the part after it.\<close>

fun split_at :: "'a \<Rightarrow> 'a list \<Rightarrow> ('a list \<times> 'a list) option" where
  "split_at c [] = None"
| "split_at c (x # xs) =
     (if x = c then Some ([], xs)
      else map_option (\<lambda>(a, b). (x # a, b)) (split_at c xs))"

lemma split_at_append [simp]: "c \<notin> set xs \<Longrightarrow> split_at c (xs @ c # ys) = Some (xs, ys)"
  by (induction xs) auto

lemma split_at_None_iff: "split_at c xs = None \<longleftrightarrow> c \<notin> set xs"
  by (induction xs) auto

lemma split_at_SomeD: "split_at c xs = Some (a, b) \<Longrightarrow> xs = a @ c # b \<and> c \<notin> set a"
  by (induction xs arbitrary: a b) (auto split: if_splits)

lemma split_at_length: "split_at c xs = Some (a, b) \<Longrightarrow> length b < length xs"
  by (drule split_at_SomeD) simp

text \<open>The sign of memcmp on two buffers of the same length: the first differing byte decides.\<close>

fun memcmp :: "bytes \<Rightarrow> bytes \<Rightarrow> int" where
  "memcmp (x # xs) (y # ys) = (if x = y then memcmp xs ys else uint x - uint y)"
| "memcmp _ _ = 0"

text \<open>strcmp sees the terminating NUL of the shorter string.\<close>

fun strcmp :: "bytes \<Rightarrow> bytes \<Rightarrow> int" where
  "strcmp [] [] = 0"
| "strcmp [] (y # ys) = - uint y"
| "strcmp (x # xs) [] = uint x"
| "strcmp (x # xs) (y # ys) = (if x = y then strcmp xs ys else uint x - uint y)"

lemma uint_less_iff: "uint x < uint y \<longleftrightarrow> x < (y :: 'a::len word)"
  by (simp add: word_less_def)

lemma uint_eq_iff: "uint x = uint y \<longleftrightarrow> x = (y :: 'a::len word)"
  by (rule word_uint_eq_iff [symmetric])

lemma memcmp_eq_0: "length xs = length ys \<Longrightarrow> memcmp xs ys = 0 \<longleftrightarrow> xs = ys"
  by (induction xs ys rule: list_induct2) (auto simp: uint_eq_iff)

lemma memcmp_less: "length xs = length ys \<Longrightarrow> memcmp xs ys < 0 \<longleftrightarrow> xs < ys"
  by (induction xs ys rule: list_induct2) (auto simp: word_less_def)

lemma memcmp_greater: "length xs = length ys \<Longrightarrow> 0 < memcmp xs ys \<longleftrightarrow> ys < xs"
  by (induction xs ys rule: list_induct2) (auto simp: word_less_def)

lemma strcmp_eq_0: "nul_free xs \<Longrightarrow> nul_free ys \<Longrightarrow> strcmp xs ys = 0 \<longleftrightarrow> xs = ys"
  by (induction xs ys rule: strcmp.induct) (auto simp: uint_eq_iff uint_0_iff)

lemma uint_pos_byte: "(y :: byte) \<noteq> 0 \<Longrightarrow> 0 < uint y"
  by (metis uint_0_iff uint_ge_0 order_le_less)

lemma strcmp_less: "nul_free xs \<Longrightarrow> nul_free ys \<Longrightarrow> strcmp xs ys < 0 \<longleftrightarrow> xs < ys"
  by (induction xs ys rule: strcmp.induct) (auto simp: word_less_def uint_pos_byte not_less)

lemma strcmp_greater: "nul_free xs \<Longrightarrow> nul_free ys \<Longrightarrow> 0 < strcmp xs ys \<longleftrightarrow> ys < xs"
  by (induction xs ys rule: strcmp.induct) (auto simp: word_less_def uint_pos_byte not_less)

lemma strcmp_self [simp]: "strcmp xs xs = 0"
  by (induction xs) auto

section \<open>Numbers in text\<close>

text \<open>
  The digit of a value below 36, as printf writes it, and the value of a digit character, as
  strtoul and the hex parsers read it.
\<close>

definition digit_char :: "nat \<Rightarrow> byte" where
  "digit_char d = (if d < 10 then of_nat (48 + d) else of_nat (87 + d))"

definition digit_val :: "byte \<Rightarrow> nat option" where
  "digit_val c =
     (if 48 \<le> c \<and> c \<le> 57 then Some (unat (c - 48))
      else if 97 \<le> c \<and> c \<le> 122 then Some (unat (c - 87))
      else if 65 \<le> c \<and> c \<le> 90 then Some (unat (c - 55))
      else None)"

lemma digit_val_char:
  assumes "d < 36"
  shows "digit_val (digit_char d) = Some d"
proof -
  have "\<forall>d \<in> set [0..<36]. digit_val (digit_char d) = Some d"
    by code_simp
  then show ?thesis using assms by simp
qed

text \<open>printf of an unsigned number in a base: no leading zeros, at least one digit.\<close>

function digits :: "nat \<Rightarrow> nat \<Rightarrow> nat list" where
  "digits b n = (if n < b \<or> b < 2 then [n] else digits b (n div b) @ [n mod b])"
  by pat_completeness auto
termination
  by (relation "measure (\<lambda>(b, n). n)") auto

declare digits.simps [simp del]

definition print_base :: "nat \<Rightarrow> nat \<Rightarrow> bytes" where
  "print_base b n = map digit_char (digits b n)"

abbreviation dec :: "nat \<Rightarrow> bytes" where "dec \<equiv> print_base 10"
abbreviation oct :: "nat \<Rightarrow> bytes" where "oct \<equiv> print_base 8"

lemma digits_nonempty [simp]: "digits b n \<noteq> []"
  by (subst digits.simps) simp

lemma digits_less: "2 \<le> b \<Longrightarrow> d \<in> set (digits b n) \<Longrightarrow> d < b"
proof (induction b n rule: digits.induct)
  case (1 b n)
  then show ?case
    by (subst (asm) (2) digits.simps) (auto split: if_splits)
qed

lemma foldl_digits:
  "2 \<le> b \<Longrightarrow> foldl (\<lambda>a d. a * b + d) acc (digits b n) = acc * b ^ length (digits b n) + n"
proof (induction b n arbitrary: acc rule: digits.induct)
  case (1 b n)
  show ?case
  proof (cases "n < b")
    case True
    then show ?thesis by (subst (1 2) digits.simps) simp
  next
    case False
    then have dn: "digits b n = digits b (n div b) @ [n mod b]"
      using "1.prems" by (subst digits.simps) simp
    have IH: "foldl (\<lambda>a d. a * b + d) acc (digits b (n div b))
        = acc * b ^ length (digits b (n div b)) + n div b"
      using 1 False by simp
    have "(acc * b ^ length (digits b (n div b)) + n div b) * b + n mod b
        = acc * (b * b ^ length (digits b (n div b))) + (n div b * b + n mod b)"
      by (simp add: algebra_simps)
    then show ?thesis using dn IH by simp
  qed
qed

lemma length_digits_le: "2 \<le> b \<Longrightarrow> n < b ^ Suc k \<Longrightarrow> length (digits b n) \<le> Suc k"
proof (induction k arbitrary: n)
  case 0
  then show ?case by (subst digits.simps) simp
next
  case (Suc k)
  have "n div b < b ^ Suc k" using Suc.prems by (simp add: less_mult_imp_div_less mult.commute)
  then show ?case using Suc by (subst digits.simps) simp
qed

lemma length_print_base_le: "2 \<le> b \<Longrightarrow> 0 < k \<Longrightarrow> n < b ^ k \<Longrightarrow> length (print_base b n) \<le> k"
  using length_digits_le[of b n "k - 1"] by (simp add: print_base_def)

definition isspace :: "byte \<Rightarrow> bool" where
  "isspace c \<longleftrightarrow> c = 32 \<or> 9 \<le> c \<and> c \<le> 13"

text \<open>The digits a number parser accepts in a base, up to the first other character.\<close>

fun read_digits :: "nat \<Rightarrow> nat \<Rightarrow> bytes \<Rightarrow> nat \<times> bytes" where
  "read_digits b acc [] = (acc, [])"
| "read_digits b acc (c # cs) =
     (case digit_val c of
        Some d \<Rightarrow> if d < b then read_digits b (acc * b + d) cs else (acc, c # cs)
      | None \<Rightarrow> (acc, c # cs))"

definition stops :: "nat \<Rightarrow> bytes \<Rightarrow> bool" where
  "stops b r = (case r of [] \<Rightarrow> True
     | c # _ \<Rightarrow> (case digit_val c of Some d \<Rightarrow> b \<le> d | None \<Rightarrow> True))"

lemma read_digits_stops: "stops b r \<Longrightarrow> read_digits b a r = (a, r)"
  by (cases r) (auto simp: stops_def split: option.splits)

lemma read_digits_chars:
  "b \<le> 36 \<Longrightarrow> \<forall>d \<in> set ds. d < b \<Longrightarrow>
   read_digits b acc (map digit_char ds @ r) = read_digits b (foldl (\<lambda>a d. a * b + d) acc ds) r"
  by (induction ds arbitrary: acc) (auto simp: digit_val_char)

lemma read_print_base:
  assumes "2 \<le> b" "b \<le> 36" "stops b r"
  shows "read_digits b 0 (print_base b n @ r) = (n, r)"
  using assms
  by (simp add: print_base_def read_digits_chars digits_less foldl_digits read_digits_stops)

text \<open>
  strtoul in base 8 or 10: leading white space, an optional sign, the digits; the value
  saturates at ULONG_MAX and a minus sign negates modulo \<open>2 ^ 64\<close>. The rest of the input comes
  back (endptr); without any digit the whole input does.
\<close>

definition strtoul :: "nat \<Rightarrow> bytes \<Rightarrow> u64 \<times> bytes" where
  "strtoul b s =
     (let s1 = dropWhile isspace s;
          neg = (s1 \<noteq> [] \<and> hd s1 = 45);
          s2 = (if s1 \<noteq> [] \<and> (hd s1 = 45 \<or> hd s1 = 43) then tl s1 else s1);
          (v, r) = read_digits b 0 s2
      in if r = s2 then (0, s)
         else if 2 ^ 64 \<le> v then (- 1, r)
         else (if neg then - of_nat v else of_nat v, r))"

lemma digit_char_range: "d < 36 \<Longrightarrow> 48 \<le> digit_char d \<and> digit_char d \<le> 122"
proof -
  assume "d < 36"
  moreover have "\<forall>d \<in> set [0..<36]. 48 \<le> digit_char d \<and> digit_char d \<le> 122"
    by code_simp
  ultimately show ?thesis by simp
qed

lemma print_base_range:
  "2 \<le> b \<Longrightarrow> b \<le> 36 \<Longrightarrow> c \<in> set (print_base b n) \<Longrightarrow> 48 \<le> c \<and> c \<le> 122"
  unfolding print_base_def using digits_less[of b _ n] digit_char_range by fastforce

lemma print_base_nul_free: "2 \<le> b \<Longrightarrow> b \<le> 36 \<Longrightarrow> nul_free (print_base b n)"
  using print_base_range[of b 0 n] by (auto simp: nul_free_def)

lemma print_base_nonempty [simp]: "print_base b n \<noteq> []"
  by (simp add: print_base_def)

lemma strtoul_print:
  assumes "2 \<le> b" "b \<le> 36" "stops b r" "n < 2 ^ 64"
  shows "strtoul b (print_base b n @ r) = (of_nat n, r)"
proof -
  obtain c cs where cs: "print_base b n = c # cs"
    by (cases "print_base b n") auto
  have c: "48 \<le> c" "c \<le> 122"
    using print_base_range[OF assms(1,2), of c n] cs by auto
  have ns: "\<not> isspace c" and nm: "c \<noteq> 45" "c \<noteq> 43"
    using c by (auto simp: isspace_def word_le_nat_alt)
  have rd: "read_digits b 0 (c # cs @ r) = (n, r)"
    using read_print_base[OF assms(1-3), of n] cs by simp
  have "c # cs @ r \<noteq> r" by (metis append_Cons append_self_conv2 list.distinct(1))
  then show ?thesis
    using ns nm rd assms(4) unfolding strtoul_def cs Let_def by (auto simp: Let_def)
qed

end
