(* ===== verification/Codec.thy ===== *)
theory Codec
  imports Prelude
begin

text \<open>
  Reading and writing binary formats: bounded reads, big-endian integers, tables of encoded
  values, and the interface \<open>codec\<close>: a decoder that gives back what the encoder wrote and
  hands on the rest of the input. Every pair of the program that claims it (integers, pack
  headers, varints, tree entries, pkt-lines) interprets the locale in its own theory. The last
  section is the binary search that the sorted object tables share.
\<close>

section \<open>Bounded reads\<close>

definition take_bytes :: "nat \<Rightarrow> bytes \<Rightarrow> (bytes \<times> bytes) option" where
  "take_bytes n s = (if n \<le> length s then Some (take n s, drop n s) else None)"

lemma take_bytes_append [simp]: "length xs = n \<Longrightarrow> take_bytes n (xs @ r) = Some (xs, r)"
  by (simp add: take_bytes_def)

lemma take_bytes_SomeD: "take_bytes n s = Some (a, b) \<Longrightarrow> s = a @ b \<and> length a = n"
  by (auto simp: take_bytes_def split: if_splits)

section \<open>Big-endian integers (FASTGIT_BSWAP32 and shifts)\<close>

definition be16 :: "u16 \<Rightarrow> bytes" where
  "be16 w = [ucast (drop_bit 8 w), ucast w]"

definition be32 :: "u32 \<Rightarrow> bytes" where
  "be32 w = [ucast (drop_bit 24 w), ucast (drop_bit 16 w), ucast (drop_bit 8 w), ucast w]"

definition be64 :: "u64 \<Rightarrow> bytes" where
  "be64 w = be32 (ucast (drop_bit 32 w)) @ be32 (ucast w)"

definition of_be16 :: "byte \<Rightarrow> byte \<Rightarrow> u16" where
  "of_be16 a b = push_bit 8 (ucast a) OR ucast b"

definition of_be32 :: "byte \<Rightarrow> byte \<Rightarrow> byte \<Rightarrow> byte \<Rightarrow> u32" where
  "of_be32 a b c d =
     push_bit 24 (ucast a) OR push_bit 16 (ucast b) OR push_bit 8 (ucast c) OR ucast d"

fun get16 :: "bytes \<Rightarrow> (u16 \<times> bytes) option" where
  "get16 (a # b # r) = Some (of_be16 a b, r)"
| "get16 _ = None"

fun get32 :: "bytes \<Rightarrow> (u32 \<times> bytes) option" where
  "get32 (a # b # c # d # r) = Some (of_be32 a b c d, r)"
| "get32 _ = None"

definition get64 :: "bytes \<Rightarrow> (u64 \<times> bytes) option" where
  "get64 s = (case get32 s of None \<Rightarrow> None | Some (h, r) \<Rightarrow>
     (case get32 r of None \<Rightarrow> None | Some (l, r') \<Rightarrow>
        Some (push_bit 32 (ucast h) OR ucast l, r')))"

lemma length_be [simp]: "length (be16 a) = 2" "length (be32 b) = 4" "length (be64 c) = 8"
  by (simp_all add: be16_def be32_def be64_def)

lemma of_be16_be: "of_be16 (ucast (drop_bit 8 w)) (ucast w) = w"
  unfolding of_be16_def by (rule bit_word_eqI) (auto simp: bit_simps)

lemma of_be32_be:
  "of_be32 (ucast (drop_bit 24 w)) (ucast (drop_bit 16 w)) (ucast (drop_bit 8 w)) (ucast w) = w"
proof (rule bit_word_eqI)
  fix n
  assume "n < LENGTH(32)"
  then consider "n < 8" | "8 \<le> n" "n < 16" | "16 \<le> n" "n < 24" | "24 \<le> n" "n < 32" by force
  then show "bit (of_be32 (ucast (drop_bit 24 w)) (ucast (drop_bit 16 w))
      (ucast (drop_bit 8 w)) (ucast w)) n = bit w n"
    by cases (auto simp: of_be32_def bit_simps)
qed

lemma word64_split: "push_bit 32 (ucast (ucast (drop_bit 32 w) :: u32)) OR ucast (ucast w :: u32) = (w :: u64)"
  by (rule bit_word_eqI) (auto simp: bit_simps)

lemma get16_be: "get16 (be16 a @ r) = Some (a, r)"
  unfolding be16_def append_Cons append_Nil get16.simps of_be16_be ..

lemma get32_be: "get32 (be32 b @ r) = Some (b, r)"
  unfolding be32_def append_Cons append_Nil get32.simps of_be32_be ..

lemma get64_be: "get64 (be64 c @ r) = Some (c, r)"
  unfolding be64_def get64_def append_assoc get32_be option.case prod.case word64_split ..

lemmas get_be [simp, codec_simps] = get16_be get32_be get64_be

section \<open>The codec interface\<close>

fun read_many :: "(bytes \<Rightarrow> ('a \<times> bytes) option) \<Rightarrow> nat \<Rightarrow> bytes \<Rightarrow> ('a list \<times> bytes) option" where
  "read_many d 0 s = Some ([], s)"
| "read_many d (Suc n) s =
     (case d s of None \<Rightarrow> None | Some (x, r) \<Rightarrow>
        (case read_many d n r of None \<Rightarrow> None | Some (xs, r') \<Rightarrow> Some (x # xs, r')))"

text \<open>A loop that decodes records up to the end of the input; a decoder must consume something.\<close>

function read_all :: "(bytes \<Rightarrow> ('a \<times> bytes) option) \<Rightarrow> bytes \<Rightarrow> 'a list option" where
  "read_all d s =
     (if s = [] then Some []
      else (case d s of None \<Rightarrow> None
        | Some (x, r) \<Rightarrow> if length r < length s then map_option ((#) x) (read_all d r) else None))"
  by pat_completeness auto
termination
  by (relation "measure (\<lambda>(d, s). length s)") auto

declare read_all.simps [simp del]

lemma read_all_Nil [simp]: "read_all d [] = Some []"
  by (subst read_all.simps) simp

locale codec =
  fixes enc :: "'a \<Rightarrow> bytes" and decode :: "bytes \<Rightarrow> ('a \<times> bytes) option" and ok :: "'a \<Rightarrow> bool"
  assumes decode_enc: "ok x \<Longrightarrow> decode (enc x @ r) = Some (x, r)"
begin

lemma decode_exact: "ok x \<Longrightarrow> decode (enc x) = Some (x, [])"
  using decode_enc[of x "[]"] by simp

lemma enc_unique: "ok x \<Longrightarrow> ok y \<Longrightarrow> enc x @ r = enc y @ s \<Longrightarrow> x = y \<and> r = s"
  by (metis decode_enc option.inject prod.inject)

lemma enc_inj: "inj_on enc {x. ok x}"
  using enc_unique[of _ _ "[]" "[]"] by (auto intro!: inj_onI)

lemma read_many_enc:
  "(\<forall>x \<in> set xs. ok x) \<Longrightarrow> read_many decode (length xs) (concat (map enc xs) @ r) = Some (xs, r)"
  by (induction xs) (auto simp: decode_enc)

lemma read_all_enc:
  "(\<forall>x \<in> set xs. ok x \<and> enc x \<noteq> []) \<Longrightarrow> read_all decode (concat (map enc xs)) = Some xs"
proof (induction xs)
  case (Cons x xs)
  then show ?case by (subst read_all.simps) (simp add: decode_enc)
qed simp

end

interpretation be16c: codec be16 get16 "\<lambda>_. True" by unfold_locales simp
interpretation be32c: codec be32 get32 "\<lambda>_. True" by unfold_locales simp
interpretation be64c: codec be64 get64 "\<lambda>_. True" by unfold_locales simp

lemma read_many_SomeD: "read_many d n s = Some (xs, r) \<Longrightarrow> length xs = n"
  by (induction n arbitrary: s xs r) (auto split: option.splits prod.splits)

lemma take_bytes_codec: "codec (\<lambda>x. x) (take_bytes n) (\<lambda>x. length x = n)"
  by unfold_locales simp

section \<open>Binary search in a sorted table\<close>

text \<open>
  The loop of \<^verbatim>\<open>fastgit_pack_index_find\<close> and \<^verbatim>\<open>fastgit_midx_find\<close>: bounds are uint32, the
  comparison of slot \<open>mid\<close> with the key is \<open>None\<close> outside the table. Where \<open>lo + hi\<close> would wrap
  the 32-bit midpoint the model stops with \<open>Undefined\<close>; tables below \<open>2 ^ 31\<close> never get there.
\<close>

function bin_search :: "(nat \<Rightarrow> int option) \<Rightarrow> nat \<Rightarrow> nat \<Rightarrow> nat res" where
  "bin_search cmp lo hi =
     (if lo < hi then
        (if 2 ^ 32 \<le> lo + hi then Inl Undefined
         else let mid = (lo + hi) div 2 in
           (case cmp mid of
              None \<Rightarrow> Inl Undefined
            | Some c \<Rightarrow>
                if c < 0 then bin_search cmp (mid + 1) hi
                else if c > 0 then bin_search cmp lo mid
                else Inr mid))
      else Inl ENOENT)"
  by pat_completeness auto
termination
  by (relation "measure (\<lambda>(cmp, lo, hi). hi - lo)") auto

declare bin_search.simps [simp del]

definition ordered_cmp :: "(nat \<Rightarrow> int option) \<Rightarrow> nat \<Rightarrow> nat \<Rightarrow> bool" where
  "ordered_cmp cmp lo hi \<longleftrightarrow>
     (\<forall>i. lo \<le> i \<and> i < hi \<longrightarrow> cmp i \<noteq> None) \<and>
     (\<forall>i j. lo \<le> i \<and> i < j \<and> j < hi \<longrightarrow>
        (the (cmp j) \<le> 0 \<longrightarrow> the (cmp i) < 0) \<and> (0 \<le> the (cmp i) \<longrightarrow> 0 < the (cmp j)))"

lemma ordered_cmp_sub: "ordered_cmp cmp lo hi \<Longrightarrow> lo \<le> lo' \<Longrightarrow> hi' \<le> hi \<Longrightarrow> ordered_cmp cmp lo' hi'"
  unfolding ordered_cmp_def
  by (meson order.strict_trans2 order.trans)

lemma bin_search_InrD: "bin_search cmp lo hi = Inr i \<Longrightarrow> lo \<le> i \<and> i < hi \<and> cmp i = Some 0"
proof (induction cmp lo hi rule: bin_search.induct)
  case (1 cmp lo hi)
  then show ?case
    by (subst (asm) (3) bin_search.simps)
      (fastforce simp: Let_def split: if_splits option.splits)
qed

lemma bin_search_complete:
  assumes "ordered_cmp cmp lo hi" "lo \<le> i" "i < hi" "cmp i = Some 0" "hi \<le> 2 ^ 31"
  shows "bin_search cmp lo hi = Inr i"
  using assms
proof (induction cmp lo hi rule: bin_search.induct)
  case (1 cmp lo hi)
  let ?mid = "(lo + hi) div 2"
  have m: "lo \<le> ?mid" "?mid < hi" "\<not> 2 ^ 32 \<le> lo + hi" "lo < hi"
    using "1.prems" by auto
  obtain c where c: "cmp ?mid = Some c"
    using "1.prems"(1) m unfolding ordered_cmp_def by blast
  have ord: "\<And>j k. lo \<le> j \<Longrightarrow> j < k \<Longrightarrow> k < hi \<Longrightarrow>
      (the (cmp k) \<le> 0 \<longrightarrow> the (cmp j) < 0) \<and> (0 \<le> the (cmp j) \<longrightarrow> 0 < the (cmp k))"
    using "1.prems"(1) unfolding ordered_cmp_def by blast
  consider "c < 0" | "c > 0" | "c = 0" by linarith
  then show ?case
  proof cases
    case 1
    then have "?mid < i"
      using ord[of i ?mid] ord[of ?mid i] "1.prems"(2,3,4) m c
      by (metis less_le_not_le linorder_neqE_nat option.sel)
    then show ?thesis
      using "1.IH"(1)[OF m(4) _ refl c 1] "1.prems" m 1 c
        ordered_cmp_sub[OF "1.prems"(1), of "?mid + 1" hi]
      by (subst bin_search.simps) simp
  next
    case 2
    then have "i < ?mid"
      using ord[of i ?mid] ord[of ?mid i] "1.prems"(2,3,4) m c
      by (metis less_le_not_le linorder_neqE_nat option.sel)
    then show ?thesis
      using "1.IH"(2)[OF m(4) _ refl c _ 2] "1.prems" m 2 c
        ordered_cmp_sub[OF "1.prems"(1), of lo ?mid]
      by (subst bin_search.simps) simp
  next
    case 3
    then have "i = ?mid"
      using ord[of i ?mid] ord[of ?mid i] "1.prems"(2,3,4) m c
      by (metis less_irrefl linorder_neqE_nat option.sel order_refl)
    then show ?thesis
      using m c 3 by (subst bin_search.simps) simp
  qed
qed

lemma bin_search_absent:
  assumes "ordered_cmp cmp lo hi" "\<forall>i. lo \<le> i \<and> i < hi \<longrightarrow> cmp i \<noteq> Some 0" "hi \<le> 2 ^ 31"
  shows "bin_search cmp lo hi = Inl ENOENT"
  using assms
proof (induction cmp lo hi rule: bin_search.induct)
  case (1 cmp lo hi)
  let ?mid = "(lo + hi) div 2"
  show ?case
  proof (cases "lo < hi")
    case False
    then show ?thesis by (subst bin_search.simps) simp
  next
    case True
    then have m: "lo \<le> ?mid" "?mid < hi" "\<not> 2 ^ 32 \<le> lo + hi"
      using "1.prems" by auto
    then obtain c where c: "cmp ?mid = Some c" "c \<noteq> 0"
      using "1.prems"(1,2) unfolding ordered_cmp_def by blast
    then consider "c < 0" | "c > 0" by linarith
    then show ?thesis
    proof cases
      case 1
      then show ?thesis
        using "1.IH"(1)[OF True _ refl c(1) 1] "1.prems" m True c
          ordered_cmp_sub[OF "1.prems"(1), of "?mid + 1" hi]
        by (subst bin_search.simps) simp
    next
      case 2
      then show ?thesis
        using "1.IH"(2)[OF True _ refl c(1) _ 2] "1.prems" m True c
          ordered_cmp_sub[OF "1.prems"(1), of lo ?mid]
        by (subst bin_search.simps) simp
    qed
  qed
qed

text \<open>A strictly sorted table of keys orders the comparison with any key.\<close>

lemma ordered_cmp_table:
  assumes "sorted_wrt (<) tab" "\<forall>x \<in> set tab. length x = length key" "hi \<le> length tab"
  shows "ordered_cmp (\<lambda>i. if i < length tab then Some (memcmp (tab ! i) key) else None) lo hi"
proof -
  have less: "tab ! i < tab ! j" if "i < j" "j < hi" for i j
    using that assms(1,3) by (simp add: sorted_wrt_iff_nth_less)
  have len: "length (tab ! i) = length key" if "i < hi" for i
    using that assms(2,3) by simp
  have lt: "memcmp (tab ! i) key < 0 \<longleftrightarrow> tab ! i < key" if "i < hi" for i
    using len[OF that] by (rule memcmp_less)
  have gt: "0 < memcmp (tab ! i) key \<longleftrightarrow> key < tab ! i" if "i < hi" for i
    using len[OF that] by (rule memcmp_greater)
  have up: "memcmp (tab ! i) key < 0" if "i < j" "j < hi" "memcmp (tab ! j) key \<le> 0" for i j
    using less[OF that(1,2)] that lt[of i] gt[of j] by (simp add: not_less[symmetric])
  have down: "0 < memcmp (tab ! j) key" if "i < j" "j < hi" "0 \<le> memcmp (tab ! i) key" for i j
    using less[OF that(1,2)] that lt[of i] gt[of j] by (simp add: not_less[symmetric])
  have dom: "(if i < length tab then Some (memcmp (tab ! i) key) else None)
      = Some (memcmp (tab ! i) key)" if "i < hi" for i
    using that assms(3) by simp
  show ?thesis
    unfolding ordered_cmp_def
    by (intro conjI allI impI; (elim conjE)?) (auto simp: dom dest: up down)
qed

section \<open>bsearch of the C library\<close>

text \<open>\<open>cmp e\<close> is the comparison of the key with an element; the middle element is tried first.\<close>

function bsearch :: "('a \<Rightarrow> int) \<Rightarrow> 'a list \<Rightarrow> 'a option" where
  "bsearch cmp xs =
     (if xs = [] then None
      else let mid = length xs div 2; c = cmp (xs ! mid)
           in if c < 0 then bsearch cmp (take mid xs)
              else if c > 0 then bsearch cmp (drop (mid + 1) xs)
              else Some (xs ! mid))"
  by pat_completeness auto
termination
  by (relation "measure (\<lambda>(cmp, xs). length xs)") (auto simp: Let_def)

declare bsearch.simps [simp del]

lemma bsearch_SomeD: "bsearch cmp xs = Some e \<Longrightarrow> e \<in> set xs \<and> cmp e = 0"
proof (induction cmp xs rule: bsearch.induct)
  case (1 cmp xs)
  show ?case
  proof (cases "xs = []")
    case True
    then show ?thesis using 1(3) by (subst (asm) bsearch.simps) simp
  next
    case False
    let ?m = "length xs div 2"
    have m: "xs ! ?m \<in> set xs" using False by (intro nth_mem) (cases xs, auto)
    consider "cmp (xs ! ?m) < 0" | "cmp (xs ! ?m) > 0" | "cmp (xs ! ?m) = 0" by linarith
    then show ?thesis
    proof cases
      case 1
      then show ?thesis
        using "1.IH"(1)[OF False refl refl 1] "1.prems" False
        by (subst (asm) (2) bsearch.simps) (auto simp: Let_def dest: in_set_takeD)
    next
      case 2
      then show ?thesis
        using "1.IH"(2)[OF False refl refl _ 2] "1.prems" False
        by (subst (asm) (2) bsearch.simps) (auto simp: Let_def dest: in_set_dropD)
    next
      case 3
      then show ?thesis
        using "1.prems" False m by (subst (asm) bsearch.simps) (auto simp: Let_def)
    qed
  qed
qed

lemma bsearch_key:
  fixes f :: "'a \<Rightarrow> 'k::linorder"
  assumes "sorted_wrt (\<lambda>a b. f a < f b) xs" "e \<in> set xs" "f e = k"
    and "\<And>x. x \<in> set xs \<Longrightarrow> (cmp x < 0 \<longleftrightarrow> k < f x) \<and> (cmp x > 0 \<longleftrightarrow> f x < k)"
  shows "bsearch cmp xs = Some e"
  using assms
proof (induction cmp xs rule: bsearch.induct)
  case (1 cmp xs)
  let ?m = "length xs div 2"
  have ne: "xs \<noteq> []" using "1.prems"(2) by auto
  then have lt: "?m < length xs" by (cases xs) auto
  have split: "xs = take ?m xs @ xs ! ?m # drop (?m + 1) xs"
    using lt by (simp add: id_take_nth_drop)
  have srt: "sorted_wrt (\<lambda>a b. f a < f b) (take ?m xs @ xs ! ?m # drop (?m + 1) xs)"
    using "1.prems"(1) split by simp
  then have lo: "\<forall>x \<in> set (take ?m xs). f x < f (xs ! ?m)"
    and hi: "\<forall>x \<in> set (drop (?m + 1) xs). f (xs ! ?m) < f x"
    by (auto simp: sorted_wrt_append)
  have sub: "sorted_wrt (\<lambda>a b. f a < f b) (take ?m xs)"
    "sorted_wrt (\<lambda>a b. f a < f b) (drop (?m + 1) xs)"
    using "1.prems"(1) by (simp_all add: sorted_wrt_take sorted_wrt_drop)
  have e: "e \<in> set (take ?m xs) \<or> e = xs ! ?m \<or> e \<in> set (drop (?m + 1) xs)"
    using "1.prems"(2) split by (metis Un_iff set_ConsD set_append)
  have c: "(cmp (xs ! ?m) < 0 \<longleftrightarrow> k < f (xs ! ?m)) \<and> (cmp (xs ! ?m) > 0 \<longleftrightarrow> f (xs ! ?m) < k)"
    using "1.prems"(4) nth_mem[OF lt] by blast
  consider "cmp (xs ! ?m) < 0" | "cmp (xs ! ?m) > 0" | "cmp (xs ! ?m) = 0" by linarith
  then show ?case
  proof cases
    case 1
    then have "e \<in> set (take ?m xs)"
      using e c hi "1.prems"(3) by (metis less_asym less_irrefl)
    then have "bsearch cmp (take ?m xs) = Some e"
      using "1.IH"(1)[OF ne refl refl 1 sub(1)] "1.prems"(3,4) by (auto dest: in_set_takeD)
    then show ?thesis using 1 ne by (subst bsearch.simps) (simp add: Let_def)
  next
    case 2
    then have "e \<in> set (drop (?m + 1) xs)"
      using e c lo "1.prems"(3) by (metis less_asym less_irrefl)
    then have "bsearch cmp (drop (?m + 1) xs) = Some e"
      using "1.IH"(2)[OF ne refl refl _ 2 sub(2)] 2 "1.prems"(3,4) by (auto dest: in_set_dropD)
    then show ?thesis using 2 ne by (subst bsearch.simps) (simp add: Let_def)
  next
    case 3
    then have "f (xs ! ?m) = k" using c by (metis less_irrefl linorder_neqE)
    then have "e = xs ! ?m"
      using e lo hi "1.prems"(3) by (metis less_irrefl)
    then show ?thesis using 3 ne by (subst bsearch.simps) (simp add: Let_def)
  qed
qed

end
