(* ===== verification/Sha2.thy ===== *)
theory Sha2
  imports Codec
begin

unbundle bit_operations_syntax

text \<open>
  The portable SHA-256 and SHA-384 of \<^verbatim>\<open>src/hash/sha256.c\<close> and \<^verbatim>\<open>src/hash/sha384.c\<close> (the branch
  compiled without OpenSSL): the compression functions, the buffering update loop, padding and
  output. The locale \<open>hash_stream\<close> is the contract of a hash vtable as \<^verbatim>\<open>src/hash/hash.c\<close> uses it:
  the digest depends on the concatenation of the data only, not on how it was cut into updates.
  SHA-256 is shown to satisfy it against the padded-message specification; the SHA-384 finaliser
  is shown to shift a 64-bit value by 64 or more on every path.
\<close>

section \<open>Compression functions\<close>

definition rotr32 :: "u32 \<Rightarrow> nat \<Rightarrow> u32" where
  "rotr32 x n = drop_bit n x OR push_bit (32 - n) x"

definition rotr64 :: "u64 \<Rightarrow> nat \<Rightarrow> u64" where
  "rotr64 x n = drop_bit n x OR push_bit (64 - n) x"

text \<open>
  The round constants, one row of the source's tables per number: the \<open>k\<close> words of \<open>w\<close> bits of a
  row, most significant first.
\<close>

definition split_row :: "nat \<Rightarrow> nat \<Rightarrow> 128 word \<Rightarrow> 'a::len word list" where
  "split_row w k r = map (\<lambda>i. ucast (drop_bit (w * (k - 1 - i)) r)) [0..<k]"

definition K256 :: "u32 list" where
  "K256 = concat (map (split_row 32 4) [
     0x428a2f9871374491b5c0fbcfe9b5dba5,
     0x3956c25b59f111f1923f82a4ab1c5ed5,
     0xd807aa9812835b01243185be550c7dc3,
     0x72be5d7480deb1fe9bdc06a7c19bf174,
     0xe49b69c1efbe47860fc19dc6240ca1cc,
     0x2de92c6f4a7484aa5cb0a9dc76f988da,
     0x983e5152a831c66db00327c8bf597fc7,
     0xc6e00bf3d5a7914706ca635114292967,
     0x27b70a852e1b21384d2c6dfc53380d13,
     0x650a7354766a0abb81c2c92e92722c85,
     0xa2bfe8a1a81a664bc24b8b70c76c51a3,
     0xd192e819d6990624f40e3585106aa070,
     0x19a4c1161e376c082748774c34b0bcb5,
     0x391c0cb34ed8aa4a5b9cca4f682e6ff3,
     0x748f82ee78a5636f84c878148cc70208,
     0x90befffaa4506cebbef9a3f7c67178f2])"

definition K512 :: "u64 list" where
  "K512 = concat (map (split_row 64 2) [
     0x428a2f98d728ae227137449123ef65cd,
     0xb5c0fbcfec4d3b2fe9b5dba58189dbbc,
     0x3956c25bf348b53859f111f1b605d019,
     0x923f82a4af194f9bab1c5ed5da6d8118,
     0xd807aa98a303024212835b0145706fbe,
     0x243185be4ee4b28c550c7dc3d5ffb4e2,
     0x72be5d74f27b896f80deb1fe3b1696b1,
     0x9bdc06a725c71235c19bf174cf692694,
     0xe49b69c19ef14ad2efbe4786384f25e3,
     0x0fc19dc68b8cd5b5240ca1cc77ac9c65,
     0x2de92c6f592b02754a7484aa6ea6e483,
     0x5cb0a9dcbd41fbd476f988da831153b5,
     0x983e5152ee66dfaba831c66d2db43210,
     0xb00327c898fb213fbf597fc7beef0ee4,
     0xc6e00bf33da88fc2d5a79147930aa725,
     0x06ca6351e003826f142929670a0e6e70,
     0x27b70a8546d22ffc2e1b21385c26c926,
     0x4d2c6dfc5ac42aed53380d139d95b3df,
     0x650a73548baf63de766a0abb3c77b2a8,
     0x81c2c92e47edaee692722c851482353b,
     0xa2bfe8a14cf10364a81a664bbc423001,
     0xc24b8b70d0f89791c76c51a30654be30,
     0xd192e819d6ef5218d69906245565a910,
     0xf40e35855771202a106aa07032bbd1b8,
     0x19a4c116b8d2d0c81e376c085141ab53,
     0x2748774cdf8eeb9934b0bcb5e19b48a8,
     0x391c0cb3c5c95a634ed8aa4ae3418acb,
     0x5b9cca4f7763e373682e6ff3d6b2b8a3,
     0x748f82ee5defb2fc78a5636f43172f60,
     0x84c87814a1f0ab728cc702081a6439ec,
     0x90befffa23631e28a4506cebde82bde9,
     0xbef9a3f7b2c67915c67178f2e372532b,
     0xca273eceea26619cd186b8c721c0c207,
     0xeada7dd6cde0eb1ef57d4f7fee6ed178,
     0x06f067aa72176fba0a637dc5a2c898a6,
     0x113f9804bef90dae1b710b35131c471b,
     0x28db77f523047d8432caab7b40c72493,
     0x3c9ebe0a15c9bebc431d67c49c100d4c,
     0x4cc5d4becb3e42b6597f299cfc657e2a,
     0x5fcb6fab3ad6faec6c44198c4a475817])"

definition ch :: "'a::len word \<Rightarrow> 'a word \<Rightarrow> 'a word \<Rightarrow> 'a word" where
  "ch x y z = (x AND y) XOR (NOT x AND z)"

definition maj :: "'a::len word \<Rightarrow> 'a word \<Rightarrow> 'a word \<Rightarrow> 'a word" where
  "maj x y z = (x AND y) XOR (x AND z) XOR (y AND z)"

text \<open>One round over the eight working variables, for given big sigmas, constant and word.\<close>

fun sha2_round :: "('a::len word \<Rightarrow> 'a word) \<Rightarrow> ('a word \<Rightarrow> 'a word) \<Rightarrow> 'a word \<times> 'a word \<Rightarrow> 'a word list \<Rightarrow> 'a word list" where
  "sha2_round S0 S1 (k, w) [a, b, c, d, e, f, g, h] =
     (let T1 = h + S1 e + ch e f g + k + w; T2 = S0 a + maj a b c
      in [T1 + T2, a, b, c, d + T1, e, f, g])"
| "sha2_round S0 S1 _ s = s"

text \<open>The message schedule: \<open>W[i] = s1 W[i-2] + W[i-7] + s0 W[i-15] + W[i-16]\<close> from 16 up to \<open>n\<close>.\<close>

definition schedule :: "('a::len word \<Rightarrow> 'a word) \<Rightarrow> ('a word \<Rightarrow> 'a word) \<Rightarrow> nat \<Rightarrow> 'a word list \<Rightarrow> 'a word list" where
  "schedule s0 s1 n W0 =
     fold (\<lambda>i W. W @ [s1 (W ! (i - 2)) + W ! (i - 7) + s0 (W ! (i - 15)) + W ! (i - 16)]) [16..<n] W0"

fun words32 :: "bytes \<Rightarrow> u32 list" where
  "words32 (a # b # c # d # r) = of_be32 a b c d # words32 r"
| "words32 _ = []"

fun words64 :: "bytes \<Rightarrow> u64 list" where
  "words64 (a # b # c # d # e # f # g # h # r) =
     (push_bit 32 (ucast (of_be32 a b c d)) OR ucast (of_be32 e f g h)) # words64 r"
| "words64 _ = []"

definition sha256_transform :: "u32 list \<Rightarrow> bytes \<Rightarrow> u32 list" where
  "sha256_transform s block =
     (let SIGMA0 = (\<lambda>x. rotr32 x 2 XOR rotr32 x 13 XOR rotr32 x 22);
          SIGMA1 = (\<lambda>x. rotr32 x 6 XOR rotr32 x 11 XOR rotr32 x 25);
          sigma0 = (\<lambda>x. rotr32 x 7 XOR rotr32 x 18 XOR drop_bit 3 x);
          sigma1 = (\<lambda>x. rotr32 x 17 XOR rotr32 x 19 XOR drop_bit 10 x);
          W = schedule sigma0 sigma1 64 (words32 block)
      in map2 (+) s (fold (sha2_round SIGMA0 SIGMA1) (zip K256 W) s))"

definition sha512_transform :: "u64 list \<Rightarrow> bytes \<Rightarrow> u64 list" where
  "sha512_transform s block =
     (let SIGMA0 = (\<lambda>x. rotr64 x 28 XOR rotr64 x 34 XOR rotr64 x 39);
          SIGMA1 = (\<lambda>x. rotr64 x 14 XOR rotr64 x 18 XOR rotr64 x 41);
          sigma0 = (\<lambda>x. rotr64 x 1 XOR rotr64 x 8 XOR drop_bit 7 x);
          sigma1 = (\<lambda>x. rotr64 x 19 XOR rotr64 x 61 XOR drop_bit 6 x);
          W = schedule sigma0 sigma1 80 (words64 block)
      in map2 (+) s (fold (sha2_round SIGMA0 SIGMA1) (zip K512 W) s))"

section \<open>Contexts, update and final\<close>

text \<open>
  \<open>sha256_ctx_t\<close> (words of 32 bits, a buffer of 64 bytes) and \<open>sha512_ctx_t\<close> (64 bits, 128 bytes).
  The update loops of the two files are the same text up to the block size \<open>n\<close> and the
  compression function \<open>f\<close>.
\<close>

record 'w sha2_ctx =
  state :: "'w list"
  count :: u64
  buffer :: bytes

definition memcpy_at :: "nat \<Rightarrow> bytes \<Rightarrow> bytes \<Rightarrow> bytes" where
  "memcpy_at p src dst = take p dst @ src @ drop (p + length src) dst"

function sha2_update :: "nat \<Rightarrow> ('w list \<Rightarrow> bytes \<Rightarrow> 'w list) \<Rightarrow> 'w sha2_ctx \<Rightarrow> bytes \<Rightarrow> 'w sha2_ctx" where
  "sha2_update n f ctx input =
     (if input = [] then ctx
      else let buf_pos = unat (count ctx) mod n;
               tk = min (n - buf_pos) (length input);
               ctx1 = ctx\<lparr>buffer := memcpy_at buf_pos (take tk input) (buffer ctx),
                          count := count ctx + of_nat tk\<rparr>;
               ctx2 = (if unat (count ctx1) mod n = 0
                       then ctx1\<lparr>state := f (state ctx1) (buffer ctx1)\<rparr> else ctx1)
           in if tk = 0 then ctx2 else sha2_update n f ctx2 (drop tk input))"
  by pat_completeness auto
termination
  by (relation "measure (\<lambda>(n, f, ctx, input). length input)") (auto simp: Let_def)

declare sha2_update.simps [simp del]

definition H256 :: "u32 list" where
  "H256 = [0x6a09e667, 0xbb67ae85, 0x3c6ef372, 0xa54ff53a,
           0x510e527f, 0x9b05688c, 0x1f83d9ab, 0x5be0cd19]"

definition H384 :: "u64 list" where
  "H384 = [0xcbbb9d5dc1059ed8, 0x629a292a367cd507, 0x9159015a3070dd17, 0x152fecd8f70e5939,
           0x67332667ffc00b31, 0x8eb44a8768581511, 0xdb0c2e0d64f98fa7, 0x47b5481dbefa4fa4]"

definition sha256_init :: "u32 sha2_ctx \<Rightarrow> u32 sha2_ctx" where
  "sha256_init ctx = ctx\<lparr>state := H256, count := 0\<rparr>"

definition sha256_update :: "u32 sha2_ctx \<Rightarrow> bytes \<Rightarrow> u32 sha2_ctx" where
  "sha256_update = sha2_update 64 sha256_transform"

definition sha256_final :: "u32 sha2_ctx \<Rightarrow> bytes" where
  "sha256_final ctx =
     (let buf_pos = unat (count ctx) mod 64;
          b = memcpy_at buf_pos [0x80] (buffer ctx);
          p = buf_pos + 1;
          (s1, b1, p1) =
            (if p > 56 then
               let b' = memcpy_at p (replicate (64 - p) 0) b
               in (sha256_transform (state ctx) b', b', 0)
             else (state ctx, b, p));
          b2 = memcpy_at p1 (replicate (56 - p1) 0) b1;
          bits = count ctx * 8;
          b3 = memcpy_at 56 (map (\<lambda>i. ucast (drop_bit (56 - i * 8) bits)) [0..<8]) b2
      in concat (map be32 (take 8 (sha256_transform s1 b3))))"

text \<open>A right shift of a uint64 by 64 or more has no meaning in C.\<close>

definition shr64 :: "u64 \<Rightarrow> nat \<Rightarrow> u64 res" where
  "shr64 w n = (if n < 64 then Inr (drop_bit n w) else Inl Undefined)"

definition sha384_init :: "u64 sha2_ctx \<Rightarrow> u64 sha2_ctx" where
  "sha384_init ctx = ctx\<lparr>state := H384, count := 0\<rparr>"

definition sha384_update :: "u64 sha2_ctx \<Rightarrow> bytes \<Rightarrow> u64 sha2_ctx" where
  "sha384_update = sha2_update 128 sha512_transform"

definition sha384_final :: "u64 sha2_ctx \<Rightarrow> bytes res" where
  "sha384_final ctx =
     (let buf_pos = unat (count ctx) mod 128;
          b = memcpy_at buf_pos [0x80] (buffer ctx);
          p = buf_pos + 1;
          (s1, b1, p1) =
            (if p > 112 then
               let b' = memcpy_at p (replicate (128 - p) 0) b
               in (sha512_transform (state ctx) b', b', 0)
             else (state ctx, b, p));
          b2 = memcpy_at p1 (replicate (112 - p1) 0) b1;
          bits = count ctx * 8
      in bindr (mapr (\<lambda>i. shr64 bits (120 - i * 8)) [0..<16]) (\<lambda>ws.
           let b3 = memcpy_at 112 (map ucast ws) b2
           in Inr (concat (map be64 (take 6 (sha512_transform s1 b3))))))"

section \<open>The contract of a streaming hash\<close>

text \<open>
  \<open>rel c m\<close>: the context \<open>c\<close> stands for the message \<open>m\<close> fed so far. What \<^verbatim>\<open>fastgit_hash_stream\<close>
  needs from a vtable is that feeding a message in any pieces finishes with the digest of the
  whole.
\<close>

locale hash_stream =
  fixes init :: "'c \<Rightarrow> 'c" and update :: "'c \<Rightarrow> bytes \<Rightarrow> 'c" and fin :: "'c \<Rightarrow> 'd"
    and rel :: "'c \<Rightarrow> bytes \<Rightarrow> bool" and wf :: "'c \<Rightarrow> bool" and digest :: "bytes \<Rightarrow> 'd"
  assumes init_rel: "wf c \<Longrightarrow> rel (init c) []"
    and update_rel: "rel c m \<Longrightarrow> rel (update c d) (m @ d)"
    and fin_rel: "rel c m \<Longrightarrow> fin c = digest m"
begin

lemma foldl_rel: "rel c m \<Longrightarrow> rel (foldl update c ds) (m @ concat ds)"
  by (induction ds arbitrary: c m) (auto dest: update_rel simp flip: append_assoc)

lemma digest_chunks: "wf c \<Longrightarrow> fin (foldl update (init c) ds) = digest (concat ds)"
  using foldl_rel[OF init_rel] fin_rel by fastforce

end

section \<open>Absorbing whole blocks\<close>

text \<open>The reference: compress full blocks from the front, keep the rest.\<close>

function absorb :: "nat \<Rightarrow> ('h \<Rightarrow> bytes \<Rightarrow> 'h) \<Rightarrow> 'h \<Rightarrow> bytes \<Rightarrow> 'h \<times> bytes" where
  "absorb n f h m = (if n = 0 \<or> length m < n then (h, m) else absorb n f (f h (take n m)) (drop n m))"
  by pat_completeness auto
termination
  by (relation "measure (\<lambda>(n, f, h, m). length m)") auto

declare absorb.simps [simp del]

lemma absorb_small: "length m < n \<Longrightarrow> absorb n f h m = (h, m)"
  by (subst absorb.simps) simp

lemma absorb_block: "0 < n \<Longrightarrow> length b = n \<Longrightarrow> absorb n f h (b @ m) = absorb n f (f h b) m"
  by (subst absorb.simps) simp

lemma absorb_one: "0 < n \<Longrightarrow> length a = n \<Longrightarrow> absorb n f h a = (f h a, [])"
  using absorb_block[of n a f h "[]"] by (simp add: absorb_small)

lemma absorb_two:
  "0 < n \<Longrightarrow> length a = n \<Longrightarrow> length b = n \<Longrightarrow> absorb n f h (a @ b) = (f (f h a) b, [])"
  by (simp add: absorb_block absorb_one)

lemma absorb_append:
  "absorb n f h (a @ b) = (case absorb n f h a of (h', r) \<Rightarrow> absorb n f h' (r @ b))"
proof (induction n f h a rule: absorb.induct)
  case (1 n f h m)
  show ?case
  proof (cases "n = 0 \<or> length m < n")
    case True
    then show ?thesis by (subst (2) absorb.simps) simp
  next
    case False
    then have "absorb n f h (take n m @ drop n m @ b) = absorb n f (f h (take n m)) (drop n m @ b)"
      by (intro absorb_block) auto
    then have "absorb n f h (m @ b) = absorb n f (f h (take n m)) (drop n m @ b)"
      by (simp only: append_assoc[symmetric] append_take_drop_id)
    moreover have "absorb n f h m = absorb n f (f h (take n m)) (drop n m)"
      using False by (subst absorb.simps) simp
    ultimately show ?thesis using 1 False by simp
  qed
qed

lemma absorb_rest_length: "0 < n \<Longrightarrow> length (snd (absorb n f h m)) = length m mod n"
proof (induction n f h m rule: absorb.induct)
  case (1 n f h m)
  then show ?case
    by (subst absorb.simps) (auto simp: le_mod_geq not_less)
qed

definition holds :: "nat \<Rightarrow> ('w list \<Rightarrow> bytes \<Rightarrow> 'w list) \<Rightarrow> 'w list \<Rightarrow> 'w sha2_ctx \<Rightarrow> bytes \<Rightarrow> bool" where
  "holds n f h0 c m \<longleftrightarrow>
     length (buffer c) = n \<and> count c = of_nat (length m) \<and>
     absorb n f h0 m = (state c, take (length m mod n) (buffer c))"

lemma length_memcpy_at [simp]: "p + length src \<le> length dst \<Longrightarrow> length (memcpy_at p src dst) = length dst"
  by (simp add: memcpy_at_def)

lemma take_memcpy_at: "p \<le> length dst \<Longrightarrow> take (p + length src) (memcpy_at p src dst) = take p dst @ src"
  by (simp add: memcpy_at_def)

lemma unat_count_mod: "n dvd 2 ^ 64 \<Longrightarrow> unat (of_nat k :: u64) mod n = k mod n"
  by (simp add: unat_of_nat mod_mod_cancel)

lemma holds_pos: "holds n f h0 c m \<Longrightarrow> n dvd 2 ^ 64 \<Longrightarrow> unat (count c) mod n = length m mod n"
  by (simp add: holds_def unat_count_mod)

text \<open>One turn of the loop: at most as many bytes as the buffer still takes.\<close>

lemma holds_step:
  assumes H: "holds n f h0 c m" and n: "0 < n" "n dvd 2 ^ 64"
    and d: "length m mod n + length d \<le> n" "d \<noteq> []"
  defines "c1 \<equiv> c\<lparr>buffer := memcpy_at (length m mod n) d (buffer c), count := count c + of_nat (length d)\<rparr>"
  shows "holds n f h0 (if unat (count c1) mod n = 0 then c1\<lparr>state := f (state c1) (buffer c1)\<rparr> else c1) (m @ d)"
proof -
  let ?p = "length m mod n"
  have buf: "length (buffer c) = n" and cnt: "count c = of_nat (length m)"
    and abs: "absorb n f h0 m = (state c, take ?p (buffer c))"
    using H by (auto simp: holds_def)
  have p: "?p < n" using n by simp
  have tk: "take (?p + length d) (memcpy_at ?p d (buffer c)) = take ?p (buffer c) @ d"
    by (rule take_memcpy_at) (use p buf in simp)
  have abs': "absorb n f h0 (m @ d) = absorb n f (state c) (take ?p (buffer c) @ d)"
    by (subst absorb_append) (simp add: abs)
  have cnt1: "count c1 = of_nat (length (m @ d))" by (simp add: c1_def cnt)
  then have pos1: "unat (count c1) mod n = (length m + length d) mod n"
    using n(2) by (simp only: unat_count_mod length_append)
  have lb: "length (buffer c1) = n" using d buf by (simp add: c1_def)
  show ?thesis
  proof (cases "?p + length d = n")
    case True
    have z: "(length m + length d) mod n = 0"
      by (metis True mod_add_left_eq mod_self)
    have full: "buffer c1 = take ?p (buffer c) @ d"
      using tk True lb by (simp add: c1_def)
    have "absorb n f (state c) (buffer c1) = (f (state c) (buffer c1), [])"
      using absorb_block[OF n(1) lb, of f "state c" "[]"] n by (simp add: absorb_small)
    then show ?thesis
      using pos1 z lb cnt1 abs' full by (simp add: holds_def c1_def)
  next
    case False
    then have less: "?p + length d < n" using d by simp
    have "(length m + length d) mod n = (?p + length d) mod n"
      by (simp add: mod_add_left_eq)
    then have q: "(length m + length d) mod n = ?p + length d"
      using less by simp
    have "absorb n f (state c) (take ?p (buffer c) @ d) = (state c, take ?p (buffer c) @ d)"
      using less p buf by (intro absorb_small) simp
    then show ?thesis
      using pos1 q lb cnt1 abs' d tk by (simp add: holds_def c1_def)
  qed
qed

lemma holds_update:
  assumes "holds n f h0 c m" "0 < n" "n dvd 2 ^ 64"
  shows "holds n f h0 (sha2_update n f c d) (m @ d)"
  using assms
proof (induction n f c d arbitrary: m rule: sha2_update.induct)
  case (1 n f c d)
  show ?case
  proof (cases "d = []")
    case True
    then show ?thesis using "1.prems" by (subst sha2_update.simps) simp
  next
    case False
    let ?p = "unat (count c) mod n" and ?tk = "min (n - unat (count c) mod n) (length d)"
    let ?c1 = "c\<lparr>buffer := memcpy_at ?p (take ?tk d) (buffer c), count := count c + of_nat ?tk\<rparr>"
    let ?c2 = "if unat (count ?c1) mod n = 0 then ?c1\<lparr>state := f (state ?c1) (buffer ?c1)\<rparr> else ?c1"
    have p: "?p = length m mod n" using holds_pos[OF "1.prems"(1,3)] .
    have pos: "0 < n - ?p" using "1.prems"(2) by simp
    have tk: "?tk \<noteq> 0" using pos False by simp
    have len: "length (take ?tk d) = ?tk" by simp
    have "holds n f h0 ?c2 (m @ take ?tk d)"
      using holds_step[OF "1.prems", of "take ?tk d"] tk False p len by auto
    from "1.IH"[OF False refl refl refl refl tk this "1.prems"(2,3)]
    have "holds n f h0 (sha2_update n f ?c2 (drop ?tk d)) (m @ d)" by simp
    then show ?thesis
      using False tk by (subst sha2_update.simps) (simp only: if_False Let_def)
  qed
qed

section \<open>SHA-256 is the hash of the padded message\<close>

definition sha256_pad :: "bytes \<Rightarrow> bytes" where
  "sha256_pad m = m @ 0x80 # replicate ((119 - length m mod 64) mod 64) 0 @ be64 (of_nat (8 * length m))"

definition sha256_spec :: "bytes \<Rightarrow> bytes" where
  "sha256_spec m = concat (map be32 (take 8 (fst (absorb 64 sha256_transform H256 (sha256_pad m)))))"

lemma sha256_pad_blocks: "64 dvd length (sha256_pad m)"
proof -
  have "(length m + (1 + (119 - length m mod 64) mod 64 + 8)) mod 64
      = (length m mod 64 + (1 + (119 - length m mod 64) mod 64 + 8)) mod 64"
    by (simp only: mod_add_left_eq)
  also have "\<dots> = 0"
  proof -
    have "q < 64 \<Longrightarrow> (q + (1 + (119 - q) mod 64 + 8)) mod 64 = 0" for q :: nat
      by (cases "q < 56") (auto simp: mod_if)
    then show ?thesis by simp
  qed
  finally show ?thesis by (simp add: sha256_pad_def mod_eq_0_iff_dvd add.assoc)
qed

lemma memcpy_at_mid:
  "length r = p \<Longrightarrow> length src \<le> length s \<Longrightarrow> memcpy_at p src (r @ s) = r @ src @ drop (length src) s"
  by (simp add: memcpy_at_def)

lemma be64_shifts: "map (\<lambda>i. ucast (drop_bit (56 - i * 8) w)) [0..<8] = be64 w"
proof -
  have "[0..<8] = [0, 1, 2, 3, 4, 5, 6, 7 :: nat]" by (simp add: upt_rec)
  moreover have "(ucast (drop_bit k (ucast (drop_bit j w) :: u32)) :: byte) = ucast (drop_bit (j + k) w)"
    if "k \<le> 24" for j k
    using that by (intro bit_word_eqI) (auto simp: bit_simps ac_simps)
  from this[of 24 32] this[of 16 32] this[of 8 32] this[of 0 32]
    this[of 24 0] this[of 16 0] this[of 8 0] this[of 0 0]
  have "be64 w = map (\<lambda>k. ucast (drop_bit k w)) [56, 48, 40, 32, 24, 16, 8, 0]"
    by (simp add: be64_def be32_def)
  ultimately show ?thesis by simp
qed

lemma sha256_final_holds:
  assumes H: "holds 64 sha256_transform H256 c m"
  shows "sha256_final c = sha256_spec m"
proof -
  define p where "p = length m mod 64"
  define r where "r = take p (buffer c)"
  have p: "p < 64" by (simp add: p_def)
  have buf: "length (buffer c) = 64" and cnt: "count c = of_nat (length m)"
    and abs: "absorb 64 sha256_transform H256 m = (state c, r)"
    using H by (auto simp: holds_def r_def p_def)
  have pos: "unat (count c) mod 64 = p"
    using holds_pos[OF H] by (simp add: p_def)
  have r: "length r = p" using p buf by (simp add: r_def)
  obtain s0 s where s: "buffer c = r @ s0 # s"
    by (metis append_take_drop_id r_def p buf drop_eq_Nil not_le neq_Nil_conv)
  have ls: "length s = 63 - p" using s buf r by simp
  have b: "memcpy_at p [0x80] (buffer c) = (r @ [0x80]) @ s"
    unfolding s by (subst memcpy_at_mid[OF r]) simp_all
  have bits: "count c * 8 = of_nat (8 * length m)" by (simp add: cnt)
  let ?z = "(119 - p) mod 64"
  let ?tail = "0x80 # replicate ?z 0 @ be64 (of_nat (8 * length m))"
  have spec: "sha256_spec m = concat (map be32 (take 8 (fst (absorb 64 sha256_transform (state c) (r @ ?tail)))))"
    unfolding sha256_spec_def sha256_pad_def p_def[symmetric]
    by (subst absorb_append) (simp add: abs)
  let ?be = "be64 (of_nat (8 * length m))"
  show ?thesis
  proof (cases "p + 1 > 56")
    case True
    then have z: "replicate ?z 0 = replicate (63 - p) 0 @ replicate 56 (0 :: byte)"
      using p by (simp add: mod_if flip: replicate_add)
    let ?b1 = "(r @ [0x80]) @ replicate (63 - p) 0"
    have b1: "memcpy_at (p + 1) (replicate (64 - (p + 1)) 0) ((r @ [0x80]) @ s) = ?b1"
      using r ls by (subst memcpy_at_mid) simp_all
    have l1: "length ?b1 = 64" using r p by simp
    have b2: "memcpy_at 0 (replicate 56 0) ?b1 = replicate 56 0 @ drop 56 ?b1"
      by (simp only: memcpy_at_def take_0 append_Nil add_0 length_replicate)
    have b3: "memcpy_at 56 ?be (replicate 56 0 @ drop 56 ?b1) = replicate 56 0 @ ?be"
      using l1 by (subst memcpy_at_mid) simp_all
    have "absorb 64 sha256_transform (state c) (?b1 @ (replicate 56 0 @ ?be))
        = (sha256_transform (sha256_transform (state c) ?b1) (replicate 56 0 @ ?be), [])"
      using l1 by (intro absorb_two) simp_all
    moreover have "r @ ?tail = ?b1 @ (replicate 56 0 @ ?be)" by (simp add: z)
    ultimately show ?thesis
      using True b1 b2 b3
      unfolding sha256_final_def pos b Let_def bits be64_shifts spec by simp
  next
    case False
    then have z: "?z = 55 - p" using p by (simp add: mod_if)
    have b2: "memcpy_at (p + 1) (replicate (56 - (p + 1)) 0) ((r @ [0x80]) @ s)
        = ((r @ [0x80]) @ replicate (55 - p) 0) @ drop (55 - p) s"
      using r ls False by (subst memcpy_at_mid) simp_all
    have b3: "memcpy_at 56 ?be (((r @ [0x80]) @ replicate (55 - p) 0) @ drop (55 - p) s)
        = ((r @ [0x80]) @ replicate (55 - p) 0) @ ?be"
      using r ls False by (subst memcpy_at_mid) simp_all
    let ?b = "((r @ [0x80]) @ replicate (55 - p) 0) @ ?be"
    have lb: "length ?b = 64" using r False by simp
    have "absorb 64 sha256_transform (state c) ?b = (sha256_transform (state c) ?b, [])"
      using lb by (intro absorb_one) simp_all
    moreover have "r @ ?tail = ?b" by (simp add: z)
    ultimately show ?thesis
      using False b2 b3
      unfolding sha256_final_def pos b Let_def bits be64_shifts spec by simp
  qed
qed

interpretation sha256: hash_stream sha256_init sha256_update sha256_final
  "holds 64 sha256_transform H256" "\<lambda>c. length (buffer c) = 64" sha256_spec
proof unfold_locales
  fix c :: "u32 sha2_ctx" and m d
  show "length (buffer c) = 64 \<Longrightarrow> holds 64 sha256_transform H256 (sha256_init c) []"
    by (simp add: holds_def sha256_init_def absorb_small)
  show "holds 64 sha256_transform H256 c m \<Longrightarrow> holds 64 sha256_transform H256 (sha256_update c d) (m @ d)"
    unfolding sha256_update_def by (rule holds_update) simp_all
qed (rule sha256_final_holds)

section \<open>Properties\<close>



text \<open>
  Portable SHA-384 has no defined result: on every path the finaliser writes the length with
  \<open>bits >> (120 - i * 8)\<close> on a 64-bit value, a shift by 64 or more for the first eight bytes.
\<close>

theorem sha384_final_undefined: "sha384_final c = Inl Undefined"
proof -
  have "[0..<16] = 0 # [1..<16 :: nat]" by (simp add: upt_rec)
  then have "mapr (\<lambda>i. shr64 b (120 - i * 8)) [0..<16] = Inl Undefined" for b
    by (simp add: shr64_def)
  then show ?thesis by (simp add: sha384_final_def Let_def split: prod.splits)
qed

end
