(* ===== verification/Keccak.thy ===== *)
theory Keccak
  imports Sha2
begin

unbundle bit_operations_syntax

text \<open>
  The portable Keccak sponge of \<^verbatim>\<open>src/hash/sha3.c\<close>: the permutation, absorbing, squeezing, and the
  SHA-3 and SHAKE instances. Absorbing is shown to be a fold over the bytes, so the pieces of an
  input do not matter; squeezing is shown to repeat one byte of the state, and the buffer to keep
  the xor of every block absorbed so far.
\<close>

section \<open>The permutation\<close>

definition KECCAK_RC :: "u64 list" where
  "KECCAK_RC = [
    0x0000000000000001, 0x0000000000008082, 0x800000000000808a, 0x8000000080008000,
    0x000000000000808b, 0x0000000080000001, 0x8000000080008081, 0x8000000000008009,
    0x000000000000008a, 0x0000000000000088, 0x0000000080008009, 0x000000008000000a,
    0x000000008000808b, 0x800000000000008b, 0x8000000000008089, 0x8000000000008003,
    0x8000000000008002, 0x8000000000000080, 0x000000000000800a, 0x800000008000000a,
    0x8000000080008081, 0x8000000000008080, 0x0000000080000001, 0x8000000080008008]"

definition KECCAK_RHO :: "nat list" where
  "KECCAK_RHO = [1, 3, 6, 10, 15, 21, 28, 36, 45, 55, 2, 14,
                 27, 41, 56, 8, 25, 43, 62, 18, 39, 61, 20, 44]"

definition KECCAK_PI :: "nat list" where
  "KECCAK_PI = [10, 7, 11, 17, 18, 3, 5, 16, 8, 21, 24, 4,
                15, 23, 19, 13, 12, 2, 20, 14, 22, 9, 6, 1]"

definition rotl64 :: "u64 \<Rightarrow> nat \<Rightarrow> u64" where
  "rotl64 x n = push_bit n x OR drop_bit (64 - n) x"

definition keccak_theta :: "u64 list \<Rightarrow> u64 list" where
  "keccak_theta s =
     (let bc = map (\<lambda>x. s ! x XOR s ! (x + 5) XOR s ! (x + 10) XOR s ! (x + 15) XOR s ! (x + 20)) [0..<5];
          t = map (\<lambda>x. bc ! ((x + 4) mod 5) XOR rotl64 (bc ! ((x + 1) mod 5)) 1) [0..<5]
      in map (\<lambda>i. s ! i XOR t ! (i mod 5)) [0..<25])"

definition keccak_rho_pi :: "u64 list \<Rightarrow> u64 list" where
  "keccak_rho_pi s =
     snd (fold (\<lambda>i (t, s). let j = KECCAK_PI ! i in (s ! j, s[j := rotl64 t (KECCAK_RHO ! i)]))
       [0..<24] (s ! 1, s))"

definition keccak_chi :: "u64 list \<Rightarrow> u64 list" where
  "keccak_chi s =
     map (\<lambda>i. let y = 5 * (i div 5); x = i mod 5
              in s ! i XOR (NOT (s ! (y + (x + 1) mod 5)) AND s ! (y + (x + 2) mod 5))) [0..<25]"

definition keccak_f1600 :: "u64 list \<Rightarrow> u64 list" where
  "keccak_f1600 s =
     fold (\<lambda>rnd s. let s' = keccak_chi (keccak_rho_pi (keccak_theta s))
                   in s'[0 := s' ! 0 XOR KECCAK_RC ! rnd]) [0..<24] s"

section \<open>Sponge state and operations\<close>

record keccak_ctx =
  kstate :: "u64 list"
  rate :: nat
  pos :: nat
  kbuffer :: bytes
  delim :: byte
  squeezing :: bool

text \<open>A little-endian load of eight bytes: \<open>*(uint64_t*)(ctx->buffer + i * 8)\<close>.\<close>

definition le64 :: "bytes \<Rightarrow> u64" where
  "le64 bs = foldr (\<lambda>b a. push_bit 8 a OR ucast b) bs 0"

text \<open>The rate/8 words of the buffer enter the state, the permutation runs.\<close>

definition keccak_permute :: "keccak_ctx \<Rightarrow> keccak_ctx" where
  "keccak_permute c =
     c\<lparr>kstate := keccak_f1600
         (map (\<lambda>i. if i < rate c div 8 then kstate c ! i XOR le64 (take 8 (drop (i * 8) (kbuffer c)))
                   else kstate c ! i) [0..<25]),
       pos := 0\<rparr>"

definition xor_at :: "nat \<Rightarrow> bytes \<Rightarrow> bytes \<Rightarrow> bytes" where
  "xor_at p d b = take p b @ map2 (XOR) (take (length d) (drop p b)) d @ drop (p + length d) b"

function keccak_absorb :: "keccak_ctx \<Rightarrow> bytes \<Rightarrow> keccak_ctx" where
  "keccak_absorb c d =
     (if d = [] then c
      else let tk = min (rate c - pos c) (length d);
               c1 = c\<lparr>kbuffer := xor_at (pos c) (take tk d) (kbuffer c), pos := pos c + tk\<rparr>;
               c2 = (if pos c1 = rate c1 then keccak_permute c1 else c1)
           in if tk = 0 then c2 else keccak_absorb c2 (drop tk d))"
  by pat_completeness auto
termination
  by (relation "measure (\<lambda>(c, d). length d)") (auto simp: Let_def)

declare keccak_absorb.simps [simp del]

definition keccak_pad :: "keccak_ctx \<Rightarrow> keccak_ctx" where
  "keccak_pad c =
     (let b = (kbuffer c)[pos c := kbuffer c ! pos c XOR delim c];
          b' = b[rate c - 1 := b ! (rate c - 1) XOR 0x80]
      in (keccak_permute (c\<lparr>kbuffer := b'\<rparr>))\<lparr>squeezing := True\<rparr>)"

text \<open>
  The output loop. The body of the inner loop writes
  \<open>(state[pos / 8] >> ((pos % 8) * 8)) & 0xFF\<close> to \<open>out[i]\<close>: the index \<open>i\<close> does not occur in it.
\<close>

function squeeze_loop :: "keccak_ctx \<Rightarrow> nat \<Rightarrow> keccak_ctx \<times> bytes" where
  "squeeze_loop c len =
     (if len = 0 then (c, [])
      else let tk = min (rate c - pos c) len;
               o1 = map (\<lambda>i. ucast (drop_bit ((pos c mod 8) * 8) (kstate c ! (pos c div 8)))) [0..<tk];
               c1 = c\<lparr>pos := pos c + tk\<rparr>;
               c2 = (if pos c1 = rate c1 then c1\<lparr>kstate := keccak_f1600 (kstate c1), pos := 0\<rparr> else c1)
           in if tk = 0 then (c2, []) else (case squeeze_loop c2 (len - tk) of (c3, o2) \<Rightarrow> (c3, o1 @ o2)))"
  by pat_completeness auto
termination
  by (relation "measure (\<lambda>(c, len). len)") (auto simp: Let_def)

declare squeeze_loop.simps [simp del]

definition keccak_squeeze :: "keccak_ctx \<Rightarrow> nat \<Rightarrow> keccak_ctx \<times> bytes" where
  "keccak_squeeze c len = squeeze_loop (if squeezing c then c else keccak_pad c) len"

definition keccak_init :: "nat \<Rightarrow> byte \<Rightarrow> keccak_ctx \<Rightarrow> keccak_ctx" where
  "keccak_init r dl c =
     c\<lparr>kstate := replicate 25 0, rate := r, pos := 0, delim := dl, squeezing := False\<rparr>"

definition keccak_update :: "keccak_ctx \<Rightarrow> bytes \<Rightarrow> keccak_ctx res" where
  "keccak_update c d = (if squeezing c then Inl EINVAL else Inr (keccak_absorb c d))"

definition keccak_final :: "keccak_ctx \<Rightarrow> nat \<Rightarrow> (keccak_ctx \<times> bytes) res" where
  "keccak_final c len =
     (if len = 0 then Inl EINVAL
      else Inr (keccak_squeeze (if squeezing c then c else keccak_pad c) len))"

definition keccak_reset :: "keccak_ctx \<Rightarrow> keccak_ctx" where
  "keccak_reset c = c\<lparr>kstate := replicate 25 0, pos := 0, squeezing := False\<rparr>"

text \<open>The context as \<open>calloc\<close> hands it to init.\<close>

definition keccak_calloc :: keccak_ctx where
  "keccak_calloc = \<lparr>kstate = replicate 25 0, rate = 0, pos = 0, kbuffer = replicate 200 0,
     delim = 0, squeezing = False\<rparr>"

section \<open>Absorbing byte by byte\<close>

definition k_ok :: "keccak_ctx \<Rightarrow> bool" where
  "k_ok c \<longleftrightarrow> pos c < rate c \<and> rate c \<le> length (kbuffer c)"

definition keccak_byte :: "keccak_ctx \<Rightarrow> byte \<Rightarrow> keccak_ctx" where
  "keccak_byte c x =
     (let c1 = c\<lparr>kbuffer := (kbuffer c)[pos c := kbuffer c ! pos c XOR x], pos := pos c + 1\<rparr>
      in if pos c1 = rate c1 then keccak_permute c1 else c1)"

lemma length_xor_at [simp]: "p + length d \<le> length b \<Longrightarrow> length (xor_at p d b) = length b"
  by (simp add: xor_at_def)

lemma xor_at_Nil [simp]: "xor_at p [] b = b"
  by (simp add: xor_at_def)

lemma xor_at_snoc:
  assumes "p + length d < length b"
  shows "xor_at p (d @ [x]) b = (xor_at p d b)[p + length d := b ! (p + length d) XOR x]"
proof -
  have "take (Suc (length d)) (drop p b) = take (length d) (drop p b) @ [b ! (p + length d)]"
    using assms by (simp add: take_Suc_conv_app_nth)
  moreover have "drop (p + length d) b = b ! (p + length d) # drop (Suc (p + length d)) b"
    using assms by (simp add: Cons_nth_drop_Suc)
  ultimately show ?thesis
    using assms by (simp add: xor_at_def list_update_append zip_append)
qed

lemma xor_at_nth_after: "p + length d \<le> i \<Longrightarrow> i < length b \<Longrightarrow> xor_at p d b ! i = b ! i"
  by (auto simp: xor_at_def nth_append min_def)

lemma keccak_bytes_inside:
  "k_ok c \<Longrightarrow> pos c + length d < rate c \<Longrightarrow>
   foldl keccak_byte c d = c\<lparr>kbuffer := xor_at (pos c) d (kbuffer c), pos := pos c + length d\<rparr>"
proof (induction d rule: rev_induct)
  case (snoc x d)
  then show ?case
    by (simp add: k_ok_def keccak_byte_def Let_def xor_at_snoc xor_at_nth_after)
qed simp

lemma keccak_bytes_full:
  assumes "k_ok c" "pos c + length d = rate c"
  shows "foldl keccak_byte c d =
    keccak_permute (c\<lparr>kbuffer := xor_at (pos c) d (kbuffer c), pos := rate c\<rparr>)"
proof -
  obtain e x where d: "d = e @ [x]"
    using assms by (cases d rule: rev_cases) (auto simp: k_ok_def)
  show ?thesis
    using assms keccak_bytes_inside[OF assms(1), of e]
    by (simp add: d k_ok_def keccak_byte_def Let_def xor_at_snoc xor_at_nth_after)
qed

lemma k_ok_permute [simp]:
  "rate (keccak_permute c) = rate c" "pos (keccak_permute c) = 0" "kbuffer (keccak_permute c) = kbuffer c"
  "squeezing (keccak_permute c) = squeezing c" "delim (keccak_permute c) = delim c"
  by (simp_all add: keccak_permute_def)

lemma k_ok_byte: "k_ok c \<Longrightarrow> k_ok (keccak_byte c x)"
  by (auto simp: k_ok_def keccak_byte_def Let_def)

lemma k_ok_bytes: "k_ok c \<Longrightarrow> k_ok (foldl keccak_byte c d)"
  by (induction d arbitrary: c) (auto simp: k_ok_byte)

lemma keccak_absorb_bytes: "k_ok c \<Longrightarrow> keccak_absorb c d = foldl keccak_byte c d"
proof (induction c d rule: keccak_absorb.induct)
  case (1 c d)
  show ?case
  proof (cases "d = []")
    case True
    then show ?thesis by (subst keccak_absorb.simps) simp
  next
    case False
    let ?tk = "min (rate c - pos c) (length d)"
    let ?c1 = "c\<lparr>kbuffer := xor_at (pos c) (take ?tk d) (kbuffer c), pos := pos c + ?tk\<rparr>"
    let ?c2 = "if pos ?c1 = rate ?c1 then keccak_permute ?c1 else ?c1"
    have tk: "?tk \<noteq> 0" using False 1(2) by (simp add: k_ok_def)
    have lt: "length (take ?tk d) = ?tk" by simp
    have "foldl keccak_byte c (take ?tk d) = ?c2"
    proof (cases "pos c + ?tk = rate c")
      case True
      then show ?thesis using keccak_bytes_full[OF 1(2), of "take ?tk d"] lt by simp
    next
      case False
      then have "pos c + length (take ?tk d) < rate c" using 1(2) by (auto simp: k_ok_def)
      from keccak_bytes_inside[OF 1(2) this] show ?thesis using False lt by simp
    qed
    then have c2: "?c2 = foldl keccak_byte c (take ?tk d)" ..
    have "keccak_absorb ?c2 (drop ?tk d) = foldl keccak_byte ?c2 (drop ?tk d)"
      using 1(1)[OF False refl refl refl tk] k_ok_bytes[OF 1(2)] c2 by simp
    also have "\<dots> = foldl keccak_byte c d"
      unfolding c2 by (simp flip: foldl_append)
    finally show ?thesis
      using False tk by (subst keccak_absorb.simps) (simp only: Let_def if_False)
  qed
qed

lemma keccak_absorb_append:
  "k_ok c \<Longrightarrow> keccak_absorb c (a @ b) = keccak_absorb (keccak_absorb c a) b"
  by (simp add: keccak_absorb_bytes k_ok_bytes)

text \<open>
  The sponge keeps the contract of a streaming hash, for the digest it computes: \<open>r\<close> is the rate,
  \<open>dl\<close> the delimiter byte and \<open>n\<close> the digest length of a \<open>SHA3_IMPL\<close> line.
\<close>

definition sponge_digest :: "nat \<Rightarrow> byte \<Rightarrow> nat \<Rightarrow> bytes \<Rightarrow> bytes res" where
  "sponge_digest r dl n m =
     map_sum id snd (keccak_final (keccak_absorb (keccak_init r dl keccak_calloc) m) n)"

lemma keccak_init_zero:
  "kbuffer c = replicate 200 0 \<Longrightarrow> keccak_init r dl c = keccak_init r dl keccak_calloc"
  by (cases c) (simp add: keccak_init_def keccak_calloc_def)

lemma k_ok_init: "0 < r \<Longrightarrow> r \<le> 200 \<Longrightarrow> k_ok (keccak_init r dl keccak_calloc)"
  by (simp add: k_ok_def keccak_init_def keccak_calloc_def)

lemma sponge_stream:
  assumes "0 < r" "r \<le> 200"
  shows "hash_stream (keccak_init r dl) keccak_absorb (\<lambda>c. map_sum id snd (keccak_final c n))
    (\<lambda>c m. c = keccak_absorb (keccak_init r dl keccak_calloc) m)
    (\<lambda>c. kbuffer c = replicate 200 0) (sponge_digest r dl n)"
proof unfold_locales
  fix c :: keccak_ctx and m d
  show "kbuffer c = replicate 200 0 \<Longrightarrow>
      keccak_init r dl c = keccak_absorb (keccak_init r dl keccak_calloc) []"
    by (simp add: keccak_init_zero keccak_absorb.simps)
  show "c = keccak_absorb (keccak_init r dl keccak_calloc) m \<Longrightarrow>
      keccak_absorb c d = keccak_absorb (keccak_init r dl keccak_calloc) (m @ d)"
    by (simp add: keccak_absorb_append k_ok_init assms)
  show "c = keccak_absorb (keccak_init r dl keccak_calloc) m \<Longrightarrow>
      map_sum id snd (keccak_final c n) = sponge_digest r dl n m"
    by (simp add: sponge_digest_def)
qed

interpretation sha3_256: hash_stream "keccak_init 136 0x06" keccak_absorb
  "\<lambda>c. map_sum id snd (keccak_final c 32)"
  "\<lambda>c m. c = keccak_absorb (keccak_init 136 0x06 keccak_calloc) m"
  "\<lambda>c. kbuffer c = replicate 200 0" "sponge_digest 136 0x06 32"
  by (rule sponge_stream) simp_all

section \<open>Squeezing\<close>

lemma absorb_not_squeezing: "k_ok c \<Longrightarrow> squeezing (keccak_absorb c d) = squeezing c"
proof -
  have "squeezing (foldl keccak_byte c d) = squeezing c" for c
    by (induction d arbitrary: c) (auto simp: keccak_byte_def Let_def)
  then show "k_ok c \<Longrightarrow> ?thesis" by (simp add: keccak_absorb_bytes)
qed

lemma absorb_rate: "k_ok c \<Longrightarrow> rate (keccak_absorb c d) = rate c"
proof -
  have "rate (foldl keccak_byte c d) = rate c" for c
    by (induction d arbitrary: c) (auto simp: keccak_byte_def Let_def)
  then show "k_ok c \<Longrightarrow> ?thesis" by (simp add: keccak_absorb_bytes)
qed

lemma squeeze_loop_const:
  assumes "pos c = 0" "0 < n" "n \<le> rate c"
  shows "snd (squeeze_loop c n) = replicate n (ucast (kstate c ! 0))"
proof -
  have o: "map (\<lambda>i. x) [0..<k] = replicate k x" for x :: byte and k
    by (simp add: map_replicate_const)
  show ?thesis
    using assms
    by (subst squeeze_loop.simps) (auto simp: Let_def o min_def squeeze_loop.simps)
qed

section \<open>Properties\<close>

text \<open>
  C39. The portable SHA-3 and SHAKE instances are streaming hashes: the result does not depend on
  how the input was cut into updates, for every rate, delimiter and digest length.
\<close>

theorem sponge_streaming:
  assumes "0 < r" "r \<le> 200" "kbuffer c = replicate 200 0"
  shows "map_sum id snd (keccak_final (foldl keccak_absorb (keccak_init r dl c) ds) n)
    = sponge_digest r dl n (concat ds)"
  using assms(3) by (rule hash_stream.digest_chunks[OF sponge_stream[OF assms(1,2)]])

theorem sponge_streaming_witness:
  "map_sum id snd (keccak_final (foldl keccak_absorb (keccak_init 136 0x06 keccak_calloc)
     [str ''a'', str ''bc'']) 32) = sponge_digest 136 0x06 32 (concat [str ''a'', str ''bc''])"
  by (rule sponge_streaming) (simp_all add: keccak_calloc_def)

text \<open>
  In the portable build every SHA-3/SHAKE digest (all are shorter than the rate) is one byte
  of the final state repeated: \<open>keccak_squeeze\<close> reads lane \<open>pos / 8\<close>, not \<open>(pos + i) / 8\<close>.
  A digest of \<open>n\<close> bytes takes at most 256 values.
\<close>

theorem sponge_digest_constant:
  assumes "0 < r" "r \<le> 200" "0 < n" "n \<le> r"
  shows "\<exists>b. sponge_digest r dl n m = Inr (replicate n b)"
proof -
  let ?c = "keccak_absorb (keccak_init r dl keccak_calloc) m"
  have ns: "\<not> squeezing ?c" and rt: "rate ?c = r"
    using k_ok_init[OF assms(1,2)]
    by (simp_all add: absorb_not_squeezing absorb_rate) (simp_all add: keccak_init_def)
  let ?p = "keccak_pad ?c"
  have p: "pos ?p = 0" "rate ?p = r" "squeezing ?p"
    using rt by (simp_all add: keccak_pad_def Let_def keccak_permute_def)
  then have "snd (squeeze_loop ?p n) = replicate n (ucast (kstate ?p ! 0))"
    using assms(3,4) by (intro squeeze_loop_const) simp_all
  then show ?thesis
    using ns p assms(3) by (auto simp: sponge_digest_def keccak_final_def keccak_squeeze_def)
qed

theorem sponge_digest_constant_witness:
  "\<exists>b. sponge_digest 136 0x06 32 (str ''abc'') = Inr (replicate 32 b)"
  by (rule sponge_digest_constant) simp_all

text \<open>
  The buffer is never cleared: after two blocks it holds their xor, and that is what the second
  permutation absorbs.
\<close>

lemma keccak_buffer_accumulates:
  assumes "length a = r" "length b = r" "0 < r" "r \<le> 200"
  shows "kbuffer (keccak_absorb (keccak_init r dl keccak_calloc) (a @ b))
    = xor_at 0 b (xor_at 0 a (replicate 200 0))"
proof -
  let ?i = "keccak_init r dl keccak_calloc"
  have i: "k_ok ?i" "pos ?i = 0" "rate ?i = r" "kbuffer ?i = replicate 200 0"
    using assms k_ok_init by (simp_all add: keccak_init_def keccak_calloc_def k_ok_def)
  let ?c = "keccak_permute (?i\<lparr>kbuffer := xor_at 0 a (replicate 200 0), pos := r\<rparr>)"
  have 1: "foldl keccak_byte ?i a = ?c"
    using keccak_bytes_full[OF i(1), of a] i assms by simp
  have "k_ok ?c" using assms i by (simp add: k_ok_def)
  then have "foldl keccak_byte ?c b = keccak_permute (?c\<lparr>kbuffer := xor_at 0 b (kbuffer ?c), pos := r\<rparr>)"
    using keccak_bytes_full[of ?c b] i assms by simp
  then show ?thesis
    using i by (simp add: keccak_absorb_bytes 1)
qed

end
