(* ===== verification/Hash.thy ===== *)
theory Hash
  imports Keccak
begin

unbundle bit_operations_syntax

text \<open>
  \<^verbatim>\<open>src/hash/hash.c\<close>, \<^verbatim>\<open>src/hash/sha1.c\<close> and the vtables of the hash files: the registry, contexts,
  one-shot and stream hashing, comparison and hex text.

  The build is a parameter \<open>crypto\<close>: \<open>None\<close> is the portable build, \<open>Some evp\<close> a build with
  OpenSSL, where \<open>evp algo msg\<close> is what Init, Update and Final of the EVP interface give for the
  algorithm with that id (\<open>None\<close> when one of the calls fails). The only thing taken from the
  documentation of OpenSSL is that EVP_DigestUpdate may be called repeatedly, so a context is the
  message fed so far.
\<close>

type_synonym evp = "byte \<Rightarrow> bytes \<Rightarrow> bytes option"

section \<open>Algorithm ids and vtables\<close>

abbreviation (input) "HASH_SHA1 \<equiv> 0x00 :: byte"
abbreviation (input) "HASH_SHA256 \<equiv> 0x01 :: byte"
abbreviation (input) "HASH_SHA384 \<equiv> 0x02 :: byte"
abbreviation (input) "HASH_SHA3_256 \<equiv> 0x03 :: byte"
abbreviation (input) "HASH_SHA3_384 \<equiv> 0x04 :: byte"
abbreviation (input) "HASH_SHA3_512 \<equiv> 0x05 :: byte"
abbreviation (input) "HASH_SHAKE128 \<equiv> 0x06 :: byte"
abbreviation (input) "HASH_SHAKE256 \<equiv> 0x07 :: byte"

datatype hash_impl =
    Sha1_impl
  | Sha256_impl "u32 sha2_ctx"
  | Sha384_impl "u64 sha2_ctx"
  | Keccak_impl nat byte keccak_ctx \<comment> \<open>rate and delimiter of the \<open>SHA3_IMPL\<close> line, context\<close>
  | Evp_impl bytes

record vtable =
  v_algo :: byte
  v_name :: string
  v_digest_len :: nat
  v_block_size :: nat
  v_calloc :: hash_impl

definition sha2_calloc :: "nat \<Rightarrow> 'w \<Rightarrow> 'w sha2_ctx" where
  "sha2_calloc n z = \<lparr>state = replicate 8 z, count = 0, buffer = replicate n 0\<rparr>"

definition mk_vtable :: "byte \<Rightarrow> string \<Rightarrow> nat \<Rightarrow> nat \<Rightarrow> hash_impl \<Rightarrow> vtable" where
  "mk_vtable a nm dl bs im =
     \<lparr>v_algo = a, v_name = nm, v_digest_len = dl, v_block_size = bs, v_calloc = im\<rparr>"

text \<open>The vtables registered by \<open>fastgit_hash_register_all\<close>, for the two builds.\<close>

definition hash_vtables :: "evp option \<Rightarrow> vtable list" where
  "hash_vtables crypto =
     (case crypto of
        None \<Rightarrow>
          [mk_vtable HASH_SHA1 ''sha1'' 20 64 Sha1_impl,
           mk_vtable HASH_SHA256 ''sha256'' 32 64 (Sha256_impl (sha2_calloc 64 0)),
           mk_vtable HASH_SHA384 ''sha384'' 48 128 (Sha384_impl (sha2_calloc 128 0)),
           mk_vtable HASH_SHA3_256 ''sha3-256'' 32 136 (Keccak_impl 136 0x06 keccak_calloc),
           mk_vtable HASH_SHA3_384 ''sha3-384'' 48 104 (Keccak_impl 104 0x06 keccak_calloc),
           mk_vtable HASH_SHA3_512 ''sha3-512'' 64 72 (Keccak_impl 72 0x06 keccak_calloc),
           mk_vtable HASH_SHAKE128 ''shake128'' 32 168 (Keccak_impl 168 0x1F keccak_calloc),
           mk_vtable HASH_SHAKE256 ''shake256'' 64 136 (Keccak_impl 136 0x1F keccak_calloc)]
      | Some _ \<Rightarrow>
          [mk_vtable HASH_SHA1 ''sha1'' 20 64 (Evp_impl []),
           mk_vtable HASH_SHA256 ''sha256'' 32 64 (Evp_impl []),
           mk_vtable HASH_SHA384 ''sha384'' 48 128 (Evp_impl []),
           mk_vtable HASH_SHA3_256 ''sha3-256'' 32 0 (Evp_impl []),
           mk_vtable HASH_SHA3_384 ''sha3-384'' 48 0 (Evp_impl []),
           mk_vtable HASH_SHA3_512 ''sha3-512'' 64 0 (Evp_impl []),
           mk_vtable HASH_SHAKE128 ''shake128'' 32 0 (Evp_impl []),
           mk_vtable HASH_SHAKE256 ''shake256'' 64 0 (Evp_impl [])])"

definition fastgit_hash_get_vtable :: "evp option \<Rightarrow> byte \<Rightarrow> vtable option" where
  "fastgit_hash_get_vtable crypto algo = List.find (\<lambda>v. v_algo v = algo) (hash_vtables crypto)"

definition fastgit_hash_is_supported :: "evp option \<Rightarrow> byte \<Rightarrow> bool" where
  "fastgit_hash_is_supported crypto algo \<longleftrightarrow> fastgit_hash_get_vtable crypto algo \<noteq> None"

definition fastgit_hash_algo_name :: "evp option \<Rightarrow> byte \<Rightarrow> string" where
  "fastgit_hash_algo_name crypto algo =
     (case fastgit_hash_get_vtable crypto algo of Some v \<Rightarrow> v_name v | None \<Rightarrow> ''unknown'')"

definition fastgit_hash_algo_digest_len :: "evp option \<Rightarrow> byte \<Rightarrow> nat" where
  "fastgit_hash_algo_digest_len crypto algo =
     (case fastgit_hash_get_vtable crypto algo of Some v \<Rightarrow> v_digest_len v | None \<Rightarrow> 0)"

definition fastgit_hash_algo_block_size :: "evp option \<Rightarrow> byte \<Rightarrow> nat" where
  "fastgit_hash_algo_block_size crypto algo =
     (case fastgit_hash_get_vtable crypto algo of Some v \<Rightarrow> v_block_size v | None \<Rightarrow> 0)"

section \<open>Contexts\<close>

text \<open>A context points to its vtable; the digest of \<open>fastgit_hash_t\<close> is its first \<open>len\<close> bytes.\<close>

record hash_ctx =
  ctx_vtable :: vtable
  ctx_impl :: hash_impl

record hash_t =
  h_digest :: bytes
  h_algo :: byte

definition fastgit_hash_ctx_new :: "evp option \<Rightarrow> byte \<Rightarrow> hash_ctx option" where
  "fastgit_hash_ctx_new crypto algo =
     map_option (\<lambda>v. \<lparr>ctx_vtable = v, ctx_impl = v_calloc v\<rparr>) (fastgit_hash_get_vtable crypto algo)"

fun impl_init :: "hash_impl \<Rightarrow> hash_impl res" where
  "impl_init Sha1_impl = Inl EUNSUPPORTED"
| "impl_init (Sha256_impl c) = Inr (Sha256_impl (sha256_init c))"
| "impl_init (Sha384_impl c) = Inr (Sha384_impl (sha384_init c))"
| "impl_init (Keccak_impl r dl c) = Inr (Keccak_impl r dl (keccak_init r dl c))"
| "impl_init (Evp_impl m) = Inr (Evp_impl [])"

fun impl_update :: "hash_impl \<Rightarrow> bytes \<Rightarrow> hash_impl res" where
  "impl_update Sha1_impl d = Inl EUNSUPPORTED"
| "impl_update (Sha256_impl c) d = Inr (Sha256_impl (sha256_update c d))"
| "impl_update (Sha384_impl c) d = Inr (Sha384_impl (sha384_update c d))"
| "impl_update (Keccak_impl r dl c) d = bindr (keccak_update c d) (\<lambda>c'. Inr (Keccak_impl r dl c'))"
| "impl_update (Evp_impl m) d = Inr (Evp_impl (m @ d))"

fun impl_final :: "evp option \<Rightarrow> vtable \<Rightarrow> hash_impl \<Rightarrow> bytes res" where
  "impl_final crypto v Sha1_impl = Inl EUNSUPPORTED"
| "impl_final crypto v (Sha256_impl c) = Inr (sha256_final c)"
| "impl_final crypto v (Sha384_impl c) = sha384_final c"
| "impl_final crypto v (Keccak_impl r dl c) = bindr (keccak_final c (v_digest_len v)) (\<lambda>(_, d). Inr d)"
| "impl_final crypto v (Evp_impl m) =
     (case crypto of None \<Rightarrow> Inl Undefined
      | Some evp \<Rightarrow> (case evp (v_algo v) m of Some d \<Rightarrow> Inr d | None \<Rightarrow> Inl ERROR))"

fun impl_reset :: "hash_impl \<Rightarrow> hash_impl res" where
  "impl_reset (Keccak_impl r dl c) = Inr (Keccak_impl r dl (keccak_reset c))"
| "impl_reset im = impl_init im"

definition fastgit_hash_ctx_init :: "hash_ctx \<Rightarrow> hash_ctx res" where
  "fastgit_hash_ctx_init c = bindr (impl_init (ctx_impl c)) (\<lambda>i. Inr (c\<lparr>ctx_impl := i\<rparr>))"

definition fastgit_hash_ctx_update :: "hash_ctx \<Rightarrow> bytes \<Rightarrow> hash_ctx res" where
  "fastgit_hash_ctx_update c d = bindr (impl_update (ctx_impl c) d) (\<lambda>i. Inr (c\<lparr>ctx_impl := i\<rparr>))"

definition fastgit_hash_ctx_final :: "evp option \<Rightarrow> hash_ctx \<Rightarrow> hash_t res" where
  "fastgit_hash_ctx_final crypto c =
     bindr (impl_final crypto (ctx_vtable c) (ctx_impl c))
       (\<lambda>d. Inr \<lparr>h_digest = d, h_algo = v_algo (ctx_vtable c)\<rparr>)"

definition fastgit_hash_ctx_reset :: "hash_ctx \<Rightarrow> hash_ctx res" where
  "fastgit_hash_ctx_reset c = bindr (impl_reset (ctx_impl c)) (\<lambda>i. Inr (c\<lparr>ctx_impl := i\<rparr>))"

section \<open>One-shot and stream hashing\<close>

text \<open>The algorithms with a thread-local EVP context in \<open>fastgit_hash\<close>.\<close>

definition evp_fast :: "byte list" where
  "evp_fast = [HASH_SHA256, HASH_SHA384, HASH_SHA3_256, HASH_SHA3_384, HASH_SHA3_512]"

definition hash_by_ctx :: "evp option \<Rightarrow> byte \<Rightarrow> bytes \<Rightarrow> hash_t res" where
  "hash_by_ctx crypto algo data =
     (case fastgit_hash_ctx_new crypto algo of
        None \<Rightarrow> Inl EUNSUPPORTED
      | Some ctx \<Rightarrow>
          bindr (fastgit_hash_ctx_init ctx) (\<lambda>c1.
          bindr (fastgit_hash_ctx_update c1 data) (\<lambda>c2.
          fastgit_hash_ctx_final crypto c2)))"

definition fastgit_hash :: "evp option \<Rightarrow> byte \<Rightarrow> bytes \<Rightarrow> hash_t res" where
  "fastgit_hash crypto algo data =
     (case crypto of
        Some evp \<Rightarrow>
          (if algo \<in> set evp_fast then
             (case evp algo data of
                Some d \<Rightarrow> Inr \<lparr>h_digest = d, h_algo = algo\<rparr>
              | None \<Rightarrow> hash_by_ctx crypto algo data)
           else hash_by_ctx crypto algo data)
      | None \<Rightarrow> hash_by_ctx crypto algo data)"

fun update_all :: "hash_ctx \<Rightarrow> bytes list \<Rightarrow> hash_ctx res" where
  "update_all c [] = Inr c"
| "update_all c (b # bs) = bindr (fastgit_hash_ctx_update c b) (\<lambda>c'. update_all c' bs)"

text \<open>\<open>reads\<close> are the blocks that fread returns, each of at most 8192 bytes, up to the end.\<close>

definition fastgit_hash_stream :: "evp option \<Rightarrow> byte \<Rightarrow> bytes list \<Rightarrow> hash_t res" where
  "fastgit_hash_stream crypto algo reads =
     (case fastgit_hash_ctx_new crypto algo of
        None \<Rightarrow> Inl EUNSUPPORTED
      | Some ctx \<Rightarrow>
          bindr (fastgit_hash_ctx_init ctx) (\<lambda>c1.
          bindr (update_all c1 reads) (\<lambda>c2.
          fastgit_hash_ctx_final crypto c2)))"

definition fastgit_hash_file :: "evp option \<Rightarrow> byte \<Rightarrow> bytes list option \<Rightarrow> hash_t res" where
  "fastgit_hash_file crypto algo file =
     (case file of None \<Rightarrow> Inl ENOENT | Some reads \<Rightarrow> fastgit_hash_stream crypto algo reads)"

definition fastgit_hash_oid :: "evp option \<Rightarrow> byte \<Rightarrow> bytes \<Rightarrow> nat \<Rightarrow> bytes res" where
  "fastgit_hash_oid crypto algo data cap =
     bindr (fastgit_hash crypto algo data)
       (\<lambda>h. if cap < length (h_digest h) then Inl EOVERFLOW else Inr (h_digest h))"

definition fastgit_hash_oid_from_hash :: "hash_t \<Rightarrow> nat \<Rightarrow> bytes res" where
  "fastgit_hash_oid_from_hash h cap =
     (if cap < length (h_digest h) then Inl EOVERFLOW else Inr (h_digest h))"

section \<open>Comparison and hex text\<close>

definition fastgit_hash_equal :: "hash_t \<Rightarrow> hash_t \<Rightarrow> bool" where
  "fastgit_hash_equal a b \<longleftrightarrow>
     h_algo a = h_algo b \<and> length (h_digest a) = length (h_digest b) \<and> memcmp (h_digest a) (h_digest b) = 0"

text \<open>\<open>memcmp\<close> stops at the end of the shorter buffer, as memcmp with \<open>min_len\<close> does.\<close>

definition digest_cmp :: "byte \<Rightarrow> bytes \<Rightarrow> byte \<Rightarrow> bytes \<Rightarrow> int" where
  "digest_cmp algo_a a algo_b b =
     (if algo_a \<noteq> algo_b then uint algo_a - uint algo_b
      else if memcmp a b \<noteq> 0 then memcmp a b
      else int (length a) - int (length b))"

definition fastgit_hash_compare :: "hash_t \<Rightarrow> hash_t \<Rightarrow> int" where
  "fastgit_hash_compare a b = digest_cmp (h_algo a) (h_digest a) (h_algo b) (h_digest b)"

definition hex_char :: "byte \<Rightarrow> byte" where
  "hex_char n = digit_char (unat n)"

fun bytes_to_hex :: "bytes \<Rightarrow> bytes" where
  "bytes_to_hex [] = []"
| "bytes_to_hex (b # bs) = hex_char (drop_bit 4 b) # hex_char (b AND 0x0F) # bytes_to_hex bs"

text \<open>Nothing is written when the output buffer of \<open>out_len\<close> bytes is too small.\<close>

definition fastgit_hash_to_hex :: "hash_t \<Rightarrow> nat \<Rightarrow> bytes option" where
  "fastgit_hash_to_hex h out_len =
     (if out_len < length (h_digest h) * 2 + 1 then None else Some (bytes_to_hex (h_digest h)))"

definition hex_val :: "byte \<Rightarrow> byte option" where
  "hex_val c =
     (if 48 \<le> c \<and> c \<le> 57 then Some (c - 48)
      else if 97 \<le> c \<and> c \<le> 102 then Some (c - 97 + 10)
      else if 65 \<le> c \<and> c \<le> 70 then Some (c - 65 + 10)
      else None)"

fun hex_to_bytes :: "bytes \<Rightarrow> bytes res" where
  "hex_to_bytes (high # low # r) =
     (case hex_val high of None \<Rightarrow> Inl EINVAL
      | Some h \<Rightarrow> (case hex_val low of None \<Rightarrow> Inl EINVAL
         | Some l \<Rightarrow> bindr (hex_to_bytes r) (\<lambda>bs. Inr ((push_bit 4 h OR l) # bs))))"
| "hex_to_bytes _ = Inr []"

definition fastgit_hash_from_hex :: "evp option \<Rightarrow> byte \<Rightarrow> bytes \<Rightarrow> hash_t res" where
  "fastgit_hash_from_hex crypto algo hex =
     (case fastgit_hash_get_vtable crypto algo of
        None \<Rightarrow> Inl EUNSUPPORTED
      | Some v \<Rightarrow>
          if length hex \<noteq> v_digest_len v * 2 then Inl EINVAL
          else bindr (hex_to_bytes hex) (\<lambda>d. Inr \<lparr>h_digest = d, h_algo = algo\<rparr>))"

section \<open>Cutting the input\<close>

lemma update_all_sha256:
  "ctx_impl c = Sha256_impl s \<Longrightarrow>
   update_all c bs = Inr (c\<lparr>ctx_impl := Sha256_impl (foldl sha256_update s bs)\<rparr>)"
  by (induction bs arbitrary: c s) (auto simp: fastgit_hash_ctx_update_def)

lemma update_all_sha384:
  "ctx_impl c = Sha384_impl s \<Longrightarrow>
   update_all c bs = Inr (c\<lparr>ctx_impl := Sha384_impl (foldl sha384_update s bs)\<rparr>)"
  by (induction bs arbitrary: c s) (auto simp: fastgit_hash_ctx_update_def)

lemma update_all_evp:
  "ctx_impl c = Evp_impl m \<Longrightarrow> update_all c bs = Inr (c\<lparr>ctx_impl := Evp_impl (m @ concat bs)\<rparr>)"
  by (induction bs arbitrary: c m) (auto simp: fastgit_hash_ctx_update_def)

lemma update_all_keccak:
  "ctx_impl c = Keccak_impl r dl k \<Longrightarrow> k_ok k \<Longrightarrow> \<not> squeezing k \<Longrightarrow>
   update_all c bs = Inr (c\<lparr>ctx_impl := Keccak_impl r dl (foldl keccak_absorb k bs)\<rparr>)"
proof (induction bs arbitrary: c k)
  case (Cons b bs)
  have "k_ok (keccak_absorb k b)" "\<not> squeezing (keccak_absorb k b)"
    using Cons.prems absorb_not_squeezing[of k b] k_ok_bytes[of k b] keccak_absorb_bytes[of k b]
    by simp_all
  then show ?case
    using Cons.prems Cons.IH[of "c\<lparr>ctx_impl := Keccak_impl r dl (keccak_absorb k b)\<rparr>"]
    by (simp add: fastgit_hash_ctx_update_def keccak_update_def)
qed simp

lemmas update_all_impl = update_all_sha256 update_all_sha384 update_all_evp

text \<open>The contexts that \<open>fastgit_hash_ctx_new\<close> and init hand out.\<close>

definition fresh_impl :: "hash_impl \<Rightarrow> bool" where
  "fresh_impl i = (case i of
      Sha1_impl \<Rightarrow> True
    | Sha256_impl c \<Rightarrow> length (buffer c) = 64
    | Sha384_impl c \<Rightarrow> True
    | Keccak_impl r dl c \<Rightarrow> 0 < r \<and> r \<le> 200 \<and> c = keccak_calloc
    | Evp_impl m \<Rightarrow> True)"

lemma vtable_in: "fastgit_hash_get_vtable crypto algo = Some v \<Longrightarrow> v \<in> set (hash_vtables crypto) \<and> v_algo v = algo"
  by (auto simp: fastgit_hash_get_vtable_def find_Some_iff)

lemma vtables_fresh: "v \<in> set (hash_vtables crypto) \<Longrightarrow> fresh_impl (v_calloc v)"
  by (cases crypto) (auto simp: hash_vtables_def mk_vtable_def fresh_impl_def sha2_calloc_def)

lemmas vtable_fresh = vtables_fresh[OF conjunct1[OF vtable_in]]

lemma sha256_chunks:
  "length (buffer c) = 64 \<Longrightarrow>
   sha256_final (foldl sha256_update (sha256_init c) bs) = sha256_final (sha256_update (sha256_init c) (concat bs))"
  using sha256.digest_chunks[of c bs] sha256.digest_chunks[of c "[concat bs]"] by simp

lemma keccak_chunks:
  "0 < r \<Longrightarrow> r \<le> 200 \<Longrightarrow>
   foldl keccak_absorb (keccak_init r dl keccak_calloc) bs
   = keccak_absorb (keccak_init r dl keccak_calloc) (concat bs)"
  using hash_stream.foldl_rel[OF sponge_stream, of r "keccak_init r dl keccak_calloc" dl "[]" bs]
  by (simp add: keccak_absorb.simps)

lemma sha384_undefined: "sha384_final c = sha384_final d"
proof -
  have "[0..<16] = 0 # [1..<16 :: nat]" by (simp add: upt_rec)
  then have "mapr (\<lambda>i. shr64 b (120 - i * 8)) [0..<16] = Inl Undefined" for b
    by (simp add: shr64_def)
  then show ?thesis by (simp add: sha384_final_def Let_def split: prod.splits)
qed

lemma chunks_final:
  assumes "fresh_impl (ctx_impl c)" "fastgit_hash_ctx_init c = Inr c1"
  shows "bindr (update_all c1 bs) (fastgit_hash_ctx_final crypto)
    = bindr (fastgit_hash_ctx_update c1 (concat bs)) (fastgit_hash_ctx_final crypto)"
proof -
  show ?thesis
  proof (cases "ctx_impl c")
    case Sha1_impl
    then show ?thesis using assms(2) by (simp add: fastgit_hash_ctx_init_def)
  next
    case (Sha256_impl s)
    then show ?thesis
      using assms
      by (auto simp: fastgit_hash_ctx_init_def update_all_impl fastgit_hash_ctx_final_def fastgit_hash_ctx_update_def
          sha256_chunks fresh_impl_def)
  next
    case (Sha384_impl s)
    then show ?thesis
      using assms
      by (auto simp: fastgit_hash_ctx_init_def update_all_impl fastgit_hash_ctx_final_def
          fastgit_hash_ctx_update_def
          sha384_undefined[of "foldl sha384_update (sha384_init s) bs"
            "sha384_update (sha384_init s) (concat bs)"])
  next
    case (Keccak_impl r dl k)
    then show ?thesis
      using assms
      by (auto simp: fastgit_hash_ctx_init_def fastgit_hash_ctx_final_def fresh_impl_def
          fastgit_hash_ctx_update_def keccak_update_def update_all_keccak[of _ r dl "keccak_init r dl keccak_calloc"] k_ok_init keccak_chunks)
        (simp_all add: keccak_init_def)
  next
    case (Evp_impl m)
    then show ?thesis
      using assms
      by (auto simp: fastgit_hash_ctx_init_def update_all_impl fastgit_hash_ctx_final_def
          fastgit_hash_ctx_update_def)
  qed
qed

lemma stream_by_ctx: "fastgit_hash_stream crypto algo reads = hash_by_ctx crypto algo (concat reads)"
proof (cases "fastgit_hash_ctx_new crypto algo")
  case (Some c)
  then have "fresh_impl (ctx_impl c)"
    by (auto simp: fastgit_hash_ctx_new_def vtable_fresh)
  then show ?thesis
    using Some chunks_final[of c _ reads crypto]
    by (cases "fastgit_hash_ctx_init c") (auto simp: fastgit_hash_stream_def hash_by_ctx_def)
qed (simp add: fastgit_hash_stream_def hash_by_ctx_def)

lemma evp_by_ctx:
  "algo \<in> set evp_fast \<Longrightarrow> evp algo data = Some d \<Longrightarrow>
   hash_by_ctx (Some evp) algo data = Inr \<lparr>h_digest = d, h_algo = algo\<rparr>"
  by (auto simp: evp_fast_def hash_by_ctx_def fastgit_hash_ctx_new_def fastgit_hash_get_vtable_def
      hash_vtables_def mk_vtable_def fastgit_hash_ctx_init_def fastgit_hash_ctx_update_def
      fastgit_hash_ctx_final_def)

lemma stream_whole: "fastgit_hash_stream crypto algo reads = fastgit_hash crypto algo (concat reads)"
  by (cases crypto) (auto simp: fastgit_hash_def stream_by_ctx evp_by_ctx split: option.splits)

text \<open>SHA-256 always gives 32 bytes: in the portable build, and with OpenSSL as documented.\<close>

definition sha256_ok :: "evp option \<Rightarrow> bool" where
  "sha256_ok crypto \<longleftrightarrow> (\<forall>m. \<exists>d. fastgit_hash crypto HASH_SHA256 m = Inr \<lparr>h_digest = d, h_algo = HASH_SHA256\<rparr> \<and> length d = 32)"

lemma length_sha2_round: "length (sha2_round S0 S1 kw s) = length s"
  by (cases "(S0, S1, kw, s)" rule: sha2_round.cases) (auto simp: Let_def)

lemma length_sha256_transform: "length (sha256_transform s b) = length s"
proof -
  have "length (fold (sha2_round S0 S1) ws s) = length s" for S0 S1 :: "u32 \<Rightarrow> u32" and ws
    by (induction ws arbitrary: s) (auto simp: length_sha2_round)
  then show ?thesis by (simp add: sha256_transform_def Let_def)
qed

lemma length_absorb_state:
  "(\<And>s b. length (f s b) = length s) \<Longrightarrow> length (fst (absorb n f h m)) = length h"
proof (induction n f h m rule: absorb.induct)
  case (1 n f h m)
  then show ?case by (subst absorb.simps) simp
qed

lemma length_sha256_spec: "length (sha256_spec m) = 32"
proof -
  have "length (concat (map be32 ws)) = 4 * length ws" for ws
    by (induction ws) auto
  then show ?thesis
    by (simp add: sha256_spec_def length_absorb_state length_sha256_transform H256_def)
qed

lemma sha256_ok_portable: "sha256_ok None"
proof -
  have "length (buffer (sha2_calloc 64 0 :: u32 sha2_ctx)) = 64" by (simp add: sha2_calloc_def)
  then have "sha256_final (sha256_update (sha256_init (sha2_calloc 64 0)) m) = sha256_spec m" for m
    using sha256.digest_chunks[of "sha2_calloc 64 0" "[m]"] by simp
  then show ?thesis
    by (simp add: sha256_ok_def fastgit_hash_def hash_by_ctx_def fastgit_hash_ctx_new_def
        fastgit_hash_get_vtable_def hash_vtables_def mk_vtable_def fastgit_hash_ctx_init_def
        fastgit_hash_ctx_update_def fastgit_hash_ctx_final_def length_sha256_spec)
qed

lemma sha256_ok_evp: "(\<And>m. \<exists>d. evp HASH_SHA256 m = Some d \<and> length d = 32) \<Longrightarrow> sha256_ok (Some evp)"
proof -
  assume e: "\<And>m. \<exists>d. evp HASH_SHA256 m = Some d \<and> length d = 32"
  show ?thesis
    unfolding sha256_ok_def
  proof
    fix m
    obtain d where "evp HASH_SHA256 m = Some d" "length d = 32" using e by blast
    then show "\<exists>d. fastgit_hash (Some evp) HASH_SHA256 m = Inr \<lparr>h_digest = d, h_algo = HASH_SHA256\<rparr> \<and> length d = 32"
      by (simp add: fastgit_hash_def evp_fast_def)
  qed
qed

section \<open>Order and hex\<close>

lemma Nil_less_iff: "[] < (b :: bytes) \<longleftrightarrow> b \<noteq> []"
  by (cases b) auto

lemma memcmp_less_lex:
  "memcmp a b < 0 \<or> memcmp a b = 0 \<and> length a < length b \<longleftrightarrow> a < b"
  by (induction a b rule: memcmp.induct) (auto simp: word_less_def uint_eq_iff Nil_less_iff)

lemma memcmp_eq_iff: "memcmp a b = 0 \<and> length a = length b \<longleftrightarrow> a = b"
  using memcmp_eq_0 by auto

lemma digest_cmp_less: "digest_cmp p a q b < 0 \<longleftrightarrow> (p, a) < (q, b)"
  using memcmp_less_lex[of a b] le_less[of p q]
  by (cases "p = q") (auto simp: digest_cmp_def less_prod_def word_less_def)

lemma digest_cmp_eq: "digest_cmp p a q b = 0 \<longleftrightarrow> (p, a) = (q, b)"
  using memcmp_eq_iff[of a b] by (auto simp: digest_cmp_def uint_eq_iff)

lemma memcmp_sym: "memcmp a b = - memcmp b a"
  by (induction a b rule: memcmp.induct) auto

lemma digest_cmp_sym: "digest_cmp p a q b = - digest_cmp q b p a"
  using memcmp_sym[of a b] by (auto simp: digest_cmp_def)

lemma length_hex_to_bytes: "hex_to_bytes s = Inr d \<Longrightarrow> length d = length s div 2"
  by (induction s arbitrary: d rule: hex_to_bytes.induct)
    (auto simp: bindr_Inr_iff split: option.splits)

lemma length_bytes_to_hex [simp]: "length (bytes_to_hex d) = 2 * length d"
  by (induction d) auto

lemma hex_val_char: "n < 16 \<Longrightarrow> hex_val (hex_char n) = Some n"
proof -
  have "\<forall>n \<in> set (map of_nat [0..<16]). hex_val (hex_char n) = Some n"
    by code_simp
  moreover assume "n < 16"
  then have "n \<in> set (map of_nat [0..<16])"
    by (auto intro!: image_eqI[of _ _ "unat n"] simp: word_less_nat_alt)
  ultimately show ?thesis by blast
qed

lemma nibbles:
  "drop_bit 4 b < (16 :: byte)" "b AND 0x0F < (16 :: byte)"
  "push_bit 4 (drop_bit 4 b) OR (b AND 0x0F) = b"
proof -
  show "drop_bit 4 b < (16 :: byte)"
  proof -
    have "unat b < 256" using unsigned_less[of b] by simp
    then show ?thesis by (simp add: word_less_nat_alt drop_bit_eq_div unat_div_distrib)
  qed
  have m: "b AND 0x0F = take_bit 4 b"
    by (simp add: take_bit_eq_mask mask_eq_exp_minus_1)
  show "b AND 0x0F < (16 :: byte)"
    unfolding m by (simp add: word_less_nat_alt take_bit_eq_mod unat_mod_distrib)
  show "push_bit 4 (drop_bit 4 b) OR (b AND 0x0F) = b"
    unfolding m by (rule bit_word_eqI) (auto simp: bit_simps)
qed

lemma hex_to_bytes_hex [simp]: "hex_to_bytes (bytes_to_hex d) = Inr d"
  by (induction d) (auto simp: hex_val_char nibbles)

lemma bytes_to_hex_nul_free: "nul_free (bytes_to_hex d)"
proof (induction d)
  case (Cons b d)
  have "hex_char n \<noteq> 0" if "n < 16" for n
    using hex_val_char[OF that] by (auto simp: hex_val_def)
  then show ?case using Cons nibbles by simp
qed simp

section \<open>Properties\<close>

text \<open>
  C37. Hashing a stream in any blocks is hashing the whole, in both builds and with the same
  errors: \<open>fastgit_hash_stream\<close> on the blocks read equals \<open>fastgit_hash\<close> on their concatenation,
  the fast path over thread-local EVP contexts included.
\<close>

theorem hash_stream_eq: "fastgit_hash_stream crypto algo reads = fastgit_hash crypto algo (concat reads)"
  by (rule stream_whole)

text \<open>
  A digest printed by \<open>fastgit_hash_to_hex\<close> is read back by \<open>fastgit_hash_from_hex\<close> for its
  algorithm: the hex text fits \<open>2 * len + 1\<close> characters and gives the same digest.
\<close>

theorem hash_hex_roundtrip:
  assumes "fastgit_hash_get_vtable crypto (h_algo h) = Some v" "length (h_digest h) = v_digest_len v"
    and "2 * v_digest_len v < n"
  shows "\<exists>hex. fastgit_hash_to_hex h n = Some hex \<and> fastgit_hash_from_hex crypto (h_algo h) hex = Inr h"
  using assms by (simp add: fastgit_hash_to_hex_def fastgit_hash_from_hex_def)

theorem hash_hex_roundtrip_witness:
  "\<exists>hex. fastgit_hash_to_hex \<lparr>h_digest = replicate 32 0xA7, h_algo = HASH_SHA256\<rparr> 65 = Some hex \<and>
     fastgit_hash_from_hex None HASH_SHA256 hex = Inr \<lparr>h_digest = replicate 32 0xA7, h_algo = HASH_SHA256\<rparr>"
proof -
  let ?h = "\<lparr>h_digest = replicate 32 0xA7, h_algo = HASH_SHA256\<rparr>"
  obtain v where "fastgit_hash_get_vtable None HASH_SHA256 = Some v" "v_digest_len v = 32"
    by (simp add: fastgit_hash_get_vtable_def hash_vtables_def mk_vtable_def)
  then show ?thesis using hash_hex_roundtrip[of None ?h v 65] by simp
qed

end
