(* ===== verification/Objects.thy ===== *)
theory Objects
  imports Hash
begin

unbundle bit_operations_syntax

text \<open>
  Object names and types of \<^verbatim>\<open>src/object/object.c\<close> and \<^verbatim>\<open>include/fastgit/fastgit.h\<close>: object ids
  with their order and hex text, type names, and the LFS pointer files. The \<open>len\<close> field of
  \<open>fastgit_oid_t\<close> is the length of the list \<open>oid_hash\<close>; bytes of the array beyond it are not read.
\<close>

section \<open>Object ids\<close>

record oid =
  oid_algo :: byte
  oid_hash :: bytes

text \<open>A null pointer is \<open>None\<close>.\<close>

definition fastgit_oid_cmp :: "oid option \<Rightarrow> oid option \<Rightarrow> int" where
  "fastgit_oid_cmp a b =
     (case (a, b) of
        (Some x, Some y) \<Rightarrow> digest_cmp (oid_algo x) (oid_hash x) (oid_algo y) (oid_hash y)
      | (Some x, None) \<Rightarrow> 1
      | (None, Some y) \<Rightarrow> - 1
      | (None, None) \<Rightarrow> 0)"

definition fastgit_oid_equal :: "oid option \<Rightarrow> oid option \<Rightarrow> bool" where
  "fastgit_oid_equal a b \<longleftrightarrow> fastgit_oid_cmp a b = 0"

definition oid_eq :: "oid \<Rightarrow> oid \<Rightarrow> bool" where
  "oid_eq a b \<longleftrightarrow> fastgit_oid_equal (Some a) (Some b)"

definition fastgit_oid_to_hex :: "oid \<Rightarrow> nat \<Rightarrow> bytes option" where
  "fastgit_oid_to_hex x out_len =
     (if out_len < length (oid_hash x) * 2 + 1 then None else Some (bytes_to_hex (oid_hash x)))"

definition infer_algo :: "nat \<Rightarrow> byte" where
  "infer_algo len =
     (if len = 20 then HASH_SHA1
      else if len = 32 then HASH_SHA256
      else if len = 48 then HASH_SHA384
      else if len = 64 then HASH_SHA3_512
      else HASH_SHA256)"

definition fastgit_oid_from_hex :: "bytes \<Rightarrow> oid res" where
  "fastgit_oid_from_hex hex =
     (if length hex mod 2 \<noteq> 0 then Inl EINVAL
      else if 64 < length hex div 2 then Inl EOVERFLOW
      else bindr (hex_to_bytes hex)
        (\<lambda>d. Inr \<lparr>oid_algo = infer_algo (length hex div 2), oid_hash = d\<rparr>))"

text \<open>Ids ordered by algorithm, then by bytes: the order of the object tables.\<close>

instantiation oid_ext :: (linorder) linorder
begin

definition less_eq_oid_ext :: "'a oid_scheme \<Rightarrow> 'a oid_scheme \<Rightarrow> bool" where
  "less_eq_oid_ext a b \<longleftrightarrow> (oid_algo a, oid_hash a, oid.more a) \<le> (oid_algo b, oid_hash b, oid.more b)"

definition less_oid_ext :: "'a oid_scheme \<Rightarrow> 'a oid_scheme \<Rightarrow> bool" where
  "less_oid_ext a b \<longleftrightarrow> (oid_algo a, oid_hash a, oid.more a) < (oid_algo b, oid_hash b, oid.more b)"

instance
proof
  fix a b c :: "'a oid_scheme"
  show "a < b \<longleftrightarrow> a \<le> b \<and> \<not> b \<le> a" unfolding less_eq_oid_ext_def less_oid_ext_def by auto
  show "a \<le> a" unfolding less_eq_oid_ext_def by simp
  show "a \<le> b \<Longrightarrow> b \<le> c \<Longrightarrow> a \<le> c" unfolding less_eq_oid_ext_def by (rule order_trans)
  show "a \<le> b \<Longrightarrow> b \<le> a \<Longrightarrow> a = b"
    unfolding less_eq_oid_ext_def by (drule (1) order_antisym) (simp add: oid.equality)
  show "a \<le> b \<or> b \<le> a" unfolding less_eq_oid_ext_def by (rule linear)
qed

end

section \<open>Object types\<close>

text \<open>The enum holds whatever number a file contains: \<open>RAW_TYPE\<close> stands for the numbers without a name.\<close>

datatype obj_type = BLOB | TREE | COMMIT | TAG | OFS_DELTA | REF_DELTA | RAW_TYPE nat

fun type_code :: "obj_type \<Rightarrow> nat" where
  "type_code BLOB = 1"
| "type_code TREE = 2"
| "type_code COMMIT = 3"
| "type_code TAG = 4"
| "type_code OFS_DELTA = 6"
| "type_code REF_DELTA = 7"
| "type_code (RAW_TYPE n) = n"

definition type_of_code :: "nat \<Rightarrow> obj_type" where
  "type_of_code n =
     (if n = 1 then BLOB else if n = 2 then TREE else if n = 3 then COMMIT else if n = 4 then TAG
      else if n = 6 then OFS_DELTA else if n = 7 then REF_DELTA else RAW_TYPE n)"

text \<open>The gaps of the C array (0 and 5) are null pointers: \<open>None\<close>.\<close>

fun fastgit_obj_type_name :: "obj_type \<Rightarrow> string option" where
  "fastgit_obj_type_name BLOB = Some ''blob''"
| "fastgit_obj_type_name TREE = Some ''tree''"
| "fastgit_obj_type_name COMMIT = Some ''commit''"
| "fastgit_obj_type_name TAG = Some ''tag''"
| "fastgit_obj_type_name OFS_DELTA = Some ''ofs-delta''"
| "fastgit_obj_type_name REF_DELTA = Some ''ref-delta''"
| "fastgit_obj_type_name (RAW_TYPE n) = (if n < 8 then None else Some ''unknown'')"

definition fastgit_obj_type_from_name :: "bytes \<Rightarrow> obj_type" where
  "fastgit_obj_type_from_name nm =
     (if nm = str ''blob'' then BLOB
      else if nm = str ''tree'' then TREE
      else if nm = str ''commit'' then COMMIT
      else if nm = str ''tag'' then TAG
      else if nm = str ''ofs-delta'' then OFS_DELTA
      else if nm = str ''ref-delta'' then REF_DELTA
      else BLOB)"

section \<open>LFS pointer files\<close>

definition eol :: "byte \<Rightarrow> bool" where
  "eol c \<longleftrightarrow> c = 10 \<or> c = 13"

text \<open>\<open>char oid[64]\<close>: a text of 64 characters leaves no room for the terminator.\<close>

record lfs_pointer =
  lfs_oid :: bytes
  lfs_size :: u64

text \<open>
  strtoull on a buffer that need not be terminated: digits that run up to the end of the buffer
  make it read past the end.
\<close>

definition strtoull_in :: "bytes \<Rightarrow> u64 res" where
  "strtoull_in s =
     (let s1 = dropWhile isspace s;
          s2 = (if s1 \<noteq> [] \<and> (hd s1 = 45 \<or> hd s1 = 43) then tl s1 else s1)
      in if snd (read_digits 10 0 s2) = [] then Inl Undefined else Inr (fst (strtoul 10 s)))"

definition lfs_line :: "bytes \<Rightarrow> bytes \<Rightarrow> lfs_pointer \<Rightarrow> lfs_pointer res" where
  "lfs_line line p out =
     (if 5 \<le> length line \<and> take 4 line = str ''oid '' then
        (let h = drop 4 line
         in if length h < 64 then Inr (out\<lparr>lfs_oid := h\<rparr>)
            else if length h = 64 then Inl Undefined
            else Inr out)
      else if 5 \<le> length line \<and> take 5 line = str ''size '' then
        bindr (strtoull_in (drop 5 p)) (\<lambda>n. Inr (out\<lparr>lfs_size := n\<rparr>))
      else Inr out)"

function lfs_lines :: "bytes \<Rightarrow> lfs_pointer \<Rightarrow> lfs_pointer res" where
  "lfs_lines p out =
     (if p = [] \<or> eol (hd p) then Inr out
      else let line = takeWhile (\<lambda>c. \<not> eol c) p
           in bindr (lfs_line line p out) (\<lambda>out'. lfs_lines (tl (dropWhile (\<lambda>c. \<not> eol c) p)) out'))"
  by pat_completeness auto
termination
proof (relation "measure (\<lambda>(p, out). length p)", simp)
  fix p :: bytes and out line x
  assume "\<not> (p = [] \<or> eol (hd p))"
  then show "((tl (dropWhile (\<lambda>c. \<not> eol c) p), x), p, out) \<in> measure (\<lambda>(p, out). length p)"
    using length_dropWhile_le[of "\<lambda>c. \<not> eol c" p] by (cases p) (auto simp: le_imp_less_Suc)
qed

declare lfs_lines.simps [simp del]

definition fastgit_lfs_pointer_detect :: "bytes \<Rightarrow> lfs_pointer res" where
  "fastgit_lfs_pointer_detect data =
     (if length data < 20 then Inl EINVAL
      else if take 8 data \<noteq> str ''version '' then Inl EINVAL
      else let p = dropWhile (\<lambda>c. \<not> eol c) data
           in if p = [] then Inl EINVAL
              else bindr (lfs_lines (tl p) \<lparr>lfs_oid = [], lfs_size = 0\<rparr>)
                (\<lambda>out. if lfs_oid out \<noteq> [] \<and> 0 < lfs_size out then Inr out else Inl EINVAL))"

definition lfs_text :: "bytes \<Rightarrow> u64 \<Rightarrow> bytes" where
  "lfs_text hex sz =
     str ''version https://git-lfs.github.com/spec/v1'' @ [10] @ str ''oid '' @ hex @ [10]
     @ str ''size '' @ dec (unat sz) @ [10]"

definition fastgit_lfs_pointer_create :: "bytes \<Rightarrow> u64 \<Rightarrow> bytes res" where
  "fastgit_lfs_pointer_create hex sz =
     (if 64 + length hex + 32 \<le> length (lfs_text hex sz) then Inl ERROR
      else Inr (lfs_text hex sz))"

section \<open>Lemmas\<close>

lemma oid_cmp_less: "fastgit_oid_cmp (Some a) (Some b) < 0 \<longleftrightarrow> a < (b :: oid)"
  by (simp add: fastgit_oid_cmp_def digest_cmp_less less_oid_ext_def less_prod_def)

lemma oid_cmp_eq: "fastgit_oid_cmp (Some a) (Some b) = 0 \<longleftrightarrow> a = (b :: oid)"
  by (simp add: fastgit_oid_cmp_def digest_cmp_eq oid.equality) (metis oid.equality unit.exhaust)

lemma oid_cmp_greater: "0 < fastgit_oid_cmp (Some a) (Some b) \<longleftrightarrow> b < (a :: oid)"
  using oid_cmp_less[of b a] digest_cmp_sym[of "oid_algo b" "oid_hash b" "oid_algo a" "oid_hash a"]
  by (simp add: fastgit_oid_cmp_def)

lemma oid_eq_iff [simp]: "oid_eq a b \<longleftrightarrow> a = b"
  by (simp add: oid_eq_def fastgit_oid_equal_def oid_cmp_eq)

lemma type_code_inv: "type_of_code (type_code t) = t \<longleftrightarrow> (\<forall>n \<in> {1, 2, 3, 4, 6, 7}. t \<noteq> RAW_TYPE n)"
  by (cases t) (auto simp: type_of_code_def)

lemma type_code_of [simp]: "type_code (type_of_code n) = n"
  by (simp add: type_of_code_def)

lemma dec_no_eol: "c \<in> set (dec n) \<Longrightarrow> \<not> eol c"
  using print_base_range[of 10 c n] by (auto simp: eol_def)

lemma strtoull_in_dec: "n < 2 ^ 64 \<Longrightarrow> strtoull_in (dec n @ 10 # r) = Inr (of_nat n)"
proof -
  assume n: "n < 2 ^ 64"
  have st: "stops 10 (10 # r)" by (simp add: stops_def digit_val_def)
  obtain c cs where cs: "dec n = c # cs" by (cases "dec n") auto
  have c: "48 \<le> c" using print_base_range[of 10 c n] cs by simp
  have ns: "\<not> isspace c" "c \<noteq> 45" "c \<noteq> 43"
    using c by (auto simp: isspace_def word_le_nat_alt)
  have "read_digits 10 0 (c # cs @ 10 # r) = (n, 10 # r)"
    using read_print_base[OF _ _ st, of n] cs by simp
  moreover have "strtoul 10 (c # cs @ 10 # r) = (of_nat n, 10 # r)"
    using strtoul_print[OF _ _ st n] cs by simp
  ultimately show ?thesis using ns by (simp add: strtoull_in_def cs Let_def)
qed

text \<open>One line of a pointer file and the rest.\<close>

lemma lfs_lines_line:
  assumes "l \<noteq> []" "\<forall>c \<in> set l. \<not> eol c"
  shows "lfs_lines (l @ 10 # r) out = bindr (lfs_line l (l @ 10 # r) out) (lfs_lines r)"
proof -
  have e: "eol 10" by (simp add: eol_def)
  have "takeWhile (\<lambda>c. \<not> eol c) (l @ 10 # r) = l" "dropWhile (\<lambda>c. \<not> eol c) (l @ 10 # r) = 10 # r"
    using assms(2) e by (simp_all add: takeWhile_append2 dropWhile_append2)
  moreover have "\<not> eol (hd (l @ 10 # r))" using assms by (cases l) auto
  ultimately show ?thesis
    using assms(1) by (subst lfs_lines.simps) (simp add: Let_def)
qed

lemma lfs_lines_end: "lfs_lines [] out = Inr out"
  by (subst lfs_lines.simps) simp

lemma str_lfs_words:
  "str ''oid '' = [111, 105, 100, 32]" "str ''size '' = [115, 105, 122, 101, 32]"
  "str ''version '' = [118, 101, 114, 115, 105, 111, 110, 32]"
  by (simp_all add: str_def)

lemma lfs_size_line:
  "n < 2 ^ 64 \<Longrightarrow>
   lfs_line (str ''size '' @ dec n) ((str ''size '' @ dec n) @ 10 # r) out
   = Inr (out\<lparr>lfs_size := of_nat n\<rparr>)"
  by (simp add: lfs_line_def str_lfs_words strtoull_in_dec)

lemma lfs_text_parse:
  assumes "hex \<noteq> []" "\<forall>c \<in> set hex. \<not> eol c"
  shows "fastgit_lfs_pointer_detect (lfs_text hex sz) =
    bindr (lfs_line (str ''oid '' @ hex) ((str ''oid '' @ hex) @ 10 # (str ''size '' @ dec (unat sz)) @ 10 # [])
        \<lparr>lfs_oid = [], lfs_size = 0\<rparr>)
      (\<lambda>out. if lfs_oid out \<noteq> [] \<and> 0 < sz then Inr (out\<lparr>lfs_size := sz\<rparr>) else Inl EINVAL)"
proof -
  let ?v = "str ''version https://git-lfs.github.com/spec/v1''"
  let ?r = "(str ''oid '' @ hex) @ 10 # (str ''size '' @ dec (unat sz)) @ 10 # []"
  have v: "\<forall>c \<in> set ?v. \<not> eol c" by (simp add: str_def eol_def)
  have t: "lfs_text hex sz = ?v @ 10 # ?r" by (simp add: lfs_text_def)
  have dw: "dropWhile (\<lambda>c. \<not> eol c) (?v @ 10 # ?r) = 10 # ?r"
    using v by (subst dropWhile_append2) (auto simp: eol_def)
  have tk: "take 8 (?v @ 10 # ?r) = str ''version ''" by (simp add: str_def)
  have ln: "\<not> length (?v @ 10 # ?r) < 20" by simp
  have l1: "lfs_lines ?r out = bindr (lfs_line (str ''oid '' @ hex) ?r out)
      (lfs_lines ((str ''size '' @ dec (unat sz)) @ 10 # []))" for out
    using assms(2) by (intro lfs_lines_line) (auto simp: str_lfs_words eol_def)
  have l2: "lfs_lines ((str ''size '' @ dec (unat sz)) @ 10 # []) out = Inr (out\<lparr>lfs_size := sz\<rparr>)" for out
  proof -
    have "unat sz < 2 ^ 64" using unsigned_less[of sz] by simp
    from lfs_size_line[OF this, of "[]" out]
    show ?thesis
      using dec_no_eol
      by (subst lfs_lines_line) (auto simp: str_lfs_words lfs_lines_end, auto simp: eol_def)
  qed
  have l: "lfs_lines ?r out = bindr (lfs_line (str ''oid '' @ hex) ?r out) (\<lambda>out. Inr (out\<lparr>lfs_size := sz\<rparr>))" for out
    unfolding l1 using ext[of "lfs_lines ((str ''size '' @ dec (unat sz)) @ 10 # [])", OF l2] by (rule arg_cong)
  have ne: "10 # ?r \<noteq> []" "(str ''version '' \<noteq> str ''version '') = False" by simp_all
  show ?thesis
    unfolding fastgit_lfs_pointer_detect_def t if_not_P[OF ln] tk dw Let_def list.sel l
      if_not_P[OF ne(1)] ne(2) if_False
    by (cases "lfs_line (str ''oid '' @ hex) ?r \<lparr>lfs_oid = [], lfs_size = 0\<rparr>") simp_all
qed

section \<open>Properties\<close>

text \<open>
  \<open>fastgit_oid_cmp\<close> is the three-way comparison of the linear order of object ids (algorithm
  first, then the bytes lexicographically, a proper prefix being smaller): its sign decides
  less, equal and greater, so it can serve qsort and the binary searches.
\<close>

theorem oid_cmp_order:
  "(fastgit_oid_cmp (Some a) (Some b) < 0 \<longleftrightarrow> a < b) \<and>
   (fastgit_oid_cmp (Some a) (Some b) = 0 \<longleftrightarrow> a = b) \<and>
   (fastgit_oid_cmp (Some a) (Some b) > 0 \<longleftrightarrow> b < a)"
  by (simp add: oid_cmp_less oid_cmp_eq oid_cmp_greater)

text \<open>
  The hex text of an id of at most 64 bytes is read back to the same bytes, but the
  algorithm is guessed from the length: the id comes back exactly when its algorithm is the
  guessed one (SHA-1, SHA-256, SHA-384 and SHA3-512; not SHA3-256, SHA3-384 and SHAKE).
\<close>

theorem oid_hex_roundtrip:
  assumes "length (oid_hash x) \<le> 64" "2 * length (oid_hash x) < n"
  shows "\<exists>hex. fastgit_oid_to_hex x n = Some hex \<and>
    fastgit_oid_from_hex hex = Inr (x\<lparr>oid_algo := infer_algo (length (oid_hash x))\<rparr>) \<and>
    (fastgit_oid_from_hex hex = Inr x \<longleftrightarrow> oid_algo x = infer_algo (length (oid_hash x)))"
  using assms by (cases x) (auto simp: fastgit_oid_to_hex_def fastgit_oid_from_hex_def)

theorem oid_hex_roundtrip_witness:
  "\<exists>hex. fastgit_oid_to_hex \<lparr>oid_algo = HASH_SHA3_256, oid_hash = replicate 32 0xC5\<rparr> 65 = Some hex \<and>
    fastgit_oid_from_hex hex \<noteq> Inr \<lparr>oid_algo = HASH_SHA3_256, oid_hash = replicate 32 0xC5\<rparr>"
  using oid_hex_roundtrip[of "\<lparr>oid_algo = HASH_SHA3_256, oid_hash = replicate 32 0xC5\<rparr>" 65]
  by (auto simp: infer_algo_def)

text \<open>
  LFS pointer files: what \<open>fastgit_lfs_pointer_create\<close> writes for an id of fewer than 64
  characters and a non-zero size is recognised with the same id and size; for exactly 64
  characters (a plain SHA-256 id) detection writes past \<open>char oid[64]\<close>, and a longer id (the
  specified form, prefixed with the algorithm) is not recognised.
\<close>

theorem lfs_roundtrip:
  assumes "hex \<noteq> []" "\<forall>c \<in> set hex. \<not> eol c" "sz \<noteq> 0"
  shows "\<exists>txt. fastgit_lfs_pointer_create hex sz = Inr txt \<and>
    fastgit_lfs_pointer_detect txt =
      (if length hex < 64 then Inr \<lparr>lfs_oid = hex, lfs_size = sz\<rparr>
       else if length hex = 64 then Inl Undefined
       else Inl EINVAL)"
proof -
  have "unat sz < 2 ^ 64" using unsigned_less[of sz] by simp
  then have "length (lfs_text hex sz) < 64 + length hex + 32"
    using length_print_base_le[of 10 20 "unat sz"] by (simp add: lfs_text_def)
  then show ?thesis
    using assms
    by (simp add: fastgit_lfs_pointer_create_def lfs_text_parse)
      (auto simp: lfs_line_def str_lfs_words neq_Nil_conv word_neq_0_conv)
qed

theorem lfs_roundtrip_witness:
  "\<exists>txt. fastgit_lfs_pointer_create (str ''0a1b'') 12 = Inr txt \<and>
     fastgit_lfs_pointer_detect txt = Inr \<lparr>lfs_oid = str ''0a1b'', lfs_size = 12\<rparr>"
  using lfs_roundtrip[of "str ''0a1b''" 12] by (auto simp: str_def eol_def)

end
