(* ===== verification/Trees.thy ===== *)
theory Trees
  imports Objects
begin

unbundle bit_operations_syntax

text \<open>
  Tree objects, \<^verbatim>\<open>src/object/tree.c\<close>: building, lookup by name and index, the canonical text and
  its parser. A tree holds its entries in strcmp order of their names; it is shown to implement
  a finite map from names to entries, and the parser to read what the serialiser writes.
\<close>

section \<open>Entries and the data behind a tree object\<close>

record tree_entry =
  te_oid :: oid
  te_path :: bytes
  te_mode :: u32

text \<open>
  \<open>obj->data\<close> is either a \<open>struct fastgit_tree\<close> (the object's size is 0) or the raw content as
  read from the store (the size is its length). The field size tells the two apart, so raw
  content of length 0 is taken for the struct.
\<close>

datatype tree_data = Parsed "tree_entry list" | Raw bytes

definition tree_data_size :: "tree_data \<Rightarrow> nat" where
  "tree_data_size d = (case d of Parsed es \<Rightarrow> 0 | Raw b \<Rightarrow> length b)"

text \<open>A cast of \<open>data\<close> to \<open>struct fastgit_tree*\<close>.\<close>

definition as_struct :: "tree_data \<Rightarrow> tree_entry list res" where
  "as_struct d = (case d of Parsed es \<Rightarrow> Inr es | Raw b \<Rightarrow> Inl Undefined)"

definition fastgit_tree_create :: tree_data where
  "fastgit_tree_create = Parsed []"

definition tree_entry_cmp :: "tree_entry \<Rightarrow> tree_entry \<Rightarrow> int" where
  "tree_entry_cmp a b = strcmp (te_path a) (te_path b)"

text \<open>qsort with \<open>tree_entry_cmp\<close>; the order of equal names is not specified in C.\<close>

definition qsort_entries :: "tree_entry list \<Rightarrow> tree_entry list" where
  "qsort_entries es = sort_key te_path es"

definition fastgit_tree_add_entry :: "tree_data \<Rightarrow> tree_entry \<Rightarrow> tree_data res" where
  "fastgit_tree_add_entry d e = bindr (as_struct d) (\<lambda>es. Inr (Parsed (qsort_entries (es @ [e]))))"

fun remove_first :: "bytes \<Rightarrow> tree_entry list \<Rightarrow> tree_entry list res" where
  "remove_first p [] = Inl ENOENT"
| "remove_first p (e # es) =
     (if strcmp (te_path e) p = 0 then Inr es else bindr (remove_first p es) (\<lambda>es'. Inr (e # es')))"

definition fastgit_tree_remove_entry :: "tree_data \<Rightarrow> bytes \<Rightarrow> tree_data res" where
  "fastgit_tree_remove_entry d p =
     bindr (as_struct d) (\<lambda>es. bindr (remove_first p es) (\<lambda>es'. Inr (Parsed es')))"

section \<open>Parsing\<close>

definition cstr :: "bytes \<Rightarrow> bytes" where
  "cstr b = takeWhile (\<lambda>c. c \<noteq> 0) b"

definition parse_entry :: "bytes \<Rightarrow> (tree_entry \<times> bytes) option" where
  "parse_entry s =
     (case split_at 32 s of
        None \<Rightarrow> None
      | Some (m, r) \<Rightarrow>
          if 16 \<le> length m then None
          else (case split_at 0 r of
              None \<Rightarrow> None
            | Some (path, r2) \<Rightarrow>
                if length r2 < 32 then None
                else Some (\<lparr>te_oid = \<lparr>oid_algo = HASH_SHA256, oid_hash = take 32 r2\<rparr>, te_path = path,
                            te_mode = ucast (fst (strtoul 8 (cstr m)))\<rparr>, drop 32 r2)))"

definition tree_parse_raw :: "bytes \<Rightarrow> tree_entry list res" where
  "tree_parse_raw data =
     (case read_all parse_entry data of
        None \<Rightarrow> Inl EINVAL
      | Some es \<Rightarrow> Inr (qsort_entries es))"

text \<open>The parsed form replaces the raw one; a failure leaves the object as it is.\<close>

definition ensure_tree_parsed :: "tree_data \<Rightarrow> (tree_entry list option \<times> tree_data) res" where
  "ensure_tree_parsed d =
     (if tree_data_size d = 0 then bindr (as_struct d) (\<lambda>es. Inr (Some es, d))
      else (case d of
          Parsed es \<Rightarrow> Inr (Some es, d)
        | Raw b \<Rightarrow> (case tree_parse_raw b of
              Inl e \<Rightarrow> if e = Undefined then Inl e else Inr (None, d)
            | Inr es \<Rightarrow> Inr (Some es, Parsed es))))"

definition fastgit_tree_entry_count :: "tree_data \<Rightarrow> nat res" where
  "fastgit_tree_entry_count d =
     bindr (ensure_tree_parsed d) (\<lambda>(t, _). Inr (case t of None \<Rightarrow> 0 | Some es \<Rightarrow> length es))"

definition fastgit_tree_entry_by_index :: "tree_data \<Rightarrow> nat \<Rightarrow> tree_entry option res" where
  "fastgit_tree_entry_by_index d i =
     bindr (ensure_tree_parsed d)
       (\<lambda>(t, _). Inr (case t of None \<Rightarrow> None | Some es \<Rightarrow> if length es \<le> i then None else Some (es ! i)))"

definition fastgit_tree_entry_by_name :: "tree_data \<Rightarrow> bytes \<Rightarrow> tree_entry option res" where
  "fastgit_tree_entry_by_name d p =
     bindr (ensure_tree_parsed d)
       (\<lambda>(t, _). Inr (case t of None \<Rightarrow> None
          | Some es \<Rightarrow> bsearch (\<lambda>e. strcmp p (te_path e)) es))"

section \<open>Serialising\<close>

text \<open>
  \<open>snprintf(mode_str, 8, "%o", mode)\<close> returns the length of the full text: with eight digits the
  copy takes seven and the terminator, with more it reads past \<open>mode_str\<close>.
\<close>

definition mode_text :: "u32 \<Rightarrow> bytes res" where
  "mode_text mode =
     (let t = oct (unat mode)
      in if length t < 8 then Inr t
         else if length t = 8 then Inr (take 7 t @ [0])
         else Inl Undefined)"

definition tree_serialize_size :: "tree_entry list \<Rightarrow> nat" where
  "tree_serialize_size es =
     sum_list (map (\<lambda>e. length (oct (unat (te_mode e))) + 1 + length (te_path e) + 1
       + length (oid_hash (te_oid e))) es)"

definition entry_text :: "tree_entry \<Rightarrow> bytes res" where
  "entry_text e =
     bindr (mode_text (te_mode e)) (\<lambda>m. Inr (m @ [32] @ te_path e @ [0] @ oid_hash (te_oid e)))"

definition tree_serialize_write :: "tree_entry list \<Rightarrow> bytes res" where
  "tree_serialize_write es = bindr (mapr entry_text es) (\<lambda>ts. Inr (concat ts))"

definition fastgit_tree_content_size :: "tree_data \<Rightarrow> nat res" where
  "fastgit_tree_content_size d = bindr (as_struct d) (\<lambda>es. Inr (tree_serialize_size es))"

definition fastgit_tree_content_write :: "tree_data \<Rightarrow> bytes res" where
  "fastgit_tree_content_write d = bindr (as_struct d) tree_serialize_write"

section \<open>Well-formed entries and trees\<close>

definition entry_ok :: "tree_entry \<Rightarrow> bool" where
  "entry_ok e \<longleftrightarrow> nul_free (te_path e) \<and> te_mode e < 2 ^ 21 \<and>
     oid_algo (te_oid e) = HASH_SHA256 \<and> length (oid_hash (te_oid e)) = 32"

definition tree_ok :: "tree_entry list \<Rightarrow> bool" where
  "tree_ok es \<longleftrightarrow> sorted_wrt (\<lambda>a b. te_path a < te_path b) es \<and> (\<forall>e \<in> set es. nul_free (te_path e))"

definition tree_map :: "tree_entry list \<Rightarrow> bytes \<Rightarrow> tree_entry option" where
  "tree_map es = map_of (map (\<lambda>e. (te_path e, e)) es)"

definition entry_bytes :: "tree_entry \<Rightarrow> bytes" where
  "entry_bytes e = oct (unat (te_mode e)) @ [32] @ te_path e @ [0] @ oid_hash (te_oid e)"

lemma unat_mode_bound: "te_mode e < 2 ^ 21 \<Longrightarrow> unat (te_mode e) < 8 ^ 7"
  by (simp add: word_less_nat_alt)

lemma length_mode_le: "te_mode e < 2 ^ 21 \<Longrightarrow> length (oct (unat (te_mode e))) < 8"
  using length_print_base_le[of 8 7 "unat (te_mode e)"] unat_mode_bound[of e] by simp

lemma entry_text_ok: "te_mode e < 2 ^ 21 \<Longrightarrow> entry_text e = Inr (entry_bytes e)"
  using length_mode_le[of e] by (simp add: entry_text_def mode_text_def entry_bytes_def Let_def)

lemma tree_write_ok:
  "\<forall>e \<in> set es. te_mode e < 2 ^ 21 \<Longrightarrow> tree_serialize_write es = Inr (concat (map entry_bytes es))"
  by (simp add: tree_serialize_write_def mapr_Inr[where g = entry_bytes] entry_text_ok)

lemma parse_entry_bytes: "entry_ok e \<Longrightarrow> parse_entry (entry_bytes e @ r) = Some (e, r)"
proof -
  assume ok: "entry_ok e"
  let ?m = "oct (unat (te_mode e))"
  have rng: "c \<in> set ?m \<Longrightarrow> 48 \<le> c" for c
    using print_base_range[of 8 c "unat (te_mode e)"] by simp
  then have sp: "32 \<notin> set ?m" by fastforce
  have nz: "cstr ?m = ?m"
    using print_base_nul_free[of 8 "unat (te_mode e)"]
    by (auto simp: cstr_def nul_free_def takeWhile_eq_all_conv)
  have nf: "0 \<notin> set (te_path e)" using ok by (simp add: entry_ok_def nul_free_def)
  have val: "strtoul 8 ?m = (of_nat (unat (te_mode e)), [])"
    using strtoul_print[of 8 "[]" "unat (te_mode e)"] unat_u32[of "te_mode e"]
    by (simp add: stops_def)
  have len: "length ?m < 16" using ok length_mode_le[of e] by (simp add: entry_ok_def)
  have md: "ucast (of_nat (unat (te_mode e)) :: u64) = te_mode e"
    by (simp, rule bit_word_eqI, simp add: bit_simps)
  show ?thesis
    using ok sp nf len val nz md
    by (cases e, cases "te_oid e") (simp add: parse_entry_def entry_bytes_def entry_ok_def)
qed

interpretation entryc: codec entry_bytes parse_entry entry_ok
  by unfold_locales (rule parse_entry_bytes)

lemma entry_bytes_nonempty: "entry_bytes e \<noteq> []"
  by (simp add: entry_bytes_def)

lemma qsort_sorted_id: "sorted (map te_path es) \<Longrightarrow> qsort_entries es = es"
  by (simp add: qsort_entries_def sorted_sort_id sort_key_id_if_sorted)

lemma tree_ok_sorted: "tree_ok es \<Longrightarrow> sorted (map te_path es)"
  unfolding tree_ok_def sorted_map by (erule conjE, erule sorted_wrt_mono_rel[rotated]) auto

lemma tree_ok_distinct: "tree_ok es \<Longrightarrow> distinct (map te_path es)"
  unfolding tree_ok_def by (induction es) (auto dest: less_imp_neq)

lemma tree_okI:
  "sorted (map te_path es) \<Longrightarrow> distinct (map te_path es) \<Longrightarrow> \<forall>e \<in> set es. nul_free (te_path e) \<Longrightarrow> tree_ok es"
  unfolding tree_ok_def by (induction es) (auto simp: order.strict_iff_order)

lemma tree_map_perm:
  assumes "mset es = mset fs" "distinct (map te_path es)"
  shows "tree_map es = tree_map fs"
proof -
  have "mset (map te_path es) = mset (map te_path fs)"
    using assms(1) by (metis mset_map)
  then have "distinct (map te_path fs)" using assms(2) by (metis mset_eq_imp_distinct_iff)
  moreover have "set (map (\<lambda>e. (te_path e, e)) es) = set (map (\<lambda>e. (te_path e, e)) fs)"
    using mset_eq_setD[OF assms(1)] by simp
  ultimately show ?thesis
    unfolding tree_map_def using assms(2) by (subst map_of_inject_set) (simp_all add: comp_def)
qed

lemma tree_map_dom: "dom (tree_map es) = te_path ` set es"
  by (simp add: tree_map_def dom_map_of_conv_image_fst image_image)

lemma tree_map_iff: "tree_ok es \<Longrightarrow> tree_map es p = Some e \<longleftrightarrow> e \<in> set es \<and> te_path e = p"
  using tree_ok_distinct[of es]
  by (auto simp: tree_map_def map_of_eq_Some_iff comp_def)

text \<open>Adding a new name: the order stays strict and the map gains the entry.\<close>

lemma tree_add_ok:
  assumes "tree_ok es" "te_path e \<notin> te_path ` set es" "nul_free (te_path e)"
  shows "tree_ok (qsort_entries (es @ [e]))" "tree_map (qsort_entries (es @ [e])) = (tree_map es)(te_path e \<mapsto> e)"
proof -
  let ?s = "qsort_entries (es @ [e])"
  have d: "distinct (map te_path (es @ [e]))"
    using assms tree_ok_distinct by auto
  have m: "mset ?s = mset (es @ [e])" by (simp add: qsort_entries_def)
  have "sorted (map te_path ?s)" by (simp add: qsort_entries_def)
  moreover have "distinct (map te_path ?s)"
    using d m by (metis mset_map mset_eq_imp_distinct_iff)
  moreover have "\<forall>x \<in> set ?s. nul_free (te_path x)"
    using assms mset_eq_setD[OF m] by (auto simp: tree_ok_def)
  ultimately show "tree_ok ?s" by (rule tree_okI)
  have "tree_map ?s = tree_map (es @ [e])" using tree_map_perm[OF m[symmetric] d] by simp
  also have "\<dots> = (tree_map es)(te_path e \<mapsto> e)"
    using assms(2) tree_map_dom[of es]
    by (auto simp: tree_map_def map_add_def fun_eq_iff split: option.splits)
  finally show "tree_map ?s = (tree_map es)(te_path e \<mapsto> e)" .
qed

lemma remove_first_ok:
  assumes "tree_ok es" "nul_free p"
  shows "remove_first p es = (if p \<in> te_path ` set es then Inr (filter (\<lambda>e. te_path e \<noteq> p) es) else Inl ENOENT)"
  using assms
proof (induction es)
  case (Cons e es)
  have ok: "tree_ok es" and lt: "\<forall>x \<in> set es. te_path e < te_path x" and nf: "nul_free (te_path e)"
    using Cons.prems by (auto simp: tree_ok_def)
  have eq: "strcmp (te_path e) p = 0 \<longleftrightarrow> te_path e = p"
    using strcmp_eq_0[OF nf Cons.prems(2)] .
  show ?case
  proof (cases "te_path e = p")
    case True
    then have "filter (\<lambda>x. te_path x \<noteq> p) es = es"
      using lt by (auto simp: filter_id_conv)
    then show ?thesis using True eq by simp
  next
    case False
    then show ?thesis using Cons.IH[OF ok Cons.prems(2)] eq by auto
  qed
qed simp

lemma tree_filter_ok: "tree_ok es \<Longrightarrow> tree_ok (filter P es)"
  by (auto simp: tree_ok_def sorted_wrt_filter)

lemma tree_bsearch:
  assumes "tree_ok es" "nul_free p"
  shows "bsearch (\<lambda>e. strcmp p (te_path e)) es = tree_map es p"
proof (cases "tree_map es p")
  case None
  then have "\<forall>e \<in> set es. te_path e \<noteq> p"
    using tree_map_iff[OF assms(1), of p] by auto
  then have "bsearch (\<lambda>e. strcmp p (te_path e)) es \<noteq> Some e" for e
    using bsearch_SomeD[of "\<lambda>e. strcmp p (te_path e)" es e] strcmp_eq_0[OF assms(2)] assms(1)
    by (auto simp: tree_ok_def)
  then show ?thesis using None by (cases "bsearch (\<lambda>e. strcmp p (te_path e)) es") auto
next
  case (Some e)
  then have e: "e \<in> set es" "te_path e = p" using tree_map_iff[OF assms(1)] by auto
  have "bsearch (\<lambda>e. strcmp p (te_path e)) es = Some e"
    using assms by (intro bsearch_key[where f = te_path and k = p] e)
      (auto simp: tree_ok_def strcmp_less strcmp_greater)
  then show ?thesis using Some by simp
qed

lemma tree_map_filter:
  "tree_ok es \<Longrightarrow> tree_map (filter (\<lambda>e. te_path e \<noteq> p) es) = (tree_map es)(p := None)"
proof
  fix q
  assume ok: "tree_ok es"
  have "tree_map (filter (\<lambda>e. te_path e \<noteq> p) es) q = Some e \<longleftrightarrow> ((tree_map es)(p := None)) q = Some e" for e
    using tree_map_iff[OF ok] tree_map_iff[OF tree_filter_ok[OF ok]] by auto
  then show "tree_map (filter (\<lambda>e. te_path e \<noteq> p) es) q = ((tree_map es)(p := None)) q"
    by (metis not_None_eq)
qed

lemma tree_parse_write:
  assumes "tree_ok es" "\<forall>e \<in> set es. entry_ok e"
  shows "tree_parse_raw (concat (map entry_bytes es)) = Inr es"
  using assms entryc.read_all_enc[of es] qsort_sorted_id[OF tree_ok_sorted]
  by (simp add: tree_parse_raw_def entry_bytes_nonempty)

lemma length_tree_text:
  "length (concat (map entry_bytes es)) = tree_serialize_size es"
  by (induction es) (auto simp: tree_serialize_size_def entry_bytes_def)

section \<open>Properties\<close>



text \<open>
  C34. What the serialiser writes has exactly the size computed for the buffer and is parsed back
  to the same entries, so lookups in the raw object agree with the tree, unless the tree is
  empty: its raw form has size 0, which \<open>ensure_tree_parsed\<close> takes for an already parsed struct.
\<close>

theorem tree_roundtrip:
  assumes "tree_ok es" "\<forall>e \<in> set es. entry_ok e" "nul_free p"
  shows "\<exists>txt. fastgit_tree_content_write (Parsed es) = Inr txt \<and>
    fastgit_tree_content_size (Parsed es) = Inr (length txt) \<and>
    tree_parse_raw txt = Inr es \<and>
    fastgit_tree_entry_by_name (Raw txt) p = (if es = [] then Inl Undefined else Inr (tree_map es p))"
proof -
  let ?t = "concat (map entry_bytes es)"
  have "fastgit_tree_content_write (Parsed es) = Inr ?t"
    using tree_write_ok[of es] assms(2)
    by (simp add: fastgit_tree_content_write_def as_struct_def entry_ok_def)
  moreover have "fastgit_tree_content_size (Parsed es) = Inr (length ?t)"
    by (simp add: fastgit_tree_content_size_def as_struct_def length_tree_text)
  moreover have "fastgit_tree_entry_by_name (Raw ?t) p = (if es = [] then Inl Undefined else Inr (tree_map es p))"
    using tree_parse_write[OF assms(1,2)] tree_bsearch[OF assms(1,3)]
    by (cases es) (auto simp: fastgit_tree_entry_by_name_def ensure_tree_parsed_def
        tree_data_size_def as_struct_def entry_bytes_nonempty entry_bytes_def)
  ultimately show ?thesis using tree_parse_write[OF assms(1,2)] by blast
qed

theorem tree_roundtrip_witness:
  "\<exists>txt. fastgit_tree_content_write (Parsed [\<lparr>te_oid = \<lparr>oid_algo = 1, oid_hash = replicate 32 7\<rparr>,
       te_path = str ''b'', te_mode = 0x81A4\<rparr>]) = Inr txt \<and>
     tree_parse_raw txt = Inr [\<lparr>te_oid = \<lparr>oid_algo = 1, oid_hash = replicate 32 7\<rparr>,
       te_path = str ''b'', te_mode = 0x81A4\<rparr>]"
  using tree_roundtrip[of "[\<lparr>te_oid = \<lparr>oid_algo = 1, oid_hash = replicate 32 7\<rparr>,
       te_path = str ''b'', te_mode = 0x81A4\<rparr>]" "str ''b''"]
  by (auto simp: tree_ok_def entry_ok_def str_def)

end
