(* ===== verification/Commits.thy ===== *)
theory Commits
  imports Trees "HOL-Library.Signed_Division"
begin

unbundle bit_operations_syntax

text \<open>
  Commit and tag objects: \<^verbatim>\<open>src/object/commit.c\<close>, \<^verbatim>\<open>src/object/tag.c\<close> and the signatures of
  \<^verbatim>\<open>src/object/object.c\<close>. Serialising computes a size, allocates it and writes the text: the size
  function and the writer are both modelled, and compared. Parsing reads the text back.
\<close>

section \<open>Signatures\<close>

record signature =
  sig_name :: bytes
  sig_email :: bytes
  sig_when :: int
  sig_offset :: int

text \<open>printf of a signed number, and \<open>%+05d\<close>: the sign and at least four digits.\<close>

definition dec_int :: "int \<Rightarrow> bytes" where
  "dec_int v = (if v < 0 then [45] else []) @ dec (nat \<bar>v\<bar>)"

definition dec_plus05 :: "int \<Rightarrow> bytes" where
  "dec_plus05 v =
     (let d = dec (nat \<bar>v\<bar>)
      in (if v < 0 then [45] else [43]) @ replicate (4 - length d) 48 @ d)"

text \<open>\<open>char timebuf[32]\<close> keeps 31 characters.\<close>

definition sig_timebuf :: "signature \<Rightarrow> bytes" where
  "sig_timebuf s = take 31 (dec_int (sig_when s) @ [32] @ dec_plus05 (sig_offset s))"

definition fastgit_signature_to_buf :: "signature option \<Rightarrow> bytes" where
  "fastgit_signature_to_buf sg =
     (case sg of None \<Rightarrow> []
      | Some s \<Rightarrow> sig_name s @ [32, 60] @ sig_email s @ [62, 32] @ sig_timebuf s)"

text \<open>
  atoi and atoll: white space, a sign, digits. A value outside the type has undefined behaviour.
\<close>

definition ato :: "int \<Rightarrow> int \<Rightarrow> bytes \<Rightarrow> int res" where
  "ato lo hi s =
     (let s1 = dropWhile isspace s;
          s2 = (if s1 \<noteq> [] \<and> (hd s1 = 45 \<or> hd s1 = 43) then tl s1 else s1);
          n = int (fst (read_digits 10 0 s2));
          v = (if s1 \<noteq> [] \<and> hd s1 = 45 then - n else n)
      in if lo \<le> v \<and> v \<le> hi then Inr v else Inl Undefined)"

definition atoll :: "bytes \<Rightarrow> int res" where
  "atoll = ato (- (2 ^ 63)) (2 ^ 63 - 1)"

definition atoi :: "bytes \<Rightarrow> int res" where
  "atoi = ato (- (2 ^ 31)) (2 ^ 31 - 1)"

text \<open>strrchr as a split at the last occurrence.\<close>

definition rsplit_at :: "byte \<Rightarrow> bytes \<Rightarrow> (bytes \<times> bytes) option" where
  "rsplit_at c s = map_option (\<lambda>(b, a). (rev a, rev b)) (split_at c (rev s))"

definition strip_spaces :: "bytes \<Rightarrow> bytes" where
  "strip_spaces s = rev (dropWhile (\<lambda>c. c = 32) (rev s))"

definition parse_tz :: "bytes \<Rightarrow> int res" where
  "parse_tz tz_s =
     (case tz_s of
        [] \<Rightarrow> Inr 0
      | c # r \<Rightarrow>
          if c = 43 \<or> c = 45 then
            bindr (atoi r) (\<lambda>v.
              Inr ((if c = 45 then - 1 else 1) * (v sdiv 100 * 60 + v smod 100)))
          else Inr 0)"

definition fastgit_signature_new :: "bytes \<Rightarrow> bytes \<Rightarrow> int \<Rightarrow> int \<Rightarrow> signature" where
  "fastgit_signature_new nm em w tz =
     \<lparr>sig_name = nm, sig_email = em, sig_when = w, sig_offset = tz\<rparr>"

definition parse_signature_buf :: "bytes \<Rightarrow> signature res" where
  "parse_signature_buf buf =
     (case split_at 60 buf of
        None \<Rightarrow> Inl EINVAL
      | Some (nm, r) \<Rightarrow>
          (case split_at 62 r of
             None \<Rightarrow> Inl EINVAL
           | Some (em, r2) \<Rightarrow>
               (case rsplit_at 32 (cstr (dropWhile (\<lambda>c. c = 32) r2)) of
                  None \<Rightarrow> Inl EINVAL
                | Some (when_s, tz_s) \<Rightarrow>
                    bindr (atoll when_s) (\<lambda>w.
                    bindr (parse_tz tz_s) (\<lambda>tz.
                      Inr (fastgit_signature_new (cstr (strip_spaces nm)) (cstr em) w tz))))))"

section \<open>Commits\<close>

record commit =
  c_tree :: oid
  c_parents :: "oid list"
  c_author :: "signature option"
  c_committer :: "signature option"
  c_message :: "bytes option"
  c_encoding :: "bytes option"
  c_gpg_signature :: "bytes option"

definition commit_serialize_size :: "commit \<Rightarrow> nat" where
  "commit_serialize_size c =
     5 + length (oid_hash (c_tree c)) * 2 + 1
     + sum_list (map (\<lambda>p. 7 + length (oid_hash p) * 2 + 1) (c_parents c))
     + (7 + length (fastgit_signature_to_buf (c_author c)) + 1)
     + (10 + length (fastgit_signature_to_buf (c_committer c)) + 1)
     + (case c_encoding c of None \<Rightarrow> 0 | Some e \<Rightarrow> 9 + length e + 1)
     + (case c_message c of None \<Rightarrow> 0 | Some m \<Rightarrow> 1 + length m)
     + (case c_gpg_signature c of None \<Rightarrow> 0 | Some g \<Rightarrow> 1 + length g)"

text \<open>\<open>char oid_hex[129]\<close>: ids of up to 64 bytes; with more nothing is written to it.\<close>

definition hex_line :: "string \<Rightarrow> oid \<Rightarrow> bytes res" where
  "hex_line key x =
     (case fastgit_oid_to_hex x 129 of None \<Rightarrow> Inl Undefined | Some h \<Rightarrow> Inr (str key @ h @ [10]))"

definition commit_serialize_write :: "commit \<Rightarrow> bytes res" where
  "commit_serialize_write c =
     bindr (hex_line ''tree '' (c_tree c)) (\<lambda>t.
     bindr (mapr (hex_line ''parent '') (c_parents c)) (\<lambda>ps.
       Inr (t @ concat ps
         @ str ''author '' @ fastgit_signature_to_buf (c_author c) @ [10]
         @ str ''committer '' @ fastgit_signature_to_buf (c_committer c) @ [10]
         @ (case c_encoding c of None \<Rightarrow> [] | Some e \<Rightarrow> str ''encoding '' @ e @ [10])
         @ (case c_gpg_signature c of None \<Rightarrow> [] | Some g \<Rightarrow> [10] @ str ''gpgsig '' @ g @ [10])
         @ [10]
         @ (case c_message c of None \<Rightarrow> [] | Some m \<Rightarrow> m))))"

text \<open>A line of hex that is an object id; every failure becomes EINVAL.\<close>

definition parse_hex_line :: "bytes \<Rightarrow> (oid \<times> bytes) res" where
  "parse_hex_line s =
     (case split_at 10 s of
        None \<Rightarrow> Inl EINVAL
      | Some (h, r) \<Rightarrow>
          if 129 \<le> length h then Inl EINVAL
          else (case fastgit_oid_from_hex (cstr h) of Inl _ \<Rightarrow> Inl EINVAL | Inr x \<Rightarrow> Inr (x, r)))"

lemma parse_hex_line_length: "parse_hex_line s = Inr (x, r) \<Longrightarrow> length r < length s"
  by (auto simp: parse_hex_line_def dest: split_at_length split: option.splits if_splits sum.splits)

definition has_prefix :: "string \<Rightarrow> bytes \<Rightarrow> bool" where
  "has_prefix key s \<longleftrightarrow> length key \<le> length s \<and> take (length key) s = str key"

function parse_parents :: "bytes \<Rightarrow> oid list \<Rightarrow> (oid list \<times> bytes) res" where
  "parse_parents s acc =
     (if has_prefix ''parent '' s then
        (case parse_hex_line (drop 7 s) of
           Inl e \<Rightarrow> Inl e
         | Inr (x, r) \<Rightarrow> parse_parents r (acc @ [x]))
      else Inr (acc, s))"
  by pat_completeness auto
termination
  by (relation "measure (\<lambda>(s, acc). length s)") (auto dest: parse_hex_line_length)

declare parse_parents.simps [simp del]

definition parse_sig_line :: "string \<Rightarrow> bytes \<Rightarrow> (signature \<times> bytes) res" where
  "parse_sig_line key s =
     (if \<not> has_prefix key s then Inl EINVAL
      else (case split_at 10 (drop (length key) s) of
          None \<Rightarrow> Inl EINVAL
        | Some (l, r) \<Rightarrow> (case parse_signature_buf l of
              Inl e \<Rightarrow> Inl (if e = Undefined then Undefined else EINVAL)
            | Inr sg \<Rightarrow> Inr (sg, r))))"

text \<open>The optional headers up to the blank line; the result is encoding, signature, rest.\<close>

function parse_headers :: "bytes \<Rightarrow> bytes option \<Rightarrow> bytes option \<Rightarrow> bytes option \<times> bytes option \<times> bytes" where
  "parse_headers s enc gpg =
     (if s = [] then (enc, gpg, s)
      else if hd s = 10 then (enc, gpg, tl s)
      else (case split_at 10 s of
          None \<Rightarrow> (enc, gpg, s)
        | Some (l, r) \<Rightarrow>
            if has_prefix ''encoding '' l then parse_headers r (Some (cstr (drop 9 l))) gpg
            else if has_prefix ''gpgsig '' l then parse_headers r enc (Some (cstr (drop 7 l)))
            else parse_headers r enc gpg))"
  by pat_completeness auto
termination
  by (relation "measure (\<lambda>(s, e, g). length s)") (auto dest: split_at_length)

declare parse_headers.simps [simp del]

definition commit_parse_raw :: "bytes \<Rightarrow> commit res" where
  "commit_parse_raw s =
     (if \<not> has_prefix ''tree '' s then Inl EINVAL
      else bindr (parse_hex_line (drop 5 s)) (\<lambda>(t, s1).
        bindr (parse_parents s1 []) (\<lambda>(ps, s2).
        bindr (parse_sig_line ''author '' s2) (\<lambda>(au, s3).
        bindr (parse_sig_line ''committer '' s3) (\<lambda>(cm, s4).
          (case parse_headers s4 None None of (enc, gpg, rest) \<Rightarrow>
             Inr \<lparr>c_tree = t, c_parents = ps, c_author = Some au, c_committer = Some cm,
                  c_message = Some (cstr rest), c_encoding = enc, c_gpg_signature = gpg\<rparr>))))))"

section \<open>Tags\<close>

record tag =
  t_object :: oid
  t_type :: obj_type
  t_name :: "bytes option"
  t_tagger :: "signature option"
  t_message :: "bytes option"
  t_gpg_signature :: "bytes option"

text \<open>strlen of a null name, of a missing type name, or of an unwritten hex buffer is undefined.\<close>

definition tag_head :: "tag \<Rightarrow> (bytes \<times> bytes \<times> bytes) res" where
  "tag_head t =
     (case (fastgit_oid_to_hex (t_object t) 129, fastgit_obj_type_name (t_type t), t_name t) of
        (Some h, Some ty, Some n) \<Rightarrow> Inr (h, str ty, n)
      | _ \<Rightarrow> Inl Undefined)"

definition tag_serialize_size :: "tag \<Rightarrow> nat res" where
  "tag_serialize_size t =
     bindr (tag_head t) (\<lambda>(h, ty, n).
       Inr (7 + length h + 1 + (5 + length ty + 1) + (4 + length n + 1)
         + (case t_tagger t of None \<Rightarrow> 0
            | Some sg \<Rightarrow> 7 + length (fastgit_signature_to_buf (Some sg)) + 1)
         + (case t_message t of None \<Rightarrow> 0 | Some m \<Rightarrow> 1 + length m)
         + (case t_gpg_signature t of None \<Rightarrow> 0 | Some g \<Rightarrow> 1 + length g)))"

definition tag_serialize_write :: "tag \<Rightarrow> bytes res" where
  "tag_serialize_write t =
     bindr (tag_head t) (\<lambda>(h, ty, n).
       Inr (str ''object '' @ h @ [10] @ str ''type '' @ ty @ [10] @ str ''tag '' @ n @ [10]
         @ (case t_tagger t of None \<Rightarrow> []
            | Some sg \<Rightarrow> str ''tagger '' @ fastgit_signature_to_buf (Some sg) @ [10])
         @ [10]
         @ (case t_message t of None \<Rightarrow> [] | Some m \<Rightarrow> m)
         @ (case t_gpg_signature t of None \<Rightarrow> []
            | Some g \<Rightarrow> [10] @ str ''-----BEGIN PGP SIGNATURE-----'' @ [10] @ g @ [10]
                @ str ''-----END PGP SIGNATURE-----'')))"

section \<open>Signatures are read back, with their offset taken for hours and minutes\<close>

definition hhmm :: "int \<Rightarrow> int" where
  "hhmm off = sgn off * (\<bar>off\<bar> div 100 * 60 + \<bar>off\<bar> mod 100)"

definition sig_ok :: "signature \<Rightarrow> bool" where
  "sig_ok s \<longleftrightarrow> nul_free (sig_name s) \<and> nul_free (sig_email s) \<and>
     60 \<notin> set (sig_name s) \<and> 10 \<notin> set (sig_name s) \<and> (sig_name s \<noteq> [] \<longrightarrow> last (sig_name s) \<noteq> 32) \<and>
     62 \<notin> set (sig_email s) \<and> 10 \<notin> set (sig_email s) \<and>
     - (2 ^ 63) \<le> sig_when s \<and> sig_when s < 2 ^ 63 \<and> \<bar>sig_offset s\<bar> < 10000"

lemma read_digits_zeros: "read_digits 10 0 (replicate k 48 @ s) = read_digits 10 0 s"
  by (induction k) (auto simp: digit_val_def)

lemma read_dec: "read_digits 10 0 (dec n) = (n, [])"
  using read_print_base[of 10 "[]" n] by (simp add: stops_def)

lemma dec_chars: "c \<in> set (dec n) \<Longrightarrow> 48 \<le> c \<and> c \<le> 122"
  using print_base_range[of 10 c n] by simp

lemma dec_head: obtains c cs where "dec n = c # cs" "48 \<le> c" "c \<le> 122"
  using dec_chars[of _ n] by (cases "dec n") auto

lemma dec_char_simps:
  "48 \<le> c \<Longrightarrow> c \<noteq> 45 \<and> c \<noteq> 43 \<and> c \<noteq> 32 \<and> c \<noteq> 10 \<and> c \<noteq> 0 \<and> \<not> isspace (c :: byte)"
  by (auto simp: isspace_def word_le_nat_alt)

lemma ato_dec_int: "lo \<le> v \<Longrightarrow> v \<le> hi \<Longrightarrow> ato lo hi (dec_int v) = Inr v"
proof -
  assume v: "lo \<le> v" "v \<le> hi"
  obtain c cs where c: "dec (nat \<bar>v\<bar>) = c # cs" "48 \<le> c" by (rule dec_head)
  have r: "read_digits 10 0 (c # cs) = (nat \<bar>v\<bar>, [])" using read_dec[of "nat \<bar>v\<bar>"] c by simp
  show ?thesis
    using v dec_char_simps[OF c(2)] r
    by (auto simp: ato_def dec_int_def c(1) Let_def isspace_def)
qed

lemma ato_zeros_dec:
  assumes "int n \<le> hi" "lo \<le> 0"
  shows "ato lo hi (replicate k 48 @ dec n) = Inr (int n)"
proof -
  obtain c cs where c: "replicate k 48 @ dec n = c # cs" "48 \<le> c"
    using dec_chars[of "hd (dec n)" n] by (cases k; cases "dec n") auto
  have "read_digits 10 0 (c # cs) = (n, [])"
    unfolding c(1)[symmetric] by (simp add: read_digits_zeros read_dec)
  then show ?thesis
    using assms dec_char_simps[OF c(2)] unfolding c(1) by (simp add: ato_def Let_def)
qed

lemma parse_tz_plus05: "\<bar>off\<bar> < 10000 \<Longrightarrow> parse_tz (dec_plus05 off) = Inr (hhmm off)"
proof -
  assume b: "\<bar>off\<bar> < 10000"
  have a: "atoi (replicate (4 - length (dec (nat \<bar>off\<bar>))) 48 @ dec (nat \<bar>off\<bar>)) = Inr \<bar>off\<bar>"
    using b ato_zeros_dec[of "nat \<bar>off\<bar>" "2 ^ 31 - 1" "- (2 ^ 31)"] by (simp add: atoi_def)
  have s: "\<bar>off\<bar> sdiv 100 * 60 + \<bar>off\<bar> smod 100 = \<bar>off\<bar> div 100 * 60 + \<bar>off\<bar> mod 100"
    by (simp add: signed_divide_int_def signed_modulo_int_def sgn_if)
  show ?thesis
    using a s by (auto simp: parse_tz_def dec_plus05_def Let_def hhmm_def sgn_if)
qed

lemma length_dec_int: "- (2 ^ 63) \<le> w \<Longrightarrow> w < 2 ^ 63 \<Longrightarrow> length (dec_int w) \<le> 20"
proof -
  assume "- (2 ^ 63) \<le> w" "w < 2 ^ 63"
  then have "nat \<bar>w\<bar> < 10 ^ 19" by (simp add: nat_less_iff)
  then have "length (dec (nat \<bar>w\<bar>)) \<le> 19" by (intro length_print_base_le) simp_all
  then show ?thesis by (cases "w < 0") (simp_all add: dec_int_def)
qed

lemma length_plus05: "\<bar>off\<bar> < 10000 \<Longrightarrow> length (dec_plus05 off) = 5"
  using length_print_base_le[of 10 4 "nat \<bar>off\<bar>"] by (simp add: dec_plus05_def Let_def)

lemma sig_timebuf_ok: "sig_ok s \<Longrightarrow> sig_timebuf s = dec_int (sig_when s) @ [32] @ dec_plus05 (sig_offset s)"
  using length_dec_int[of "sig_when s"] length_plus05[of "sig_offset s"]
  by (auto simp: sig_timebuf_def sig_ok_def)

lemma dec_int_chars: "c \<in> set (dec_int v) \<Longrightarrow> c \<noteq> 32 \<and> c \<noteq> 10 \<and> c \<noteq> 0"
  using dec_chars[of c "nat \<bar>v\<bar>"] dec_char_simps[of c] by (auto simp: dec_int_def split: if_splits)

lemma dec_plus05_chars: "c \<in> set (dec_plus05 v) \<Longrightarrow> c \<noteq> 32 \<and> c \<noteq> 10 \<and> c \<noteq> 0"
  using dec_chars[of c "nat \<bar>v\<bar>"] dec_char_simps[of c]
  by (auto simp: dec_plus05_def Let_def split: if_splits)

lemma rsplit_at_append: "c \<notin> set b \<Longrightarrow> rsplit_at c (a @ [c] @ b) = Some (a, b)"
  using split_at_append[of c "rev b" "rev a"] by (simp add: rsplit_at_def)

lemma strip_spaces_snoc: "(nm \<noteq> [] \<longrightarrow> last nm \<noteq> 32) \<Longrightarrow> strip_spaces (nm @ [32]) = nm"
  by (cases nm rule: rev_cases) (auto simp: strip_spaces_def)

lemma cstr_id: "nul_free s \<Longrightarrow> cstr s = s"
  by (auto simp: cstr_def nul_free_def takeWhile_eq_all_conv)

lemma parse_signature_print:
  assumes "sig_ok s"
  shows "parse_signature_buf (fastgit_signature_to_buf (Some s)) = Inr (s\<lparr>sig_offset := hhmm (sig_offset s)\<rparr>)"
proof -
  let ?t = "dec_int (sig_when s) @ [32] @ dec_plus05 (sig_offset s)"
  have nm: "60 \<notin> set (sig_name s @ [32])" "62 \<notin> set (sig_email s)" using assms by (auto simp: sig_ok_def)
  have 1: "split_at 60 (fastgit_signature_to_buf (Some s))
      = Some (sig_name s @ [32], sig_email s @ 62 # 32 # ?t)"
    using split_at_append[OF nm(1), of "sig_email s @ 62 # 32 # ?t"]
    by (simp add: fastgit_signature_to_buf_def sig_timebuf_ok[OF assms])
  have 2: "split_at 62 (sig_email s @ 62 # 32 # ?t) = Some (sig_email s, 32 # ?t)"
    using split_at_append[OF nm(2)] by simp
  have "dec_int (sig_when s) \<noteq> []" by (simp add: dec_int_def)
  then have "hd ?t \<noteq> 32" "?t \<noteq> []"
    using dec_int_chars[OF hd_in_set, of "sig_when s"] by simp_all
  then have 3: "dropWhile (\<lambda>c. c = 32) (32 # ?t) = ?t" by (cases ?t) auto
  have 4: "cstr ?t = ?t"
    using dec_int_chars dec_plus05_chars by (intro cstr_id) (auto simp: nul_free_def)
  have 5: "rsplit_at 32 ?t = Some (dec_int (sig_when s), dec_plus05 (sig_offset s))"
    using dec_plus05_chars by (intro rsplit_at_append) blast
  have 6: "atoll (dec_int (sig_when s)) = Inr (sig_when s)"
    using assms by (simp add: atoll_def sig_ok_def ato_dec_int)
  have 7: "parse_tz (dec_plus05 (sig_offset s)) = Inr (hhmm (sig_offset s))"
    using assms by (simp add: sig_ok_def parse_tz_plus05)
  have 8: "cstr (strip_spaces (sig_name s @ [32])) = sig_name s" "cstr (sig_email s) = sig_email s"
    using assms by (simp_all add: sig_ok_def strip_spaces_snoc cstr_id)
  show ?thesis
    unfolding parse_signature_buf_def 1 option.case prod.case 2 3 4 5 6 7 8 bindr_simps
      fastgit_signature_new_def
    by simp
qed

lemma sig_text_no_nl: "sig_ok s \<Longrightarrow> 10 \<notin> set (fastgit_signature_to_buf (Some s))"
  using dec_int_chars[of 10] dec_plus05_chars[of 10]
  by (auto simp: fastgit_signature_to_buf_def sig_timebuf_ok sig_ok_def)

section \<open>Reading a commit back\<close>

definition oid_plain :: "oid \<Rightarrow> bool" where
  "oid_plain x \<longleftrightarrow> length (oid_hash x) \<le> 64 \<and> oid_algo x = infer_algo (length (oid_hash x))"

lemma has_prefix_str [simp]: "has_prefix key (str key @ s)"
  by (simp add: has_prefix_def)

lemma hex_no_nl: "10 \<notin> set (bytes_to_hex d)"
proof (induction d)
  case (Cons b d)
  have "hex_char n \<noteq> 10" if "n < 16" for n
    using hex_val_char[OF that] by (auto simp: hex_val_def)
  then show ?case using Cons nibbles by auto
qed simp

lemma hex_line_ok: "length (oid_hash x) \<le> 64 \<Longrightarrow> hex_line key x = Inr (str key @ bytes_to_hex (oid_hash x) @ [10])"
  by (simp add: hex_line_def fastgit_oid_to_hex_def)

lemma parse_hex_line_print: "oid_plain x \<Longrightarrow> parse_hex_line (bytes_to_hex (oid_hash x) @ 10 # r) = Inr (x, r)"
  by (cases x)
    (simp add: parse_hex_line_def hex_no_nl oid_plain_def cstr_id bytes_to_hex_nul_free fastgit_oid_from_hex_def)

lemma parse_parents_print:
  assumes "\<forall>x \<in> set ps. oid_plain x" "\<not> has_prefix ''parent '' r"
  shows "parse_parents (concat (map (\<lambda>x. str ''parent '' @ bytes_to_hex (oid_hash x) @ [10]) ps) @ r) acc
    = Inr (acc @ ps, r)"
  using assms(1)
proof (induction ps arbitrary: acc)
  case Nil
  then show ?case using assms(2) by (subst parse_parents.simps) simp
next
  case (Cons x ps)
  let ?r = "concat (map (\<lambda>x. str ''parent '' @ bytes_to_hex (oid_hash x) @ [10]) ps) @ r"
  have "parse_hex_line (drop 7 (str ''parent '' @ bytes_to_hex (oid_hash x) @ 10 # ?r)) = Inr (x, ?r)"
    using Cons.prems parse_hex_line_print[of x ?r] by simp
  then show ?case
    using Cons by (subst parse_parents.simps) simp
qed

lemma parse_sig_line_print:
  assumes "sig_ok s"
  shows "parse_sig_line key (str key @ fastgit_signature_to_buf (Some s) @ 10 # r)
    = Inr (s\<lparr>sig_offset := hhmm (sig_offset s)\<rparr>, r)"
  using split_at_append[OF sig_text_no_nl[OF assms], of r] parse_signature_print[OF assms]
  by (simp add: parse_sig_line_def)

definition enc_text :: "bytes option \<Rightarrow> bytes" where
  "enc_text e = (case e of None \<Rightarrow> [] | Some e \<Rightarrow> str ''encoding '' @ e @ [10])"

lemma parse_headers_print:
  assumes "\<forall>e. enc = Some e \<longrightarrow> nul_free e \<and> 10 \<notin> set e"
  shows "parse_headers (enc_text enc @ 10 # m) None None = (enc, None, m)"
proof (cases enc)
  case None
  then show ?thesis by (subst parse_headers.simps) (simp add: enc_text_def)
next
  case (Some e)
  let ?l = "str ''encoding '' @ e"
  have l: "10 \<notin> set ?l" using assms Some by (simp add: str_def)
  have sp: "split_at 10 (?l @ 10 # 10 # m) = Some (?l, 10 # m)" by (rule split_at_append[OF l])
  have hd: "?l @ 10 # 10 # m \<noteq> []" "hd (?l @ 10 # 10 # m) \<noteq> 10"
    by (simp_all add: str_Cons)
  have e: "cstr (drop 9 ?l) = e" using assms Some by (simp add: cstr_id)
  have "parse_headers (?l @ 10 # 10 # m) None None = parse_headers (10 # m) (Some e) None"
    using hd sp e by (subst parse_headers.simps) simp
  then show ?thesis using Some by (simp add: enc_text_def parse_headers.simps)
qed

text \<open>Commits without a signature, as the program makes them.\<close>

definition commit_ok :: "commit \<Rightarrow> signature \<Rightarrow> signature \<Rightarrow> bytes \<Rightarrow> bool" where
  "commit_ok c au cm m \<longleftrightarrow>
     oid_plain (c_tree c) \<and> (\<forall>x \<in> set (c_parents c). oid_plain x) \<and>
     c_author c = Some au \<and> sig_ok au \<and> c_committer c = Some cm \<and> sig_ok cm \<and>
     c_message c = Some m \<and> nul_free m \<and>
     (\<forall>e. c_encoding c = Some e \<longrightarrow> nul_free e \<and> 10 \<notin> set e) \<and> c_gpg_signature c = None"

lemma commit_write_eq:
  assumes "length (oid_hash (c_tree c)) \<le> 64" "\<forall>x \<in> set (c_parents c). length (oid_hash x) \<le> 64"
  shows "commit_serialize_write c = Inr (
      (str ''tree '' @ bytes_to_hex (oid_hash (c_tree c)) @ [10])
      @ concat (map (\<lambda>x. str ''parent '' @ bytes_to_hex (oid_hash x) @ [10]) (c_parents c))
      @ str ''author '' @ fastgit_signature_to_buf (c_author c) @ [10]
      @ str ''committer '' @ fastgit_signature_to_buf (c_committer c) @ [10]
      @ enc_text (c_encoding c)
      @ (case c_gpg_signature c of None \<Rightarrow> [] | Some g \<Rightarrow> [10] @ str ''gpgsig '' @ g @ [10])
      @ [10] @ (case c_message c of None \<Rightarrow> [] | Some m \<Rightarrow> m))"
proof -
  have "mapr (hex_line ''parent '') (c_parents c)
      = Inr (map (\<lambda>x. str ''parent '' @ bytes_to_hex (oid_hash x) @ [10]) (c_parents c))"
    using assms(2) by (intro mapr_Inr) (simp add: hex_line_ok)
  then show ?thesis
    using assms(1) by (simp add: commit_serialize_write_def hex_line_ok enc_text_def)
qed

lemma length_parents:
  "length (concat (map (\<lambda>x. str ''parent '' @ bytes_to_hex (oid_hash x) @ [10]) ps))
   = sum_list (map (\<lambda>p. 7 + length (oid_hash p) * 2 + 1) ps)"
  by (induction ps) simp_all

section \<open>Properties\<close>

text \<open>
  C23. A commit with a message and no PGP signature serialises into exactly the allocated size and
  is parsed back to the same commit, except that the time zone offset, written in minutes
  (\<open>%+05d\<close>), is read as hours and minutes.
\<close>

theorem commit_roundtrip:
  assumes "commit_ok c au cm m"
  shows "\<exists>txt. commit_serialize_write c = Inr txt \<and> length txt = commit_serialize_size c \<and>
    commit_parse_raw txt = Inr (c\<lparr>c_author := Some (au\<lparr>sig_offset := hhmm (sig_offset au)\<rparr>),
                                  c_committer := Some (cm\<lparr>sig_offset := hhmm (sig_offset cm)\<rparr>)\<rparr>)"
proof -
  let ?a = "fastgit_signature_to_buf (Some au)" and ?c = "fastgit_signature_to_buf (Some cm)"
  let ?r1 = "enc_text (c_encoding c) @ 10 # m"
  let ?r2 = "str ''committer '' @ ?c @ 10 # ?r1"
  let ?r3 = "str ''author '' @ ?a @ 10 # ?r2"
  let ?ps = "concat (map (\<lambda>x. str ''parent '' @ bytes_to_hex (oid_hash x) @ [10]) (c_parents c))"
  let ?txt = "str ''tree '' @ bytes_to_hex (oid_hash (c_tree c)) @ 10 # ?ps @ ?r3"
  have w: "commit_serialize_write c = Inr ?txt"
    using assms by (simp add: commit_write_eq commit_ok_def oid_plain_def)
  have l: "length ?txt = commit_serialize_size c"
    using assms
    by (simp add: commit_serialize_size_def commit_ok_def length_parents enc_text_def split: option.splits)
  have np: "\<not> has_prefix ''parent '' ?r3" by (simp add: has_prefix_def str_Cons)
  have p1: "parse_hex_line (drop 5 ?txt) = Inr (c_tree c, ?ps @ ?r3)"
    using assms parse_hex_line_print[of "c_tree c" "?ps @ ?r3"] by (simp add: commit_ok_def)
  have p2: "parse_parents (?ps @ ?r3) [] = Inr (c_parents c, ?r3)"
    using parse_parents_print[OF _ np, of "c_parents c" "[]"] assms by (simp add: commit_ok_def)
  have p3: "parse_sig_line ''author '' ?r3 = Inr (au\<lparr>sig_offset := hhmm (sig_offset au)\<rparr>, ?r2)"
    using assms parse_sig_line_print by (simp add: commit_ok_def)
  have p4: "parse_sig_line ''committer '' ?r2 = Inr (cm\<lparr>sig_offset := hhmm (sig_offset cm)\<rparr>, ?r1)"
    using assms parse_sig_line_print by (simp add: commit_ok_def)
  have p5: "parse_headers ?r1 None None = (c_encoding c, None, m)"
    using assms by (intro parse_headers_print) (auto simp: commit_ok_def)
  have "commit_parse_raw ?txt = Inr \<lparr>c_tree = c_tree c, c_parents = c_parents c,
      c_author = Some (au\<lparr>sig_offset := hhmm (sig_offset au)\<rparr>),
      c_committer = Some (cm\<lparr>sig_offset := hhmm (sig_offset cm)\<rparr>), c_message = Some (cstr m),
      c_encoding = c_encoding c, c_gpg_signature = None\<rparr>"
    unfolding commit_parse_raw_def p1
    by (simp only: has_prefix_str not_True_eq_False if_False bindr_simps prod.case p2 p3 p4 p5)
  then show ?thesis
    using w l assms by (cases c) (simp add: commit_ok_def cstr_id)
qed

theorem commit_roundtrip_witness:
  "let s = \<lparr>sig_name = str ''A B'', sig_email = str ''a@b'', sig_when = 1700000000, sig_offset = 330\<rparr>;
       x = \<lparr>oid_algo = 1, oid_hash = replicate 32 0xAB\<rparr>;
       c = \<lparr>c_tree = x, c_parents = [x], c_author = Some s, c_committer = Some s,
            c_message = Some (str ''hi''), c_encoding = None, c_gpg_signature = None\<rparr>
   in \<exists>txt. commit_serialize_write c = Inr txt \<and>
        commit_parse_raw txt = Inr (c\<lparr>c_author := Some (s\<lparr>sig_offset := 210\<rparr>),
                                      c_committer := Some (s\<lparr>sig_offset := 210\<rparr>)\<rparr>)"
proof -
  let ?s = "\<lparr>sig_name = str ''A B'', sig_email = str ''a@b'', sig_when = 1700000000, sig_offset = 330\<rparr>"
  let ?x = "\<lparr>oid_algo = 1, oid_hash = replicate 32 0xAB\<rparr>"
  let ?c = "\<lparr>c_tree = ?x, c_parents = [?x], c_author = Some ?s, c_committer = Some ?s,
            c_message = Some (str ''hi''), c_encoding = None, c_gpg_signature = None\<rparr>"
  have "commit_ok ?c ?s ?s (str ''hi'')"
    by (simp add: commit_ok_def oid_plain_def infer_algo_def sig_ok_def str_def)
  moreover have "hhmm 330 = 210" by (simp add: hhmm_def)
  ultimately show ?thesis using commit_roundtrip[of ?c ?s ?s "str ''hi''"] by (auto simp: Let_def)
qed

text \<open>
  The size allocated for a commit is too small by 8 bytes when it carries a PGP signature (the
  keyword and newline are not counted) and by 1 when it has no message (the blank line is always
  written): exactly then the writer runs past the buffer. Tags lack 58 bytes for a signature and
  1 for a missing message.
\<close>

theorem serialize_size_gap:
  assumes "length (oid_hash (c_tree c)) \<le> 64" "\<forall>x \<in> set (c_parents c). length (oid_hash x) \<le> 64"
    and "tag_head t = Inr h"
  shows "(\<exists>txt. commit_serialize_write c = Inr txt \<and>
      length txt = commit_serialize_size c
        + (if c_gpg_signature c = None then 0 else 8) + (if c_message c = None then 1 else 0))
    \<and> (\<exists>txt n. tag_serialize_write t = Inr txt \<and> tag_serialize_size t = Inr n \<and>
      length txt = n + (if t_gpg_signature t = None then 0 else 58) + (if t_message t = None then 1 else 0))"
proof (intro conjI)
  show "\<exists>txt. commit_serialize_write c = Inr txt \<and>
      length txt = commit_serialize_size c
        + (if c_gpg_signature c = None then 0 else 8) + (if c_message c = None then 1 else 0)"
    using assms(1,2)
    by (simp add: commit_write_eq commit_serialize_size_def length_parents enc_text_def split: option.splits)
  obtain a b n where h: "h = (a, b, n)" by (cases h) auto
  show "\<exists>txt n. tag_serialize_write t = Inr txt \<and> tag_serialize_size t = Inr n \<and>
      length txt = n + (if t_gpg_signature t = None then 0 else 58) + (if t_message t = None then 1 else 0)"
    using assms(3)
    by (simp add: h tag_serialize_write_def tag_serialize_size_def split: option.splits)
qed

theorem serialize_size_gap_witness:
  "let x = \<lparr>oid_algo = 1, oid_hash = replicate 32 0\<rparr>;
       c = \<lparr>c_tree = x, c_parents = [], c_author = None, c_committer = None,
            c_message = Some [], c_encoding = None, c_gpg_signature = Some (str ''s'')\<rparr>
   in \<exists>txt. commit_serialize_write c = Inr txt \<and> length txt = commit_serialize_size c + 8"
proof -
  let ?x = "\<lparr>oid_algo = 1, oid_hash = replicate 32 0\<rparr>"
  let ?c = "\<lparr>c_tree = ?x, c_parents = [], c_author = None, c_committer = None,
            c_message = Some [], c_encoding = None, c_gpg_signature = Some (str ''s'')\<rparr>"
  let ?t = "\<lparr>t_object = ?x, t_type = COMMIT, t_name = Some [], t_tagger = None, t_message = None,
            t_gpg_signature = None\<rparr>"
  obtain h where "tag_head ?t = Inr h"
    by (simp add: tag_head_def fastgit_oid_to_hex_def)
  then show ?thesis using serialize_size_gap[of ?c ?t h] by (auto simp: Let_def)
qed

end
