(* ===== verification/ObjectIO.thy ===== *)
theory ObjectIO
  imports Commits
begin

text \<open>
  The object front end of \<^verbatim>\<open>src/object/object.c\<close> and \<^verbatim>\<open>src/object/blob.c\<close>: creating objects,
  serialising them with their header, and naming them by the hash of the serialised form.
\<close>

section \<open>Objects\<close>

text \<open>
  \<open>data\<close> points to raw content or to one of the structs; the field \<open>size\<close> is 0 for a struct and the
  length for raw content, and is what the code tests.
\<close>

datatype obj_data = Raw_data bytes | Tree_data "tree_entry list" | Commit_data commit | Tag_data tag

record object =
  o_type :: obj_type
  o_data :: obj_data

definition o_size :: "object \<Rightarrow> nat" where
  "o_size x = (case o_data x of Raw_data b \<Rightarrow> length b | _ \<Rightarrow> 0)"

definition fastgit_object_parse :: "obj_type \<Rightarrow> bytes \<Rightarrow> object" where
  "fastgit_object_parse ty data = \<lparr>o_type = ty, o_data = Raw_data data\<rparr>"

definition fastgit_blob_create :: "bytes \<Rightarrow> object" where
  "fastgit_blob_create data = \<lparr>o_type = BLOB, o_data = Raw_data data\<rparr>"

definition fastgit_commit_create :: "commit \<Rightarrow> object" where
  "fastgit_commit_create c = \<lparr>o_type = COMMIT, o_data = Commit_data c\<rparr>"

definition fastgit_tag_create :: "tag \<Rightarrow> object" where
  "fastgit_tag_create t = \<lparr>o_type = TAG, o_data = Tag_data t\<rparr>"

text \<open>A file: the open fails, or fstat and read give a size and the bytes read.\<close>

definition fastgit_blob_create_from_file :: "(nat \<times> bytes) option option \<Rightarrow> object res" where
  "fastgit_blob_create_from_file file =
     (case file of
        None \<Rightarrow> Inl ENOENT
      | Some None \<Rightarrow> Inl EIO
      | Some (Some (len, data)) \<Rightarrow>
          if length data \<noteq> len then Inl EIO else Inr (fastgit_blob_create data))"

definition fastgit_blob_data :: "object \<Rightarrow> obj_data option" where
  "fastgit_blob_data x = (if o_type x = BLOB then Some (o_data x) else None)"

definition fastgit_blob_size :: "object \<Rightarrow> nat" where
  "fastgit_blob_size x = (if o_type x = BLOB then o_size x else 0)"

text \<open>A raw commit is parsed in place; a failure gives a null pointer.\<close>

definition fastgit_commit_parse :: "object \<Rightarrow> (commit option \<times> object) res" where
  "fastgit_commit_parse x =
     (if o_type x \<noteq> COMMIT then Inr (None, x)
      else (case o_data x of
          Commit_data c \<Rightarrow> Inr (Some c, x)
        | Raw_data b \<Rightarrow>
            if b = [] then Inl Undefined
            else (case commit_parse_raw b of
                Inl e \<Rightarrow> if e = Undefined then Inl e else Inr (None, x)
              | Inr c \<Rightarrow> Inr (Some c, x\<lparr>o_data := Commit_data c\<rparr>))
        | _ \<Rightarrow> Inl Undefined))"

section \<open>Serialising and naming\<close>

text \<open>The table \<open>type_names\<close> has no entry 0; printing a null pointer is undefined.\<close>

definition header_name :: "obj_type \<Rightarrow> string res" where
  "header_name ty =
     (if type_code ty < 5 then
        (case fastgit_obj_type_name ty of Some n \<Rightarrow> Inr n | None \<Rightarrow> Inl Undefined)
      else Inr ''unknown'')"

text \<open>The buffer is allocated with the computed size: a longer text overruns it.\<close>

definition fill_buffer :: "nat \<Rightarrow> bytes \<Rightarrow> bytes res" where
  "fill_buffer sz txt = (if length txt = sz then Inr txt else Inl Undefined)"

definition object_content :: "object \<Rightarrow> bytes res" where
  "object_content x =
     (if o_type x = COMMIT \<and> o_size x = 0 then
        (case o_data x of
           Commit_data c \<Rightarrow> bindr (commit_serialize_write c) (fill_buffer (commit_serialize_size c))
         | _ \<Rightarrow> Inl Undefined)
      else if o_type x = TREE \<and> o_size x = 0 then
        (case o_data x of
           Tree_data es \<Rightarrow> bindr (tree_serialize_write es) (fill_buffer (tree_serialize_size es))
         | _ \<Rightarrow> Inl Undefined)
      else if o_type x = TAG \<and> o_size x = 0 then
        (case o_data x of
           Tag_data t \<Rightarrow> bindr (tag_serialize_size t) (\<lambda>n. bindr (tag_serialize_write t) (fill_buffer n))
         | _ \<Rightarrow> Inl Undefined)
      else (case o_data x of Raw_data b \<Rightarrow> Inr b | _ \<Rightarrow> Inl Undefined))"

definition object_header :: "string \<Rightarrow> nat \<Rightarrow> bytes" where
  "object_header nm len = str nm @ [32] @ dec len"

definition fastgit_object_serialize :: "object \<Rightarrow> bytes res" where
  "fastgit_object_serialize x =
     bindr (object_content x) (\<lambda>content.
     bindr (header_name (o_type x)) (\<lambda>nm.
       let header = object_header nm (length content)
       in if 64 \<le> length header then Inl ERROR
          else Inr (header @ [0] @ content)))"

definition fastgit_object_hash :: "evp option \<Rightarrow> object \<Rightarrow> byte \<Rightarrow> oid res" where
  "fastgit_object_hash crypto x algo =
     bindr (fastgit_object_serialize x) (\<lambda>buf.
     bindr (fastgit_hash crypto algo buf) (\<lambda>h.
       Inr \<lparr>oid_algo = h_algo h, oid_hash = h_digest h\<rparr>))"

section \<open>Lemmas\<close>

lemma header_short:
  "len < 2 ^ 64 \<Longrightarrow> length nm \<le> 10 \<Longrightarrow> length (object_header nm len) < 64"
  using length_print_base_le[of 10 20 len] by (simp add: object_header_def)

lemma tree_content_ok:
  "\<forall>e \<in> set es. te_mode e < 2 ^ 21 \<Longrightarrow>
   object_content \<lparr>o_type = TREE, o_data = Tree_data es\<rparr> = Inr (concat (map entry_bytes es))"
  by (simp add: object_content_def o_size_def tree_write_ok fill_buffer_def length_tree_text)

section \<open>Properties\<close>



end
