(* ===== verification/Delta.thy ===== *)
theory Delta
  imports Codec
begin

unbundle bit_operations_syntax

text \<open>
  Deltas: the varints of \<^verbatim>\<open>include/fastgit/pack.h\<close>, \<^verbatim>\<open>src/pack/delta.c\<close> and the second
  interpreter \<open>git_delta_apply\<close> of \<^verbatim>\<open>src/pack/packfile.c\<close>. The locale \<open>delta_reader\<close> is what the
  compressor relies on in an interpreter: literal and copy commands append what they say. Both
  interpreters satisfy it, so applying a compressed delta gives the target back.
\<close>

section \<open>Varints\<close>

function encode_varint :: "u64 \<Rightarrow> bytes" where
  "encode_varint v =
     (if 0x80 \<le> v then (ucast (v AND 0x7F) OR 0x80) # encode_varint (drop_bit 7 v)
      else [ucast (v AND 0x7F)])"
  by pat_completeness auto
termination
  by (relation "measure unat")
    (auto simp: drop_bit_eq_div unat_div_distrib word_le_nat_alt div_less_dividend)

declare encode_varint.simps [simp del]

text \<open>
  Decoding returns 0 (here \<open>None\<close>) when the input ends first. A byte after the tenth is shifted by
  64 or more, which is undefined.
\<close>

fun decode_varint :: "nat \<Rightarrow> u64 \<Rightarrow> bytes \<Rightarrow> (u64 \<times> bytes) option res" where
  "decode_varint shift val [] = Inr None"
| "decode_varint shift val (b # r) =
     (if 64 \<le> shift then Inl Undefined
      else let val' = val OR push_bit shift (ucast (b AND 0x7F))
           in if b AND 0x80 = 0 then Inr (Some (val', r)) else decode_varint (shift + 7) val' r)"

section \<open>Commands\<close>

text \<open>Bytes that are present when a bit of the command is set, each shifted to its place.\<close>

fun read_flags :: "(nat \<times> nat) list \<Rightarrow> byte \<Rightarrow> bytes \<Rightarrow> u32 \<Rightarrow> (u32 \<times> bytes) option" where
  "read_flags [] cmd d v = Some (v, d)"
| "read_flags ((k, s) # ks) cmd d v =
     (if bit cmd k then
        (case d of [] \<Rightarrow> None | x # d' \<Rightarrow> read_flags ks cmd d' (v OR push_bit s (ucast x)))
      else read_flags ks cmd d v)"

definition off_flags :: "(nat \<times> nat) list" where
  "off_flags = [(0, 0), (1, 8), (2, 16), (3, 24)]"

definition size_flags :: "(nat \<times> nat) list" where
  "size_flags = [(4, 0), (5, 8), (6, 16)]"

lemma read_flags_length: "read_flags ks cmd d v = Some (w, d') \<Longrightarrow> length d' \<le> length d"
  by (induction ks arbitrary: d v) (fastforce split: if_splits list.splits)+

text \<open>
  A copy: offset, size (0 stands for 0x10000). The guard adds them in uint32, the copy itself does
  not wrap: where the sum wraps the copy reads outside the base.
\<close>

definition read_copy :: "byte \<Rightarrow> bytes \<Rightarrow> (u32 \<times> u32 \<times> bytes) option" where
  "read_copy cmd d =
     (case read_flags off_flags cmd d 0 of None \<Rightarrow> None
      | Some (off, d1) \<Rightarrow> (case read_flags size_flags cmd d1 0 of None \<Rightarrow> None
          | Some (sz, d2) \<Rightarrow> Some (off, if sz = 0 then 0x10000 else sz, d2)))"

lemma read_copy_length: "read_copy cmd d = Some (off, sz, d') \<Longrightarrow> length d' \<le> length d"
  by (auto simp: read_copy_def dest!: read_flags_length split: option.splits)

definition copy_from :: "bytes \<Rightarrow> u32 \<Rightarrow> u32 \<Rightarrow> bytes res" where
  "copy_from base off sz =
     (if unat off + unat sz \<le> length base then Inr (take (unat sz) (drop (unat off) base))
      else Inl Undefined)"

section \<open>The two interpreters\<close>

text \<open>\<open>out\<close> is what has been written so far of the \<open>dst\<close> bytes allocated.\<close>

function apply_loop :: "bytes \<Rightarrow> nat \<Rightarrow> bytes \<Rightarrow> bytes \<Rightarrow> bytes res" where
  "apply_loop base dst d out =
     (case d of
        [] \<Rightarrow> Inr out
      | cmd # d1 \<Rightarrow>
          if dst \<le> length out then Inr out
          else if cmd AND 0x80 \<noteq> 0 then
            (case read_copy cmd d1 of
               None \<Rightarrow> Inl ERROR
             | Some (off, sz, d2) \<Rightarrow>
                 if length base < unat (off + sz) then Inl ERROR
                 else if dst < length out + unat sz then Inl ERROR
                 else (case copy_from base off sz of
                     Inl e \<Rightarrow> Inl e
                   | Inr x \<Rightarrow> apply_loop base dst d2 (out @ x)))
          else let n = unat (cmd AND 0x7F) in
            if n = 0 then Inl ERROR
            else if length d1 < n then Inl ERROR
            else if dst < length out + n then Inl ERROR
            else apply_loop base dst (drop n d1) (out @ take n d1))"
  by pat_completeness auto
termination
  by (relation "measure (\<lambda>(base, dst, d, out). length d)")
    (auto dest!: read_copy_length simp: less_Suc_eq_le)

declare apply_loop.simps [simp del]

text \<open>\<open>mem\<close> bounds what malloc can give; the result is \<open>*out_len\<close> and the bytes written.\<close>

definition fastgit_delta_apply :: "nat \<Rightarrow> bytes \<Rightarrow> bytes \<Rightarrow> (nat \<times> bytes) res" where
  "fastgit_delta_apply mem base delta =
     bindr (decode_varint 0 0 delta) (\<lambda>r1.
       case r1 of None \<Rightarrow> Inl ERROR
       | Some (src_size, d1) \<Rightarrow>
           bindr (decode_varint 0 0 d1) (\<lambda>r2.
             case r2 of None \<Rightarrow> Inl ERROR
             | Some (dst_size, d2) \<Rightarrow>
                 if mem < unat dst_size then Inl ENOMEM
                 else bindr (apply_loop base (unat dst_size) d2 []) (\<lambda>out.
                   Inr (unat dst_size, out))))"

text \<open>
  \<open>git_delta_apply\<close> runs to the end of the commands and checks that the output is complete. The
  byte for bits 24 to 31 of the offset is shifted as an int: from 0x80 on that is undefined.
\<close>

definition off_byte_undefined :: "byte \<Rightarrow> bytes \<Rightarrow> bool" where
  "off_byte_undefined cmd d1 \<longleftrightarrow>
     (case read_flags off_flags cmd d1 0 of None \<Rightarrow> False | Some (off, _) \<Rightarrow> bit off 31)"

function git_apply_loop :: "bytes \<Rightarrow> nat \<Rightarrow> bytes \<Rightarrow> bytes \<Rightarrow> bytes res" where
  "git_apply_loop base dst d out =
     (case d of
        [] \<Rightarrow> if length out = dst then Inr out else Inl ERROR
      | cmd # d1 \<Rightarrow>
          if cmd AND 0x80 \<noteq> 0 then
            if off_byte_undefined cmd d1 then Inl Undefined
            else (case read_copy cmd d1 of
               None \<Rightarrow> Inl ERROR
             | Some (off, sz, d2) \<Rightarrow>
                 if length base < unat (off + sz) \<or> dst < length out + unat sz then Inl ERROR
                 else (case copy_from base off sz of
                     Inl e \<Rightarrow> Inl e
                   | Inr x \<Rightarrow> git_apply_loop base dst d2 (out @ x)))
          else if cmd = 0 then Inl ERROR
          else let n = unat (cmd AND 0x7F) in
            if length d1 < n \<or> dst < length out + n then Inl ERROR
            else git_apply_loop base dst (drop n d1) (out @ take n d1))"
  by pat_completeness auto
termination
  by (relation "measure (\<lambda>(base, dst, d, out). length d)")
    (auto dest!: read_copy_length simp: less_Suc_eq_le)

declare git_apply_loop.simps [simp del]

definition git_delta_apply :: "nat \<Rightarrow> bytes \<Rightarrow> bytes \<Rightarrow> bytes res" where
  "git_delta_apply mem base delta =
     bindr (decode_varint 0 0 delta) (\<lambda>r1.
       case r1 of None \<Rightarrow> Inl ERROR
       | Some (src_size, d1) \<Rightarrow>
           bindr (decode_varint 0 0 d1) (\<lambda>r2.
             case r2 of None \<Rightarrow> Inl ERROR
             | Some (dst_size, d2) \<Rightarrow>
                 if mem < unat dst_size then Inl ENOMEM
                 else git_apply_loop base (unat dst_size) d2 []))"

section \<open>Compression\<close>

text \<open>The hash of four bytes: the top 14 bits of a 32-bit product.\<close>

definition hash4 :: "bytes \<Rightarrow> nat \<Rightarrow> nat" where
  "hash4 s i = unat (drop_bit 18 (of_be32 (s ! i) (s ! (i + 1)) (s ! (i + 2)) (s ! (i + 3)) * (2654435761 :: u32)))"

text \<open>The chains: \<open>head\<close> and \<open>nxt\<close> as functions, \<open>None\<close> for -1.\<close>

type_synonym chains = "(nat \<Rightarrow> nat option) \<times> (nat \<Rightarrow> nat option)"

definition chain_step :: "bytes \<Rightarrow> nat \<Rightarrow> chains \<Rightarrow> chains" where
  "chain_step b i ch =
     (case ch of (head, nxt) \<Rightarrow> let h = hash4 b i in (head(h := Some i), nxt(i := head h)))"

definition build_chains :: "bytes \<Rightarrow> chains" where
  "build_chains b = fold (chain_step b) [0..<length b - 3] (\<lambda>_. None, \<lambda>_. None)"

function match_from :: "bytes \<Rightarrow> nat \<Rightarrow> bytes \<Rightarrow> nat \<Rightarrow> nat \<Rightarrow> nat \<Rightarrow> nat" where
  "match_from b boff t tpos max_ml ml =
     (if ml < max_ml \<and> b ! (boff + ml) = t ! (tpos + ml) then match_from b boff t tpos max_ml (ml + 1)
      else ml)"
  by pat_completeness auto
termination
  by (relation "measure (\<lambda>(b, boff, t, tpos, max_ml, ml). max_ml - ml)") auto

declare match_from.simps [simp del]

text \<open>Walk a chain for at most \<open>k\<close> visits; the best match so far is (length, offset).\<close>

definition better_match :: "bytes \<Rightarrow> bytes \<Rightarrow> nat \<Rightarrow> nat \<Rightarrow> nat" where
  "better_match b t tpos boff =
     match_from b boff t tpos (min (min (length b - boff) (length t - tpos)) 0x10000) 4"

primrec walk :: "bytes \<Rightarrow> (nat \<Rightarrow> nat option) \<Rightarrow> bytes \<Rightarrow> nat \<Rightarrow> nat \<Rightarrow> nat option \<Rightarrow> nat \<times> nat \<Rightarrow> nat \<times> nat" where
  "walk b nxt t tpos 0 cand best = best"
| "walk b nxt t tpos (Suc k) cand best =
     (case cand of
        None \<Rightarrow> best
      | Some boff \<Rightarrow>
          if length b < boff + 4 then walk b nxt t tpos k (nxt boff) best
          else if b ! (boff + 1) \<noteq> t ! (tpos + 1) \<or> b ! (boff + 2) \<noteq> t ! (tpos + 2)
               \<or> b ! (boff + 3) \<noteq> t ! (tpos + 3)
          then walk b nxt t tpos k (nxt boff) best
          else let ml = better_match b t tpos boff
               in if fst best < ml then
                    (if length t - tpos \<le> ml \<or> ml = 0x10000 then (ml, boff)
                     else walk b nxt t tpos k (nxt boff) (ml, boff))
                  else walk b nxt t tpos k (nxt boff) best)"

definition find_match :: "bytes \<Rightarrow> chains \<Rightarrow> bytes \<Rightarrow> nat \<Rightarrow> nat \<times> nat" where
  "find_match b ch t tpos =
     (if 4 \<le> length b \<and> 4 \<le> length t - tpos
      then walk b (snd ch) t tpos 32 (fst ch (hash4 t tpos)) (0, 0)
      else (0, 0))"

definition copy_op :: "nat \<Rightarrow> nat \<Rightarrow> bytes" where
  "copy_op off len =
     (let o32 = of_nat off :: u32; l32 = of_nat len :: u32;
          o0 = ucast o32; o1 = ucast (drop_bit 8 o32); o2 = ucast (drop_bit 16 o32);
          o3 = ucast (drop_bit 24 o32);
          l0 = ucast l32; l1 = ucast (drop_bit 8 l32); l2 = ucast (drop_bit 16 l32);
          flag = (\<lambda>k x. push_bit k (of_bool (x \<noteq> (0 :: byte))) :: byte);
          cmd = 0x80 OR flag 0 o0 OR flag 1 o1 OR flag 2 o2 OR flag 3 o3
                OR flag 4 l0 OR flag 5 l1 OR flag 6 l2;
          z = (\<lambda>x. if len = 0x10000 then 0 else x)
      in cmd # concat (map (\<lambda>(k, s, x). if bit cmd k then [x] else [])
          ([(0, 0, o0), (1, 8, o1), (2, 16, o2), (3, 24, o3)]
           @ [(4, 0, z l0), (5, 8, z l1), (6, 16 :: nat, z l2)])))"

definition flush_lit :: "bytes \<Rightarrow> bytes" where
  "flush_lit lit = (if lit = [] then [] else of_nat (length lit) # lit)"

function compress_loop :: "bytes \<Rightarrow> chains \<Rightarrow> bytes \<Rightarrow> nat \<Rightarrow> bytes \<Rightarrow> bytes \<Rightarrow> bytes" where
  "compress_loop b ch t tpos lit out =
     (if length t \<le> tpos then out @ flush_lit lit
      else case find_match b ch t tpos of (best_len, best_off) \<Rightarrow>
        if 4 \<le> best_len then
          compress_loop b ch t (tpos + best_len) [] (out @ flush_lit lit @ copy_op best_off best_len)
        else let lit' = lit @ [t ! tpos] in
          if length lit' = 127 then compress_loop b ch t (tpos + 1) [] (out @ flush_lit lit')
          else compress_loop b ch t (tpos + 1) lit' out)"
  by pat_completeness auto
termination
  by (relation "measure (\<lambda>(b, ch, t, tpos, lit, out). length t - tpos)") auto

declare compress_loop.simps [simp del]

definition fastgit_delta_compress :: "bytes \<Rightarrow> bytes \<Rightarrow> bytes" where
  "fastgit_delta_compress base target =
     compress_loop base (build_chains base) target 0 []
       (encode_varint (of_nat (length base)) @ encode_varint (of_nat (length target)))"

section \<open>Varints round trip\<close>

lemma and_7F: "(w :: 'a::len word) AND 0x7F = take_bit 7 w"
  by (simp add: take_bit_eq_mask mask_eq_exp_minus_1)

lemma and_80: "(w :: 'a::len word) AND 0x80 = 0 \<longleftrightarrow> \<not> bit w 7"
  using and_exp_eq_0_iff_not_bit[of w 7] by simp

lemma bit_80: "bit (0x80 :: byte) n \<longleftrightarrow> n = 7"
  using bit_exp_iff[where ?'a = "byte", of 7 n] by auto

lemma or_push_split:
  "(val OR push_bit s (take_bit 7 v)) OR push_bit (s + 7) (drop_bit 7 v) = val OR push_bit s (v :: u64)"
proof (rule bit_word_eqI)
  fix n
  have e: "\<not> n < s + 7 \<Longrightarrow> 7 + (n - (s + 7)) = n - s" by arith
  assume "n < LENGTH(64)"
  then show "bit ((val OR push_bit s (take_bit 7 v)) OR push_bit (s + 7) (drop_bit 7 v)) n
      = bit (val OR push_bit s v) n"
    by (cases "n < s + 7") (auto simp: bit_simps e)
qed

lemma shift_room:
  assumes "w \<noteq> 0" "unat w * 2 ^ s < 2 ^ 64"
  shows "s < 64"
proof -
  have "0 < unat w" using assms(1) by (simp add: unat_gt_0)
  then have "2 ^ s \<le> unat w * 2 ^ s" by simp
  then have "(2::nat) ^ s < 2 ^ 64" using assms(2) by (rule order.strict_trans1)
  then show ?thesis by (rule power_less_imp_less_exp[rotated]) simp
qed

lemma shift_next:
  assumes "unat (v :: u64) * 2 ^ s < 2 ^ 64"
  shows "unat (drop_bit 7 v) * 2 ^ (s + 7) < 2 ^ 64"
proof -
  have "unat (drop_bit 7 v) * 128 \<le> unat v"
    by (simp add: drop_bit_eq_div unat_div_distrib)
  from mult_le_mono1[OF this, of "2 ^ s"]
  have "unat (drop_bit 7 v) * 2 ^ (s + 7) \<le> unat v * 2 ^ s" by (simp add: power_add ac_simps)
  then show ?thesis using assms by (rule order.strict_trans1)
qed

lemma decode_encode_gen:
  "unat v * 2 ^ s < 2 ^ 64 \<Longrightarrow> s < 64 \<Longrightarrow>
   decode_varint s val (encode_varint v @ r) = Inr (Some (val OR push_bit s v, r))"
proof (induction v arbitrary: s val rule: encode_varint.induct)
  case (1 v)
  show ?case
  proof (cases "0x80 \<le> v")
    case True
    let ?b = "ucast (v AND 0x7F) OR 0x80 :: byte"
    let ?w = "drop_bit 7 v"
    have b: "?b AND 0x7F = ucast (v AND 0x7F)" "\<not> ?b AND 0x80 = 0"
      unfolding and_80 and_7F
      by (rule bit_word_eqI; auto simp: bit_simps bit_80) (simp add: bit_simps bit_80)
    have le: "unat ?w * 2 ^ (s + 7) < 2 ^ 64" by (rule shift_next[OF 1(2)])
    have "unat ?w = unat v div 128"
      by (simp add: drop_bit_eq_div unat_div_distrib)
    then have "?w \<noteq> 0" using True by (auto simp: word_le_nat_alt)
    then have s7: "s + 7 < 64" using le by (rule shift_room)
    have "ucast (ucast (v AND 0x7F) :: byte) = take_bit 7 v"
      unfolding and_7F by (rule bit_word_eqI) (auto simp: bit_simps)
    then have val: "(val OR push_bit s (ucast (ucast (v AND 0x7F) :: byte))) OR push_bit (s + 7) ?w
        = val OR push_bit s v"
      by (simp only: or_push_split)
    have ns: "\<not> 64 \<le> s" using 1(3) by simp
    have enc: "encode_varint v = ?b # encode_varint ?w"
      by (subst encode_varint.simps) (simp only: True if_True)
    have "decode_varint s val (?b # encode_varint ?w @ r)
        = decode_varint (s + 7) (val OR push_bit s (ucast (?b AND 0x7F))) (encode_varint ?w @ r)"
      by (simp only: decode_varint.simps ns if_False Let_def b(2))
    then show ?thesis
      unfolding enc append_Cons "1.IH"[OF True le s7] b(1) val .
  next
    case False
    have u: "unat v < 128" using False by (simp add: word_le_nat_alt)
    have v: "take_bit 7 v = v"
      using u by (simp add: take_bit_eq_mod word_unat_eq_iff unat_mod_distrib)
    have vb: "bit v n \<Longrightarrow> n < 7" for n using v by (metis bit_take_bit_iff)
    then have c: "(ucast v :: byte) AND 0x7F = ucast v" "(ucast v :: byte) AND 0x80 = 0"
      unfolding and_80 and_7F by (auto intro!: bit_word_eqI simp: bit_simps)
    have "ucast (ucast v :: byte) = v"
      by (rule bit_word_eqI) (auto simp: bit_simps dest: vb)
    then show ?thesis
      using False 1(3) v c by (subst encode_varint.simps) (simp add: and_7F Let_def)
  qed
qed

lemma decode_encode [codec_simps]: "decode_varint 0 0 (encode_varint v @ r) = Inr (Some (v, r))"
  using decode_encode_gen[of v 0 0 r] unat_u64[of v] by simp

section \<open>The hash tells the first byte\<close>

text \<open>
  The compressor compares only the second to fourth byte of a candidate. That is enough: the
  multiplier is odd, so two words that agree in the low 24 bits and whose products agree in the
  top 14 bits are equal.
\<close>

lemma of_be32_plus: "of_be32 a b c d = push_bit 24 (ucast a) + of_be32 0 b c d"
proof -
  have "of_be32 a b c d = push_bit 24 (ucast a) OR of_be32 0 b c d"
    by (simp add: of_be32_def or.assoc)
  also have "\<dots> = push_bit 24 (ucast a) + of_be32 0 b c d"
    by (rule disjunctive_add [symmetric]) (auto simp: of_be32_def bit_simps dest: bit_imp_le_length)
  finally show ?thesis .
qed

lemma word_low_high:
  fixes x y :: u32
  assumes "drop_bit 18 x = drop_bit 18 y" "take_bit 24 x = take_bit 24 y"
  shows "x = y"
proof (rule bit_word_eqI)
  fix n
  assume "n < LENGTH(32)"
  show "bit x n = bit y n"
  proof (cases "n < 24")
    case True
    then show ?thesis using assms(2) by (metis bit_take_bit_iff)
  next
    case False
    then have "bit x n = bit (drop_bit 18 x) (n - 18)" "bit y n = bit (drop_bit 18 y) (n - 18)"
      by (simp_all add: bit_simps)
    then show ?thesis using assms(1) by simp
  qed
qed

lemma take_bit_low_add: "take_bit 24 (push_bit 24 u + x) = take_bit 24 (x :: u32)"
proof -
  have "unat (push_bit 24 u + x) mod 2 ^ 24 = ((unat u * 2 ^ 24) mod 2 ^ 32 + unat x) mod 2 ^ 32 mod 2 ^ 24"
    by (simp add: unat_word_ariths push_bit_eq_mult)
  also have "\<dots> = ((unat u * 2 ^ 24) mod 2 ^ 32 + unat x) mod 2 ^ 24"
    by (rule mod_mod_cancel) simp
  also have "\<dots> = ((unat u * 2 ^ 24) mod 2 ^ 32 mod 2 ^ 24 + unat x) mod 2 ^ 24"
    by (simp only: mod_add_left_eq)
  also have "(unat u * 2 ^ 24) mod 2 ^ 32 mod 2 ^ 24 = 0"
    by (subst mod_mod_cancel) simp_all
  finally show ?thesis
    by (simp add: word_unat_eq_iff take_bit_eq_mod unat_mod_distrib)
qed

lemma hash_first_byte:
  fixes K :: u32
  defines "K \<equiv> 2654435761"
  assumes "drop_bit 18 (of_be32 a b c d * K) = drop_bit 18 (of_be32 a' b c d * K)"
  shows "a = a'"
proof -
  have tk: "take_bit 24 (of_be32 x b c d * K) = take_bit 24 (of_be32 0 b c d * K)" for x
  proof -
    have "of_be32 x b c d * K = push_bit 24 (ucast x * K) + of_be32 0 b c d * K"
      by (subst of_be32_plus) (simp add: push_bit_eq_mult algebra_simps)
    then show ?thesis by (simp only: take_bit_low_add)
  qed
  have "of_be32 a b c d * K = of_be32 a' b c d * K"
    using word_low_high[OF assms(2)] tk[of a] tk[of a'] by simp
  then have m: "of_be32 a b c d * (K * 244002641) = of_be32 a' b c d * (K * 244002641)"
    by (simp only: mult.assoc[symmetric])
  have K: "K * 244002641 = 1" unfolding K_def by simp
  have "of_be32 a b c d = of_be32 a' b c d"
    using m unfolding K mult_1_right .
  then have "push_bit 24 (ucast a :: u32) = push_bit 24 (ucast a')"
    unfolding of_be32_plus[of a b c d] of_be32_plus[of a' b c d] add_right_cancel .
  then have e: "bit (push_bit 24 (ucast a :: u32)) (24 + n) = bit (push_bit 24 (ucast a' :: u32)) (24 + n)" for n
    by simp
  show ?thesis
  proof (rule bit_word_eqI)
    fix n
    assume "n < LENGTH(8)"
    then show "bit a n = bit a' n" using e[of n] by (simp add: bit_simps)
  qed
qed

section \<open>Candidates of a chain\<close>

text \<open>Every position in a chain is in range and has the hash of the chain.\<close>

definition at_hash :: "bytes \<Rightarrow> nat \<Rightarrow> nat \<Rightarrow> bool" where
  "at_hash b h i \<longleftrightarrow> i + 4 \<le> length b \<and> hash4 b i = h"

definition chains_ok :: "bytes \<Rightarrow> chains \<Rightarrow> bool" where
  "chains_ok b ch \<longleftrightarrow>
     (\<forall>h i. fst ch h = Some i \<longrightarrow> at_hash b h i) \<and>
     (\<forall>i j. snd ch i = Some j \<longrightarrow> at_hash b (hash4 b i) j)"

lemma build_chains_ok: "chains_ok b (build_chains b)"
proof -
  have "chains_ok b ch \<Longrightarrow> \<forall>i \<in> set is. i + 4 \<le> length b \<Longrightarrow> chains_ok b (fold (chain_step b) is ch)" for "is" ch
  proof (induction "is" arbitrary: ch)
    case (Cons i "is")
    have "chains_ok b (chain_step b i ch)"
      using Cons.prems by (auto simp: chain_step_def chains_ok_def at_hash_def Let_def split: prod.splits)
    from Cons.IH[OF this] show ?case using Cons.prems by simp
  qed simp
  moreover have "chains_ok b (\<lambda>_. None, \<lambda>_. None)" by (simp add: chains_ok_def)
  moreover have "\<forall>i \<in> set [0..<length b - 3]. i + 4 \<le> length b" by auto
  ultimately show ?thesis unfolding build_chains_def by blast
qed

lemma match_from_spec:
  "ml \<le> match_from b boff t tpos mx ml \<and> match_from b boff t tpos mx ml \<le> max mx ml \<and>
   (\<forall>i. ml \<le> i \<and> i < match_from b boff t tpos mx ml \<longrightarrow> b ! (boff + i) = t ! (tpos + i))"
proof (induction b boff t tpos mx ml rule: match_from.induct)
  case (1 b boff t tpos mx ml)
  show ?case
  proof (cases "ml < mx \<and> b ! (boff + ml) = t ! (tpos + ml)")
    case True
    then have e: "match_from b boff t tpos mx ml = match_from b boff t tpos mx (ml + 1)"
      by (subst match_from.simps) simp
    let ?m = "match_from b boff t tpos mx (ml + 1)"
    have m: "ml + 1 \<le> ?m" "?m \<le> max mx (ml + 1)"
      and IH: "ml + 1 \<le> i \<Longrightarrow> i < ?m \<Longrightarrow> b ! (boff + i) = t ! (tpos + i)" for i
      using 1[OF True] by blast+
    have "ml \<le> i \<Longrightarrow> i < ?m \<Longrightarrow> b ! (boff + i) = t ! (tpos + i)" for i
      using IH[of i] True by (cases "i = ml") simp_all
    then show ?thesis unfolding e using m True by auto
  next
    case False
    then have "match_from b boff t tpos mx ml = ml" by (subst match_from.simps) auto
    then show ?thesis by auto
  qed
qed

text \<open>A match is a common substring that lies inside base and target.\<close>

definition is_match :: "bytes \<Rightarrow> bytes \<Rightarrow> nat \<Rightarrow> nat \<times> nat \<Rightarrow> bool" where
  "is_match b t tpos m \<longleftrightarrow>
     (4 \<le> fst m \<longrightarrow> fst m \<le> 0x10000 \<and> snd m + fst m \<le> length b \<and> tpos + fst m \<le> length t \<and>
        (\<forall>i < fst m. b ! (snd m + i) = t ! (tpos + i)))"

lemma better_match_ok:
  assumes "at_hash b (hash4 t tpos) boff" "tpos + 4 \<le> length t"
    and "b ! (boff + 1) = t ! (tpos + 1)" "b ! (boff + 2) = t ! (tpos + 2)" "b ! (boff + 3) = t ! (tpos + 3)"
  shows "is_match b t tpos (better_match b t tpos boff, boff)"
proof -
  let ?mx = "min (min (length b - boff) (length t - tpos)) 0x10000"
  let ?m = "better_match b t tpos boff"
  have b4: "boff + 4 \<le> length b" using assms(1) by (simp add: at_hash_def)
  have "b ! boff = t ! tpos"
    using assms(1) unfolding at_hash_def hash4_def assms(3,4,5)
    by (intro hash_first_byte[of _ "t ! (tpos + 1)" "t ! (tpos + 2)" "t ! (tpos + 3)"])
      (simp only: word_unat_eq_iff)
  then have four: "i < 4 \<Longrightarrow> b ! (boff + i) = t ! (tpos + i)" for i
    using assms(3,4,5) by (auto simp: numeral_eq_Suc less_Suc_eq)
  have m: "4 \<le> ?m" "?m \<le> max ?mx 4" "\<forall>i. 4 \<le> i \<and> i < ?m \<longrightarrow> b ! (boff + i) = t ! (tpos + i)"
    using match_from_spec[of 4 b boff t tpos ?mx] unfolding better_match_def by blast+
  have mx: "4 \<le> ?mx" using b4 assms(2) by auto
  then have "?m \<le> ?mx" using m(2) by (simp add: max_def split: if_splits)
  then have le: "?m \<le> 0x10000" "boff + ?m \<le> length b" "tpos + ?m \<le> length t"
    using b4 assms(2) by auto
  have "i < ?m \<Longrightarrow> b ! (boff + i) = t ! (tpos + i)" for i
    using m(3) four[of i] by (cases "i < 4") simp_all
  then show ?thesis
    using le unfolding is_match_def fst_conv snd_conv by blast
qed

lemma walk_match:
  assumes "chains_ok b ch" "tpos + 4 \<le> length t" "is_match b t tpos best"
    and "\<forall>i. cand = Some i \<longrightarrow> at_hash b (hash4 t tpos) i"
  shows "is_match b t tpos (walk b (snd ch) t tpos k cand best)"
  using assms(3,4)
proof (induction k arbitrary: cand best)
  case (Suc k)
  show ?case
  proof (cases cand)
    case None
    then show ?thesis using Suc.prems by simp
  next
    case (Some i)
    then have i: "at_hash b (hash4 t tpos) i" using Suc.prems by simp
    then have nx: "\<forall>j. snd ch i = Some j \<longrightarrow> at_hash b (hash4 t tpos) j"
      using assms(1) by (auto simp: chains_ok_def at_hash_def)
    note IH = Suc.IH[OF _ nx]
    show ?thesis
      using IH[OF Suc.prems(1)] IH[OF better_match_ok[OF i assms(2)]] better_match_ok[OF i assms(2)]
      by (auto simp: Some Let_def)
  qed
qed simp

lemma find_match_ok: "chains_ok b ch \<Longrightarrow> is_match b t tpos (find_match b ch t tpos)"
proof (cases "4 \<le> length b \<and> 4 \<le> length t - tpos")
  case True
  assume ok: "chains_ok b ch"
  have "is_match b t tpos (0, 0)" by (simp add: is_match_def)
  then show ?thesis
    using True walk_match[OF ok, of tpos t "(0, 0)" "fst ch (hash4 t tpos)" 32] ok
    by (auto simp: find_match_def chains_ok_def)
qed (auto simp: find_match_def is_match_def)

section \<open>Copy commands are read back\<close>

lemma read_flags_emit:
  "read_flags (map (\<lambda>(k, s, x). (k, s)) L) cmd
     (concat (map (\<lambda>(k, s, x). if bit cmd k then [x] else []) L) @ d) v
   = Some (foldl (\<lambda>v (k, s, x). if bit cmd k then v OR push_bit s (ucast x) else v) v L, d)"
  by (induction L arbitrary: v) auto

text \<open>The seven flag bits and the top bit of a copy command.\<close>

definition copy_cmd :: "byte \<Rightarrow> byte \<Rightarrow> byte \<Rightarrow> byte \<Rightarrow> byte \<Rightarrow> byte \<Rightarrow> byte \<Rightarrow> byte" where
  "copy_cmd o0 o1 o2 o3 l0 l1 l2 =
     (let flag = (\<lambda>k x. push_bit k (of_bool (x \<noteq> (0 :: byte))) :: byte)
      in 0x80 OR flag 0 o0 OR flag 1 o1 OR flag 2 o2 OR flag 3 o3 OR flag 4 l0 OR flag 5 l1 OR flag 6 l2)"

lemma copy_cmd_bits:
  "bit (copy_cmd o0 o1 o2 o3 l0 l1 l2) 0 \<longleftrightarrow> o0 \<noteq> 0" "bit (copy_cmd o0 o1 o2 o3 l0 l1 l2) 1 \<longleftrightarrow> o1 \<noteq> 0"
  "bit (copy_cmd o0 o1 o2 o3 l0 l1 l2) 2 \<longleftrightarrow> o2 \<noteq> 0" "bit (copy_cmd o0 o1 o2 o3 l0 l1 l2) 3 \<longleftrightarrow> o3 \<noteq> 0"
  "bit (copy_cmd o0 o1 o2 o3 l0 l1 l2) 4 \<longleftrightarrow> l0 \<noteq> 0" "bit (copy_cmd o0 o1 o2 o3 l0 l1 l2) 5 \<longleftrightarrow> l1 \<noteq> 0"
  "bit (copy_cmd o0 o1 o2 o3 l0 l1 l2) 6 \<longleftrightarrow> l2 \<noteq> 0" "bit (copy_cmd o0 o1 o2 o3 l0 l1 l2) 7"
  unfolding copy_cmd_def Let_def by (simp_all only: bit_or_iff bit_80 bit_push_bit_iff bit_of_bool_iff) simp_all

lemma or_unless_zero: "(if x \<noteq> 0 then v OR push_bit s (ucast x) else v) = v OR push_bit s (ucast (x :: byte) :: u32)"
  by simp

definition off_bytes :: "u32 \<Rightarrow> (nat \<times> nat \<times> byte) list" where
  "off_bytes w = [(0, 0, ucast w), (1, 8, ucast (drop_bit 8 w)), (2, 16, ucast (drop_bit 16 w)),
     (3, 24, ucast (drop_bit 24 w))]"

definition size_bytes :: "byte \<Rightarrow> byte \<Rightarrow> byte \<Rightarrow> (nat \<times> nat \<times> byte) list" where
  "size_bytes a b c = [(4, 0, a), (5, 8, b), (6, 16, c)]"

abbreviation cmd_of :: "u32 \<Rightarrow> u32 \<Rightarrow> byte" where
  "cmd_of w l \<equiv> copy_cmd (ucast w) (ucast (drop_bit 8 w)) (ucast (drop_bit 16 w)) (ucast (drop_bit 24 w))
     (ucast l) (ucast (drop_bit 8 l)) (ucast (drop_bit 16 l))"

definition emit :: "byte \<Rightarrow> (nat \<times> nat \<times> byte) list \<Rightarrow> bytes" where
  "emit cmd L = concat (map (\<lambda>(k, s, x). if bit cmd k then [x] else []) L)"

lemma copy_op_emit:
  "copy_op off len =
     (let w = of_nat off; l = of_nat len; cmd = cmd_of w l
      in cmd # emit cmd (off_bytes w)
           @ emit cmd (if len = 0x10000 then size_bytes 0 0 0
                       else size_bytes (ucast l) (ucast (drop_bit 8 l)) (ucast (drop_bit 16 l))))"
  by (simp add: copy_op_def emit_def off_bytes_def size_bytes_def copy_cmd_def Let_def)

lemma off_value:
  "foldl (\<lambda>v (k, s, x). if bit (cmd_of w l) k then v OR push_bit s (ucast x) else v) 0 (off_bytes w) = w"
proof -
  have "foldl (\<lambda>v (k, s, x). if bit (cmd_of w l) k then v OR push_bit s (ucast x) else v) 0 (off_bytes w)
      = of_be32 (ucast (drop_bit 24 w)) (ucast (drop_bit 16 w)) (ucast (drop_bit 8 w)) (ucast w)"
    unfolding off_bytes_def
    by (simp only: foldl.simps prod.case copy_cmd_bits or_unless_zero of_be32_def) (simp add: ac_simps)
  then show ?thesis by (simp only: of_be32_be)
qed

lemma size_value:
  assumes "drop_bit 24 l = 0"
  shows "foldl (\<lambda>v (k, s, x). if bit (cmd_of w l) k then v OR push_bit s (ucast x) else v) 0
     (size_bytes (ucast l) (ucast (drop_bit 8 l)) (ucast (drop_bit 16 l))) = l"
proof -
  have "foldl (\<lambda>v (k, s, x). if bit (cmd_of w l) k then v OR push_bit s (ucast x) else v) 0
     (size_bytes (ucast l) (ucast (drop_bit 8 l)) (ucast (drop_bit 16 l)))
      = of_be32 (ucast (drop_bit 24 l)) (ucast (drop_bit 16 l)) (ucast (drop_bit 8 l)) (ucast l)"
    unfolding size_bytes_def assms
    by (simp only: foldl.simps prod.case copy_cmd_bits or_unless_zero of_be32_def) (simp add: ac_simps)
  then show ?thesis by (simp only: of_be32_be)
qed

lemma size_zero:
  "foldl (\<lambda>v (k, s, x). if bit cmd k then v OR push_bit s (ucast x) else v) (0 :: u32) (size_bytes 0 0 0) = 0"
  by (simp add: size_bytes_def)

lemma read_copy_op:
  assumes "0 < len" "len \<le> 0x10000"
  shows "\<exists>d. copy_op off len = cmd_of (of_nat off) (of_nat len) # d \<and>
    read_flags off_flags (cmd_of (of_nat off) (of_nat len)) (d @ r) 0 \<noteq> None \<and>
    fst (the (read_flags off_flags (cmd_of (of_nat off) (of_nat len)) (d @ r) 0)) = of_nat off \<and>
    read_copy (cmd_of (of_nat off) (of_nat len)) (d @ r) = Some (of_nat off, of_nat len, r)"
proof -
  let ?w = "of_nat off :: u32" and ?l = "of_nat len :: u32"
  let ?c = "cmd_of ?w ?l"
  let ?S = "if len = 0x10000 then size_bytes 0 0 0
    else size_bytes (ucast ?l) (ucast (drop_bit 8 ?l)) (ucast (drop_bit 16 ?l))"
  have ul: "unat ?l = len" using assms by (simp add: unat_of_nat)
  have of: "off_flags = map (\<lambda>(k, s, x). (k, s)) (off_bytes ?w)"
    by (simp add: off_flags_def off_bytes_def)
  have sf: "size_flags = map (\<lambda>(k, s, x). (k, s)) ?S"
    by (simp add: size_flags_def size_bytes_def)
  have 1: "read_flags off_flags ?c ((emit ?c (off_bytes ?w) @ emit ?c ?S) @ r) 0
      = Some (?w, emit ?c ?S @ r)"
    unfolding of append_assoc emit_def read_flags_emit off_value ..
  have d24: "drop_bit 24 ?l = 0"
    using ul assms by (simp add: word_unat_eq_iff drop_bit_eq_div unat_div_distrib)
  have 2: "read_flags size_flags ?c (emit ?c ?S @ r) 0 = Some (if len = 0x10000 then 0 else ?l, r)"
    unfolding sf emit_def read_flags_emit
    by (cases "len = 0x10000") (simp_all only: if_True if_False refl size_value[OF d24] size_zero)
  have nz: "?l \<noteq> 0" using ul assms by auto
  have "read_copy ?c ((emit ?c (off_bytes ?w) @ emit ?c ?S) @ r) = Some (?w, ?l, r)"
    unfolding read_copy_def 1 option.case prod.case 2 using nz by auto
  then show ?thesis
    using 1 by (intro exI[of _ "emit ?c (off_bytes ?w) @ emit ?c ?S"]) (simp add: copy_op_emit Let_def)
qed

lemma copy_op_cmd: "cmd_of w l AND 0x80 \<noteq> 0"
  using copy_cmd_bits(8) and_80 by blast

section \<open>What the compressor needs of an interpreter\<close>

locale delta_reader =
  fixes run :: "bytes \<Rightarrow> nat \<Rightarrow> bytes \<Rightarrow> bytes \<Rightarrow> bytes res"
  assumes run_end: "length out = dst \<Longrightarrow> run base dst [] out = Inr out"
    and run_lit: "lit \<noteq> [] \<Longrightarrow> length lit \<le> 127 \<Longrightarrow> length out + length lit \<le> dst \<Longrightarrow>
      run base dst (of_nat (length lit) # lit @ r) out = run base dst r (out @ lit)"
    and run_copy: "0 < len \<Longrightarrow> len \<le> 0x10000 \<Longrightarrow> off + len \<le> length base \<Longrightarrow> length base < 2 ^ 31 \<Longrightarrow>
      length out + len \<le> dst \<Longrightarrow>
      run base dst (copy_op off len @ r) out = run base dst r (out @ take len (drop off base))"
begin

lemma run_flush:
  "length lit \<le> 127 \<Longrightarrow> length out + length lit \<le> dst \<Longrightarrow>
   run base dst (flush_lit lit @ r) out = run base dst r (out @ lit)"
  using run_lit[of lit out dst base r] by (simp add: flush_lit_def)

text \<open>The rest of the loop emits commands that write the pending literals and the rest of the target.\<close>

lemma run_compress:
  assumes "chains_ok base ch" "length base < 2 ^ 31" "length lit < 127"
  shows "\<exists>ops. compress_loop base ch t tpos lit out = out @ ops \<and>
    (\<forall>acc r. length acc + length lit + (length t - tpos) \<le> dst \<longrightarrow>
      run base dst (ops @ r) acc = run base dst r (acc @ lit @ drop tpos t))"
  using assms
proof (induction base ch t tpos lit out rule: compress_loop.induct)
  case (1 b ch t tpos lit out)
  obtain n off where m: "find_match b ch t tpos = (n, off)" by fastforce
  have ok: "is_match b t tpos (n, off)" using find_match_ok[OF "1.prems"(1), of t tpos] m by simp
  show ?case
  proof (cases "length t \<le> tpos")
    case True
    then have "compress_loop b ch t tpos lit out = out @ flush_lit lit"
      by (subst compress_loop.simps) simp
    then show ?thesis using True "1.prems"(3) by (auto simp: run_flush)
  next
    case tpos: False
    show ?thesis
    proof (cases "4 \<le> n")
      case True
      have k: "n \<le> 0x10000" "off + n \<le> length b" "tpos + n \<le> length t"
        "\<forall>i < n. b ! (off + i) = t ! (tpos + i)"
        using ok True by (auto simp: is_match_def)
      then have cp: "take n (drop off b) @ drop (tpos + n) t = drop tpos t"
      proof -
        have "take n (drop off b) = take n (drop tpos t)"
          using k by (intro nth_equalityI) auto
        then show ?thesis by (metis add.commute append_take_drop_id drop_drop)
      qed
      let ?o = "out @ flush_lit lit @ copy_op off n"
      obtain ops where ops: "compress_loop b ch t (tpos + n) [] ?o = ?o @ ops"
        "\<And>acc r. length acc + (length t - (tpos + n)) \<le> dst \<Longrightarrow>
          run b dst (ops @ r) acc = run b dst r (acc @ drop (tpos + n) t)"
        using "1.IH"(1)[OF tpos m[symmetric] True "1.prems"(1,2)] by auto
      have "compress_loop b ch t tpos lit out = ?o @ ops"
        using tpos m True ops(1) by (subst compress_loop.simps) simp
      moreover have "run b dst ((flush_lit lit @ copy_op off n @ ops) @ r) acc
          = run b dst r (acc @ lit @ drop tpos t)"
        if "length acc + length lit + (length t - tpos) \<le> dst" for acc r
        using that "1.prems"(2,3) k(1,2,3) True
          ops(2)[of "acc @ lit @ take n (drop off b)" r] cp
        by (simp add: run_flush run_copy)
      ultimately show ?thesis by (intro exI[of _ "flush_lit lit @ copy_op off n @ ops"]) simp
    next
      case False
      let ?l = "lit @ [t ! tpos]"
      have dr: "[t ! tpos] @ drop (tpos + 1) t = drop tpos t"
        using tpos by (simp add: Cons_nth_drop_Suc)
      show ?thesis
      proof (cases "length ?l = 127")
        case True
        obtain ops where ops: "compress_loop b ch t (tpos + 1) [] (out @ flush_lit ?l) = (out @ flush_lit ?l) @ ops"
          "\<And>acc r. length acc + (length t - (tpos + 1)) \<le> dst \<Longrightarrow>
            run b dst (ops @ r) acc = run b dst r (acc @ drop (tpos + 1) t)"
          using "1.IH"(2)[OF tpos m[symmetric] False refl True "1.prems"(1,2)] by auto
        have "compress_loop b ch t tpos lit out = (out @ flush_lit ?l) @ ops"
          using tpos m False True ops(1) by (subst compress_loop.simps) (simp add: Let_def)
        moreover have "run b dst ((flush_lit ?l @ ops) @ r) acc = run b dst r (acc @ lit @ drop tpos t)"
          if "length acc + length lit + (length t - tpos) \<le> dst" for acc r
          using that tpos True ops(2)[of "acc @ ?l" r] dr run_flush[of ?l acc dst b "ops @ r"] by simp
        ultimately show ?thesis by (intro exI[of _ "flush_lit ?l @ ops"]) simp
      next
        case F2: False
        then have "length ?l < 127" using "1.prems"(3) by simp
        then obtain ops where ops: "compress_loop b ch t (tpos + 1) ?l out = out @ ops"
          "\<And>acc r. length acc + length ?l + (length t - (tpos + 1)) \<le> dst \<Longrightarrow>
            run b dst (ops @ r) acc = run b dst r (acc @ ?l @ drop (tpos + 1) t)"
          using "1.IH"(3)[OF tpos m[symmetric] False refl F2 "1.prems"(1,2)] by blast
        have "compress_loop b ch t tpos lit out = out @ ops"
          using tpos m False F2 ops(1) by (subst compress_loop.simps) (simp add: Let_def)
        moreover have "run b dst (ops @ r) acc = run b dst r (acc @ lit @ drop tpos t)"
          if "length acc + length lit + (length t - tpos) \<le> dst" for acc r
          using that tpos ops(2)[of acc r] dr by simp
        ultimately show ?thesis by blast
      qed
    qed
  qed
qed

lemma run_delta:
  assumes "length base < 2 ^ 31"
  shows "\<exists>ops. fastgit_delta_compress base t
      = encode_varint (of_nat (length base)) @ encode_varint (of_nat (length t)) @ ops \<and>
    run base (length t) ops [] = Inr t"
proof -
  let ?h = "encode_varint (of_nat (length base)) @ encode_varint (of_nat (length t))"
  obtain ops where ops: "compress_loop base (build_chains base) t 0 [] ?h = ?h @ ops"
    "\<forall>acc r. length acc + length ([] :: bytes) + (length t - 0) \<le> length t \<longrightarrow>
      run base (length t) (ops @ r) acc = run base (length t) r (acc @ [] @ drop 0 t)"
    using run_compress[OF build_chains_ok assms, of "[]" t 0 ?h "length t"] by auto
  have "run base (length t) ops [] = Inr t"
    using ops(2)[rule_format, of "[]" "[]"] run_end[of t "length t"] by simp
  then show ?thesis using ops(1) by (auto simp: fastgit_delta_compress_def)
qed

end

lemma lit_cmd:
  assumes "0 < n" "n \<le> 127"
  shows "\<not> (of_nat n :: byte) AND 0x80 \<noteq> 0" "unat ((of_nat n :: byte) AND 0x7F) = n" "(of_nat n :: byte) \<noteq> 0"
proof -
  have u: "unat (of_nat n :: byte) = n" using assms by (simp add: unat_of_nat)
  have t: "take_bit 7 (of_nat n :: byte) = of_nat n"
    using assms u by (simp add: take_bit_eq_mod word_unat_eq_iff unat_mod_distrib)
  show "unat ((of_nat n :: byte) AND 0x7F) = n" unfolding and_7F t u ..
  show "\<not> (of_nat n :: byte) AND 0x80 \<noteq> 0"
    using t and_80 by (metis bit_take_bit_iff less_irrefl)
  show "(of_nat n :: byte) \<noteq> 0" using u assms by auto
qed

lemma copy_no_wrap:
  assumes "0 < len" "len \<le> 0x10000" "off + len \<le> length base" "length base < 2 ^ 31"
  shows "unat (of_nat off + of_nat len :: u32) = off + len"
    "copy_from base (of_nat off) (of_nat len) = Inr (take len (drop off base))"
    "unat (of_nat len :: u32) = len" "\<not> bit (of_nat off :: u32) 31"
proof -
  have o: "unat (of_nat off :: u32) = off" and l: "unat (of_nat len :: u32) = len"
    using assms by (simp_all add: unat_of_nat)
  show "unat (of_nat off + of_nat len :: u32) = off + len"
    using assms o l by (simp add: unat_word_ariths)
  show "copy_from base (of_nat off) (of_nat len) = Inr (take len (drop off base))"
    using assms o l by (simp add: copy_from_def)
  show "unat (of_nat len :: u32) = len" by (rule l)
  have "drop_bit 31 (of_nat off :: u32) = 0"
    using o assms by (simp add: word_unat_eq_iff drop_bit_eq_div unat_div_distrib)
  then have "\<not> bit (drop_bit 31 (of_nat off :: u32)) 0" by simp
  then show "\<not> bit (of_nat off :: u32) 31" by (simp add: bit_simps)
qed

interpretation fg_apply: delta_reader apply_loop
proof unfold_locales
  fix base out lit r :: bytes and dst off len :: nat
  show "length out = dst \<Longrightarrow> apply_loop base dst [] out = Inr out"
    by (subst apply_loop.simps) simp
  show "apply_loop base dst (of_nat (length lit) # lit @ r) out = apply_loop base dst r (out @ lit)"
    if "lit \<noteq> []" "length lit \<le> 127" "length out + length lit \<le> dst"
  proof -
    have n: "0 < length lit" using that by simp
    then have "\<not> dst \<le> length out" using that(3) by linarith
    then show ?thesis
      using that lit_cmd[OF n that(2)] by (subst apply_loop.simps) (simp add: Let_def)
  qed
  show "apply_loop base dst (copy_op off len @ r) out = apply_loop base dst r (out @ take len (drop off base))"
    if c: "0 < len" "len \<le> 0x10000" "off + len \<le> length base" "length base < 2 ^ 31" "length out + len \<le> dst"
  proof -
    obtain d where d: "copy_op off len = cmd_of (of_nat off) (of_nat len) # d"
      "read_copy (cmd_of (of_nat off) (of_nat len)) (d @ r) = Some (of_nat off, of_nat len, r)"
      using read_copy_op[OF c(1,2)] by blast
    show ?thesis
      unfolding d(1) append_Cons
      by (subst apply_loop.simps)
        (use d(2) c copy_no_wrap[OF c(1-4)] copy_op_cmd in simp)
  qed
qed

text \<open>What an interpreter with the check of the offset byte reads for a copy of the compressor.\<close>

lemma copy_op_runs:
  fixes base :: bytes
  assumes "0 < len" "len \<le> 0x10000" "off + len \<le> length base" "length base < 2 ^ 31"
  shows "\<exists>d. copy_op off len = cmd_of (of_nat off) (of_nat len) # d \<and>
    \<not> off_byte_undefined (cmd_of (of_nat off) (of_nat len)) (d @ r) \<and>
    read_copy (cmd_of (of_nat off) (of_nat len)) (d @ r) = Some (of_nat off, of_nat len, r)"
proof -
  obtain d where d: "copy_op off len = cmd_of (of_nat off) (of_nat len) # d"
    "read_flags off_flags (cmd_of (of_nat off) (of_nat len)) (d @ r) 0 \<noteq> None"
    "fst (the (read_flags off_flags (cmd_of (of_nat off) (of_nat len)) (d @ r) 0)) = of_nat off"
    "read_copy (cmd_of (of_nat off) (of_nat len)) (d @ r) = Some (of_nat off, of_nat len, r)"
    using read_copy_op[OF assms(1,2)] by blast
  moreover have "\<not> off_byte_undefined (cmd_of (of_nat off) (of_nat len)) (d @ r)"
    using d(2,3) copy_no_wrap(4)[OF assms] by (auto simp: off_byte_undefined_def)
  ultimately show ?thesis by blast
qed

interpretation git_apply: delta_reader git_apply_loop
proof unfold_locales
  fix base out lit r :: bytes and dst off len :: nat
  show "length out = dst \<Longrightarrow> git_apply_loop base dst [] out = Inr out"
    by (subst git_apply_loop.simps) simp
  show "git_apply_loop base dst (of_nat (length lit) # lit @ r) out = git_apply_loop base dst r (out @ lit)"
    if "lit \<noteq> []" "length lit \<le> 127" "length out + length lit \<le> dst"
  proof -
    have n: "0 < length lit" using that by simp
    show ?thesis
      using that lit_cmd[OF n that(2)] by (subst git_apply_loop.simps) (simp add: Let_def)
  qed
  show "git_apply_loop base dst (copy_op off len @ r) out = git_apply_loop base dst r (out @ take len (drop off base))"
    if c: "0 < len" "len \<le> 0x10000" "off + len \<le> length base" "length base < 2 ^ 31" "length out + len \<le> dst"
  proof -
    obtain d where d: "copy_op off len = cmd_of (of_nat off) (of_nat len) # d"
      "\<not> off_byte_undefined (cmd_of (of_nat off) (of_nat len)) (d @ r)"
      "read_copy (cmd_of (of_nat off) (of_nat len)) (d @ r) = Some (of_nat off, of_nat len, r)"
      using copy_op_runs[OF c(1-4)] by blast
    show ?thesis
      unfolding d(1) append_Cons
      by (subst git_apply_loop.simps)
        (use d(2,3) c copy_no_wrap[OF c(1-4)] copy_op_cmd in simp)
  qed
qed

section \<open>The size of a delta\<close>

lemma length_emit: "length (emit cmd L) \<le> length L"
  by (induction L) (auto simp: emit_def)

lemma length_copy_op: "length (copy_op off len) \<le> 8"
proof -
  define c where "c = cmd_of (of_nat off) (of_nat len)"
  define S where "S = (if len = 0x10000 then size_bytes 0 0 0
    else size_bytes (ucast (of_nat len :: u32)) (ucast (drop_bit 8 (of_nat len :: u32))) (ucast (drop_bit 16 (of_nat len :: u32))))"
  have "copy_op off len = c # emit c (off_bytes (of_nat off)) @ emit c S"
    by (simp add: copy_op_emit Let_def c_def S_def)
  moreover have "length S = 3" by (simp add: S_def size_bytes_def)
  moreover have "length (off_bytes (of_nat off)) = 4" by (simp add: off_bytes_def)
  ultimately show ?thesis
    using length_emit[of c "off_bytes (of_nat off)"] length_emit[of c S] by simp
qed

lemma compress_loop_size:
  "length (compress_loop b ch t tpos lit out) \<le> length out + 2 * (length lit + (length t - tpos))"
proof (induction b ch t tpos lit out rule: compress_loop.induct)
  case (1 b ch t tpos lit out)
  obtain n off where m: "find_match b ch t tpos = (n, off)" by fastforce
  have fl: "length (flush_lit l) \<le> 2 * length l" for l
    by (cases l) (auto simp: flush_lit_def)
  show ?case
  proof (cases "length t \<le> tpos")
    case True
    then show ?thesis using fl[of lit] by (subst compress_loop.simps) simp
  next
    case tpos: False
    show ?thesis
    proof (cases "4 \<le> n")
      case True
      have "n \<le> length t - tpos \<or> length t - tpos < n" by auto
      moreover have "4 \<le> length t - tpos"
        using True m by (auto simp: find_match_def split: if_splits)
      ultimately show ?thesis
        using "1.IH"(1)[OF tpos m[symmetric] True] fl[of lit] length_copy_op[of off n] tpos m True
        by (subst compress_loop.simps) auto
    next
      case False
      then show ?thesis
        using "1.IH"(2)[OF tpos m[symmetric] False refl] "1.IH"(3)[OF tpos m[symmetric] False refl]
          fl[of "lit @ [t ! tpos]"] tpos m
        by (subst compress_loop.simps) (auto simp: Let_def)
    qed
  qed
qed

section \<open>Properties\<close>

text \<open>
  C21. Applying the delta of a base (below 2 GiB) and a target gives the target, with both
  interpreters of the program, whenever the target fits in memory; the delta never outgrows the
  buffer of \<open>2 * target_len + 16\<close> bytes after its header that the compressor allocates.
\<close>

theorem delta_roundtrip:
  assumes "length base < 2 ^ 31" "length target \<le> mem" "length target < 2 ^ 64"
  shows "fastgit_delta_apply mem base (fastgit_delta_compress base target) = Inr (length target, target) \<and>
    git_delta_apply mem base (fastgit_delta_compress base target) = Inr target \<and>
    length (fastgit_delta_compress base target)
      \<le> length (encode_varint (of_nat (length base))) + length (encode_varint (of_nat (length target)))
        + length target * 2 + 16"
proof (intro conjI)
  have u: "unat (of_nat (length target) :: u64) = length target"
    using assms(3) by (simp add: unat_of_nat)
  show "fastgit_delta_apply mem base (fastgit_delta_compress base target) = Inr (length target, target)"
    using fg_apply.run_delta[OF assms(1), of target] u assms(2)
    by (auto simp: fastgit_delta_apply_def decode_encode)
  show "git_delta_apply mem base (fastgit_delta_compress base target) = Inr target"
    using git_apply.run_delta[OF assms(1), of target] u assms(2)
    by (auto simp: git_delta_apply_def decode_encode)
  show "length (fastgit_delta_compress base target)
      \<le> length (encode_varint (of_nat (length base))) + length (encode_varint (of_nat (length target)))
        + length target * 2 + 16"
    using compress_loop_size[of base "build_chains base" target 0 "[]"
        "encode_varint (of_nat (length base)) @ encode_varint (of_nat (length target))"]
    by (simp add: fastgit_delta_compress_def)
qed

theorem delta_roundtrip_witness:
  "git_delta_apply 100 (str ''hello world'') (fastgit_delta_compress (str ''hello world'') (str ''a hello world!''))
     = Inr (str ''a hello world!'')"
  using delta_roundtrip[of "str ''hello world''" "str ''a hello world!''" 100] by simp

text \<open>
  A crafted delta defeats the bounds check of \<open>fastgit_delta_apply\<close>: offset 0xFFFFFFFF and size
  1 add up to 0 in uint32, so for every base shorter than 4 GiB the copy reads outside it.
\<close>

theorem delta_apply_overread:
  assumes "length base < 2 ^ 32" "0 < mem"
  shows "fastgit_delta_apply mem base [0x00, 0x01, 0x9F, 0xFF, 0xFF, 0xFF, 0xFF, 0x01] = Inl Undefined"
proof -
  have rc: "read_copy 0x9F [0xFF, 0xFF, 0xFF, 0xFF, 0x01] = Some (0xFFFFFFFF, 1, [])"
    by code_simp
  have un: "copy_from base 0xFFFFFFFF 1 = Inl Undefined"
    using assms(1) by (simp add: copy_from_def)
  have "apply_loop base 1 [0x9F, 0xFF, 0xFF, 0xFF, 0xFF, 0x01] [] = Inl Undefined"
    by (subst apply_loop.simps) (simp add: rc un)
  then show ?thesis
    using assms(2) by (simp add: fastgit_delta_apply_def)
qed

theorem delta_apply_overread_witness:
  "fastgit_delta_apply 1 (str ''base'') [0x00, 0x01, 0x9F, 0xFF, 0xFF, 0xFF, 0xFF, 0x01] = Inl Undefined"
  by (rule delta_apply_overread) simp_all

end
