(* ===== verification/Pack.thy ===== *)
theory Pack
  imports Delta Objects
begin

unbundle bit_operations_syntax

text \<open>
  Pack files and their indexes, \<^verbatim>\<open>src/pack/packfile.c\<close>: writing objects into a new pack, the trailer
  and the index written on close, opening, looking up and reading an object, deltas included.

  zlib is a parameter: \<open>z_deflate\<close> and \<open>z_deflate_fast\<close> are compress2 with the default level and
  with Z_BEST_SPEED (\<open>None\<close> when it fails), \<open>z_inflate\<close> is inflate on the stream at the head of
  its input (\<open>None\<close> on an error or an incomplete stream; otherwise the data and the length of the
  stream), \<open>z_crc32\<close> the checksum. Calls on files succeed, as \<open>pk_file\<close> describes them.
\<close>

record zlib =
  z_deflate :: "bytes \<Rightarrow> bytes option"
  z_deflate_fast :: "bytes \<Rightarrow> bytes option"
  z_inflate :: "bytes \<Rightarrow> (bytes \<times> nat) option"
  z_crc32 :: "bytes \<Rightarrow> u32"

section \<open>The index in memory and the pack\<close>

record pack_index =
  pi_fanout :: "u32 list"
  pi_oids :: "oid list"
  pi_crc32s :: "u32 list"
  pi_offsets :: "u64 list"
  pi_checksum :: "bytes option"

record pack =
  pk_writing :: bool
  pk_file :: bytes
  pk_object_count :: u32
  pk_mapped :: bytes
  pk_index :: "pack_index option"
  pk_w_oids :: "oid list"
  pk_w_crcs :: "u32 list"
  pk_w_offsets :: "u64 list"
  pk_w_cur_offset :: u64
  pk_objects_read :: u64
  pk_objects_written :: u64
  pk_bytes_read :: u64
  pk_bytes_written :: u64

section \<open>Entry headers\<close>

text \<open>The pack type numbers differ from the object type numbers: a commit is 1, a blob 3.\<close>

definition pack_obj_type_from_git :: "nat \<Rightarrow> obj_type" where
  "pack_obj_type_from_git t =
     (if t = 1 then COMMIT else if t = 2 then TREE else if t = 3 then BLOB else if t = 4 then TAG
      else if t = 6 then OFS_DELTA else if t = 7 then REF_DELTA else BLOB)"

definition pack_type_of :: "obj_type \<Rightarrow> nat" where
  "pack_type_of t =
     (if t = COMMIT then 1 else if t = TREE then 2 else if t = BLOB then 3 else if t = TAG then 4 else 3)"

function size_groups :: "u64 \<Rightarrow> bytes" where
  "size_groups sz =
     (if sz = 0 then []
      else (let c = ucast (sz AND 0x7F); sz1 = drop_bit 7 sz
            in (if sz1 \<noteq> 0 then c OR 0x80 else c) # size_groups sz1))"
  by pat_completeness auto
termination
proof (relation "measure unat", simp)
  fix sz x :: u64 and c :: byte
  assume "sz \<noteq> 0" "x = drop_bit 7 sz"
  moreover have "unat sz div 128 < unat sz" if "sz \<noteq> 0"
    using that by (intro div_less_dividend) (auto simp: unat_gt_0)
  ultimately show "(x, sz) \<in> measure unat"
    by (simp add: drop_bit_eq_div unat_div_distrib)
qed

declare size_groups.simps [simp del]

definition encode_pack_header :: "nat \<Rightarrow> u64 \<Rightarrow> bytes" where
  "encode_pack_header type sz =
     (let c = push_bit 4 (of_nat type) OR ucast (sz AND 0x0F); sz1 = drop_bit 4 sz
      in (if sz1 \<noteq> 0 then c OR 0x80 else c) # size_groups sz1)"

text \<open>\<open>i\<close> bytes have been read, \<open>c\<close> is the last of them. The result includes the rest of the input.\<close>

fun parse_size_groups :: "nat \<Rightarrow> byte \<Rightarrow> nat \<Rightarrow> u64 \<Rightarrow> bytes \<Rightarrow> (u64 \<times> bytes) res" where
  "parse_size_groups i c shift sz p =
     (if c AND 0x80 = 0 then Inr (sz, p)
      else (case p of
          [] \<Rightarrow> Inl ERROR
        | b # r \<Rightarrow>
            if 64 \<le> shift then Inl Undefined
            else let sz' = sz OR push_bit shift (ucast (b AND 0x7F))
              in if 10 < i + 1 then Inl ERROR else parse_size_groups (i + 1) b (shift + 7) sz' r))"

declare parse_size_groups.simps [simp del]

definition parse_pack_header :: "bytes \<Rightarrow> (nat \<times> u64 \<times> bytes) res" where
  "parse_pack_header p =
     (case p of
        [] \<Rightarrow> Inl ERROR
      | c # r \<Rightarrow>
          bindr (parse_size_groups 1 c 4 (ucast (c AND 0x0F)) r) (\<lambda>(sz, r').
            Inr (unat (drop_bit 4 c AND 0x07), sz, r')))"

fun parse_ofs_groups :: "nat \<Rightarrow> byte \<Rightarrow> u64 \<Rightarrow> bytes \<Rightarrow> (u64 \<times> bytes) res" where
  "parse_ofs_groups i c off p =
     (if c AND 0x80 = 0 then Inr (off, p)
      else (case p of
          [] \<Rightarrow> Inl ERROR
        | b # r \<Rightarrow>
            let off' = push_bit 7 (off + 1) OR ucast (b AND 0x7F)
            in if 10 < i + 1 then Inl ERROR else parse_ofs_groups (i + 1) b off' r))"

declare parse_ofs_groups.simps [simp del]

definition parse_ofs_delta_offset :: "bytes \<Rightarrow> (u64 \<times> bytes) res" where
  "parse_ofs_delta_offset p =
     (case p of [] \<Rightarrow> Inl ERROR | c # r \<Rightarrow> parse_ofs_groups 1 c (ucast (c AND 0x7F)) r)"

section \<open>Lookup in an index\<close>

definition fastgit_pack_index_find :: "pack_index \<Rightarrow> oid \<Rightarrow> nat res" where
  "fastgit_pack_index_find idx x =
     (if pi_oids idx = [] then Inl ENOENT
      else let hl = length (oid_hash (hd (pi_oids idx)))
        in if length (oid_hash x) \<noteq> hl then Inl ENOENT
        else if hl = 0 then Inl Undefined
        else let first = unat (oid_hash x ! 0);
                 lo = (if first = 0 then 0 else unat (pi_fanout idx ! (first - 1)));
                 hi = unat (pi_fanout idx ! first)
          in bin_search
               (\<lambda>i. if i < length (pi_oids idx)
                    then Some (memcmp (oid_hash (pi_oids idx ! i)) (oid_hash x)) else None) lo hi)"

section \<open>Reading an object\<close>

definition inflate_slice :: "zlib \<Rightarrow> bytes \<Rightarrow> nat \<Rightarrow> bytes res" where
  "inflate_slice z inp out_len =
     (case z_inflate z inp of
        None \<Rightarrow> Inl ERROR
      | Some (d, n) \<Rightarrow> if length d = out_len then Inr d else Inl ERROR)"

text \<open>
  The input from \<open>cur\<close>, without the last 32 bytes of the file (its checksum). Nearer to the end
  \<open>mapped_size - cur - 32\<close> wraps: zlib is told of input beyond the mapping, which is harmless only
  if the stream ends inside it. The uInt field of z_stream keeps the low 32 bits of the length.
\<close>

definition inflate_at :: "zlib \<Rightarrow> bytes \<Rightarrow> nat \<Rightarrow> nat \<Rightarrow> bytes res" where
  "inflate_at z mapped cur out_len =
     (if cur + 32 \<le> length mapped
      then inflate_slice z (take ((length mapped - cur - 32) mod 2 ^ 32) (drop cur mapped)) out_len
      else if z_inflate z (drop cur mapped) = None then Inl Undefined
      else inflate_slice z (drop cur mapped) out_len)"

text \<open>For an offset delta the wrapped length is replaced by 0.\<close>

definition inflate_ofs :: "zlib \<Rightarrow> bytes \<Rightarrow> nat \<Rightarrow> nat \<Rightarrow> bytes res" where
  "inflate_ofs z mapped cur out_len =
     (if cur + 32 \<le> length mapped
      then inflate_slice z (take ((length mapped - cur - 32) mod 2 ^ 32) (drop cur mapped)) out_len
      else inflate_slice z [] out_len)"

text \<open>
  \<open>k\<close> is 33 minus the depth of the delta chain, \<open>mem\<close> what malloc can give. An offset that passes
  \<open>offset + 12 > mapped_size\<close> by wrapping points outside the mapping.
\<close>

primrec pack_read_object_at :: "zlib \<Rightarrow> nat \<Rightarrow> nat \<Rightarrow> pack \<Rightarrow> u64 \<Rightarrow> (obj_type \<times> bytes) res" where
  "pack_read_object_at z mem 0 pack offset = Inl ERROR"
| "pack_read_object_at z mem (Suc k) pack offset =
     (let mapped = pk_mapped pack; n = length mapped in
      if n < unat (offset + 12) then Inl ENOENT
      else if n \<le> unat offset then Inl Undefined
      else (case parse_pack_header (drop (unat offset) mapped) of
          Inl e \<Rightarrow> Inl (if e = Undefined then Undefined else ERROR)
        | Inr (type, psize, r) \<Rightarrow>
            let cur = n - length r in
            if type = 6 then
              (case parse_ofs_delta_offset r of
                 Inl e \<Rightarrow> Inl ERROR
               | Inr (ofs, r2) \<Rightarrow>
                   if mem < unat psize then Inl ENOMEM
                   else bindr (inflate_ofs z mapped (n - length r2) (unat psize)) (\<lambda>delta.
                     bindr (pack_read_object_at z mem k pack (offset - ofs)) (\<lambda>(bt, bd).
                     bindr (git_delta_apply mem bd delta) (\<lambda>out. Inr (bt, out)))))
            else if type = 7 then
              (case pk_index pack of
                 Some idx \<Rightarrow>
                   if pi_oids idx = [] then Inl Undefined
                   else let hl = length (oid_hash (hd (pi_oids idx))) in
                     if n < cur + hl then Inl ERROR
                     else if mem < unat psize then Inl ENOMEM
                     else bindr (inflate_at z mapped (cur + hl) (unat psize)) (\<lambda>delta.
                       (case fastgit_pack_index_find idx
                               \<lparr>oid_algo = HASH_SHA256, oid_hash = take hl r\<rparr> of
                          Inl e \<Rightarrow> Inl (if e = Undefined then Undefined else ENOENT)
                        | Inr bi \<Rightarrow>
                            bindr (pack_read_object_at z mem k pack (pi_offsets idx ! bi)) (\<lambda>(bt, bd).
                            bindr (git_delta_apply mem bd delta) (\<lambda>out. Inr (bt, out)))))
               | None \<Rightarrow>
                   if n < cur + 32 then Inl ERROR
                   else if mem < unat psize then Inl ENOMEM
                   else bindr (inflate_at z mapped (cur + 32) (unat psize)) (\<lambda>delta. Inl ENOENT))
            else if mem < unat psize then Inl ENOMEM
            else bindr (inflate_at z mapped cur (unat psize)) (\<lambda>out.
              Inr (pack_obj_type_from_git type, out))))"

definition fastgit_pack_read_entry :: "zlib \<Rightarrow> nat \<Rightarrow> pack \<Rightarrow> oid \<Rightarrow> (obj_type \<times> bytes \<times> pack) res" where
  "fastgit_pack_read_entry z mem pack x =
     (case pk_index pack of
        None \<Rightarrow> Inl ENOENT
      | Some idx \<Rightarrow>
          bindr (fastgit_pack_index_find idx x) (\<lambda>i.
          bindr (pack_read_object_at z mem 33 pack (pi_offsets idx ! i)) (\<lambda>(ty, data).
            Inr (ty, data, pack\<lparr>pk_objects_read := pk_objects_read pack + 1,
                                pk_bytes_read := pk_bytes_read pack + of_nat (length data)\<rparr>))))"

definition fastgit_pack_read_header :: "zlib \<Rightarrow> nat \<Rightarrow> pack \<Rightarrow> oid \<Rightarrow> (obj_type \<times> nat \<times> pack) res" where
  "fastgit_pack_read_header z mem pack x =
     bindr (fastgit_pack_read_entry z mem pack x) (\<lambda>(ty, data, p). Inr (ty, length data, p))"

definition fastgit_pack_exists :: "pack \<Rightarrow> oid \<Rightarrow> nat res" where
  "fastgit_pack_exists pack x =
     (case pk_index pack of None \<Rightarrow> Inl ENOENT | Some idx \<Rightarrow> fastgit_pack_index_find idx x)"

end
