(* ===== verification/PackWrite.thy ===== *)
theory PackWrite
  imports Pack
begin

unbundle bit_operations_syntax

text \<open>
  The writing side of \<^verbatim>\<open>src/pack/packfile.c\<close>: creating a pack, adding objects one by one or in
  parallel batches, closing it (count, trailer, index), and loading it again.
\<close>

section \<open>Adding objects\<close>

definition PACK_MAGIC :: bytes where
  "PACK_MAGIC = str ''PACK''"

definition fastgit_pack_create :: pack where
  "fastgit_pack_create =
     \<lparr>pk_writing = True, pk_file = PACK_MAGIC @ be32 2 @ be32 0, pk_object_count = 0,
      pk_mapped = [], pk_index = None, pk_w_oids = [], pk_w_crcs = [], pk_w_offsets = [],
      pk_w_cur_offset = 12, pk_objects_read = 0, pk_objects_written = 0, pk_bytes_read = 0,
      pk_bytes_written = 0\<rparr>"

text \<open>
  The id of an object, hashed in two updates. The results of update and final are not checked: when
  they fail the id is taken from an uninitialised struct.
\<close>

definition type_word :: "obj_type \<Rightarrow> string" where
  "type_word t =
     (if t = COMMIT then ''commit'' else if t = TREE then ''tree'' else if t = TAG then ''tag'' else ''blob'')"

definition oid_of_object :: "evp option \<Rightarrow> obj_type \<Rightarrow> bytes \<Rightarrow> oid res" where
  "oid_of_object crypto t data =
     (case fastgit_hash_ctx_new crypto HASH_SHA256 of
        None \<Rightarrow> Inl EIO
      | Some ctx \<Rightarrow>
          (case fastgit_hash_ctx_init ctx of
             Inl e \<Rightarrow> Inl EIO
           | Inr c1 \<Rightarrow>
               (case bindr (update_all c1 [take 64 (str (type_word t) @ [32] @ dec (length data) @ [0]), data])
                       (fastgit_hash_ctx_final crypto) of
                  Inl e \<Rightarrow> Inl Undefined
                | Inr h \<Rightarrow> Inr \<lparr>oid_algo = HASH_SHA256, oid_hash = h_digest h\<rparr>)))"

text \<open>Appending a written entry: the bytes, the tables, the running offset and the counters.\<close>

definition append_entry :: "pack \<Rightarrow> oid \<Rightarrow> u32 \<Rightarrow> bytes \<Rightarrow> nat \<Rightarrow> pack" where
  "append_entry p x crc bs l =
     p\<lparr>pk_file := pk_file p @ bs,
       pk_w_oids := pk_w_oids p @ [x], pk_w_crcs := pk_w_crcs p @ [crc],
       pk_w_offsets := pk_w_offsets p @ [pk_w_cur_offset p],
       pk_w_cur_offset := pk_w_cur_offset p + of_nat (length bs),
       pk_object_count := pk_object_count p + 1,
       pk_objects_written := pk_objects_written p + 1,
       pk_bytes_written := pk_bytes_written p + of_nat l\<rparr>"

definition fastgit_pack_add_object :: "evp option \<Rightarrow> zlib \<Rightarrow> pack \<Rightarrow> obj_type \<Rightarrow> bytes \<Rightarrow> (oid \<times> pack) res" where
  "fastgit_pack_add_object crypto z p t d =
     (if \<not> pk_writing p then Inl EINVAL
      else (case oid_of_object crypto t d of
          Inl e \<Rightarrow> Inl (if e = Undefined then Undefined else EIO)
        | Inr x \<Rightarrow>
            let hdr = encode_pack_header (pack_type_of t) (of_nat (length d)) in
            (case z_deflate z d of
               None \<Rightarrow> Inl EIO
             | Some zd \<Rightarrow> Inr (x, append_entry p x (z_crc32 z (hdr @ zd)) (hdr @ zd) (length d)))))"

fun add_sequential :: "evp option \<Rightarrow> zlib \<Rightarrow> pack \<Rightarrow> (obj_type \<times> bytes) list \<Rightarrow> (oid list \<times> pack) res" where
  "add_sequential crypto z p [] = Inr ([], p)"
| "add_sequential crypto z p ((t, d) # r) =
     bindr (fastgit_pack_add_object crypto z p t d) (\<lambda>(x, p').
     bindr (add_sequential crypto z p' r) (\<lambda>(xs, q). Inr (x # xs, q)))"

text \<open>What a worker computes for one object: its id, the bytes to write and their checksum.\<close>

definition pack_par_fn :: "evp option \<Rightarrow> zlib \<Rightarrow> obj_type \<times> bytes \<Rightarrow> (oid \<times> u32 \<times> bytes \<times> nat) res" where
  "pack_par_fn crypto z td =
     (case td of (t, d) \<Rightarrow>
       (case oid_of_object crypto t d of
          Inl e \<Rightarrow> Inl (if e = Undefined then Undefined else EIO)
        | Inr x \<Rightarrow>
            let hdr = encode_pack_header (pack_type_of t) (of_nat (length d)) in
            (case z_deflate_fast z d of
               None \<Rightarrow> Inl EIO
             | Some zd \<Rightarrow> Inr (x, z_crc32 z (hdr @ zd), hdr @ zd, length d))))"

text \<open>
  All tasks run (in any order, their results do not depend on it), errors are looked for in order,
  then the entries are written in order. Batches below 128 objects take the sequential path.
\<close>

definition fastgit_pack_add_objects_parallel ::
    "evp option \<Rightarrow> zlib \<Rightarrow> pack \<Rightarrow> (obj_type \<times> bytes) list \<Rightarrow> (oid list \<times> pack) res" where
  "fastgit_pack_add_objects_parallel crypto z p objs =
     (if objs = [] then Inl EINVAL
      else if \<not> pk_writing p then Inl EINVAL
      else if length objs < 128 then add_sequential crypto z p objs
      else bindr (mapr (pack_par_fn crypto z) objs) (\<lambda>ts.
        Inr (map fst ts,
             foldl (\<lambda>p (x, crc, bs, l). append_entry p x crc bs l) p ts)))"

section \<open>The index file\<close>

definition IDX_MAGIC :: bytes where
  "IDX_MAGIC = [0xFF, 0x74, 0x4F, 0x63, 0x00, 0x00, 0x00, 0x02]"

text \<open>An entry to be indexed: id, checksum, offset.\<close>

type_synonym w_entry = "oid \<times> u32 \<times> u64"

definition w_entries :: "pack \<Rightarrow> w_entry list" where
  "w_entries p = zip (pk_w_oids p) (zip (pk_w_crcs p) (pk_w_offsets p))"

text \<open>Insertion sort: the new entry goes after the last one that is not greater.\<close>

definition entry_gt :: "nat \<Rightarrow> w_entry \<Rightarrow> w_entry \<Rightarrow> bool" where
  "entry_gt oid_len a b \<longleftrightarrow>
     0 < memcmp (take oid_len (oid_hash (fst a))) (take oid_len (oid_hash (fst b)))"

definition insert_entry :: "nat \<Rightarrow> w_entry list \<Rightarrow> w_entry \<Rightarrow> w_entry list" where
  "insert_entry oid_len acc key =
     (let r = rev acc
      in rev (dropWhile (\<lambda>e. entry_gt oid_len e key) r) @ [key] @ rev (takeWhile (\<lambda>e. entry_gt oid_len e key) r))"

definition sort_entries :: "nat \<Rightarrow> w_entry list \<Rightarrow> w_entry list" where
  "sort_entries oid_len es = foldl (insert_entry oid_len) [] es"

definition fanout_add :: "u32 list \<Rightarrow> nat \<Rightarrow> u32 list" where
  "fanout_add F b = map (\<lambda>f. if b \<le> f then F ! f + 1 else F ! f) [0..<256]"

definition build_fanout :: "w_entry list \<Rightarrow> u32 list" where
  "build_fanout es = foldl (\<lambda>F e. fanout_add F (unat (oid_hash (fst e) ! 0))) (replicate 256 0) es"

definition fastgit_pack_index_create :: "evp option \<Rightarrow> pack \<Rightarrow> bytes res" where
  "fastgit_pack_index_create crypto p =
     (if \<not> pk_writing p then Inl EINVAL
      else let es = w_entries p;
               oid_len = (if es = [] then 32 else length (oid_hash (fst (hd es))));
               es' = sort_entries oid_len es;
               body = IDX_MAGIC @ concat (map be32 (build_fanout es'))
                 @ concat (map (\<lambda>e. take oid_len (oid_hash (fst e))) es')
                 @ concat (map (\<lambda>e. be32 (fst (snd e))) es')
                 @ concat (map (\<lambda>e. be32 (ucast (snd (snd e)))) es')
                 @ (if 32 \<le> length (pk_file p) then drop (length (pk_file p) - 32) (pk_file p)
                    else replicate oid_len 0)
           in case fastgit_hash crypto HASH_SHA256 body of
                Inl e \<Rightarrow> Inl Undefined
              | Inr h \<Rightarrow> Inr (body @ h_digest h))"

text \<open>Closing a pack that was being written gives the final pack file and its index file.\<close>

definition fastgit_pack_close :: "evp option \<Rightarrow> pack \<Rightarrow> (bytes \<times> bytes) res" where
  "fastgit_pack_close crypto p =
     (let f = memcpy_at 8 (be32 (pk_object_count p)) (pk_file p)
      in case fastgit_hash crypto HASH_SHA256 f of
           Inl e \<Rightarrow> Inl Undefined
         | Inr h \<Rightarrow>
             let p' = p\<lparr>pk_file := f @ h_digest h\<rparr>
             in bindr (fastgit_pack_index_create crypto p') (\<lambda>idx. Inr (pk_file p', idx)))"

section \<open>Loading\<close>

definition idx_base :: "nat \<Rightarrow> nat \<Rightarrow> nat" where
  "idx_base cn hl = 8 + 1024 + cn * hl + cn * 4 + cn * 4 + 2 * hl"

definition detect_hash_len :: "nat \<Rightarrow> nat \<Rightarrow> nat" where
  "detect_hash_len sz cn =
     (case List.find (\<lambda>hl. let base = idx_base cn hl
          in sz = base \<or> (base < sz \<and> (sz - base) mod 8 = 0 \<and> sz - base \<le> cn * 8)) [20, 32, 48, 64] of
        Some hl \<Rightarrow> hl | None \<Rightarrow> 32)"

text \<open>
  Large offsets are taken in order from the table that follows, whatever their index says.
\<close>

fun load_large :: "u64 list \<Rightarrow> bytes \<Rightarrow> (u64 list \<times> bytes) res" where
  "load_large [] s = Inr ([], s)"
| "load_large (w # ws) s =
     (if bit w 31 then
        (case get64 s of
           None \<Rightarrow> Inl ERROR
         | Some (v, r) \<Rightarrow> bindr (load_large ws r) (\<lambda>(vs, r'). Inr (v # vs, r')))
      else bindr (load_large ws s) (\<lambda>(vs, r'). Inr (w # vs, r')))"

text \<open>A read outside the mapping (\<open>None\<close> of a reader) is undefined.\<close>

definition in_map :: "'a option \<Rightarrow> 'a res" where
  "in_map x = (case x of None \<Rightarrow> Inl Undefined | Some v \<Rightarrow> Inr v)"

definition fastgit_pack_index_load :: "bytes option \<Rightarrow> pack_index res" where
  "fastgit_pack_index_load file =
     (case file of
        None \<Rightarrow> Inl ENOENT
      | Some f \<Rightarrow>
          if f = [] then Inl EIO
          else if take 8 f \<noteq> IDX_MAGIC then Inl ERROR
          else bindr (in_map (read_many get32 256 (drop 8 f))) (\<lambda>(fan, s1).
            let cn = unat (fan ! 255); hl = detect_hash_len (length f) cn in
            bindr (in_map (read_many (take_bytes hl) cn s1)) (\<lambda>(hs, s2).
            bindr (in_map (read_many get32 cn s2)) (\<lambda>(crcs, s3).
            bindr (in_map (read_many get32 cn s3)) (\<lambda>(offs, s4).
            bindr (load_large (map ucast offs) s4) (\<lambda>(offs', s5).
              Inr \<lparr>pi_fanout = fan,
                   pi_oids = map (\<lambda>h. \<lparr>oid_algo = HASH_SHA256, oid_hash = h\<rparr>) hs,
                   pi_crc32s = crcs, pi_offsets = offs',
                   pi_checksum = (if hl \<le> length s5 then Some (take hl s5) else None)\<rparr>))))))"

definition fastgit_pack_open :: "bytes option \<Rightarrow> bytes option \<Rightarrow> pack res" where
  "fastgit_pack_open pack_file idx_file =
     (case pack_file of
        None \<Rightarrow> Inl ENOENT
      | Some m \<Rightarrow>
          if m = [] then Inl EIO
          else if length m < 12 \<or> take 4 m \<noteq> PACK_MAGIC then Inl ERROR
          else (case get32 (drop 4 m) of
              None \<Rightarrow> Inl ERROR
            | Some (ver, r) \<Rightarrow>
                if ver \<noteq> 2 then Inl ERROR
                else (case get32 r of
                    None \<Rightarrow> Inl ERROR
                  | Some (cnt, _) \<Rightarrow>
                      (case fastgit_pack_index_load idx_file of
                         Inl e \<Rightarrow> Inl (if e = Undefined then Undefined else ERROR)
                       | Inr idx \<Rightarrow> Inr (fastgit_pack_create\<lparr>pk_writing := False, pk_file := m,
                           pk_object_count := cnt, pk_mapped := m, pk_index := Some idx, pk_w_cur_offset := 0\<rparr>)))))"

end
