(* ===== verification/Fanout.thy ===== *)
theory Fanout
  imports Codec
begin

text \<open>
  Sorted tables of object names with a fanout of their first bytes, as pack indexes and multi-pack
  indexes have them: the fanout bounds of a name enclose its position, so that the binary search
  between them finds a name exactly when the table has it.
\<close>

definition lead :: "bytes \<Rightarrow> nat" where
  "lead k = unat (k ! 0)"

definition leading :: "bytes list \<Rightarrow> nat \<Rightarrow> nat" where
  "leading ks f = length (filter (\<lambda>k. lead k \<le> f) ks)"

text \<open>The half-open range that a cumulative fanout gives for the names with a given first byte.\<close>

definition lead_lo :: "bytes list \<Rightarrow> nat \<Rightarrow> nat" where
  "lead_lo ks f = (if f = 0 then 0 else leading ks (f - 1))"

lemma lead_less: "lead k < 256"
  by (simp add: lead_def unat_byte)

lemma leading_le: "leading ks f \<le> length ks"
  by (simp add: leading_def)

lemma leading_255: "leading ks 255 = length ks"
proof -
  have "lead k \<le> 255" for k using lead_less[of k] by simp
  then show ?thesis by (simp add: leading_def)
qed

lemma leading_Cons: "leading (k # ks) f = (if lead k \<le> f then 1 else 0) + leading ks f"
  by (simp add: leading_def)

lemma lead_lo_eq: "lead_lo ks f = length (filter (\<lambda>k. lead k < f) ks)"
proof (cases "f = 0")
  case False
  then have "(\<lambda>k. lead k \<le> f - 1) = (\<lambda>k. lead k < f)" by auto
  then show ?thesis using False by (simp add: lead_lo_def leading_def)
qed (simp add: lead_lo_def)

lemma lead_mono:
  assumes "a \<le> b" "a \<noteq> []" "b \<noteq> []"
  shows "lead a \<le> lead b"
proof -
  obtain x xs y ys where "a = x # xs" "b = y # ys" using assms(2,3) by (meson neq_Nil_conv)
  moreover from this assms(1) have "x \<le> y" by auto
  ultimately show ?thesis by (simp add: lead_def word_le_nat_alt)
qed

lemma leading_bounds:
  assumes "sorted ks" "\<forall>k \<in> set ks. k \<noteq> []" "i < length ks"
  shows "i < leading ks (lead (ks ! i))" "lead_lo ks (lead (ks ! i)) \<le> i"
proof -
  have mono: "lead (ks ! j) \<le> lead (ks ! k)" if "j \<le> k" "k < length ks" for j k
    using that assms by (intro lead_mono) (auto simp: sorted_iff_nth_mono)
  have "{..i} \<subseteq> {j. j < length ks \<and> lead (ks ! j) \<le> lead (ks ! i)}"
    using mono assms(3) by auto
  from card_mono[OF _ this] show "i < leading ks (lead (ks ! i))"
    by (simp add: leading_def length_filter_conv_card)
  have "{j. j < length ks \<and> lead (ks ! j) < lead (ks ! i)} \<subseteq> {..<i}"
    using mono by (auto simp: not_le[symmetric])
  from card_mono[OF _ this] show "lead_lo ks (lead (ks ! i)) \<le> i"
    by (simp add: lead_lo_eq length_filter_conv_card)
qed

text \<open>The search loop over a table, between the bounds of the wanted name.\<close>

definition table_cmp :: "bytes list \<Rightarrow> bytes \<Rightarrow> nat \<Rightarrow> int option" where
  "table_cmp ks key i = (if i < length ks then Some (memcmp (ks ! i) key) else None)"

definition name_table :: "nat \<Rightarrow> bytes list \<Rightarrow> bool" where
  "name_table n ks \<longleftrightarrow> 0 < n \<and> (\<forall>k \<in> set ks. length k = n) \<and> sorted ks \<and> distinct ks \<and> length ks < 2 ^ 31"

lemma table_ordered:
  assumes "name_table n ks" "length key = n" "hi \<le> length ks"
  shows "ordered_cmp (table_cmp ks key) lo hi"
proof -
  have "sorted_wrt (<) ks" using assms(1) by (simp add: name_table_def strict_sorted_iff)
  then show ?thesis
    using ordered_cmp_table[of ks key hi lo] assms by (simp add: table_cmp_def[abs_def] name_table_def)
qed

lemma table_search_found:
  assumes "name_table n ks" "i < length ks"
  shows "bin_search (table_cmp ks (ks ! i)) (lead_lo ks (lead (ks ! i))) (leading ks (lead (ks ! i))) = Inr i"
proof -
  have b: "\<forall>k \<in> set ks. k \<noteq> []" "sorted ks" "length ks < 2 ^ 31" "length (ks ! i) = n"
    using assms by (auto simp: name_table_def)
  note b' = leading_bounds[OF b(2,1) assms(2)]
  show ?thesis
  proof (rule bin_search_complete)
    show "ordered_cmp (table_cmp ks (ks ! i)) (lead_lo ks (lead (ks ! i))) (leading ks (lead (ks ! i)))"
      by (rule table_ordered[OF assms(1) b(4) leading_le])
    show "table_cmp ks (ks ! i) i = Some 0" using assms(2) by (simp add: table_cmp_def memcmp_eq_0)
    show "leading ks (lead (ks ! i)) \<le> 2 ^ 31"
      using leading_le[of ks "lead (ks ! i)"] b(3) by linarith
  qed (rule b')+
qed

lemma table_search_absent:
  assumes "name_table n ks" "length key = n" "key \<notin> set ks"
  shows "bin_search (table_cmp ks key) (lead_lo ks (lead key)) (leading ks (lead key)) = Inl ENOENT"
proof (rule bin_search_absent)
  show "ordered_cmp (table_cmp ks key) (lead_lo ks (lead key)) (leading ks (lead key))"
    by (rule table_ordered[OF assms(1,2) leading_le])
  show "\<forall>i. lead_lo ks (lead key) \<le> i \<and> i < leading ks (lead key) \<longrightarrow> table_cmp ks key i \<noteq> Some 0"
    using assms unfolding table_cmp_def name_table_def
    by (metis memcmp_eq_0 nth_mem option.distinct(1) option.inject)
  show "leading ks (lead key) \<le> 2 ^ 31"
    using leading_le[of ks "lead key"] assms(1) unfolding name_table_def by linarith
qed

end
