(* ===== verification/PackProps.thy ===== *)
theory PackProps
  imports PackWrite ObjectIO Fanout
begin

unbundle bit_operations_syntax

text \<open>
  Writing a pack, closing it, opening it and reading an object gives the object back: header
  codec, position of every entry in the file, the index file, and lookup through its fanout.
\<close>

section \<open>Entry headers\<close>

lemma byte_cont_bits:
  fixes c :: byte
  assumes "\<not> bit c 7"
  shows "(c OR 0x80) AND 0x80 \<noteq> 0" "c AND 0x80 = 0" "(c OR 0x80) AND 0x7F = c AND 0x7F"
  using assms unfolding and_80 and_7F
  by (auto intro!: bit_word_eqI simp: bit_simps bit_80)

lemma parse_groups_print:
  "(bit c 7 \<longleftrightarrow> w \<noteq> 0) \<Longrightarrow> s = 4 + 7 * (i - 1) \<Longrightarrow> 1 \<le> i \<Longrightarrow> unat w * 2 ^ s < 2 ^ 64 \<Longrightarrow>
   parse_size_groups i c s acc (size_groups w @ r) = Inr (acc OR push_bit s w, r)"
proof (induction w arbitrary: i c s acc rule: size_groups.induct)
  case (1 w)
  show ?case
  proof (cases "w = 0")
    case True
    then have "c AND 0x80 = 0" using 1(2) by (simp add: and_80)
    then show ?thesis using True by (subst parse_size_groups.simps) (simp add: size_groups.simps)
  next
    case False
    let ?w = "drop_bit 7 w"
    let ?c = "ucast (w AND 0x7F) :: byte"
    let ?b = "if ?w \<noteq> 0 then ?c OR 0x80 else ?c"
    have c7: "\<not> bit ?c 7" unfolding and_7F by (simp add: bit_simps)
    have c: "c AND 0x80 \<noteq> 0" using 1(2) False by (simp add: and_80)
    have b: "?b AND 0x7F = ?c" "bit ?b 7 \<longleftrightarrow> ?w \<noteq> 0"
      using byte_cont_bits[OF c7] c7
      by (auto simp: and_7F bit_simps bit_80 intro!: bit_word_eqI)
    have s: "s < 64" using False 1(5) by (rule shift_room)
    then have i: "i + 1 \<le> 10" using 1(3,4) by simp
    have g: "size_groups w = ?b # size_groups ?w"
      using False by (subst size_groups.simps) (simp add: Let_def)
    have "ucast ?c = take_bit 7 w" unfolding and_7F by (rule bit_word_eqI) (auto simp: bit_simps)
    then have v: "(acc OR push_bit s (ucast ?c)) OR push_bit (s + 7) ?w = acc OR push_bit s w"
      by (simp only: or_push_split)
    have "parse_size_groups i c s acc (size_groups w @ r)
        = parse_size_groups (i + 1) ?b (s + 7) (acc OR push_bit s (ucast ?c)) (size_groups ?w @ r)"
      unfolding g append_Cons
      by (subst parse_size_groups.simps) (use c s i b(1) in \<open>simp add: Let_def\<close>)
    also have "\<dots> = Inr (acc OR push_bit s w, r)"
      using "1.IH"[OF False refl refl b(2), of "s + 7" "i + 1"] 1(3,4) shift_next[OF 1(5)] v by simp
    finally show ?thesis .
  qed
qed

lemma parse_pack_header_print:
  assumes "type < 8"
  shows "parse_pack_header (encode_pack_header type w @ r) = Inr (type, w, r)"
proof -
  let ?c = "push_bit 4 (of_nat type) OR ucast (w AND 0x0F) :: byte"
  let ?w = "drop_bit 4 w"
  let ?b = "if ?w \<noteq> 0 then ?c OR 0x80 else ?c"
  have t4: "w AND 0x0F = take_bit 4 w" by (simp add: take_bit_eq_mask mask_eq_exp_minus_1)
  have tb: "bit (of_nat type :: byte) n \<Longrightarrow> n < 3" for n
  proof -
    have "take_bit 3 (of_nat type :: byte) = of_nat type"
      using assms by (simp add: take_bit_eq_mod word_unat_eq_iff unat_mod_distrib unat_of_nat)
    then show "bit (of_nat type :: byte) n \<Longrightarrow> n < 3" by (metis bit_take_bit_iff)
  qed
  have c7: "\<not> bit ?c 7" unfolding t4 using tb[of 3] by (auto simp: bit_simps)
  have b7: "bit ?b 7 \<longleftrightarrow> ?w \<noteq> 0" using c7 by (auto simp: bit_simps bit_80)
  have lo: "ucast (?b AND 0x0F) = take_bit 4 w"
  proof -
    have m: "?b AND 0x0F = take_bit 4 ?b" by (simp add: take_bit_eq_mask mask_eq_exp_minus_1)
    have "take_bit 4 ?b = take_bit 4 ?c" by simp
    then show ?thesis
      unfolding m unfolding t4 by (simp only:) (rule bit_word_eqI, auto simp: bit_simps)
  qed
  have hi: "unat (drop_bit 4 ?b AND 0x07) = type"
  proof -
    have m: "drop_bit 4 ?b AND 0x07 = take_bit 3 (drop_bit 4 ?b)"
      by (simp add: take_bit_eq_mask mask_eq_exp_minus_1)
    have "take_bit 3 (drop_bit 4 ?b) = take_bit 3 (drop_bit 4 ?c)" by simp
    also have "\<dots> = of_nat type"
    proof (rule bit_word_eqI)
      fix n
      assume "n < LENGTH(8)"
      then show "bit (take_bit 3 (drop_bit 4 ?c)) n = bit (of_nat type :: byte) n"
        unfolding t4 using tb[of n] by (auto simp: bit_simps)
    qed
    finally have "take_bit 3 (drop_bit 4 ?b) = of_nat type" .
    then show ?thesis unfolding m using assms by (simp add: unat_of_nat)
  qed
  have "unat ?w * 2 ^ 4 \<le> unat w" by (simp add: drop_bit_eq_div unat_div_distrib)
  then have room: "unat ?w * 2 ^ 4 < 2 ^ 64" using unat_u64[of w] by simp
  have "take_bit 4 w OR push_bit 4 ?w = w"
  proof (rule bit_word_eqI)
    fix n :: nat
    have "\<not> n < 4 \<Longrightarrow> 4 + (n - 4) = n" by arith
    then show "bit (take_bit 4 w OR push_bit 4 ?w) n = bit w n"
      by (cases "n < 4") (auto simp: bit_simps dest: bit_imp_le_length)
  qed
  then have "parse_size_groups 1 ?b 4 (take_bit 4 w) (size_groups ?w @ r) = Inr (w, r)"
    using parse_groups_print[OF b7 _ _ room, of 1 "take_bit 4 w" r] by simp
  then show ?thesis
    using lo hi by (simp add: parse_pack_header_def encode_pack_header_def Let_def)
qed

section \<open>Reading an entry at its position\<close>

text \<open>zlib as documented: inflating a deflated stream gives the data and stops at its end.\<close>

definition zlib_ok :: "zlib \<Rightarrow> bool" where
  "zlib_ok z \<longleftrightarrow> (\<forall>d zd r. z_deflate z d = Some zd \<longrightarrow> z_inflate z (zd @ r) = Some (d, length zd))"

definition base_type :: "obj_type \<Rightarrow> bool" where
  "base_type t \<longleftrightarrow> t \<in> {BLOB, TREE, COMMIT, TAG}"

lemma pack_type_roundtrip:
  "base_type t \<Longrightarrow> pack_obj_type_from_git (pack_type_of t) = t \<and> pack_type_of t < 5 \<and> 0 < pack_type_of t"
  by (auto simp: base_type_def pack_obj_type_from_git_def pack_type_of_def)

definition entry_of :: "zlib \<Rightarrow> obj_type \<times> bytes \<Rightarrow> bytes" where
  "entry_of z td = (case td of (t, d) \<Rightarrow>
     encode_pack_header (pack_type_of t) (of_nat (length d)) @ the (z_deflate z d))"

lemma pack_read_plain:
  assumes z: "zlib_ok z" "z_deflate z d = Some zd" and t: "base_type t"
    and m: "pk_mapped pack = pre @ entry_of z (t, d) @ post" "32 \<le> length post"
    and len: "length (pk_mapped pack) < 2 ^ 31" "length d \<le> mem" "length d < 2 ^ 64"
  shows "pack_read_object_at z mem (Suc k) pack (of_nat (length pre)) = Inr (t, d)"
proof -
  let ?h = "encode_pack_header (pack_type_of t) (of_nat (length d))"
  let ?r = "zd @ post"
  have e: "entry_of z (t, d) = ?h @ zd" by (simp add: entry_of_def z(2))
  have pt: "pack_type_of t < 8" "pack_type_of t \<noteq> 6" "pack_type_of t \<noteq> 7"
    using pack_type_roundtrip[OF t] by auto
  have n: "length (pk_mapped pack) = length pre + length ?h + length ?r" by (simp add: m(1) e)
  have u: "unat (of_nat (length pre) :: u64) = length pre" using n len(1) by (simp add: unat_of_nat)
  have u12: "unat (of_nat (length pre) + 12 :: u64) = length pre + 12"
    using n len(1) u by (simp add: unat_word_ariths)
  have ud: "unat (of_nat (length d) :: u64) = length d" using len(3) by (simp add: unat_of_nat)
  have ph: "parse_pack_header (drop (length pre) (pk_mapped pack)) = Inr (pack_type_of t, of_nat (length d), ?r)"
    using parse_pack_header_print[OF pt(1), of "of_nat (length d)" ?r] by (simp add: m(1) e)
  let ?cur = "length (pk_mapped pack) - length ?r"
  have cur: "?cur = length pre + length ?h" using n by simp
  have dr: "drop ?cur (pk_mapped pack) = ?r" unfolding cur by (simp add: m(1) e)
  have av: "(length (pk_mapped pack) - ?cur - 32) mod 2 ^ 32 = length zd + (length post - 32)"
    using n m(2) len(1) by simp
  have tk: "take (length zd + (length post - 32)) ?r = zd @ take (length post - 32) post"
    by simp
  have "z_inflate z (zd @ take (length post - 32) post) = Some (d, length zd)"
    using z unfolding zlib_ok_def by blast
  then have inf: "inflate_at z (pk_mapped pack) ?cur (length d) = Inr d"
    using n m(2) unfolding inflate_at_def dr av tk by (simp add: inflate_slice_def)
  have "post \<noteq> []" using m(2) by auto
  then show ?thesis
    using n m(2) u u12 ud ph pt inf len(2) pack_type_roundtrip[OF t]
    by (simp add: Let_def)
qed

section \<open>What a writer has written\<close>

definition wrote :: "evp option \<Rightarrow> zlib \<Rightarrow> (obj_type \<times> bytes) list \<Rightarrow> pack \<Rightarrow> bool" where
  "wrote crypto z objs p \<longleftrightarrow>
     pk_writing p \<and>
     pk_file p = PACK_MAGIC @ be32 2 @ be32 0 @ concat (map (entry_of z) objs) \<and>
     pk_object_count p = of_nat (length objs) \<and>
     pk_w_cur_offset p = of_nat (length (pk_file p)) \<and>
     length (pk_w_crcs p) = length objs \<and>
     map Inr (pk_w_oids p) = map (\<lambda>(t, d). oid_of_object crypto t d) objs \<and>
     pk_w_offsets p = map (\<lambda>i. of_nat (12 + length (concat (map (entry_of z) (take i objs))))) [0..<length objs] \<and>
     (\<forall>(t, d) \<in> set objs. z_deflate z d \<noteq> None)"

lemma wrote_create: "wrote crypto z [] fastgit_pack_create"
  by (simp add: wrote_def fastgit_pack_create_def PACK_MAGIC_def)

lemma wrote_add:
  assumes "wrote crypto z objs p" "fastgit_pack_add_object crypto z p t d = Inr (x, q)"
  shows "wrote crypto z (objs @ [(t, d)]) q \<and> oid_of_object crypto t d = Inr x \<and> pk_w_oids q = pk_w_oids p @ [x]"
proof -
  obtain zd where zd: "z_deflate z d = Some zd" and x: "oid_of_object crypto t d = Inr x"
    and q: "q = append_entry p x (z_crc32 z (entry_of z (t, d))) (entry_of z (t, d)) (length d)"
    using assms(2)
    by (auto simp: fastgit_pack_add_object_def Let_def entry_of_def split: if_splits sum.splits option.splits)
  have "map (\<lambda>i. of_nat (12 + length (concat (map (entry_of z) (take i (objs @ [(t, d)])))))) [0..<length objs]
      = (map (\<lambda>i. of_nat (12 + length (concat (map (entry_of z) (take i objs))))) [0..<length objs] :: u64 list)"
    by (rule map_cong) auto
  then show ?thesis
    using assms(1) x zd by (auto simp: wrote_def q append_entry_def PACK_MAGIC_def)
qed

lemma wrote_sequential:
  "wrote crypto z done p \<Longrightarrow> add_sequential crypto z p objs = Inr (xs, q) \<Longrightarrow>
   wrote crypto z (done @ objs) q \<and> pk_w_oids q = pk_w_oids p @ xs \<and> length xs = length objs"
proof (induction objs arbitrary: "done" p xs)
  case (Cons td objs)
  obtain t d where td: "td = (t, d)" by fastforce
  obtain x p' ys where s: "fastgit_pack_add_object crypto z p t d = Inr (x, p')"
    "add_sequential crypto z p' objs = Inr (ys, q)" "xs = x # ys"
    using Cons.prems(2) by (auto simp: td bindr_Inr_iff)
  from wrote_add[OF Cons.prems(1) s(1)] have w: "wrote crypto z (done @ [(t, d)]) p'" "pk_w_oids p' = pk_w_oids p @ [x]"
    by simp_all
  from Cons.IH[OF w(1) s(2)] show ?case using w(2) s(3) by (simp add: td)
qed simp

section \<open>The sorted entries\<close>

definition key_of :: "w_entry \<Rightarrow> bytes" where
  "key_of e = oid_hash (fst e)"

lemma entry_gt_iff:
  "length (key_of a) = n \<Longrightarrow> length (key_of b) = n \<Longrightarrow> entry_gt n a b \<longleftrightarrow> key_of b < key_of a"
  by (simp add: entry_gt_def key_of_def memcmp_greater)

lemma mset_insert_entry: "mset (insert_entry n acc e) = mset acc + {#e#}"
proof -
  have "mset (rev (dropWhile P (rev acc))) + mset (rev (takeWhile P (rev acc))) = mset acc" for P
    using arg_cong[OF takeWhile_dropWhile_id[of P "rev acc"], of mset]
    by (simp add: add.commute del: takeWhile_dropWhile_id)
  then show ?thesis by (simp add: insert_entry_def Let_def ac_simps)
qed

lemma sorted_insert_entry:
  assumes "sorted (map key_of acc)" "\<forall>x \<in> set acc. length (key_of x) = n" "length (key_of e) = n"
  shows "sorted (map key_of (insert_entry n acc e))"
proof -
  define P where "P = (\<lambda>x. entry_gt n x e)"
  have P: "x \<in> set acc \<Longrightarrow> P x \<longleftrightarrow> key_of e < key_of x" for x
    using entry_gt_iff[of x n e] assms by (simp add: P_def)
  define hi where "hi = rev (takeWhile P (rev acc))"
  define lo where "lo = rev (dropWhile P (rev acc))"
  have acc: "acc = lo @ hi"
    unfolding lo_def hi_def using arg_cong[OF takeWhile_dropWhile_id[of P "rev acc"], of rev]
    by (simp del: takeWhile_dropWhile_id)
  then have s: "sorted (map key_of lo)" "sorted (map key_of hi)"
    "\<forall>x \<in> set lo. \<forall>y \<in> set hi. key_of x \<le> key_of y"
    using assms(1) by (simp_all add: sorted_append)
  have h: "\<forall>x \<in> set hi. key_of e \<le> key_of x"
  proof
    fix x
    assume x: "x \<in> set hi"
    then have "P x" using set_takeWhileD[of x P "rev acc"] by (simp add: hi_def)
    then show "key_of e \<le> key_of x" using P[of x] x acc by simp
  qed
  have l: "\<forall>x \<in> set lo. key_of x \<le> key_of e"
  proof (cases "lo = []")
    case False
    then have "rev lo \<noteq> []" "\<not> P (hd (rev lo))"
      unfolding lo_def by (simp_all add: hd_dropWhile)
    then have "\<not> P (last lo)" by (simp add: hd_rev)
    then have "key_of (last lo) \<le> key_of e"
      using P[of "last lo"] False acc by (auto simp: not_less)
    moreover have "\<forall>x \<in> set lo. key_of x \<le> key_of (last lo)"
    proof -
      obtain ys y where "lo = ys @ [y]" using False by (cases lo rule: rev_cases) auto
      then show ?thesis using s(1) by (auto simp: sorted_append)
    qed
    ultimately show ?thesis by force
  qed simp
  have "insert_entry n acc e = lo @ [e] @ hi"
    by (simp add: insert_entry_def Let_def lo_def hi_def P_def)
  then show ?thesis
    using s h l by (auto simp: sorted_append)
qed

lemma sort_entries_ok:
  assumes "\<forall>x \<in> set es. length (key_of x) = n"
  shows "mset (sort_entries n es) = mset es \<and> sorted (map key_of (sort_entries n es))"
proof -
  have "\<forall>x \<in> set (acc @ es). length (key_of x) = n \<Longrightarrow> sorted (map key_of acc) \<Longrightarrow>
      mset (foldl (insert_entry n) acc es) = mset acc + mset es \<and>
      sorted (map key_of (foldl (insert_entry n) acc es))" for acc
  proof (induction es arbitrary: acc)
    case (Cons e es)
    have "set (insert_entry n acc e) = insert e (set acc)"
      using mset_eq_setD[of "insert_entry n acc e" "e # acc"] by (simp add: mset_insert_entry)
    then show ?case
      using Cons.IH[of "insert_entry n acc e"] Cons.prems sorted_insert_entry[of acc n e]
      by (simp add: mset_insert_entry)
  qed simp
  from this[of "[]"] show ?thesis using assms by (simp add: sort_entries_def)
qed

section \<open>The fanout table\<close>

lemma length_fanout_add: "length (fanout_add F b) = 256"
  by (simp add: fanout_add_def)

lemma fanout_nth:
  "f < 256 \<Longrightarrow> build_fanout es ! f = of_nat (leading (map key_of es) f)"
proof -
  assume f: "f < 256"
  have "length F = 256 \<Longrightarrow>
      foldl (\<lambda>F e. fanout_add F (unat (oid_hash (fst e) ! 0))) F es ! f
      = F ! f + of_nat (leading (map key_of es) f)" for F
  proof (induction es arbitrary: F)
    case (Cons e es)
    have "foldl (\<lambda>F e. fanout_add F (unat (oid_hash (fst e) ! 0))) F (e # es) ! f
        = fanout_add F (unat (oid_hash (fst e) ! 0)) ! f + of_nat (leading (map key_of es) f)"
      by (simp add: Cons.IH length_fanout_add)
    also have "fanout_add F (unat (oid_hash (fst e) ! 0)) ! f = F ! f + (if lead (key_of e) \<le> f then 1 else 0)"
      using f by (simp add: fanout_add_def lead_def key_of_def)
    finally show ?case by (simp add: leading_Cons ac_simps)
  qed (simp add: leading_def)
  from this[of "replicate 256 0"] show ?thesis using f by (simp add: build_fanout_def)
qed

lemma length_fanout: "length (build_fanout es) = 256"
proof -
  have "length F = 256 \<Longrightarrow> length (foldl (\<lambda>F e. fanout_add F (unat (oid_hash (fst e) ! 0))) F es) = 256" for F
    by (induction es arbitrary: F) (auto simp: length_fanout_add)
  then show ?thesis by (simp add: build_fanout_def)
qed

lemma fanout_unat:
  assumes "length es < 2 ^ 31" "f < 256"
  shows "unat (build_fanout es ! f) = leading (map key_of es) f"
proof -
  have "leading (map key_of es) f < 2 ^ 32"
    using leading_le[of "map key_of es" f] assms(1) by simp
  then show ?thesis using assms(2) by (simp add: fanout_nth unat_of_nat)
qed

section \<open>The index file is read back\<close>

definition hash_entries :: "w_entry list \<Rightarrow> bool" where
  "hash_entries es \<longleftrightarrow> (\<forall>e \<in> set es. length (key_of e) = 32 \<and> unat (snd (snd e)) < 2 ^ 31)"

lemma read_be32s: "length ws = n \<Longrightarrow> read_many get32 n (concat (map be32 ws) @ r) = Some (ws, r)"
  using be32c.read_many_enc[of ws r] by simp

lemma read_keys: "hash_entries es \<Longrightarrow> length es = n \<Longrightarrow>
  read_many (take_bytes 32) n (concat (map key_of es) @ r) = Some (map key_of es, r)"
  using codec.read_many_enc[OF take_bytes_codec, of "map key_of es" 32 r]
  by (simp add: hash_entries_def)

lemma load_large_small:
  "\<forall>w \<in> set ws. unat w < 2 ^ 31 \<Longrightarrow> load_large ws s = Inr (ws, s)"
proof (induction ws)
  case (Cons w ws)
  have "drop_bit 31 w = 0"
    using Cons.prems by (simp add: word_unat_eq_iff drop_bit_eq_div unat_div_distrib)
  then have "\<not> bit (drop_bit 31 w) 0" by simp
  then have "\<not> bit w 31" by (simp add: bit_simps)
  then show ?case using Cons by simp
qed simp

lemma ucast_back: "unat (w :: u64) < 2 ^ 32 \<Longrightarrow> ucast (ucast w :: u32) = w"
  by (simp add: word_unat_eq_iff unsigned_ucast_eq unsigned_take_bit_eq take_bit_nat_eq_self)

lemma length_keys: "hash_entries es \<Longrightarrow> length (concat (map key_of es)) = 32 * length es"
  by (induction es) (auto simp: hash_entries_def)

lemma length_be32s: "length (concat (map be32 ws)) = 4 * length ws"
  by (induction ws) auto

lemma detect_32: "detect_hash_len (idx_base n 32) n = 32"
  by (simp add: detect_hash_len_def idx_base_def Let_def)

definition idx_of :: "w_entry list \<Rightarrow> bytes \<Rightarrow> pack_index" where
  "idx_of es cs = \<lparr>pi_fanout = build_fanout es,
     pi_oids = map (\<lambda>e. \<lparr>oid_algo = HASH_SHA256, oid_hash = key_of e\<rparr>) es,
     pi_crc32s = map (\<lambda>e. fst (snd e)) es, pi_offsets = map (\<lambda>e. snd (snd e)) es,
     pi_checksum = Some cs\<rparr>"

lemma index_load_written:
  assumes es: "hash_entries es" "length es < 2 ^ 31" and cs: "length cs = 32" "length h = 32"
  shows "fastgit_pack_index_load (Some (IDX_MAGIC @ concat (map be32 (build_fanout es))
      @ concat (map key_of es) @ concat (map (\<lambda>e. be32 (fst (snd e))) es)
      @ concat (map (\<lambda>e. be32 (ucast (snd (snd e)))) es) @ cs @ h)) = Inr (idx_of es cs)"
proof -
  let ?n = "length es"
  let ?o = "concat (map be32 (map (\<lambda>e. ucast (snd (snd e))) es)) @ cs @ h"
  let ?c = "concat (map be32 (map (\<lambda>e. fst (snd e)) es)) @ ?o"
  let ?k = "concat (map key_of es) @ ?c"
  let ?f = "IDX_MAGIC @ concat (map be32 (build_fanout es)) @ ?k"
  have cnt: "unat (build_fanout es ! 255) = ?n"
    using fanout_unat[OF es(2), of 255] by (simp add: leading_255)
  have "length ?f = idx_base ?n 32"
    using cs es(1) unfolding length_append length_be32s length_keys[OF es(1)] length_fanout
    by (simp add: idx_base_def IDX_MAGIC_def)
  then have hl: "detect_hash_len (length ?f) ?n = 32" using detect_32 by simp
  have r1: "read_many get32 256 (drop 8 ?f) = Some (build_fanout es, ?k)"
    using read_be32s[OF length_fanout, of es ?k] by (simp add: IDX_MAGIC_def)
  have r2: "read_many (take_bytes 32) ?n ?k = Some (map key_of es, ?c)" by (rule read_keys[OF es(1) refl])
  have r3: "read_many get32 ?n ?c = Some (map (\<lambda>e. fst (snd e)) es, ?o)" by (rule read_be32s) simp
  have r4: "read_many get32 ?n ?o = Some (map (\<lambda>e. ucast (snd (snd e))) es, cs @ h)" by (rule read_be32s) simp
  have offs: "map ucast (map (\<lambda>e. ucast (snd (snd e)) :: u32) es) = (map (\<lambda>e. snd (snd e)) es :: u64 list)"
    using es(1) by (auto simp: hash_entries_def ucast_back)
  have r5: "load_large (map ucast (map (\<lambda>e. ucast (snd (snd e)) :: u32) es)) (cs @ h) = Inr (map (\<lambda>e. snd (snd e)) es, cs @ h)"
    unfolding offs using es(1) by (intro load_large_small) (auto simp: hash_entries_def)
  have mg: "take 8 ?f = IDX_MAGIC" by (simp add: IDX_MAGIC_def)
  have "fastgit_pack_index_load (Some ?f) = Inr (idx_of es cs)"
    unfolding fastgit_pack_index_load_def option.case mg r1 in_map_def bindr_simps prod.case Let_def cnt hl r2 r3 r4 r5
    using cs by (simp add: idx_of_def IDX_MAGIC_def comp_def)
  then show ?thesis by (simp add: comp_def)
qed

section \<open>Lookup\<close>

lemma index_find_entry:
  assumes es: "hash_entries es" "length es < 2 ^ 31" "sorted (map key_of es)" "distinct (map key_of es)"
    and i: "i < length es"
  shows "fastgit_pack_index_find (idx_of es cs) \<lparr>oid_algo = a, oid_hash = key_of (es ! i)\<rparr> = Inr i"
proof -
  let ?ks = "map key_of es" and ?idx = "idx_of es cs"
  let ?k = "?ks ! i"
  have nt: "name_table 32 ?ks" using es by (simp add: name_table_def hash_entries_def)
  have bs: "bin_search (table_cmp ?ks ?k) (lead_lo ?ks (lead ?k)) (leading ?ks (lead ?k)) = Inr i"
    using table_search_found[OF nt, of i] i by simp
  have hi: "unat (pi_fanout ?idx ! lead ?k) = leading ?ks (lead ?k)"
    using fanout_unat[OF es(2) lead_less] by (simp add: idx_of_def)
  have lo: "(if lead ?k = 0 then 0 else unat (pi_fanout ?idx ! (lead ?k - 1))) = lead_lo ?ks (lead ?k)"
    using fanout_unat[OF es(2), of "lead ?k - 1"] lead_less[of ?k] by (simp add: idx_of_def lead_lo_def)
  have tab: "(\<lambda>j. if j < length (pi_oids ?idx) then Some (memcmp (oid_hash (pi_oids ?idx ! j)) (key_of (es ! i))) else None)
      = table_cmp ?ks ?k"
    using i by (auto simp: idx_of_def table_cmp_def)
  have ne: "pi_oids ?idx \<noteq> [] \<and> length (oid_hash (hd (pi_oids ?idx))) = 32"
    using es(1) i by (cases es) (simp_all add: idx_of_def hash_entries_def)
  have k: "length ?k = 32" "unat (key_of (es ! i) ! 0) = lead ?k" "key_of (es ! i) = ?k"
    using es(1) i by (simp_all add: hash_entries_def lead_def)
  show ?thesis
    unfolding fastgit_pack_index_find_def Let_def oid.select_convs tab k(2) lo hi
    using ne k(1,3) bs by simp
qed

lemma oid_of_object_ok:
  assumes "sha256_ok crypto"
  shows "\<exists>h. oid_of_object crypto t d = Inr \<lparr>oid_algo = HASH_SHA256, oid_hash = h\<rparr> \<and> length h = 32 \<and>
    fastgit_hash crypto HASH_SHA256 (take 64 (str (type_word t) @ [32] @ dec (length d) @ [0]) @ d)
      = Inr \<lparr>h_digest = h, h_algo = HASH_SHA256\<rparr>"
proof -
  let ?bs = "[take 64 (str (type_word t) @ [32] @ dec (length d) @ [0]), d]"
  obtain h where h: "fastgit_hash crypto HASH_SHA256 (concat ?bs) = Inr \<lparr>h_digest = h, h_algo = HASH_SHA256\<rparr>" "length h = 32"
    using assms unfolding sha256_ok_def by blast
  have st: "fastgit_hash_stream crypto HASH_SHA256 ?bs = Inr \<lparr>h_digest = h, h_algo = HASH_SHA256\<rparr>"
    using h(1) by (simp only: stream_whole)
  obtain ctx c1 where c: "fastgit_hash_ctx_new crypto HASH_SHA256 = Some ctx" "fastgit_hash_ctx_init ctx = Inr c1"
    using st by (auto simp: fastgit_hash_stream_def bindr_Inr_iff split: option.splits)
  have "bindr (update_all c1 ?bs) (fastgit_hash_ctx_final crypto) = Inr \<lparr>h_digest = h, h_algo = HASH_SHA256\<rparr>"
    using st unfolding fastgit_hash_stream_def c option.case bindr_simps .
  then have "oid_of_object crypto t d = Inr \<lparr>oid_algo = HASH_SHA256, oid_hash = h\<rparr>"
    unfolding oid_of_object_def c option.case sum.case by simp
  then show ?thesis using h by simp
qed

text \<open>The id of an object in a pack is its id as a loose object.\<close>

lemma pack_oid_is_object_hash:
  assumes c: "sha256_ok crypto" and t: "base_type t" and d: "length d < 2 ^ 64" "d \<noteq> []"
  shows "fastgit_object_hash crypto (fastgit_object_parse t d) HASH_SHA256 = oid_of_object crypto t d"
proof -
  have nm: "header_name t = Inr (type_word t)" "length (type_word t) \<le> 10"
    using t by (auto simp: base_type_def header_name_def type_word_def)
  have hl: "length (object_header (type_word t) (length d)) < 64" by (rule header_short[OF d(1) nm(2)])
  then have tk: "take 64 (str (type_word t) @ [32] @ dec (length d) @ [0]) = object_header (type_word t) (length d) @ [0]"
    by (simp add: object_header_def)
  have "object_content (fastgit_object_parse t d) = Inr d"
    using d(2) by (simp add: object_content_def o_size_def fastgit_object_parse_def)
  then show ?thesis
    using oid_of_object_ok[OF c, of t d, unfolded tk] hl nm(1)
    by (auto simp: fastgit_object_hash_def fastgit_object_serialize_def Let_def fastgit_object_parse_def)
qed

section \<open>Closing and opening\<close>

definition written_index :: "pack \<Rightarrow> w_entry list" where
  "written_index p = sort_entries 32 (w_entries p)"

lemma small_offset: "n < 2 ^ 31 \<Longrightarrow> unat (of_nat n :: u64) = n"
  by (simp add: unat_of_nat)

lemma written_entries:
  assumes c: "sha256_ok crypto" and w: "wrote crypto z objs p" and l: "length (pk_file p) < 2 ^ 31"
    and d: "distinct (pk_w_oids p)"
  shows "length (w_entries p) = length objs" "hash_entries (w_entries p)"
    "distinct (map key_of (w_entries p))" "length objs < 2 ^ 31"
    "i < length objs \<Longrightarrow> pk_w_oids p ! i = \<lparr>oid_algo = HASH_SHA256, oid_hash = key_of (w_entries p ! i)\<rparr>"
    "i < length objs \<Longrightarrow> snd (snd (w_entries p ! i)) = of_nat (12 + length (concat (map (entry_of z) (take i objs))))"
proof -
  have m: "map Inr (pk_w_oids p) = map (\<lambda>(t, d). oid_of_object crypto t d) objs" using w by (simp add: wrote_def)
  have len: "length (pk_w_oids p) = length objs" using arg_cong[OF m, of length] by simp
  have lens: "length (pk_w_crcs p) = length objs" "length (pk_w_offsets p) = length objs"
    using w by (simp_all add: wrote_def)
  show n: "length (w_entries p) = length objs" using len lens by (simp add: w_entries_def)
  have es: "w_entries p ! i = (pk_w_oids p ! i, pk_w_crcs p ! i, pk_w_offsets p ! i)" if "i < length objs" for i
    using that len lens by (simp add: w_entries_def)
  have ok: "oid_algo (pk_w_oids p ! i) = HASH_SHA256 \<and> length (oid_hash (pk_w_oids p ! i)) = 32"
    if i: "i < length objs" for i
  proof -
    obtain t b where tb: "objs ! i = (t, b)" by fastforce
    have "Inr (pk_w_oids p ! i) = oid_of_object crypto t b"
      using arg_cong[OF m, of "\<lambda>l. l ! i"] i len tb by simp
    moreover obtain h where "oid_of_object crypto t b = Inr \<lparr>oid_algo = HASH_SHA256, oid_hash = h\<rparr>" "length h = 32"
      using oid_of_object_ok[OF c] by blast
    ultimately show ?thesis by simp
  qed
  show key: "i < length objs \<Longrightarrow> pk_w_oids p ! i = \<lparr>oid_algo = HASH_SHA256, oid_hash = key_of (w_entries p ! i)\<rparr>" for i
    using ok[of i] es[of i] by (cases "pk_w_oids p ! i") (simp add: key_of_def)
  show off: "i < length objs \<Longrightarrow> snd (snd (w_entries p ! i)) = of_nat (12 + length (concat (map (entry_of z) (take i objs))))" for i
    using es[of i] w by (simp add: wrote_def)
  have ne: "1 \<le> length (entry_of z td)" for td
    by (cases td) (simp add: entry_of_def encode_pack_header_def Let_def)
  have fl: "length (pk_file p) = 12 + length (concat (map (entry_of z) objs))"
    using w by (simp add: wrote_def PACK_MAGIC_def)
  have "length objs \<le> length (concat (map (entry_of z) objs))"
  proof (induction objs)
    case (Cons a objs)
    then show ?case using ne[of a] by simp
  qed simp
  then show small: "length objs < 2 ^ 31" using fl l by simp
  have le: "length (concat (map (entry_of z) (take i objs))) \<le> length (concat (map (entry_of z) objs))" for i
    using arg_cong[OF append_take_drop_id[of i objs], of "\<lambda>l. length (concat (map (entry_of z) l))"]
    unfolding map_append concat_append length_append by arith
  have o31: "12 + length (concat (map (entry_of z) (take i objs))) < 2 ^ 31" for i
    using le[of i] fl l by linarith
  have "unat (snd (snd (w_entries p ! i))) < 2 ^ 31" if "i < length objs" for i
    unfolding off[OF that] using o31[of i] by (simp only: small_offset)
  moreover have "length (key_of (w_entries p ! i)) = 32" if "i < length objs" for i
    using ok[OF that] es[OF that] by (simp add: key_of_def)
  ultimately show "hash_entries (w_entries p)"
    unfolding hash_entries_def all_set_conv_all_nth n by blast
  show "distinct (map key_of (w_entries p))"
  proof -
    have "pk_w_oids p = map (\<lambda>k. \<lparr>oid_algo = HASH_SHA256, oid_hash = k\<rparr>) (map key_of (w_entries p))"
      using key n len by (intro nth_equalityI) auto
    then show ?thesis using d by (metis distinct_map)
  qed
qed


text \<open>The files that close writes, and what open makes of them.\<close>

lemma close_open:
  assumes c: "sha256_ok crypto" and w: "wrote crypto z objs p" and l: "length (pk_file p) < 2 ^ 31"
    and d: "distinct (pk_w_oids p)"
  shows "\<exists>F I pk h cs. fastgit_pack_close crypto p = Inr (F, I) \<and> fastgit_pack_open (Some F) (Some I) = Inr pk \<and>
    pk_index pk = Some (idx_of (written_index p) cs) \<and>
    pk_mapped pk = PACK_MAGIC @ be32 2 @ be32 (of_nat (length objs)) @ concat (map (entry_of z) objs) @ h \<and>
    length h = 32"
proof -
  note we = written_entries[OF c w l d]
  let ?body = "concat (map (entry_of z) objs)"
  let ?n = "of_nat (length objs) :: u32"
  let ?f = "PACK_MAGIC @ be32 2 @ be32 ?n @ ?body"
  have pf: "pk_file p = PACK_MAGIC @ be32 2 @ be32 0 @ ?body" "pk_object_count p = ?n" "pk_writing p"
    using w by (simp_all add: wrote_def)
  have mc: "memcpy_at 8 (be32 (pk_object_count p)) (pk_file p) = ?f"
    by (simp add: pf memcpy_at_def PACK_MAGIC_def)
  obtain h where h: "fastgit_hash crypto HASH_SHA256 ?f = Inr \<lparr>h_digest = h, h_algo = HASH_SHA256\<rparr>" "length h = 32"
    using c unfolding sha256_ok_def by blast
  let ?p = "p\<lparr>pk_file := ?f @ h\<rparr>"
  let ?es = "written_index p"
  have wp: "w_entries ?p = w_entries p" by (simp add: w_entries_def)
  have ol: "(if w_entries p = [] then 32 else length (oid_hash (fst (hd (w_entries p))))) = 32"
    using we(2) by (cases "w_entries p") (simp_all add: hash_entries_def key_of_def)
  have he: "hash_entries ?es" "mset ?es = mset (w_entries p)"
  proof -
    show m: "mset ?es = mset (w_entries p)"
      using sort_entries_ok[of "w_entries p" 32] we(2) by (simp add: written_index_def hash_entries_def)
    show "hash_entries ?es" using we(2) mset_eq_setD[OF m] by (simp add: hash_entries_def)
  qed
  have tk: "map (\<lambda>e. take 32 (oid_hash (fst e))) ?es = map key_of ?es"
    using he(1) by (auto simp: hash_entries_def key_of_def)
  let ?ib = "IDX_MAGIC @ concat (map be32 (build_fanout ?es)) @ concat (map key_of ?es)
      @ concat (map (\<lambda>e. be32 (fst (snd e))) ?es) @ concat (map (\<lambda>e. be32 (ucast (snd (snd e)))) ?es) @ h"
  obtain ih where ih: "fastgit_hash crypto HASH_SHA256 ?ib = Inr \<lparr>h_digest = ih, h_algo = HASH_SHA256\<rparr>" "length ih = 32"
    using c unfolding sha256_ok_def by blast
  have tr: "(if 32 \<le> length (pk_file ?p) then drop (length (pk_file ?p) - 32) (pk_file ?p) else x) = h" for x
    using h(2) by simp
  have "fastgit_pack_index_create crypto ?p = Inr (?ib @ ih)"
    unfolding fastgit_pack_index_create_def Let_def wp ol tr written_index_def[symmetric] tk
    using pf(3) ih by simp
  then have cl: "fastgit_pack_close crypto p = Inr (?f @ h, ?ib @ ih)"
    unfolding fastgit_pack_close_def Let_def mc by (simp add: h(1))
  have ln: "length ?es < 2 ^ 31"
    using we(1,4) arg_cong[OF he(2), of size] by simp
  have ix: "fastgit_pack_index_load (Some (?ib @ ih)) = Inr (idx_of ?es h)"
    using index_load_written[OF he(1) ln h(2) ih(2)] by simp
  have g1: "get32 (drop 4 (?f @ h)) = Some (2, be32 ?n @ ?body @ h)"
    by (simp add: PACK_MAGIC_def)
  have g2: "get32 (be32 ?n @ ?body @ h) = Some (?n, ?body @ h)" by simp
  have op: "fastgit_pack_open (Some (?f @ h)) (Some (?ib @ ih)) = Inr (fastgit_pack_create\<lparr>pk_writing := False,
      pk_file := ?f @ h, pk_object_count := ?n, pk_mapped := ?f @ h, pk_index := Some (idx_of ?es h), pk_w_cur_offset := 0\<rparr>)"
    unfolding fastgit_pack_open_def option.case g1 prod.case g2 ix sum.case by (simp add: PACK_MAGIC_def str_def)
  have ls: "pk_index pk = Some (idx_of ?es h)" "pk_mapped pk = ?f @ h"
    if "pk = fastgit_pack_create\<lparr>pk_writing := False,
      pk_file := ?f @ h, pk_object_count := ?n, pk_mapped := ?f @ h, pk_index := Some (idx_of ?es h), pk_w_cur_offset := 0\<rparr>" for pk
    by (simp_all add: that)
  show ?thesis
    by (intro exI[of _ "?f @ h"] exI[of _ "?ib @ ih"] exI[of _ "fastgit_pack_create\<lparr>pk_writing := False,
      pk_file := ?f @ h, pk_object_count := ?n, pk_mapped := ?f @ h, pk_index := Some (idx_of ?es h), pk_w_cur_offset := 0\<rparr>"]
      exI[of _ h] exI[of _ h] conjI cl op) (use ls[OF refl] h(2) in simp_all)
qed


lemma read_written:
  assumes c: "sha256_ok crypto" and zk: "zlib_ok z" and w: "wrote crypto z objs p"
    and l: "length (pk_file p) + 64 < 2 ^ 31" and d: "distinct (pk_w_oids p)"
    and pk: "pk_index pk = Some (idx_of (written_index p) cs)"
      "pk_mapped pk = PACK_MAGIC @ be32 2 @ be32 n @ concat (map (entry_of z) objs) @ h" "length h = 32"
    and i: "i < length objs" "objs ! i = (t, b)" "base_type t" "length b \<le> mem" "mem < 2 ^ 64"
  shows "\<exists>pk'. fastgit_pack_read_entry z mem pk (pk_w_oids p ! i) = Inr (t, b, pk')"
proof -
  have l31: "length (pk_file p) < 2 ^ 31" using l by simp
  note we = written_entries[OF c w l31 d]
  let ?es = "written_index p"
  have k32: "\<forall>x \<in> set (w_entries p). length (key_of x) = 32" using we(2) by (simp add: hash_entries_def)
  have m: "mset ?es = mset (w_entries p)" and so: "sorted (map key_of ?es)"
    using sort_entries_ok[OF k32] by (simp_all add: written_index_def)
  have he: "hash_entries ?es" using we(2) mset_eq_setD[OF m] by (simp add: hash_entries_def)
  have di: "distinct (map key_of ?es)"
    using we(3) arg_cong[OF m, of "image_mset key_of"] by (metis mset_map mset_eq_imp_distinct_iff)
  have ln: "length ?es < 2 ^ 31" using we(1,4) arg_cong[OF m, of size] by simp
  have "w_entries p ! i \<in> set ?es" using mset_eq_setD[OF m] i(1) we(1) by simp
  then obtain j where j: "j < length ?es" "?es ! j = w_entries p ! i" by (auto simp: in_set_conv_nth)
  have fi: "fastgit_pack_index_find (idx_of ?es cs) (pk_w_oids p ! i) = Inr j"
    using index_find_entry[OF he ln so di j(1)] we(5)[OF i(1)] j(2) by simp
  let ?pre = "PACK_MAGIC @ be32 2 @ be32 n @ concat (map (entry_of z) (take i objs))"
  let ?post = "concat (map (entry_of z) (drop (Suc i) objs)) @ h"
  have "pi_offsets (idx_of ?es cs) ! j = snd (snd (w_entries p ! i))"
    using j by (simp add: idx_of_def)
  also have "\<dots> = of_nat (length ?pre)" using we(6)[OF i(1)] by (simp add: PACK_MAGIC_def)
  finally have of: "pi_offsets (idx_of ?es cs) ! j = of_nat (length ?pre)" .
  have mp: "pk_mapped pk = ?pre @ entry_of z (t, b) @ ?post"
  proof -
    have "objs = take i objs @ (t, b) # drop (Suc i) objs" using i(1,2) by (metis id_take_nth_drop)
    then have "concat (map (entry_of z) objs) = concat (map (entry_of z) (take i objs)) @ entry_of z (t, b)
        @ concat (map (entry_of z) (drop (Suc i) objs))"
      by (metis concat.simps(2) concat_append list.simps(9) map_append)
    then show ?thesis using pk(2) by simp
  qed
  have "(t, b) \<in> set objs" using i(1,2) by (metis nth_mem)
  then obtain zd where zd: "z_deflate z b = Some zd" using w by (auto simp: wrote_def)
  have lm: "length (pk_mapped pk) < 2 ^ 31"
    using w l pk(2,3) by (simp add: wrote_def PACK_MAGIC_def)
  have "pack_read_object_at z mem (Suc 32) pk (of_nat (length ?pre)) = Inr (t, b)"
    by (rule pack_read_plain[OF zk zd i(3) mp _ lm i(4)]) (use pk(3) i(4,5) in auto)
  then show ?thesis
    unfolding fastgit_pack_read_entry_def pk(1) option.case fi bindr_simps of by simp
qed

section \<open>Properties\<close>

text \<open>
  C2. A pack can be read back. When objects (commits, trees, blobs, tags) of different names have
  been added to a new pack, and the file stays below 2 GiB (so that every offset fits the 32-bit
  offset table), then closing it succeeds, the two files it writes are accepted by open, and every
  object is found under the id that add returned, with the type and the content that were added.
  The id is the one that the object (if not empty) has as a loose object.
\<close>

theorem pack_roundtrip:
  assumes "zlib_ok z" "sha256_ok crypto"
    and "add_sequential crypto z fastgit_pack_create objs = Inr (xs, p)"
    and "distinct xs" "length (pk_file p) + 64 < 2 ^ 31"
    and "\<forall>(t, b) \<in> set objs. base_type t \<and> length b \<le> mem" "mem < 2 ^ 64"
  shows "\<exists>F I pk. fastgit_pack_close crypto p = Inr (F, I) \<and> fastgit_pack_open (Some F) (Some I) = Inr pk \<and>
    (\<forall>i < length objs.
       (\<exists>pk'. fastgit_pack_read_entry z mem pk (xs ! i) = Inr (fst (objs ! i), snd (objs ! i), pk')) \<and>
       (snd (objs ! i) \<noteq> [] \<longrightarrow>
        fastgit_object_hash crypto (fastgit_object_parse (fst (objs ! i)) (snd (objs ! i))) HASH_SHA256 = Inr (xs ! i)))"
proof -
  have w: "wrote crypto z objs p" and xs: "pk_w_oids p = xs"
    using wrote_sequential[OF wrote_create assms(3)] by (simp_all add: fastgit_pack_create_def)
  have l31: "length (pk_file p) < 2 ^ 31" using assms(5) by simp
  have d: "distinct (pk_w_oids p)" using assms(4) xs by simp
  obtain F I pk h cs where f: "fastgit_pack_close crypto p = Inr (F, I)" "fastgit_pack_open (Some F) (Some I) = Inr pk"
    "pk_index pk = Some (idx_of (written_index p) cs)"
    "pk_mapped pk = PACK_MAGIC @ be32 2 @ be32 (of_nat (length objs)) @ concat (map (entry_of z) objs) @ h" "length h = 32"
    using close_open[OF assms(2) w l31 d] by blast
  have "(\<exists>pk'. fastgit_pack_read_entry z mem pk (xs ! i) = Inr (fst (objs ! i), snd (objs ! i), pk')) \<and>
       (snd (objs ! i) \<noteq> [] \<longrightarrow>
        fastgit_object_hash crypto (fastgit_object_parse (fst (objs ! i)) (snd (objs ! i))) HASH_SHA256 = Inr (xs ! i))"
    if i: "i < length objs" for i
  proof -
    obtain t b where tb: "objs ! i = (t, b)" by fastforce
    have ok: "base_type t" "length b \<le> mem" using assms(6) i tb nth_mem[OF i] by auto
    have r: "\<exists>pk'. fastgit_pack_read_entry z mem pk (pk_w_oids p ! i) = Inr (t, b, pk')"
      by (rule read_written[OF assms(2,1) w assms(5) d f(3,4,5) i tb ok assms(7)])
    have "length b < 2 ^ 64" using ok(2) assms(7) by simp
    have "Inr (xs ! i) = oid_of_object crypto t b"
    proof -
      have "map Inr xs = map (\<lambda>(t, d). oid_of_object crypto t d) objs" using w xs by (simp add: wrote_def)
      from arg_cong[OF this, of "\<lambda>l. l ! i"] show ?thesis
        using i tb wrote_sequential[OF wrote_create assms(3)] by simp
    qed
    moreover have "b \<noteq> [] \<Longrightarrow> fastgit_object_hash crypto (fastgit_object_parse t b) HASH_SHA256 = oid_of_object crypto t b"
      by (rule pack_oid_is_object_hash[OF assms(2) ok(1) \<open>length b < 2 ^ 64\<close>])
    ultimately show ?thesis using r xs tb by simp
  qed
  then show ?thesis using f(1,2) by blast
qed


text \<open>A toy compressor for the witnesses: the length in four bytes, then the data.\<close>

definition store_zlib :: zlib where
  "store_zlib = \<lparr>z_deflate = (\<lambda>d. if length d < 2 ^ 32 then Some (be32 (of_nat (length d)) @ d) else None),
     z_deflate_fast = (\<lambda>d. if length d < 2 ^ 32 then Some (be32 (of_nat (length d)) @ d) else None),
     z_inflate = (\<lambda>s. case get32 s of None \<Rightarrow> None
        | Some (n, r) \<Rightarrow> if unat n \<le> length r then Some (take (unat n) r, 4 + unat n) else None),
     z_crc32 = (\<lambda>_. 0)\<rparr>"

lemma store_zlib_ok: "zlib_ok store_zlib"
  by (auto simp: zlib_ok_def store_zlib_def unat_of_nat split: if_splits)

theorem pack_roundtrip_witness:
  "\<exists>xs p F I pk pk'. add_sequential None store_zlib fastgit_pack_create [(BLOB, [1, 2, 3])] = Inr (xs, p) \<and>
     fastgit_pack_close None p = Inr (F, I) \<and> fastgit_pack_open (Some F) (Some I) = Inr pk \<and>
     fastgit_pack_read_entry store_zlib 100 pk (xs ! 0) = Inr (BLOB, [1, 2, 3], pk')"
proof -
  obtain h where h: "oid_of_object None BLOB [1, 2, 3] = Inr \<lparr>oid_algo = 1, oid_hash = h\<rparr>"
    using oid_of_object_ok[OF sha256_ok_portable] by blast
  obtain xs p where s: "add_sequential None store_zlib fastgit_pack_create [(BLOB, [1, 2, 3])] = Inr (xs, p)"
    "length xs = 1" "length (pk_file p) + 64 < 2 ^ 31"
  proof
    show "add_sequential None store_zlib fastgit_pack_create [(BLOB, [1, 2, 3])] =
      Inr ([\<lparr>oid_algo = 1, oid_hash = h\<rparr>], append_entry fastgit_pack_create \<lparr>oid_algo = 1, oid_hash = h\<rparr> 0
        (encode_pack_header 3 3 @ be32 3 @ [1, 2, 3]) 3)"
      using h by (simp add: fastgit_pack_add_object_def fastgit_pack_create_def store_zlib_def pack_type_of_def numeral_3_eq_3)
    show "length (pk_file (append_entry fastgit_pack_create \<lparr>oid_algo = 1, oid_hash = h\<rparr> 0
        (encode_pack_header 3 3 @ be32 3 @ [1, 2, 3]) 3)) + 64 < 2 ^ 31"
      by (simp add: append_entry_def fastgit_pack_create_def PACK_MAGIC_def encode_pack_header_def size_groups.simps)
  qed simp
  moreover have "distinct xs" using s(2) by (cases xs) auto
  ultimately show ?thesis
    using pack_roundtrip[OF store_zlib_ok sha256_ok_portable s(1), of 100] by (fastforce simp: base_type_def)
qed



end
