(* ===== verification/Midx.thy ===== *)
theory Midx
  imports PackWrite Fanout
begin

text \<open>
  The multi-pack index of \<^verbatim>\<open>src/pack/midx.c\<close>: merging the indexes of the packs of several
  directories into one sorted table with a fanout, its file format, loading it and looking an
  object up. A directory is the list of its \<^verbatim>\<open>.idx\<close> files (or \<open>None\<close> when it cannot be opened).
\<close>

section \<open>State\<close>

record midx_entry =
  me_oid :: oid
  me_pack_idx :: byte
  me_offset :: u64

record midx =
  mx_mapped :: bytes
  mx_version :: u32
  mx_pack_count :: u32
  mx_pack_ids :: "u32 list"
  mx_oids :: "oid list"
  mx_pack_indices :: "byte list"
  mx_offsets :: "u64 list"
  mx_checksum :: "hash_t option"

section \<open>Creating\<close>

definition idx_entries :: "nat \<Rightarrow> pack_index \<Rightarrow> midx_entry list" where
  "idx_entries d idx =
     map (\<lambda>(x, off). \<lparr>me_oid = x, me_pack_idx = of_nat d, me_offset = off\<rparr>)
       (zip (pi_oids idx) (pi_offsets idx))"

text \<open>
  An index that does not load is skipped. All the packs of a directory get the number of the
  directory, and a directory that cannot be opened gets none.
\<close>

definition dir_entries :: "nat \<Rightarrow> bytes list \<Rightarrow> midx_entry list res" where
  "dir_entries d files =
     bindr (mapr (\<lambda>f. case fastgit_pack_index_load (Some f) of
                Inl e \<Rightarrow> if e = Undefined then Inl Undefined else Inr []
              | Inr idx \<Rightarrow> Inr (idx_entries d idx)) files)
       (\<lambda>ess. Inr (concat ess))"

fun collect_dirs :: "nat \<Rightarrow> bytes list option list \<Rightarrow> midx_entry list res" where
  "collect_dirs d [] = Inr []"
| "collect_dirs d (None # r) = collect_dirs d r"
| "collect_dirs d (Some files # r) =
     bindr (dir_entries d files) (\<lambda>es. bindr (collect_dirs (d + 1) r) (\<lambda>es'. Inr (es @ es')))"

text \<open>
  The comparison takes the length of its first argument: with names of several lengths it reads
  bytes that were never written, and the order is not determined.
\<close>

definition midx_sort :: "midx_entry list \<Rightarrow> midx_entry list" where
  "midx_sort = sort_key (\<lambda>e. oid_hash (me_oid e))"

definition lead_counts :: "midx_entry list \<Rightarrow> u32 list" where
  "lead_counts es = map (\<lambda>f. of_nat (length (filter (\<lambda>e. lead (oid_hash (me_oid e)) = f) es))) [0..<256]"

fun cumulate :: "u32 \<Rightarrow> u32 list \<Rightarrow> u32 list" where
  "cumulate cum [] = []"
| "cumulate cum (c # cs) = (cum + c) # cumulate (cum + c) cs"

definition midx_file :: "nat \<Rightarrow> nat \<Rightarrow> midx_entry list \<Rightarrow> bytes" where
  "midx_file pack_count oid_len es =
     be32 0x4D494458 @ be32 1 @ be32 (of_nat pack_count)
     @ concat (map (\<lambda>i. be32 (of_nat i)) [0..<pack_count])
     @ concat (map be32 (cumulate 0 (lead_counts es)))
     @ concat (map (\<lambda>e. take oid_len (oid_hash (me_oid e))) es)
     @ map me_pack_idx es
     @ concat (map (\<lambda>e. be32 (ucast (me_offset e))) es)
     @ replicate oid_len 0"

definition fastgit_midx_create :: "bytes list option list \<Rightarrow> bytes res" where
  "fastgit_midx_create dirs =
     bindr (collect_dirs 0 dirs) (\<lambda>es.
       if es = [] then Inl ENOENT
       else let oid_len = length (oid_hash (me_oid (hd es)));
                len = (if oid_len = 0 then 32 else oid_len)
         in if \<exists>e \<in> set es. length (oid_hash (me_oid e)) \<noteq> oid_len then Inl Undefined
            else Inr (midx_file (length dirs) len (midx_sort es)))"

section \<open>Opening\<close>

text \<open>The width of the names is guessed from the size of the file.\<close>

definition midx_hash_len :: "nat \<Rightarrow> nat \<Rightarrow> nat \<Rightarrow> nat" where
  "midx_hash_len mapped_size pack_count cnt =
     (let hdr = 12 + pack_count * 4 + 1024 in
      if hdr \<le> mapped_size \<and> cnt \<noteq> 0 then
        (let rem = mapped_size - hdr;
             cand = (if cnt * 5 < rem then (rem - cnt * 5) div (cnt + 1) else 32)
         in if cand \<in> {20, 32, 48, 64} then cand
            else if 48 < cand then 64 else if 32 < cand then 48 else if 20 < cand then 32 else 20)
      else 32)"

definition midx_algo :: "nat \<Rightarrow> byte" where
  "midx_algo hl =
     (if hl = 20 then HASH_SHA1 else if hl = 48 then HASH_SHA384 else if hl = 64 then HASH_SHA3_512
      else HASH_SHA256)"

definition get8 :: "bytes \<Rightarrow> (byte \<times> bytes) option" where
  "get8 s = (case s of [] \<Rightarrow> None | b # r \<Rightarrow> Some (b, r))"

text \<open>The check of the size is a 32-bit product; everything after it is read unchecked.\<close>

definition fastgit_midx_open :: "bytes option \<Rightarrow> midx res" where
  "fastgit_midx_open file =
     (case file of
        None \<Rightarrow> Inl ENOENT
      | Some m \<Rightarrow>
          if m = [] then Inl EIO
          else if length m < 12 then Inl ERROR
          else bindr (in_map (read_many get32 3 m)) (\<lambda>(hd3, s1).
            if hd3 ! 0 \<noteq> 0x4D494458 then Inl ERROR
            else let pc = hd3 ! 2 in
              if length m < unat (12 + pc * 4) then Inl ERROR
              else bindr (in_map (read_many get32 (unat pc) s1)) (\<lambda>(ids, s2).
                bindr (in_map (read_many get32 256 s2)) (\<lambda>(fan, s3).
                let cnt = unat (fan ! 255); hl = midx_hash_len (length m) (unat pc) cnt in
                bindr (in_map (read_many (take_bytes hl) cnt s3)) (\<lambda>(hs, s4).
                bindr (in_map (read_many get8 cnt s4)) (\<lambda>(ps, s5).
                bindr (in_map (read_many get32 cnt s5)) (\<lambda>(offs, s6).
                  Inr \<lparr>mx_mapped = m, mx_version = hd3 ! 1, mx_pack_count = pc, mx_pack_ids = ids,
                       mx_oids = map (\<lambda>h. \<lparr>oid_algo = midx_algo hl, oid_hash = h\<rparr>) hs,
                       mx_pack_indices = ps, mx_offsets = map ucast offs,
                       mx_checksum = (let hl' = (if cnt = 0 then 32 else hl) in
                         if hl' \<le> length s6
                         then Some \<lparr>h_digest = take hl' s6, h_algo = midx_algo hl'\<rparr> else None)\<rparr>)))))))"

section \<open>Lookup\<close>

text \<open>The position found; the pack that the caller asks for is always a null pointer.\<close>

definition fanout_at :: "midx \<Rightarrow> nat \<Rightarrow> nat res" where
  "fanout_at midx f =
     (case get32 (drop (12 + unat (mx_pack_count midx * 4) + f * 4) (mx_mapped midx)) of
        None \<Rightarrow> Inl Undefined | Some (v, _) \<Rightarrow> Inr (unat v))"

definition fastgit_midx_find :: "midx \<Rightarrow> oid \<Rightarrow> (pack option \<times> nat) res" where
  "fastgit_midx_find midx x =
     (if mx_oids midx \<noteq> [] \<and> length (oid_hash x) \<noteq> length (oid_hash (hd (mx_oids midx))) then Inl ENOENT
      else if oid_hash x = [] then Inl Undefined
      else let first = lead (oid_hash x) in
        bindr (if first = 0 then Inr 0 else fanout_at midx (first - 1)) (\<lambda>lo.
        bindr (fanout_at midx first) (\<lambda>hi.
        bindr (bin_search (\<lambda>i. if i < length (mx_oids midx)
             then Some (memcmp (oid_hash (mx_oids midx ! i)) (oid_hash x)) else None) lo hi) (\<lambda>mid.
          Inr (None, mid)))))"

end
