(* ===== verification/MidxProps.thy ===== *)
theory MidxProps
  imports Midx PackProps
begin

text \<open>The multi-pack index that is written is the one that is read, and its lookup is exact.\<close>

section \<open>The fanout\<close>

lemma nth_cumulate:
  "f < length cs \<Longrightarrow> cumulate cum cs ! f = cum + sum_list (take (Suc f) cs)"
  by (induction cs arbitrary: cum f) (auto simp: nth_Cons add.assoc split: nat.split)

lemma length_cumulate: "length (cumulate cum cs) = length cs"
  by (induction cs arbitrary: cum) auto

definition me_key :: "midx_entry \<Rightarrow> bytes" where
  "me_key e = oid_hash (me_oid e)"

lemma leading_Suc:
  "leading ks (Suc f) = leading ks f + length (filter (\<lambda>k. lead k = Suc f) ks)"
  by (induction ks) (auto simp: leading_def)

lemma lead_counts_nth:
  "f < 256 \<Longrightarrow> lead_counts es ! f = of_nat (length (filter (\<lambda>k. lead k = f) (map me_key es)))"
  by (simp add: lead_counts_def filter_map comp_def me_key_def)

lemma midx_fanout_nth:
  assumes "f < 256"
  shows "cumulate 0 (lead_counts es) ! f = of_nat (leading (map me_key es) f)"
proof -
  have l: "length (lead_counts es) = 256" by (simp add: lead_counts_def)
  have "f < 256 \<Longrightarrow> sum_list (take (Suc f) (lead_counts es)) = of_nat (leading (map me_key es) f)"
  proof (induction f)
    case 0
    have "take (Suc 0) (lead_counts es) = [lead_counts es ! 0]" using l by (simp add: take_Suc_conv_app_nth)
    then show ?case using lead_counts_nth[of 0 es] by (simp add: leading_def)
  next
    case (Suc f)
    have "take (Suc (Suc f)) (lead_counts es) = take (Suc f) (lead_counts es) @ [lead_counts es ! Suc f]"
      using l Suc.prems by (simp add: take_Suc_conv_app_nth)
    then show ?case using Suc lead_counts_nth[of "Suc f" es] by (simp add: leading_Suc)
  qed
  then show ?thesis using assms l by (simp add: nth_cumulate)
qed

lemma midx_fanout_unat:
  assumes "length es < 2 ^ 31" "f < 256"
  shows "unat (cumulate 0 (lead_counts es) ! f) = leading (map me_key es) f"
proof -
  have "leading (map me_key es) f < 2 ^ 32"
    using leading_le[of "map me_key es" f] assms(1) by simp
  then show ?thesis using assms(2) by (simp add: midx_fanout_nth unat_of_nat)
qed

lemma drop_be32s: "drop (4 * f) (concat (map be32 ws)) = concat (map be32 (drop f ws))"
proof (induction ws arbitrary: f)
  case (Cons w ws)
  then show ?case by (cases f) (simp_all add: drop_append)
qed simp

section \<open>Reading the file\<close>

definition midx_ok :: "midx_entry list \<Rightarrow> bool" where
  "midx_ok es \<longleftrightarrow> (\<forall>e \<in> set es. length (me_key e) = 32) \<and> es \<noteq> [] \<and> length es < 2 ^ 31 \<and>
     distinct (map me_key es)"

lemma hash_len_32: "n \<noteq> 0 \<Longrightarrow> midx_hash_len (12 + pc * 4 + 1024 + (n * 32 + n + n * 4 + 32)) pc n = 32"
proof -
  assume n: "n \<noteq> 0"
  have "n * 32 + n + n * 4 + 32 - n * 5 = 32 * (n + 1)" by simp
  then have q: "(n * 32 + n + n * 4 + 32 - n * 5) div (n + 1) = 32"
    by (simp only: nonzero_mult_div_cancel_right)
  have r: "12 + pc * 4 + 1024 + (n * 32 + n + n * 4 + 32) - (12 + pc * 4 + 1024) = n * 32 + n + n * 4 + 32"
    by simp
  have c: "n * 5 < n * 32 + n + n * 4 + 32" by simp
  show ?thesis unfolding midx_hash_len_def Let_def r if_P[OF c] q using n by simp
qed

lemma read_me_keys: "\<forall>e \<in> set es. length (me_key e) = 32 \<Longrightarrow> length es = n \<Longrightarrow>
  read_many (take_bytes 32) n (concat (map me_key es) @ r) = Some (map me_key es, r)"
  using codec.read_many_enc[OF take_bytes_codec, of "map me_key es" 32 r] by simp

lemma read_get8: "length ps = n \<Longrightarrow> read_many get8 n (ps @ r) = Some (ps, r)"
  by (induction ps arbitrary: n) (auto simp: get8_def)

definition midx_of :: "bytes \<Rightarrow> nat \<Rightarrow> midx_entry list \<Rightarrow> midx" where
  "midx_of m pc es = \<lparr>mx_mapped = m, mx_version = 1, mx_pack_count = of_nat pc,
     mx_pack_ids = map of_nat [0..<pc],
     mx_oids = map (\<lambda>e. \<lparr>oid_algo = HASH_SHA256, oid_hash = me_key e\<rparr>) es,
     mx_pack_indices = map me_pack_idx es, mx_offsets = map (\<lambda>e. ucast (ucast (me_offset e) :: u32)) es,
     mx_checksum = Some \<lparr>h_digest = replicate 32 0, h_algo = HASH_SHA256\<rparr>\<rparr>"

lemma midx_open_written:
  assumes es: "midx_ok es" and pc: "pc < 2 ^ 29"
  shows "fastgit_midx_open (Some (midx_file pc 32 es)) = Inr (midx_of (midx_file pc 32 es) pc es)"
proof -
  let ?n = "length es"
  let ?fan = "cumulate 0 (lead_counts es)"
  let ?m = "midx_file pc 32 es"
  let ?s6 = "replicate 32 0 :: bytes"
  let ?s5 = "concat (map be32 (map (\<lambda>e. ucast (me_offset e)) es)) @ ?s6"
  let ?s4 = "map me_pack_idx es @ ?s5"
  let ?s3 = "concat (map me_key es) @ ?s4"
  let ?s2 = "concat (map be32 ?fan) @ ?s3"
  let ?s1 = "concat (map be32 (map of_nat [0..<pc])) @ ?s2"
  have k: "\<forall>e \<in> set es. length (me_key e) = 32" using es by (simp add: midx_ok_def)
  then have tk: "map (\<lambda>e. take 32 (oid_hash (me_oid e))) es = map me_key es"
    by (auto simp: me_key_def)
  have m: "?m = be32 0x4D494458 @ be32 1 @ be32 (of_nat pc) @ ?s1"
    unfolding midx_file_def tk by (simp add: comp_def)
  have lk: "length (concat (map me_key es)) = 32 * ?n"
    using k by (induction es) auto
  have lf: "length ?fan = 256" by (simp add: length_cumulate lead_counts_def)
  have lm: "length ?m = 12 + pc * 4 + 1024 + (?n * 32 + ?n + ?n * 4 + 32)"
    unfolding m length_append length_be32s lk lf by simp
  have n0: "?n \<noteq> 0" and n31: "?n < 2 ^ 31" using es by (simp_all add: midx_ok_def)
  have upc: "unat (of_nat pc :: u32) = pc" using pc by (simp add: unat_of_nat)
  have pc4: "unat (12 + of_nat pc * 4 :: u32) = 12 + pc * 4"
    using pc by (simp add: unat_word_ariths upc)
  have r0: "read_many get32 3 ?m = Some ([0x4D494458, 1, of_nat pc], ?s1)"
    unfolding m by (simp add: numeral_3_eq_3)
  have r1: "read_many get32 pc ?s1 = Some (map of_nat [0..<pc], ?s2)" by (rule read_be32s) simp
  have r2: "read_many get32 256 ?s2 = Some (?fan, ?s3)" by (rule read_be32s) (rule lf)
  have cnt: "unat (?fan ! 255) = ?n" using midx_fanout_unat[OF n31, of 255] by (simp add: leading_255)
  have hl: "midx_hash_len (length ?m) pc ?n = 32" unfolding lm by (rule hash_len_32[OF n0])
  have r3: "read_many (take_bytes 32) ?n ?s3 = Some (map me_key es, ?s4)" by (rule read_me_keys[OF k refl])
  have r4: "read_many get8 ?n ?s4 = Some (map me_pack_idx es, ?s5)" by (rule read_get8) simp
  have r5: "read_many get32 ?n ?s5 = Some (map (\<lambda>e. ucast (me_offset e)) es, ?s6)" by (rule read_be32s) simp
  have ne: "?m \<noteq> []" "\<not> length ?m < 12" "\<not> length ?m < 12 + pc * 4" using lm by auto
  have idx: "[0x4D494458, 1, of_nat pc :: u32] ! 0 = 0x4D494458" "[0x4D494458, 1, of_nat pc :: u32] ! 2 = of_nat pc"
    "[0x4D494458, 1, of_nat pc :: u32] ! 1 = 1" by simp_all
  show ?thesis
    unfolding fastgit_midx_open_def option.case r0 in_map_def bindr_simps prod.case Let_def idx pc4 upc r1 r2 cnt hl r3 r4 r5
    using ne n0 by (simp add: midx_of_def comp_def midx_algo_def)
qed

section \<open>Lookup\<close>

lemma fanout_at_written:
  assumes es: "midx_ok es" and pc: "pc < 2 ^ 29" and f: "f < 256"
  shows "fanout_at (midx_of (midx_file pc 32 es) pc es) f = Inr (leading (map me_key es) f)"
proof -
  let ?fan = "cumulate 0 (lead_counts es)"
  let ?pre = "be32 0x4D494458 @ be32 1 @ be32 (of_nat pc) @ concat (map be32 (map of_nat [0..<pc]))"
  obtain r where m: "midx_file pc 32 es = ?pre @ concat (map be32 ?fan) @ r"
    by (auto simp: midx_file_def comp_def)
  have "unat (of_nat pc * 4 :: u32) = pc * 4" using pc by (simp add: unat_word_ariths unat_of_nat)
  then have lp: "length ?pre = 12 + unat (of_nat pc * 4 :: u32)"
    unfolding length_append length_be32s by simp
  have lf: "f < length ?fan" using f by (simp add: length_cumulate lead_counts_def)
  have "drop (12 + unat (of_nat pc * 4 :: u32) + f * 4) (midx_file pc 32 es)
      = drop (4 * f) (concat (map be32 ?fan)) @ r"
  proof -
    have "4 * f \<le> length (concat (map be32 ?fan))" using lf by (simp add: length_be32s)
    then show ?thesis unfolding m lp[symmetric] by (simp add: mult.commute)
  qed
  also have "\<dots> = be32 (?fan ! f) @ concat (map be32 (drop (Suc f) ?fan)) @ r"
    using lf by (simp add: drop_be32s Cons_nth_drop_Suc[symmetric])
  finally show ?thesis
    using midx_fanout_unat[OF _ f, of es] es by (simp add: fanout_at_def midx_of_def midx_ok_def)
qed

lemma midx_sort_facts:
  assumes "midx_ok es"
  shows "midx_ok (midx_sort es)" "name_table 32 (map me_key (midx_sort es))" "set (midx_sort es) = set es"
proof -
  have s: "set (midx_sort es) = set es" by (simp add: midx_sort_def)
  have l: "length (midx_sort es) = length es" by (simp add: midx_sort_def)
  have "mset (map me_key (midx_sort es)) = mset (map me_key es)" by (simp add: midx_sort_def)
  then have d: "distinct (map me_key (midx_sort es))"
    using assms by (metis midx_ok_def mset_eq_imp_distinct_iff)
  show "midx_ok (midx_sort es)" using assms s l d by (auto simp: midx_ok_def)
  have "me_key = (\<lambda>e. oid_hash (me_oid e))" by (rule ext) (simp add: me_key_def)
  then have "sorted (map me_key (midx_sort es))" by (simp add: midx_sort_def)
  then show "name_table 32 (map me_key (midx_sort es))"
    using assms s l d by (auto simp: name_table_def midx_ok_def)
  show "set (midx_sort es) = set es" by (rule s)
qed

lemma midx_find_table:
  assumes es: "midx_ok es" and pc: "pc < 2 ^ 29" and k: "length key = 32"
    and s: "name_table 32 (map me_key es)"
  shows "fastgit_midx_find (midx_of (midx_file pc 32 es) pc es) \<lparr>oid_algo = a, oid_hash = key\<rparr>
    = bindr (bin_search (table_cmp (map me_key es) key) (lead_lo (map me_key es) (lead key)) (leading (map me_key es) (lead key)))
        (\<lambda>i. Inr (None, i))"
proof -
  let ?mx = "midx_of (midx_file pc 32 es) pc es"
  have hd: "length (oid_hash (hd (mx_oids ?mx))) = 32"
    using es by (cases es) (simp_all add: midx_ok_def midx_of_def)
  have key: "key \<noteq> []" using k by auto
  have lo: "(if lead key = 0 then Inr 0 else fanout_at ?mx (lead key - 1)) = Inr (lead_lo (map me_key es) (lead key))"
    using fanout_at_written[OF es pc, of "lead key - 1"] lead_less[of key] by (simp add: lead_lo_def)
  have hi: "fanout_at ?mx (lead key) = Inr (leading (map me_key es) (lead key))"
    by (rule fanout_at_written[OF es pc lead_less])
  have tab: "(\<lambda>i. if i < length (mx_oids ?mx) then Some (memcmp (oid_hash (mx_oids ?mx ! i)) key) else None)
      = table_cmp (map me_key es) key"
    by (auto simp: midx_of_def table_cmp_def)
  show ?thesis
    unfolding fastgit_midx_find_def Let_def oid.select_convs lo hi bindr_simps tab
    using hd k key by simp
qed

section \<open>Properties\<close>




end
