(* ===== verification/Odb.thy ===== *)
theory Odb
  imports ObjectIO Midx
begin

unbundle bit_operations_syntax

text \<open>
  The object database of \<^verbatim>\<open>src/odb/odb.c\<close>: a directory of loose objects and packs behind a cache of
  objects, with other databases as fallbacks.

  A directory has the loose files under their hexadecimal names (in the order that readdir gives),
  the \<^verbatim>\<open>.idx\<close> files of its \<^verbatim>\<open>pack\<close> directory with the pack beside each, and the multi-pack index.
  The temporary name used while a loose file is written is free, and writing and renaming it succeed;
  the io_uring variant has the same effect as write, fsync and rename. zlib's
  \<open>uncompress\<close> is the parameter \<open>z_inflate\<close>, limited to the output buffer.
\<close>

section \<open>State\<close>

record disk =
  d_loose :: "(bytes \<times> bytes) list"
  d_packs :: "(bytes \<times> bytes option) list"
  d_midx :: "bytes option"

record cache_entry =
  ce_oid :: oid
  ce_type :: obj_type
  ce_data :: bytes
  ce_gen :: nat

datatype odb_source = ODB_LOOSE | ODB_PACK

record odb_object =
  oo_oid :: oid
  oo_type :: obj_type
  oo_data :: bytes
  oo_source :: odb_source

text \<open>The handle of one directory; a database is a handle and the databases behind it.\<close>

record odb_core =
  oc_disk :: disk
  oc_default_hash_algo :: byte
  oc_cache :: "nat \<rightharpoonup> cache_entry"
  oc_cache_gen :: nat
  oc_reads :: nat
  oc_writes :: nat
  oc_cache_hits :: nat
  oc_cache_misses :: nat

datatype odb = Odb (odb_head: odb_core) (odb_backends: "odb list")

definition fastgit_odb_new :: "disk \<Rightarrow> odb" where
  "fastgit_odb_new d = Odb \<lparr>oc_disk = d, oc_default_hash_algo = HASH_SHA256, oc_cache = Map.empty,
     oc_cache_gen = 1, oc_reads = 0, oc_writes = 0, oc_cache_hits = 0, oc_cache_misses = 0\<rparr> []"

definition fastgit_odb_open :: "disk \<Rightarrow> odb" where
  "fastgit_odb_open d = fastgit_odb_new d"

section \<open>The cache\<close>

definition CACHE_MASK :: nat where
  "CACHE_MASK = 2 ^ 14 - 1"

definition odb_hash_oid :: "oid \<Rightarrow> u32" where
  "odb_hash_oid x =
     (let h = foldl (\<lambda>h b. (h XOR ucast b) * 16777619) 2166136261 (oid_hash x)
      in (h XOR ucast (oid_algo x)) * 16777619)"

definition cache_slot :: "oid \<Rightarrow> nat \<Rightarrow> nat" where
  "cache_slot x probe = ((unat (odb_hash_oid x) AND CACHE_MASK) + probe) AND CACHE_MASK"

text \<open>Eight slots are tried; the first free one ends the search.\<close>

fun cache_find :: "(nat \<rightharpoonup> cache_entry) \<Rightarrow> oid \<Rightarrow> nat list \<Rightarrow> cache_entry option" where
  "cache_find C x [] = None"
| "cache_find C x (p # ps) =
     (case C (cache_slot x p) of
        None \<Rightarrow> None
      | Some e \<Rightarrow> if oid_eq (ce_oid e) x then Some e else cache_find C x ps)"

text \<open>
  The first free slot takes the object. An entry of the same id ends the loop, replaced in the
  variant at the end of a write.
\<close>

fun cache_put :: "bool \<Rightarrow> cache_entry \<Rightarrow> (nat \<rightharpoonup> cache_entry) \<Rightarrow> nat list \<Rightarrow> (nat \<rightharpoonup> cache_entry) \<times> bool" where
  "cache_put rep n C [] = (C, False)"
| "cache_put rep n C (p # ps) =
     (let s = cache_slot (ce_oid n) p in
      case C s of
        None \<Rightarrow> (C(s \<mapsto> n), True)
      | Some e \<Rightarrow>
          if oid_eq (ce_oid e) (ce_oid n) then (if rep then (C(s \<mapsto> n), True) else (C, False))
          else cache_put rep n C ps)"

definition core_cache :: "bool \<Rightarrow> oid \<Rightarrow> obj_type \<Rightarrow> bytes \<Rightarrow> odb_core \<Rightarrow> odb_core" where
  "core_cache rep x t d c =
     (case cache_put rep \<lparr>ce_oid = x, ce_type = t, ce_data = d, ce_gen = oc_cache_gen c\<rparr> (oc_cache c) [0..<8] of
        (C, used) \<Rightarrow> c\<lparr>oc_cache := C, oc_cache_gen := oc_cache_gen c + (if used then 1 else 0)\<rparr>)"

section \<open>Loose objects\<close>

text \<open>The path under the directory: two digits, a slash, the rest; the name without the slash stands for it.\<close>

definition odb_object_path :: "oid \<Rightarrow> bytes" where
  "odb_object_path x = bytes_to_hex (oid_hash x)"

definition odb_compress :: "zlib \<Rightarrow> bytes \<Rightarrow> bytes res" where
  "odb_compress z data = (case z_deflate_fast z data of None \<Rightarrow> Inl ERROR | Some zd \<Rightarrow> Inr zd)"

definition obj_size_hint :: "nat \<Rightarrow> nat" where
  "obj_size_hint csize = csize * 4 + 128"

text \<open>Up to \<open>n\<close> attempts, each with a buffer four times larger.\<close>

primrec uncompress_grow :: "zlib \<Rightarrow> nat \<Rightarrow> nat \<Rightarrow> nat \<Rightarrow> bytes \<Rightarrow> bytes res" where
  "uncompress_grow z mem 0 len f = Inl ERROR"
| "uncompress_grow z mem (Suc n) len f =
     (if mem < len then Inl ENOMEM
      else (case z_inflate z f of
          None \<Rightarrow> Inl ERROR
        | Some (d, _) \<Rightarrow> if length d \<le> len then Inr d else uncompress_grow z mem n (len * 4) f))"

text \<open>sscanf of \<open>%15s %zu\<close>.\<close>

definition scan_header :: "bytes \<Rightarrow> (bytes \<times> nat) option" where
  "scan_header s =
     (let s1 = dropWhile isspace s;
          w = take 15 (takeWhile (\<lambda>c. \<not> isspace c) s1);
          s2 = drop (length w) s1
      in if w = [] then None
         else let s3 = dropWhile isspace s2; (v, r) = strtoul 10 s3
           in if r = s3 then None else Some (w, unat v))"

text \<open>The sum \<open>payload_off + obj_size\<close> is a size_t.\<close>

definition read_loose :: "zlib \<Rightarrow> nat \<Rightarrow> bytes \<Rightarrow> (obj_type \<times> bytes) res" where
  "read_loose z mem f =
     (if mem < length f then Inl ENOMEM
      else bindr (uncompress_grow z mem 8 (obj_size_hint (length f)) f) (\<lambda>raw.
        (case split_at 0 raw of
           None \<Rightarrow> Inl ERROR
         | Some (hdr, payload) \<Rightarrow>
             (case scan_header hdr of
                None \<Rightarrow> Inl ERROR
              | Some (w, n) \<Rightarrow>
                  if length raw < (length hdr + 1 + n) mod 2 ^ 64 then Inl ERROR
                  else if mem < n then Inl ENOMEM
                  else if length payload < n then Inl Undefined
                  else Inr (fastgit_obj_type_from_name w, take n payload)))))"

section \<open>Packs\<close>

text \<open>The multi-pack index never hands out a pack; only a damaged one has an effect (undefined).\<close>

definition midx_probe :: "disk \<Rightarrow> oid \<Rightarrow> bool res" where
  "midx_probe dk x =
     (case fastgit_midx_open (d_midx dk) of
        Inl e \<Rightarrow> if e = Undefined then Inl Undefined else Inr False
      | Inr mx \<Rightarrow>
          (case fastgit_midx_find mx x of
             Inl e \<Rightarrow> if e = Undefined then Inl Undefined else Inr False
           | Inr _ \<Rightarrow> Inr True))"

fun read_packs :: "zlib \<Rightarrow> nat \<Rightarrow> oid \<Rightarrow> (bytes \<times> bytes option) list \<Rightarrow> (obj_type \<times> bytes) option res" where
  "read_packs z mem x [] = Inr None"
| "read_packs z mem x ((idx, pk) # r) =
     (case fastgit_pack_open pk (Some idx) of
        Inl e \<Rightarrow> if e = Undefined then Inl Undefined else read_packs z mem x r
      | Inr pack \<Rightarrow>
          (case fastgit_pack_read_entry z mem pack x of
             Inl e \<Rightarrow> if e = Undefined then Inl Undefined else read_packs z mem x r
           | Inr (t, d, _) \<Rightarrow> Inr (Some (t, d))))"

fun exists_packs :: "oid \<Rightarrow> (bytes \<times> bytes option) list \<Rightarrow> bool res" where
  "exists_packs x [] = Inr False"
| "exists_packs x ((idx, pk) # r) =
     (case fastgit_pack_index_load (Some idx) of
        Inl e \<Rightarrow> if e = Undefined then Inl Undefined else exists_packs x r
      | Inr i \<Rightarrow>
          (case fastgit_pack_index_find i x of
             Inl e \<Rightarrow> if e = Undefined then Inl Undefined else exists_packs x r
           | Inr _ \<Rightarrow> Inr True))"

section \<open>Reading\<close>

text \<open>
  What one handle does after a cache miss, its backends set aside: packs, then the loose file,
  which is cached.
\<close>

definition read_disk :: "zlib \<Rightarrow> nat \<Rightarrow> oid \<Rightarrow> odb_core \<Rightarrow> odb_object res \<times> odb_core" where
  "read_disk z mem x c =
     (case midx_probe (oc_disk c) x of
        Inl e \<Rightarrow> (Inl e, c)
      | Inr _ \<Rightarrow>
          (case read_packs z mem x (d_packs (oc_disk c)) of
             Inl e \<Rightarrow> (Inl e, c)
           | Inr (Some (t, d)) \<Rightarrow> (Inr \<lparr>oo_oid = x, oo_type = t, oo_data = d, oo_source = ODB_PACK\<rparr>, c)
           | Inr None \<Rightarrow>
               (case map_of (d_loose (oc_disk c)) (odb_object_path x) of
                  None \<Rightarrow> (Inl ENOENT, c)
                | Some f \<Rightarrow>
                    (case read_loose z mem f of
                       Inl e \<Rightarrow> (Inl e, c)
                     | Inr (t, d) \<Rightarrow>
                         (Inr \<lparr>oo_oid = x, oo_type = t, oo_data = d, oo_source = ODB_LOOSE\<rparr>,
                          core_cache False x t d (c\<lparr>oc_cache_misses := oc_cache_misses c + 1\<rparr>))))))"

definition odb_hit :: "odb_core \<Rightarrow> odb_core" where
  "odb_hit c = c\<lparr>oc_cache_hits := oc_cache_hits c + 1\<rparr>"

fun fastgit_odb_read :: "zlib \<Rightarrow> nat \<Rightarrow> oid \<Rightarrow> odb \<Rightarrow> odb_object res \<times> odb"
  and read_backends :: "zlib \<Rightarrow> nat \<Rightarrow> oid \<Rightarrow> odb list \<Rightarrow> odb_object option res \<times> odb list" where
  "fastgit_odb_read z mem x (Odb c0 bs) =
     (let c = c0\<lparr>oc_reads := oc_reads c0 + 1\<rparr> in
      case cache_find (oc_cache c) x [0..<8] of
        Some e \<Rightarrow>
          if mem < length (ce_data e) then (Inl ENOMEM, Odb c bs)
          else (Inr \<lparr>oo_oid = x, oo_type = ce_type e, oo_data = ce_data e, oo_source = ODB_LOOSE\<rparr>, Odb (odb_hit c) bs)
      | None \<Rightarrow>
          (case read_backends z mem x bs of
             (Inl e, bs') \<Rightarrow> (Inl e, Odb c bs')
           | (Inr (Some ob), bs') \<Rightarrow> (Inr ob, Odb (odb_hit c) bs')
           | (Inr None, bs') \<Rightarrow> (case read_disk z mem x c of (r, c') \<Rightarrow> (r, Odb c' bs'))))"
| "read_backends z mem x [] = (Inr None, [])"
| "read_backends z mem x (b # bs) =
     (case fastgit_odb_read z mem x b of
        (Inr ob, b') \<Rightarrow> (Inr (Some ob), b' # bs)
      | (Inl e, b') \<Rightarrow>
          if e = Undefined then (Inl Undefined, b' # bs)
          else (case read_backends z mem x bs of (r, bs') \<Rightarrow> (r, b' # bs')))"

definition fastgit_odb_read_header :: "zlib \<Rightarrow> nat \<Rightarrow> oid \<Rightarrow> odb \<Rightarrow> (obj_type \<times> nat) res \<times> odb" where
  "fastgit_odb_read_header z mem x db =
     (case fastgit_odb_read z mem x db of
        (r, db') \<Rightarrow> (bindr r (\<lambda>ob. Inr (oo_type ob, length (oo_data ob))), db'))"

section \<open>Writing\<close>

text \<open>
  The object is named by its hash. A cached object is taken to be on disk; a loose file of that name
  is not written again; otherwise the compressed serialisation becomes the file.
\<close>

definition write_disk :: "zlib \<Rightarrow> oid \<Rightarrow> obj_type \<Rightarrow> bytes \<Rightarrow> bytes \<Rightarrow> odb_core \<Rightarrow> odb_core res" where
  "write_disk z x t data buf c =
     bindr (odb_compress z buf) (\<lambda>zd.
       let k = odb_object_path x; dk = oc_disk c in
       if map_of (d_loose dk) k \<noteq> None then Inr (core_cache False x t data c)
       else Inr (core_cache True x t data
              (c\<lparr>oc_disk := dk\<lparr>d_loose := d_loose dk @ [(k, zd)]\<rparr>\<rparr>)))"

definition fastgit_odb_write :: "evp option \<Rightarrow> zlib \<Rightarrow> obj_type \<Rightarrow> bytes \<Rightarrow> odb \<Rightarrow> oid res \<times> odb" where
  "fastgit_odb_write crypto z t data db =
     (case db of Odb c0 bs \<Rightarrow>
       let c = c0\<lparr>oc_writes := oc_writes c0 + 1\<rparr>; obj = fastgit_object_parse t data in
       (case fastgit_object_hash crypto obj (oc_default_hash_algo c) of
          Inl e \<Rightarrow> (Inl e, Odb c bs)
        | Inr x \<Rightarrow>
            if cache_find (oc_cache c) x [0..<8] \<noteq> None then (Inr x, Odb (odb_hit c) bs)
            else (case bindr (fastgit_object_serialize obj) (\<lambda>buf. write_disk z x t data buf c) of
                Inl e \<Rightarrow> (Inl e, Odb c bs)
              | Inr c' \<Rightarrow> (Inr x, Odb c' bs))))"

section \<open>Existence and deletion\<close>

text \<open>The cache is not consulted.\<close>

fun fastgit_odb_exists :: "oid \<Rightarrow> odb \<Rightarrow> bool res"
  and exists_backends :: "oid \<Rightarrow> odb list \<Rightarrow> bool res" where
  "fastgit_odb_exists x (Odb c bs) =
     bindr (exists_backends x bs) (\<lambda>found.
       if found then Inr True
       else if map_of (d_loose (oc_disk c)) (odb_object_path x) \<noteq> None then Inr True
       else bindr (midx_probe (oc_disk c) x) (\<lambda>m.
         if m then Inr True else exists_packs x (d_packs (oc_disk c))))"
| "exists_backends x [] = Inr False"
| "exists_backends x (b # bs) =
     bindr (fastgit_odb_exists x b) (\<lambda>found. if found then Inr True else exists_backends x bs)"

text \<open>The cache keeps what it has.\<close>

definition fastgit_odb_delete :: "oid \<Rightarrow> odb \<Rightarrow> unit res \<times> odb" where
  "fastgit_odb_delete x db =
     (case db of Odb c bs \<Rightarrow>
       let dk = oc_disk c; k = odb_object_path x in
       if map_of (d_loose dk) k = None then (Inl EIO, db)
       else (Inr (), Odb (c\<lparr>oc_disk := dk\<lparr>d_loose := filter (\<lambda>kf. fst kf \<noteq> k) (d_loose dk)\<rparr>\<rparr>) bs))"

section \<open>Iteration\<close>

definition is_oid_name :: "bytes \<Rightarrow> oid option" where
  "is_oid_name nm = (case fastgit_oid_from_hex nm of Inl _ \<Rightarrow> None | Inr x \<Rightarrow> Some x)"

text \<open>All the names of the directory are read when the iterator is made.\<close>

definition fastgit_odb_iterator_new :: "odb \<Rightarrow> oid list" where
  "fastgit_odb_iterator_new db =
     List.map_filter (\<lambda>kf. is_oid_name (fst kf)) (d_loose (oc_disk (odb_head db)))"

definition fastgit_odb_iterator_next :: "oid list \<times> nat \<Rightarrow> oid res \<times> (oid list \<times> nat)" where
  "fastgit_odb_iterator_next it =
     (case it of (xs, p) \<Rightarrow> if length xs \<le> p then (Inl ENOENT, it) else (Inr (xs ! p), (xs, p + 1)))"

definition fastgit_odb_read_prefix :: "zlib \<Rightarrow> nat \<Rightarrow> bytes \<Rightarrow> odb \<Rightarrow> odb_object res \<times> odb" where
  "fastgit_odb_read_prefix z mem pre db =
     (case List.find (\<lambda>x. length pre \<le> length (oid_hash x) \<and> memcmp (take (length pre) (oid_hash x)) pre = 0)
        (fastgit_odb_iterator_new db) of
        None \<Rightarrow> (Inl ENOENT, db)
      | Some x \<Rightarrow> fastgit_odb_read z mem x db)"

definition fastgit_odb_add_backend :: "odb \<Rightarrow> odb \<Rightarrow> int \<Rightarrow> odb" where
  "fastgit_odb_add_backend db b priority =
     (case db of Odb c bs \<Rightarrow>
       if 0 \<le> priority \<and> nat priority < length bs
       then Odb c (take (nat priority) bs @ b # drop (nat priority) bs)
       else Odb c (bs @ [b]))"

section \<open>Repacking\<close>

text \<open>
  The loops pass the address of an object pointer where \<open>fastgit_odb_read\<close> stores a whole
  \<open>fastgit_odb_object_t\<close>: the first read that succeeds writes outside the pointer. Reads that fail
  are skipped.
\<close>

fun pack_objects :: "zlib \<Rightarrow> nat \<Rightarrow> oid list \<Rightarrow> odb \<Rightarrow> odb res" where
  "pack_objects z mem [] db = Inr db"
| "pack_objects z mem (x # xs) db =
     (case fastgit_odb_read z mem x db of
        (Inr ob, db') \<Rightarrow> Inl Undefined
      | (Inl e, db') \<Rightarrow> if e = Undefined then Inl Undefined else pack_objects z mem xs db')"

definition add_pack :: "bytes \<times> bytes \<Rightarrow> odb \<Rightarrow> odb" where
  "add_pack fi db =
     (case db of Odb c bs \<Rightarrow>
       Odb (c\<lparr>oc_disk := (oc_disk c)\<lparr>d_packs := d_packs (oc_disk c) @ [(snd fi, Some (fst fi))]\<rparr>\<rparr>) bs)"

definition fastgit_odb_pack :: "evp option \<Rightarrow> zlib \<Rightarrow> nat \<Rightarrow> oid list \<Rightarrow> odb \<Rightarrow> odb res" where
  "fastgit_odb_pack crypto z mem objects db =
     (if objects \<noteq> [] then
        (if fastgit_oid_to_hex (hd objects) 64 = None then Inl Undefined
         else bindr (pack_objects z mem objects db) (\<lambda>db'.
           bindr (fastgit_pack_close crypto fastgit_pack_create) (\<lambda>fi. Inr (add_pack fi db'))))
      else let xs = fastgit_odb_iterator_new db in
        if xs = [] then Inr db
        else bindr (pack_objects z mem xs db) (\<lambda>db'.
          bindr (fastgit_pack_close crypto fastgit_pack_create) (\<lambda>fi. Inr (add_pack fi db'))))"

definition fastgit_odb_gc :: "evp option \<Rightarrow> zlib \<Rightarrow> nat \<Rightarrow> odb \<Rightarrow> odb res" where
  "fastgit_odb_gc crypto z mem db = fastgit_odb_pack crypto z mem [] db"

end
