(* ===== verification/OdbProps.thy ===== *)
theory OdbProps
  imports Odb PackProps
begin

text \<open>
  The database stores and returns objects: an interface of object stores with the lemmas their
  clients need, the invariant of a database, and the proof that it provides the interface.
\<close>

section \<open>Object stores\<close>

text \<open>
  \<open>put\<close> names a value and stores it, \<open>get\<close> returns the value of a name; both may change the state
  (caches, counters). \<open>adm\<close> are the values that may be stored, \<open>key\<close> the names that may be asked for.
\<close>

locale object_store =
  fixes put :: "'s \<Rightarrow> 'v \<Rightarrow> 'k res \<times> 's"
    and get :: "'s \<Rightarrow> 'k \<Rightarrow> 'v res \<times> 's"
    and ok :: "'s \<Rightarrow> bool"
    and adm :: "'v \<Rightarrow> bool"
    and key :: "'k \<Rightarrow> bool"
  assumes put_get: "ok s \<Longrightarrow> adm v \<Longrightarrow>
      \<exists>k s'. put s v = (Inr k, s') \<and> ok s' \<and> key k \<and> fst (get s' k) = Inr v"
    and put_keeps: "ok s \<Longrightarrow> adm v \<Longrightarrow> put s v = (r, s') \<Longrightarrow> key y \<Longrightarrow>
      fst (get s y) = Inr w \<Longrightarrow> fst (get s' y) = Inr w"
    and get_keeps: "ok s \<Longrightarrow> key x \<Longrightarrow> get s x = (g, s') \<Longrightarrow>
      ok s' \<and> (\<forall>y w. key y \<and> fst (get s y) = Inr w \<longrightarrow> fst (get s' y) = Inr w)"
begin

definition holds :: "'s \<Rightarrow> 'k \<Rightarrow> 'v \<Rightarrow> bool" where
  "holds s k v \<longleftrightarrow> key k \<and> fst (get s k) = Inr v"

text \<open>What a state holds, another one holds as well.\<close>

definition extends :: "'s \<Rightarrow> 's \<Rightarrow> bool" where
  "extends s s' \<longleftrightarrow> (\<forall>k v. holds s k v \<longrightarrow> holds s' k v)"

lemma extends_refl: "extends s s"
  by (simp add: extends_def)

lemma extends_trans: "extends s t \<Longrightarrow> extends t u \<Longrightarrow> extends s u"
  by (simp add: extends_def)

lemma put_ok:
  assumes "ok s" "adm v"
  obtains k s' where "put s v = (Inr k, s')" "ok s'" "holds s' k v" "extends s s'"
  using put_get[OF assms] put_keeps[OF assms] unfolding holds_def extends_def by blast

lemma get_ok:
  assumes "ok s" "holds s k v"
  obtains s' where "get s k = (Inr v, s')" "ok s'" "extends s s'"
proof -
  obtain r s' where g: "get s k = (r, s')" by fastforce
  then have "r = Inr v" using assms(2) by (simp add: holds_def)
  then show ?thesis
    using that g get_keeps[OF assms(1) _ g] assms(2) by (auto simp: holds_def extends_def)
qed

lemma holds_det: "holds s k v \<Longrightarrow> holds s k w \<Longrightarrow> v = w"
  by (simp add: holds_def)

fun put_all :: "'s \<Rightarrow> 'v list \<Rightarrow> 'k list res \<times> 's" where
  "put_all s [] = (Inr [], s)"
| "put_all s (v # vs) =
     (case put s v of
        (Inl e, s') \<Rightarrow> (Inl e, s')
      | (Inr k, s') \<Rightarrow> (case put_all s' vs of (r, t) \<Rightarrow> (bindr r (\<lambda>ks. Inr (k # ks)), t)))"

lemma put_all_holds:
  "ok s \<Longrightarrow> \<forall>v \<in> set vs. adm v \<Longrightarrow>
   \<exists>ks t. put_all s vs = (Inr ks, t) \<and> ok t \<and> list_all2 (holds t) ks vs \<and> extends s t"
proof (induction vs arbitrary: s)
  case Nil
  then show ?case by (simp add: extends_refl)
next
  case (Cons v vs)
  from Cons.prems obtain k s' where p: "put s v = (Inr k, s')" "ok s'" "holds s' k v" "extends s s'"
    by (auto elim: put_ok)
  from Cons.IH[OF p(2)] Cons.prems obtain ks t where t: "put_all s' vs = (Inr ks, t)" "ok t"
    "list_all2 (holds t) ks vs" "extends s' t" by auto
  then have "holds t k v" using p(3) by (simp add: extends_def)
  then show ?case using p t extends_trans[OF p(4) t(4)] by simp
qed

end

section \<open>The cache\<close>

lemma cache_find_SomeD: "cache_find C x ps = Some e \<Longrightarrow> ce_oid e = x \<and> (\<exists>s. C s = Some e)"
  by (induction ps) (auto split: option.splits if_splits)

lemma cache_put_entries: "fst (cache_put rep n C ps) s = Some e \<Longrightarrow> C s = Some e \<or> e = n"
  by (induction ps) (auto simp: Let_def split: option.splits if_splits)

lemma cache_put_keeps: "C s = Some e \<Longrightarrow> \<exists>e'. fst (cache_put rep n C ps) s = Some e' \<and> ce_oid e' = ce_oid e"
  by (induction ps) (auto simp: Let_def split: option.splits if_splits)

lemma cache_find_put:
  "cache_find C y qs \<noteq> None \<Longrightarrow> cache_find (fst (cache_put rep n C ps)) y qs \<noteq> None"
proof (induction qs)
  case (Cons q qs)
  then obtain e where e: "C (cache_slot y q) = Some e" by (auto split: option.splits)
  obtain e' where "fst (cache_put rep n C ps) (cache_slot y q) = Some e'" "ce_oid e' = ce_oid e"
    using cache_put_keeps[where C = C and s = "cache_slot y q", OF e] by blast
  then show ?case using Cons e by (auto split: if_splits)
qed simp

lemma core_cache_simps [simp]:
  "oc_disk (core_cache rep x t d c) = oc_disk c"
  "oc_default_hash_algo (core_cache rep x t d c) = oc_default_hash_algo c"
  by (auto simp: core_cache_def split: prod.splits)

lemma core_cache_eq:
  "oc_cache (core_cache rep x t d c) =
     fst (cache_put rep \<lparr>ce_oid = x, ce_type = t, ce_data = d, ce_gen = oc_cache_gen c\<rparr> (oc_cache c) [0..<8])"
  by (auto simp: core_cache_def split: prod.splits)

section \<open>Loose files\<close>

text \<open>zlib at level 1: it succeeds, its output is bounded both ways, and inflating undoes it.\<close>

definition zlib_fast_ok :: "zlib \<Rightarrow> bool" where
  "zlib_fast_ok z \<longleftrightarrow> (\<forall>d. \<exists>zd. z_deflate_fast z d = Some zd \<and> z_inflate z zd = Some (d, length zd) \<and>
     length d \<le> 1032 * length zd \<and> length zd \<le> 2 * length d + 64)"

definition storable :: "nat \<Rightarrow> obj_type \<times> bytes \<Rightarrow> bool" where
  "storable mem p \<longleftrightarrow> base_type (fst p) \<and> (snd p \<noteq> [] \<or> fst p = BLOB) \<and>
     8 * length (snd p) + 2048 \<le> mem \<and> mem < 2 ^ 63"

definition obj_text :: "obj_type \<Rightarrow> bytes \<Rightarrow> bytes" where
  "obj_text t d = object_header (type_word t) (length d) @ [0] @ d"

lemma type_word_short: "length (type_word t) \<le> 10"
  by (simp add: type_word_def)

lemma serialize_storable:
  assumes "storable mem (t, d)"
  shows "fastgit_object_serialize (fastgit_object_parse t d) = Inr (obj_text t d)"
    "length (obj_text t d) \<le> length d + 64"
proof -
  have t: "base_type t" and d: "d \<noteq> [] \<or> t = BLOB" and l: "length d < 2 ^ 64"
    using assms by (auto simp: storable_def)
  have nm: "header_name t = Inr (type_word t)"
    using t by (auto simp: base_type_def header_name_def type_word_def)
  have hl: "length (object_header (type_word t) (length d)) < 64" by (rule header_short[OF l type_word_short])
  have "object_content (fastgit_object_parse t d) = Inr d"
  proof (cases "d = []")
    case True
    then have "t = BLOB" using d by simp
    then show ?thesis by (simp add: True object_content_def o_size_def fastgit_object_parse_def)
  next
    case False
    then show ?thesis by (simp add: object_content_def o_size_def fastgit_object_parse_def)
  qed
  then show "fastgit_object_serialize (fastgit_object_parse t d) = Inr (obj_text t d)"
    using hl unfolding fastgit_object_serialize_def
    by (simp add: fastgit_object_parse_def nm obj_text_def Let_def)
  show "length (obj_text t d) \<le> length d + 64" using hl by (simp add: obj_text_def)
qed

lemma uncompress_grow_ok:
  assumes "z_inflate z f = Some (d, m)" "4 * length d \<le> mem"
  shows "length d \<le> len * 4 ^ k \<Longrightarrow> k < n \<Longrightarrow> len \<le> mem \<Longrightarrow> uncompress_grow z mem n len f = Inr d"
proof (induction n arbitrary: k len)
  case (Suc n)
  show ?case
  proof (cases "length d \<le> len")
    case True
    then show ?thesis using assms Suc.prems by simp
  next
    case False
    then obtain j where j: "k = Suc j" using Suc.prems(1) by (cases k) auto
    have "uncompress_grow z mem n (len * 4) f = Inr d"
      using Suc.IH[of "len * 4" j] Suc.prems False assms(2) j by (simp add: mult.assoc)
    then show ?thesis using assms Suc.prems False by simp
  qed
qed simp

lemma type_word_chars: "c \<in> set (str (type_word t)) \<Longrightarrow> \<not> isspace c \<and> c \<noteq> 0"
  by (auto simp: type_word_def str_def isspace_def split: if_splits)

lemma type_word_facts:
  "str (type_word t) \<noteq> []" "length (str (type_word t)) \<le> 15"
  "base_type t \<Longrightarrow> fastgit_obj_type_from_name (str (type_word t)) = t"
  by (auto simp: type_word_def str_def base_type_def fastgit_obj_type_from_name_def)

lemma scan_header_print:
  assumes "n < 2 ^ 63"
  shows "scan_header (object_header (type_word t) n) = Some (str (type_word t), n)"
proof -
  let ?w = "str (type_word t)"
  have ns: "\<forall>c \<in> set ?w. \<not> isspace c" using type_word_chars by blast
  have dw: "dropWhile isspace (?w @ [32] @ dec n) = ?w @ [32] @ dec n"
    using ns type_word_facts(1)[of t] by (cases ?w) auto
  have tw: "takeWhile (\<lambda>c. \<not> isspace c) (?w @ [32] @ dec n) = ?w"
    using ns by (subst takeWhile_append2) (auto simp: isspace_def)
  have w: "take 15 ?w = ?w" using type_word_facts(2)[of t] by simp
  have dd: "dropWhile isspace ([32] @ dec n) = dec n"
  proof -
    obtain c cs where "dec n = c # cs" "48 \<le> c" "c \<le> 122" by (rule dec_head)
    then show ?thesis by (auto simp: isspace_def word_le_nat_alt)
  qed
  have st: "strtoul 10 (dec n) = (of_nat n, [])"
    using strtoul_print[of 10 "[]" n] assms by (simp add: stops_def)
  show ?thesis
    using st type_word_facts(1)[of t] assms print_base_nonempty[of 10 n, symmetric]
    unfolding scan_header_def object_header_def Let_def dw tw w
    by (simp add: dd[simplified] unat_of_nat)
qed

lemma header_no_nul: "0 \<notin> set (object_header (type_word t) n)"
  using type_word_chars[of 0 t] print_base_nul_free[of 10 n] by (auto simp: object_header_def nul_free_def)

lemma read_loose_written:
  assumes z: "z_inflate z zd = Some (obj_text t d, length zd)"
      "length (obj_text t d) \<le> 1032 * length zd" "length zd \<le> 2 * length (obj_text t d) + 64"
    and s: "storable mem (t, d)"
  shows "read_loose z mem zd = Inr (t, d)"
proof -
  have l: "length (obj_text t d) \<le> length d + 64" by (rule serialize_storable(2)[OF s])
  have m: "8 * length d + 2048 \<le> mem" "mem < 2 ^ 63" "base_type t" using s by (simp_all add: storable_def)
  have "uncompress_grow z mem 8 (obj_size_hint (length zd)) zd = Inr (obj_text t d)"
  proof (rule uncompress_grow_ok[OF z(1)])
    show "4 * length (obj_text t d) \<le> mem" using l m(1) by simp
    show "length (obj_text t d) \<le> obj_size_hint (length zd) * 4 ^ 5"
      using z(2) by (simp add: obj_size_hint_def)
    show "obj_size_hint (length zd) \<le> mem" using z(3) l m(1) by (simp add: obj_size_hint_def)
  qed simp
  moreover have "length zd \<le> mem" using z(3) l m(1) by simp
  moreover have "split_at 0 (obj_text t d) = Some (object_header (type_word t) (length d), d)"
    using header_no_nul by (simp add: obj_text_def)
  moreover have "length d < 2 ^ 63" using m by simp
  moreover have "(length (object_header (type_word t) (length d)) + 1 + length d) mod 2 ^ 64 = length (obj_text t d)"
    using l m by (simp add: obj_text_def)
  ultimately show ?thesis
    using scan_header_print[of "length d" t] type_word_facts(3)[OF m(3)] m(1)
    by (simp add: read_loose_def)
qed


section \<open>The invariant of a database\<close>

text \<open>
  \<open>U\<close> are the objects that are ever stored: no two of them have the same SHA-256 name. A database
  (without fallbacks, none is ever registered) is in order when everything it can return under a
  name is the object of that name: in the cache, in the loose files, in the packs.
\<close>

definition obj_name :: "evp option \<Rightarrow> obj_type \<times> bytes \<Rightarrow> oid res" where
  "obj_name crypto p = fastgit_object_hash crypto (fastgit_object_parse (fst p) (snd p)) HASH_SHA256"

definition universe :: "evp option \<Rightarrow> nat \<Rightarrow> (obj_type \<times> bytes) set \<Rightarrow> bool" where
  "universe crypto mem U \<longleftrightarrow> (\<forall>p \<in> U. storable mem p) \<and> inj_on (obj_name crypto) U"

definition named :: "evp option \<Rightarrow> (obj_type \<times> bytes) set \<Rightarrow> oid \<Rightarrow> obj_type \<times> bytes \<Rightarrow> bool" where
  "named crypto U x p \<longleftrightarrow> p \<in> U \<and> obj_name crypto p = Inr x"

definition sha_key :: "oid \<Rightarrow> bool" where
  "sha_key x \<longleftrightarrow> oid_algo x = HASH_SHA256"

definition cache_ok :: "evp option \<Rightarrow> (obj_type \<times> bytes) set \<Rightarrow> (nat \<rightharpoonup> cache_entry) \<Rightarrow> bool" where
  "cache_ok crypto U C \<longleftrightarrow> (\<forall>s e. C s = Some e \<longrightarrow> named crypto U (ce_oid e) (ce_type e, ce_data e))"

definition loose_ok :: "evp option \<Rightarrow> zlib \<Rightarrow> nat \<Rightarrow> (obj_type \<times> bytes) set \<Rightarrow> bytes \<times> bytes \<Rightarrow> bool" where
  "loose_ok crypto z mem U kf \<longleftrightarrow> (\<exists>p. read_loose z mem (snd kf) = Inr p \<and>
     (\<forall>x. sha_key x \<and> odb_object_path x = fst kf \<longrightarrow> named crypto U x p))"

definition packs_ok :: "evp option \<Rightarrow> zlib \<Rightarrow> nat \<Rightarrow> (obj_type \<times> bytes) set \<Rightarrow> disk \<Rightarrow> bool" where
  "packs_ok crypto z mem U dk \<longleftrightarrow> (\<forall>x. (\<exists>b. midx_probe dk x = Inr b) \<and>
     (\<exists>r. read_packs z mem x (d_packs dk) = Inr r \<and>
        (\<forall>p. r = Some p \<and> sha_key x \<longrightarrow> named crypto U x p)))"

definition core_ok :: "evp option \<Rightarrow> zlib \<Rightarrow> nat \<Rightarrow> (obj_type \<times> bytes) set \<Rightarrow> odb_core \<Rightarrow> bool" where
  "core_ok crypto z mem U c \<longleftrightarrow> oc_default_hash_algo c = HASH_SHA256 \<and> cache_ok crypto U (oc_cache c) \<and>
     (\<forall>kf \<in> set (d_loose (oc_disk c)). loose_ok crypto z mem U kf) \<and> packs_ok crypto z mem U (oc_disk c)"

definition odb_ok :: "evp option \<Rightarrow> zlib \<Rightarrow> nat \<Rightarrow> (obj_type \<times> bytes) set \<Rightarrow> odb \<Rightarrow> bool" where
  "odb_ok crypto z mem U db \<longleftrightarrow> sha256_ok crypto \<and> zlib_fast_ok z \<and> universe crypto mem U \<and>
     odb_backends db = [] \<and> core_ok crypto z mem U (odb_head db)"

lemma named_storable: "universe crypto mem U \<Longrightarrow> named crypto U x p \<Longrightarrow> storable mem p"
  by (simp add: universe_def named_def)

lemma named_unique: "universe crypto mem U \<Longrightarrow> named crypto U x p \<Longrightarrow> named crypto U x q \<Longrightarrow> p = q"
  by (auto simp: universe_def named_def inj_on_def)

lemma obj_name_ok:
  assumes "sha256_ok crypto" "storable mem p"
  shows "\<exists>x. obj_name crypto p = Inr x \<and> sha_key x \<and> length (oid_hash x) = 32"
proof -
  obtain t d where p: "p = (t, d)" by fastforce
  obtain h where "fastgit_hash crypto HASH_SHA256 (obj_text t d) = Inr \<lparr>h_digest = h, h_algo = HASH_SHA256\<rparr>" "length h = 32"
    using assms(1) unfolding sha256_ok_def by blast
  then show ?thesis
    using serialize_storable(1)[of mem t d] assms(2)
    by (auto simp: obj_name_def fastgit_object_hash_def p sha_key_def)
qed

lemma path_inj: "sha_key x \<Longrightarrow> sha_key y \<Longrightarrow> odb_object_path x = odb_object_path y \<Longrightarrow> x = y"
  by (cases x; cases y) (auto simp: odb_object_path_def sha_key_def dest!: arg_cong[of _ _ hex_to_bytes])

lemma core_ok_cache:
  assumes "core_ok crypto z mem U c" "named crypto U x (t, d)"
  shows "core_ok crypto z mem U (core_cache rep x t d c)"
proof -
  let ?n = "\<lparr>ce_oid = x, ce_type = t, ce_data = d, ce_gen = oc_cache_gen c\<rparr>"
  have "cache_ok crypto U (fst (cache_put rep ?n (oc_cache c) [0..<8]))"
    using assms cache_put_entries[of rep ?n "oc_cache c" "[0..<8]"]
    unfolding cache_ok_def core_ok_def by fastforce
  then show ?thesis using assms(1) unfolding core_ok_def core_cache_simps core_cache_eq by blast
qed

lemma core_ok_counters [simp]:
  "core_ok crypto z mem U (c\<lparr>oc_reads := n\<rparr>) = core_ok crypto z mem U c"
  "core_ok crypto z mem U (c\<lparr>oc_writes := n\<rparr>) = core_ok crypto z mem U c"
  "core_ok crypto z mem U (c\<lparr>oc_cache_misses := n\<rparr>) = core_ok crypto z mem U c"
  "core_ok crypto z mem U (odb_hit c) = core_ok crypto z mem U c"
  by (simp_all add: core_ok_def odb_hit_def)

section \<open>Reading\<close>

definition content :: "odb_object \<Rightarrow> obj_type \<times> bytes" where
  "content ob = (oo_type ob, oo_data ob)"

definition odb_get :: "zlib \<Rightarrow> nat \<Rightarrow> odb \<Rightarrow> oid \<Rightarrow> (obj_type \<times> bytes) res \<times> odb" where
  "odb_get z mem db x = (case fastgit_odb_read z mem x db of (r, db') \<Rightarrow> (bindr r (\<lambda>ob. Inr (content ob)), db'))"

text \<open>An object can be read when the cache, a pack or a loose file has it.\<close>

definition readable :: "zlib \<Rightarrow> nat \<Rightarrow> odb_core \<Rightarrow> oid \<Rightarrow> bool" where
  "readable z mem c x \<longleftrightarrow> cache_find (oc_cache c) x [0..<8] \<noteq> None \<or>
     read_packs z mem x (d_packs (oc_disk c)) \<noteq> Inr None \<or>
     map_of (d_loose (oc_disk c)) (odb_object_path x) \<noteq> None"

lemma cache_hit:
  assumes "core_ok crypto z mem U c" "universe crypto mem U" "cache_find (oc_cache c) x ps = Some e"
  shows "named crypto U x (ce_type e, ce_data e) \<and> length (ce_data e) \<le> mem"
proof -
  have "named crypto U x (ce_type e, ce_data e)"
    using assms(1) cache_find_SomeD[OF assms(3)] by (auto simp: core_ok_def cache_ok_def)
  then show ?thesis using named_storable[OF assms(2)] by (fastforce simp: storable_def)
qed

lemma read_disk_ok:
  assumes c: "core_ok crypto z mem U c" and x: "sha_key x" and r: "read_disk z mem x c = (r, c')"
  shows "core_ok crypto z mem U c' \<and> (\<forall>ob. r = Inr ob \<longrightarrow> named crypto U x (content ob)) \<and>
    (r = Inl ENOENT \<and> c' = c \<and> read_packs z mem x (d_packs (oc_disk c)) = Inr None \<and>
        map_of (d_loose (oc_disk c)) (odb_object_path x) = None \<or>
     (\<exists>ob. r = Inr ob) \<and> readable z mem c x \<and> oc_disk c' = oc_disk c \<and>
        (\<forall>y. cache_find (oc_cache c) y [0..<8] \<noteq> None \<longrightarrow> cache_find (oc_cache c') y [0..<8] \<noteq> None))"
proof -
  obtain b where m: "midx_probe (oc_disk c) x = Inr b" using c unfolding core_ok_def packs_ok_def by blast
  obtain po where p: "read_packs z mem x (d_packs (oc_disk c)) = Inr po" "\<forall>p. po = Some p \<longrightarrow> named crypto U x p"
    using c x unfolding core_ok_def packs_ok_def by blast
  show ?thesis
  proof (cases po)
    case (Some td)
    then obtain t d where td: "po = Some (t, d)" by (cases td) auto
    then show ?thesis using r m p c by (auto simp: read_disk_def content_def readable_def)
  next
    case None
    show ?thesis
    proof (cases "map_of (d_loose (oc_disk c)) (odb_object_path x)")
      case None
      then show ?thesis using r m p \<open>po = None\<close> c by (auto simp: read_disk_def)
    next
      case (Some f)
      then have "loose_ok crypto z mem U (odb_object_path x, f)"
        using c map_of_SomeD[OF Some] by (auto simp: core_ok_def)
      then obtain t d where td: "read_loose z mem f = Inr (t, d)" "named crypto U x (t, d)"
        using x by (force simp: loose_ok_def)
      have c': "c' = core_cache False x t d (c\<lparr>oc_cache_misses := oc_cache_misses c + 1\<rparr>)"
        and rr: "r = Inr \<lparr>oo_oid = x, oo_type = t, oo_data = d, oo_source = ODB_LOOSE\<rparr>"
        using r m p(1) \<open>po = None\<close> Some td(1) by (auto simp: read_disk_def)
      have "core_ok crypto z mem U c'" unfolding c' by (rule core_ok_cache) (use c td(2) in simp_all)
      then show ?thesis
        using td(2) Some unfolding c' rr by (simp add: content_def readable_def core_cache_eq cache_find_put)
    qed
  qed
qed

lemma odb_get_ok:
  assumes db: "odb_ok crypto z mem U db" and x: "sha_key x" and g: "odb_get z mem db x = (r, db')"
  shows "odb_ok crypto z mem U db' \<and> (\<forall>p. r = Inr p \<longrightarrow> named crypto U x p) \<and>
    ((\<exists>p. r = Inr p) \<longleftrightarrow> readable z mem (odb_head db) x) \<and> oc_disk (odb_head db') = oc_disk (odb_head db) \<and>
    (\<forall>y. readable z mem (odb_head db) y \<longrightarrow> readable z mem (odb_head db') y)"
proof -
  obtain c0 where d: "db = Odb c0 []" and c0: "core_ok crypto z mem U c0" and U: "universe crypto mem U"
    using db by (cases db) (auto simp: odb_ok_def)
  let ?c = "c0\<lparr>oc_reads := oc_reads c0 + 1\<rparr>"
  have c: "core_ok crypto z mem U ?c" using c0 by simp
  have pars: "odb_ok crypto z mem U (Odb k []) \<longleftrightarrow> core_ok crypto z mem U k" for k
    using db by (simp add: odb_ok_def)
  show ?thesis
  proof (cases "cache_find (oc_cache ?c) x [0..<8]")
    case (Some e)
    then show ?thesis
      using g cache_hit[OF c U Some] c0
      by (auto simp: d odb_get_def content_def pars readable_def odb_hit_def core_ok_def not_less[symmetric])
  next
    case None
    obtain r1 c1 where rd: "read_disk z mem x ?c = (r1, c1)" by fastforce
    have eq: "r = bindr r1 (\<lambda>ob. Inr (content ob))" "db' = Odb c1 []"
      using g rd None by (simp_all add: d odb_get_def)
    show ?thesis
      using read_disk_ok[OF c x rd] None
      by (auto simp: eq d pars readable_def)
  qed
qed


lemma odb_read_defined:
  assumes db: "odb_ok crypto z mem U db" and x: "sha_key x" and g: "fastgit_odb_read z mem x db = (r, db')"
  shows "r \<noteq> Inl Undefined"
proof -
  obtain c0 where d: "db = Odb c0 []" and c0: "core_ok crypto z mem U c0" and U: "universe crypto mem U"
    using db by (cases db) (auto simp: odb_ok_def)
  let ?c = "c0\<lparr>oc_reads := oc_reads c0 + 1\<rparr>"
  have c: "core_ok crypto z mem U ?c" using c0 by simp
  obtain r1 c1 where rd: "read_disk z mem x ?c = (r1, c1)" by fastforce
  have "r1 \<noteq> Inl Undefined" using read_disk_ok[OF c x rd] by auto
  then show ?thesis using g rd by (auto simp: d Let_def split: option.splits if_splits)
qed

section \<open>Writing\<close>

lemma get_of_readable:
  assumes "odb_ok crypto z mem U db" "sha_key x" "readable z mem (odb_head db) x" "named crypto U x p"
  shows "fst (odb_get z mem db x) = Inr p"
proof -
  obtain r db' where g: "odb_get z mem db x = (r, db')" by fastforce
  from odb_get_ok[OF assms(1,2) g] assms(3) obtain q where q: "r = Inr q" "named crypto U x q" by blast
  have "universe crypto mem U" using assms(1) by (simp add: odb_ok_def)
  from named_unique[OF this q(2) assms(4)] show ?thesis using g q(1) by simp
qed

lemma readable_mono:
  assumes "\<And>y. cache_find (oc_cache c) y [0..<8] \<noteq> None \<Longrightarrow> cache_find (oc_cache c') y [0..<8] \<noteq> None"
    and "d_packs (oc_disk c') = d_packs (oc_disk c)"
    and "\<And>k. map_of (d_loose (oc_disk c)) k \<noteq> None \<Longrightarrow> map_of (d_loose (oc_disk c')) k \<noteq> None"
  shows "readable z mem c y \<Longrightarrow> readable z mem c' y"
  using assms by (auto simp: readable_def)

lemma write_disk_ok:
  assumes z: "zlib_fast_ok z" and U: "universe crypto mem U" and x: "sha_key x"
    and n: "named crypto U x (t, d)" and c: "core_ok crypto z mem U c"
  shows "\<exists>c'. write_disk z x t d (obj_text t d) c = Inr c' \<and> core_ok crypto z mem U c' \<and> readable z mem c' x \<and>
    (\<forall>y. readable z mem c y \<longrightarrow> readable z mem c' y)"
proof -
  have s: "storable mem (t, d)" by (rule named_storable[OF U n])
  obtain zd where zd: "z_deflate_fast z (obj_text t d) = Some zd" "z_inflate z zd = Some (obj_text t d, length zd)"
    "length (obj_text t d) \<le> 1032 * length zd" "length zd \<le> 2 * length (obj_text t d) + 64"
    using z unfolding zlib_fast_ok_def by blast
  let ?k = "odb_object_path x"
  let ?e = "\<lambda>c. \<lparr>ce_oid = x, ce_type = t, ce_data = d, ce_gen = oc_cache_gen c\<rparr>"
  show ?thesis
  proof (cases "map_of (d_loose (oc_disk c)) ?k")
    case (Some f)
    then have w: "write_disk z x t d (obj_text t d) c = Inr (core_cache False x t d c)"
      by (simp add: write_disk_def odb_compress_def zd(1) Let_def)
    have "readable z mem (core_cache False x t d c) y" if "readable z mem c y" for y
      by (rule readable_mono[OF _ _ _ that]) (simp_all add: core_cache_eq cache_find_put)
    then show ?thesis using w core_ok_cache[OF c n] Some by (simp add: readable_def)
  next
    case None
    let ?c1 = "c\<lparr>oc_disk := (oc_disk c)\<lparr>d_loose := d_loose (oc_disk c) @ [(?k, zd)]\<rparr>\<rparr>"
    have w: "write_disk z x t d (obj_text t d) c = Inr (core_cache True x t d ?c1)"
      using None by (simp add: write_disk_def odb_compress_def zd(1) Let_def)
    have rl: "read_loose z mem zd = Inr (t, d)" by (rule read_loose_written[OF zd(2,3,4) s])
    have "loose_ok crypto z mem U (?k, zd)"
      using rl n path_inj[OF _ x] by (auto simp: loose_ok_def)
    moreover have "packs_ok crypto z mem U (oc_disk ?c1)"
      using c by (simp add: core_ok_def packs_ok_def midx_probe_def)
    ultimately have "core_ok crypto z mem U ?c1" using c by (auto simp: core_ok_def)
    then have c': "core_ok crypto z mem U (core_cache True x t d ?c1)" using n by (rule core_ok_cache)
    have "readable z mem (core_cache True x t d ?c1) y" if "readable z mem c y" for y
      by (rule readable_mono[OF _ _ _ that]) (auto simp: core_cache_eq cache_find_put map_add_def split: option.splits)
    moreover have "readable z mem (core_cache True x t d ?c1) x"
      by (simp add: readable_def map_add_def None)
    ultimately show ?thesis using w c' by blast
  qed
qed

lemma odb_write_ok:
  assumes db: "odb_ok crypto z mem U db" and p: "(t, d) \<in> U"
  shows "\<exists>x db'. fastgit_odb_write crypto z t d db = (Inr x, db') \<and> sha_key x \<and> obj_name crypto (t, d) = Inr x \<and>
    odb_ok crypto z mem U db' \<and> readable z mem (odb_head db') x \<and>
    (\<forall>y. readable z mem (odb_head db) y \<longrightarrow> readable z mem (odb_head db') y)"
proof -
  obtain c0 where b: "db = Odb c0 []" and c0: "core_ok crypto z mem U c0" and U: "universe crypto mem U"
    and par: "sha256_ok crypto" "zlib_fast_ok z"
    using db by (cases db) (auto simp: odb_ok_def)
  have s: "storable mem (t, d)" using U p by (simp add: universe_def)
  obtain x where x: "obj_name crypto (t, d) = Inr x" "sha_key x" using obj_name_ok[OF par(1) s] by blast
  then have n: "named crypto U x (t, d)" using p by (simp add: named_def)
  let ?c = "c0\<lparr>oc_writes := oc_writes c0 + 1\<rparr>"
  have c: "core_ok crypto z mem U ?c" using c0 by simp
  have h: "fastgit_object_hash crypto (fastgit_object_parse t d) (oc_default_hash_algo ?c) = Inr x"
    using x(1) c by (simp add: obj_name_def core_ok_def)
  have pars: "odb_ok crypto z mem U (Odb k []) \<longleftrightarrow> core_ok crypto z mem U k" for k
    using db by (simp add: odb_ok_def)
  show ?thesis
  proof (cases "cache_find (oc_cache ?c) x [0..<8]")
    case (Some e)
    then have "fastgit_odb_write crypto z t d db = (Inr x, Odb (odb_hit ?c) [])"
      using h by (simp add: fastgit_odb_write_def b Let_def)
    then show ?thesis
      using Some x c0 by (auto simp: pars b readable_def odb_hit_def core_ok_def)
  next
    case None
    obtain c' where c': "write_disk z x t d (obj_text t d) ?c = Inr c'" "core_ok crypto z mem U c'" "readable z mem c' x"
      "\<forall>y. readable z mem ?c y \<longrightarrow> readable z mem c' y"
      using write_disk_ok[OF par(2) U x(2) n c] by blast
    have "fastgit_odb_write crypto z t d db = (Inr x, Odb c' [])"
      using h None c'(1) serialize_storable(1)[OF s] by (simp add: fastgit_odb_write_def b Let_def)
    moreover have "readable z mem ?c y \<longleftrightarrow> readable z mem c0 y" for y by (simp add: readable_def)
    ultimately show ?thesis using x c' by (auto simp: pars b)
  qed
qed

definition odb_put :: "evp option \<Rightarrow> zlib \<Rightarrow> odb \<Rightarrow> obj_type \<times> bytes \<Rightarrow> oid res \<times> odb" where
  "odb_put crypto z db p = fastgit_odb_write crypto z (fst p) (snd p) db"

text \<open>The database provides the interface.\<close>

interpretation odbs: object_store "odb_put crypto z" "odb_get z mem" "odb_ok crypto z mem U" "\<lambda>p. p \<in> U" sha_key
proof
  fix s :: odb and v :: "obj_type \<times> bytes"
  assume s: "odb_ok crypto z mem U s" and v: "v \<in> U"
  obtain t d where td: "v = (t, d)" by fastforce
  from odb_write_ok[OF s, of t d] v td obtain x s' where
    w: "fastgit_odb_write crypto z t d s = (Inr x, s')" "sha_key x" "obj_name crypto v = Inr x"
      "odb_ok crypto z mem U s'" "readable z mem (odb_head s') x"
      "\<forall>y. readable z mem (odb_head s) y \<longrightarrow> readable z mem (odb_head s') y"
    by auto
  have n: "named crypto U x v" using w(3) v by (simp add: named_def)
  show "\<exists>k s'. odb_put crypto z s v = (Inr k, s') \<and> odb_ok crypto z mem U s' \<and> sha_key k \<and> fst (odb_get z mem s' k) = Inr v"
    using w get_of_readable[OF w(4,2,5) n] by (auto simp: odb_put_def td)
  fix r s'' y w'
  assume p: "odb_put crypto z s v = (r, s'')" and y: "sha_key y" "fst (odb_get z mem s y) = Inr w'"
  have s'': "s'' = s'" using p w(1) by (simp add: odb_put_def td)
  obtain g s1 where g: "odb_get z mem s y = (g, s1)" by fastforce
  then have "readable z mem (odb_head s) y" "named crypto U y w'"
    using odb_get_ok[OF s y(1) g] y(2) by fastforce+
  then show "fst (odb_get z mem s'' y) = Inr w'"
    unfolding s'' using w(4,6) y(1) by (auto intro: get_of_readable)
next
  fix s s' :: odb and x g
  assume s: "odb_ok crypto z mem U s" and x: "sha_key x" and g: "odb_get z mem s x = (g, s')"
  note ok = odb_get_ok[OF s x g]
  have "fst (odb_get z mem s' y) = Inr w" if y: "sha_key y" "fst (odb_get z mem s y) = Inr w" for y w
  proof -
    obtain h s1 where h: "odb_get z mem s y = (h, s1)" by fastforce
    then have "readable z mem (odb_head s) y" "named crypto U y w"
      using odb_get_ok[OF s y(1) h] y(2) by fastforce+
    then show ?thesis using ok y(1) by (auto intro: get_of_readable)
  qed
  then show "odb_ok crypto z mem U s' \<and>
      (\<forall>y w. sha_key y \<and> fst (odb_get z mem s y) = Inr w \<longrightarrow> fst (odb_get z mem s' y) = Inr w)"
    using ok by blast
qed


section \<open>A database on an empty directory\<close>

definition empty_disk :: disk where
  "empty_disk = \<lparr>d_loose = [], d_packs = [], d_midx = None\<rparr>"

lemma empty_ok:
  assumes "sha256_ok crypto" "zlib_fast_ok z" "universe crypto mem U"
  shows "odb_ok crypto z mem U (fastgit_odb_open empty_disk)"
  using assms ex_bool_eq[of Not]
  by (simp add: odb_ok_def fastgit_odb_open_def fastgit_odb_new_def core_ok_def cache_ok_def packs_ok_def
      empty_disk_def midx_probe_def fastgit_midx_open_def)

lemma first_write:
  assumes par: "sha256_ok crypto" "zlib_fast_ok z" "universe crypto mem U" and p: "(t, d) \<in> U"
  shows "\<exists>x zd db. fastgit_odb_write crypto z t d (fastgit_odb_open empty_disk) = (Inr x, db) \<and>
    odb_ok crypto z mem U db \<and> obj_name crypto (t, d) = Inr x \<and> sha_key x \<and> length (oid_hash x) = 32 \<and>
    oc_disk (odb_head db) = empty_disk\<lparr>d_loose := [(odb_object_path x, zd)]\<rparr> \<and>
    oc_default_hash_algo (odb_head db) = HASH_SHA256 \<and>
    (\<exists>e. cache_find (oc_cache (odb_head db)) x [0..<8] = Some e \<and> ce_type e = t \<and> ce_data e = d)"
proof -
  have db: "odb_ok crypto z mem U (fastgit_odb_open empty_disk)" by (rule empty_ok[OF par])
  obtain x db1 where w: "fastgit_odb_write crypto z t d (fastgit_odb_open empty_disk) = (Inr x, db1)" "sha_key x"
    "obj_name crypto (t, d) = Inr x" "odb_ok crypto z mem U db1"
    using odb_write_ok[OF db p] by blast
  have s: "storable mem (t, d)" using par(3) p by (simp add: universe_def)
  have l: "length (oid_hash x) = 32" using obj_name_ok[OF par(1) s] w(3) by auto
  obtain zd where zd: "z_deflate_fast z (obj_text t d) = Some zd" using par(2) unfolding zlib_fast_ok_def by blast
  have h: "fastgit_object_hash crypto (fastgit_object_parse t d) HASH_SHA256 = Inr x"
    using w(3) by (simp add: obj_name_def)
  have "cache_find Map.empty x [0..<8] = None" by (simp add: upt_conv_Cons)
  then have "\<exists>c. db1 = Odb (core_cache True x t d c) [] \<and> oc_cache c = Map.empty \<and>
      oc_disk c = empty_disk\<lparr>d_loose := [(odb_object_path x, zd)]\<rparr> \<and> oc_default_hash_algo c = HASH_SHA256"
    using w(1) h zd serialize_storable(1)[OF s]
    by (auto simp: fastgit_odb_write_def fastgit_odb_open_def fastgit_odb_new_def Let_def write_disk_def
        odb_compress_def empty_disk_def)
  then obtain c where c: "db1 = Odb (core_cache True x t d c) []" "oc_cache c = Map.empty"
      "oc_disk c = empty_disk\<lparr>d_loose := [(odb_object_path x, zd)]\<rparr>" "oc_default_hash_algo c = HASH_SHA256"
    by blast
  have "\<exists>e. cache_find (oc_cache (odb_head db1)) x [0..<8] = Some e \<and> ce_type e = t \<and> ce_data e = d"
    by (simp add: c core_cache_eq upt_conv_Cons)
  then show ?thesis using w l c by auto
qed

lemma path_names: "sha_key x \<Longrightarrow> length (oid_hash x) = 32 \<Longrightarrow> is_oid_name (odb_object_path x) = Some x"
  by (cases x) (auto simp: is_oid_name_def odb_object_path_def fastgit_oid_from_hex_def infer_algo_def sha_key_def)

section \<open>Properties\<close>

text \<open>
  C1. What is written can be read. In a database in order, writing an object of the universe
  succeeds and gives its name; from then on that name reads as exactly this object, every name
  that could be read before still reads as the same object, and the database is in order. This
  covers the cache, existing loose files and new ones (header, compression, growing buffers).
\<close>

theorem odb_write_read:
  assumes "odb_ok crypto z mem U db" "(t, d) \<in> U"
  shows "\<exists>x db'. fastgit_odb_write crypto z t d db = (Inr x, db') \<and> odb_ok crypto z mem U db' \<and>
    fst (odb_get z mem db' x) = Inr (t, d) \<and>
    (\<forall>y p. sha_key y \<and> fst (odb_get z mem db y) = Inr p \<longrightarrow> fst (odb_get z mem db' y) = Inr p)"
proof -
  obtain x db' where "odb_put crypto z db (t, d) = (Inr x, db')" "odb_ok crypto z mem U db'"
    "odbs.holds z mem db' x (t, d)" "odbs.extends z mem db db'"
    by (rule odbs.put_ok[OF assms])
  then show ?thesis
    unfolding odbs.holds_def odbs.extends_def odb_put_def fst_conv snd_conv by blast
qed

text \<open>A compressor for the witnesses: every byte is preceded by a 1, a 0 ends the stream.\<close>

fun stuff :: "bytes \<Rightarrow> bytes" where
  "stuff [] = [0]"
| "stuff (b # bs) = 1 # b # stuff bs"

fun unstuff :: "bytes \<Rightarrow> (bytes \<times> nat) option" where
  "unstuff (a # s) =
     (if a = 0 then Some ([], 1)
      else (case s of [] \<Rightarrow> None
        | b # r \<Rightarrow> (case unstuff r of None \<Rightarrow> None | Some (d, n) \<Rightarrow> Some (b # d, n + 2))))"
| "unstuff [] = None"

definition stuff_zlib :: zlib where
  "stuff_zlib = \<lparr>z_deflate = (\<lambda>d. Some (stuff d)), z_deflate_fast = (\<lambda>d. Some (stuff d)),
     z_inflate = unstuff, z_crc32 = (\<lambda>_. 0)\<rparr>"

lemma unstuff_stuff: "unstuff (stuff d @ r) = Some (d, length (stuff d))"
  by (induction d) auto

lemma length_stuff: "length (stuff d) = 2 * length d + 1"
  by (induction d) auto

lemma stuff_zlib_ok: "zlib_fast_ok stuff_zlib"
  using unstuff_stuff[where r = "[]"] by (simp add: zlib_fast_ok_def stuff_zlib_def length_stuff)

lemma small_universe: "universe None 10000 {(BLOB, [1, 2])}"
  by (simp add: universe_def storable_def base_type_def)

theorem odb_write_read_witness:
  "\<exists>x db. fastgit_odb_write None stuff_zlib BLOB [1, 2] (fastgit_odb_open empty_disk) = (Inr x, db) \<and>
     fst (odb_get stuff_zlib 10000 db x) = Inr (BLOB, [1, 2])"
  using odb_write_read[OF empty_ok[OF sha256_ok_portable stuff_zlib_ok small_universe], of BLOB "[1, 2]"] by blast



text \<open>
  Deleting does not reach the cache. After an object is written and deleted again its file is
  gone and \<open>fastgit_odb_exists\<close> answers no, but the same handle still reads it, and writing it
  again reports success without creating a file: the object is lost once the handle is closed.
\<close>

theorem odb_delete_keeps_cache:
  assumes "sha256_ok crypto" "zlib_fast_ok z" "universe crypto mem U" "(t, d) \<in> U"
  shows "\<exists>x db1 db2 db3. fastgit_odb_write crypto z t d (fastgit_odb_open empty_disk) = (Inr x, db1) \<and>
    fastgit_odb_delete x db1 = (Inr (), db2) \<and> fastgit_odb_exists x db2 = Inr False \<and>
    fst (odb_get z mem db2 x) = Inr (t, d) \<and>
    fastgit_odb_write crypto z t d db2 = (Inr x, db3) \<and> d_loose (oc_disk (odb_head db3)) = []"
proof -
  obtain x zd db1 e where w: "fastgit_odb_write crypto z t d (fastgit_odb_open empty_disk) = (Inr x, db1)"
    "odb_ok crypto z mem U db1" "obj_name crypto (t, d) = Inr x"
    "oc_disk (odb_head db1) = empty_disk\<lparr>d_loose := [(odb_object_path x, zd)]\<rparr>"
    "oc_default_hash_algo (odb_head db1) = HASH_SHA256"
    "cache_find (oc_cache (odb_head db1)) x [0..<8] = Some e" "ce_type e = t" "ce_data e = d"
    using first_write[OF assms] by blast
  obtain c where db1: "db1 = Odb c []" using w(2) by (cases db1) (auto simp: odb_ok_def)
  let ?c2 = "c\<lparr>oc_disk := empty_disk\<rparr>"
  have del: "fastgit_odb_delete x db1 = (Inr (), Odb ?c2 [])"
    using w(4) by (simp add: fastgit_odb_delete_def db1 Let_def empty_disk_def)
  have ex: "fastgit_odb_exists x (Odb ?c2 []) = Inr False"
    by (simp add: empty_disk_def midx_probe_def fastgit_midx_open_def)
  have "storable mem (t, d)" using assms(3,4) by (simp add: universe_def)
  then have "length d \<le> mem" by (simp add: storable_def)
  then have rd: "fst (odb_get z mem (Odb ?c2 []) x) = Inr (t, d)"
    using w(6-8) by (simp add: odb_get_def db1 content_def)
  have wr: "fastgit_odb_write crypto z t d (Odb ?c2 []) = (Inr x, Odb (odb_hit (?c2\<lparr>oc_writes := oc_writes ?c2 + 1\<rparr>)) [])"
    using w(3,5,6) by (simp add: fastgit_odb_write_def db1 Let_def obj_name_def)
  show ?thesis using w(1) del ex rd wr by (auto simp: odb_hit_def empty_disk_def)
qed

theorem odb_delete_keeps_cache_witness:
  "\<exists>x db1 db2. fastgit_odb_write None stuff_zlib BLOB [1, 2] (fastgit_odb_open empty_disk) = (Inr x, db1) \<and>
    fastgit_odb_delete x db1 = (Inr (), db2) \<and> fst (odb_get stuff_zlib 10000 db2 x) = Inr (BLOB, [1, 2])"
  using odb_delete_keeps_cache[OF sha256_ok_portable stuff_zlib_ok small_universe, of BLOB "[1, 2]"] by blast

text \<open>
  Garbage collection is undefined as soon as there is something to collect: after one object is
  written to an empty database, \<open>fastgit_odb_gc\<close> (hence \<open>fastgit_odb_pack\<close> of all loose objects)
  reads it into memory of the size of a pointer.
\<close>

theorem odb_gc_undefined:
  assumes "sha256_ok crypto" "zlib_fast_ok z" "universe crypto mem U" "(t, d) \<in> U"
    and "fastgit_odb_write crypto z t d (fastgit_odb_open empty_disk) = (r, db)"
  shows "fastgit_odb_gc crypto z mem db = Inl Undefined"
proof -
  obtain x zd e where w: "odb_ok crypto z mem U db" "sha_key x" "length (oid_hash x) = 32"
    "oc_disk (odb_head db) = empty_disk\<lparr>d_loose := [(odb_object_path x, zd)]\<rparr>"
    "cache_find (oc_cache (odb_head db)) x [0..<8] = Some e" "ce_type e = t" "ce_data e = d"
    using first_write[OF assms(1-4)] assms(5) by auto
  obtain c where db: "db = Odb c []" using w(1) by (cases db) (auto simp: odb_ok_def)
  have "storable mem (t, d)" using assms(3,4) by (simp add: universe_def)
  then have m: "length d \<le> mem" by (simp add: storable_def)
  have it: "fastgit_odb_iterator_new db = [x]"
    using w(4) path_names[OF w(2,3)] by (simp add: fastgit_odb_iterator_new_def List.map_filter_def)
  show ?thesis
    using w(5-7) m by (simp add: fastgit_odb_gc_def fastgit_odb_pack_def it[unfolded db] db Let_def)
qed

theorem odb_gc_undefined_witness:
  "fastgit_odb_gc None stuff_zlib 10000
     (snd (fastgit_odb_write None stuff_zlib BLOB [1, 2] (fastgit_odb_open empty_disk))) = Inl Undefined"
  by (rule odb_gc_undefined[OF sha256_ok_portable stuff_zlib_ok small_universe, of BLOB "[1, 2]"])
    (simp_all add: prod_eq_iff)

end
