(* ===== verification/HTable.thy ===== *)
theory HTable
  imports ObjectIO
begin

unbundle bit_operations_syntax

text \<open>
  The hash table inside the index (\<^verbatim>\<open>src/index/index.c\<close>): open addressing over (path, stage) with
  FNV-1a, linear probing, tombstones, and slots that point into the array of entries. A slot that
  points past the last entry makes a lookup read a dead array cell, whose path may have been freed:
  that is \<open>Undefined\<close>.
\<close>

section \<open>Entries and the index structure\<close>

record index_entry =
  ie_oid :: oid
  ie_path :: bytes
  ie_mode :: u32
  ie_stage :: u32
  ie_ctime_sec :: u32
  ie_ctime_nsec :: u32
  ie_mtime_sec :: u32
  ie_mtime_nsec :: u32
  ie_dev :: u32
  ie_ino :: u32
  ie_uid :: u32
  ie_gid :: u32
  ie_size :: u32
  ie_flags :: u16
  ie_flags_extended :: u16

datatype slot = Empty_slot | Tomb_slot | At nat

record index =
  ix_path :: "bytes option"
  ix_entries :: "index_entry list"
  ix_dirty :: bool
  ix_sorted :: bool
  ix_oid_algo :: byte
  ix_oid_len :: nat
  ix_checksum :: "hash_t option"
  ix_mtime :: nat
  ix_ht :: "slot list"

abbreviation ix_count :: "index \<Rightarrow> nat" where
  "ix_count ix \<equiv> length (ix_entries ix)"

text \<open>An entry is identified by its path and its stage.\<close>

type_synonym ie_key = "bytes \<times> u32"

definition ie_key :: "index_entry \<Rightarrow> ie_key" where
  "ie_key e = (ie_path e, ie_stage e)"

section \<open>Hashing and probing\<close>

definition fg_hash_path_stage :: "bytes \<Rightarrow> u32 \<Rightarrow> u64" where
  "fg_hash_path_stage path stage =
     (let h1 = foldl (\<lambda>h b. (h XOR ucast b) * 1099511628211) 14695981039346656037 path;
          h2 = (h1 XOR ucast stage) * 1099511628211
      in (h2 XOR drop_bit 33 h2) * 0xff51afd7ed558ccd)"

text \<open>The size of the table is a power of two, the mask is one less.\<close>

definition ht_start :: "slot list \<Rightarrow> ie_key \<Rightarrow> nat" where
  "ht_start ht k = unat (fg_hash_path_stage (fst k) (snd k)) AND (length ht - 1)"

definition ht_next :: "slot list \<Rightarrow> nat \<Rightarrow> nat" where
  "ht_next ht q = (q + 1) AND (length ht - 1)"

text \<open>\<open>eq v\<close> compares the wanted key with entry \<open>v\<close>; the result is the position and its entry.\<close>

primrec ht_seek :: "nat \<Rightarrow> slot list \<Rightarrow> (nat \<Rightarrow> bool option) \<Rightarrow> nat \<Rightarrow> (nat \<times> nat) option res" where
  "ht_seek 0 ht eq q = Inr None"
| "ht_seek (Suc n) ht eq q =
     (case ht ! q of
        Empty_slot \<Rightarrow> Inr None
      | Tomb_slot \<Rightarrow> ht_seek n ht eq (ht_next ht q)
      | At v \<Rightarrow>
          (case eq v of
             None \<Rightarrow> Inl Undefined
           | Some b \<Rightarrow> if b then Inr (Some (q, v)) else ht_seek n ht eq (ht_next ht q)))"

definition same_key :: "index_entry list \<Rightarrow> ie_key \<Rightarrow> nat \<Rightarrow> bool option" where
  "same_key es k v =
     (if v < length es then Some (ie_stage (es ! v) = snd k \<and> strcmp (ie_path (es ! v)) (fst k) = 0) else None)"

definition ht_lookup :: "index_entry list \<Rightarrow> slot list \<Rightarrow> ie_key \<Rightarrow> (nat \<times> nat) option res" where
  "ht_lookup es ht k = (if ht = [] then Inr None else ht_seek (length ht) ht (same_key es k) (ht_start ht k))"

definition fg_ht_find :: "index \<Rightarrow> bytes \<Rightarrow> u32 \<Rightarrow> nat option res" where
  "fg_ht_find ix path stage =
     bindr (ht_lookup (ix_entries ix) (ix_ht ix) (path, stage)) (\<lambda>r. Inr (map_option snd r))"

section \<open>Insertion and removal\<close>

function double_to :: "nat \<Rightarrow> nat \<Rightarrow> nat" where
  "double_to cap p = (if p = 0 \<or> cap \<le> p then p else double_to cap (p * 2))"
  by pat_completeness auto
termination
  by (relation "measure (\<lambda>(cap, p). cap - p)") auto

declare double_to.simps [simp del]

definition fg_ht_init :: "nat \<Rightarrow> slot list" where
  "fg_ht_init cap = replicate (double_to cap 1024) Empty_slot"

text \<open>The first position whose slot is free in the sense of \<open>free\<close>.\<close>

primrec ht_place :: "(slot \<Rightarrow> bool) \<Rightarrow> nat \<Rightarrow> slot list \<Rightarrow> nat \<Rightarrow> nat option" where
  "ht_place free 0 ht q = None"
| "ht_place free (Suc n) ht q = (if free (ht ! q) then Some q else ht_place free n ht (ht_next ht q))"

text \<open>The loop that fills a fresh table has no bound of its own: in a full table it would not end.\<close>

definition ht_fill :: "(nat \<times> ie_key) list \<Rightarrow> slot list \<Rightarrow> slot list res" where
  "ht_fill ks ht = foldl (\<lambda>r (i, k). bindr r (\<lambda>ht.
     case ht_place (\<lambda>s. s = Empty_slot) (length ht) ht (ht_start ht k) of
       None \<Rightarrow> Inl Undefined | Some p \<Rightarrow> Inr (ht[p := At i]))) (Inr ht) ks"

definition numbered :: "index_entry list \<Rightarrow> (nat \<times> ie_key) list" where
  "numbered es = zip [0..<length es] (map ie_key es)"

definition fg_ht_rebuild :: "index_entry list \<Rightarrow> slot list res" where
  "fg_ht_rebuild es =
     (if es = [] then Inr (fg_ht_init 1024)
      else ht_fill (numbered es) (fg_ht_init (length es * 2 + 64)))"

text \<open>A second, larger rebuild (the first is already large enough).\<close>

definition ht_grow :: "index_entry list \<Rightarrow> nat \<Rightarrow> slot list res" where
  "ht_grow es entry_idx =
     ht_fill (filter (\<lambda>(i, k). i \<noteq> entry_idx) (numbered es)) (fg_ht_init (length es * 4 + 64))"

definition is_free :: "slot \<Rightarrow> bool" where
  "is_free s \<longleftrightarrow> s = Empty_slot \<or> s = Tomb_slot"

text \<open>No caller looks at the error of a table without a free slot.\<close>

definition fg_ht_insert :: "index_entry list \<Rightarrow> slot list \<Rightarrow> ie_key \<Rightarrow> nat \<Rightarrow> slot list res" where
  "fg_ht_insert es ht k entry_idx =
     bindr (if ht = [] \<or> length ht < length es * 2 + 64 then
              bindr (fg_ht_rebuild es) (\<lambda>ht1.
                if length ht1 < length es * 2 + 64 then ht_grow es entry_idx else Inr ht1)
            else Inr ht) (\<lambda>ht1.
       (case ht_place is_free (length ht1) ht1 (ht_start ht1 k) of
          None \<Rightarrow> Inr ht1 | Some p \<Rightarrow> Inr (ht1[p := At entry_idx])))"

definition fg_ht_remove :: "index_entry list \<Rightarrow> slot list \<Rightarrow> ie_key \<Rightarrow> slot list res" where
  "fg_ht_remove es ht k =
     bindr (ht_lookup es ht k) (\<lambda>r.
       (case r of None \<Rightarrow> Inr ht | Some (p, v) \<Rightarrow> Inr (ht[p := Tomb_slot])))"

section \<open>The invariant\<close>

text \<open>The positions tried for a key.\<close>

definition ht_probe :: "slot list \<Rightarrow> nat \<Rightarrow> nat \<Rightarrow> nat" where
  "ht_probe ht i q = (ht_next ht ^^ i) q"

definition ht_size :: "slot list \<Rightarrow> bool" where
  "ht_size ht \<longleftrightarrow> (\<exists>k. length ht = 2 ^ k)"

text \<open>Entry \<open>v\<close> with key \<open>k\<close> is found: its slot is met before any empty one.\<close>

definition ht_reaches :: "slot list \<Rightarrow> ie_key \<Rightarrow> nat \<Rightarrow> bool" where
  "ht_reaches ht k v \<longleftrightarrow> (\<exists>i < length ht. ht ! ht_probe ht i (ht_start ht k) = At v \<and>
     (\<forall>j < i. ht ! ht_probe ht j (ht_start ht k) \<noteq> Empty_slot))"

text \<open>
  The table holds exactly one slot for each entry number in \<open>L\<close>; the keys of those entries differ.
\<close>

definition ht_live :: "nat set \<Rightarrow> index_entry list \<Rightarrow> slot list \<Rightarrow> bool" where
  "ht_live L es ht \<longleftrightarrow> ht_size ht \<and> L \<subseteq> {..<length es} \<and> card L < length ht \<and>
     (\<forall>v \<in> L. ht_reaches ht (ie_key (es ! v)) v) \<and>
     (\<forall>p < length ht. \<forall>v. ht ! p = At v \<longrightarrow> v \<in> L) \<and>
     (\<forall>p < length ht. \<forall>r < length ht. \<forall>v. ht ! p = At v \<and> ht ! r = At v \<longrightarrow> p = r) \<and>
     inj_on (\<lambda>v. ie_key (es ! v)) L \<and> (\<forall>v \<in> L. nul_free (ie_path (es ! v)))"

definition ht_ok :: "index_entry list \<Rightarrow> slot list \<Rightarrow> bool" where
  "ht_ok es ht \<longleftrightarrow> ht_live {..<length es} es ht"

section \<open>Probing\<close>

lemma and_size: "ht_size ht \<Longrightarrow> n AND (length ht - 1) = n mod length ht"
proof -
  assume "ht_size ht"
  then obtain k where "length ht = 2 ^ k" by (auto simp: ht_size_def)
  then show ?thesis by (simp add: take_bit_eq_mod[symmetric] take_bit_eq_mask mask_eq_exp_minus_1)
qed

lemma ht_next_mod: "ht_size ht \<Longrightarrow> ht_next ht p = (p + 1) mod length ht"
  unfolding ht_next_def by (rule and_size)

lemma size_pos: "ht_size ht \<Longrightarrow> 0 < length ht"
  by (auto simp: ht_size_def)

lemma ht_start_less: "ht_size ht \<Longrightarrow> ht_start ht k < length ht"
  using size_pos unfolding ht_start_def by (simp only: and_size mod_less_divisor)

lemma ht_probe_mod: "ht_size ht \<Longrightarrow> p < length ht \<Longrightarrow> ht_probe ht i p = (p + i) mod length ht"
  by (induction i) (simp_all add: ht_probe_def ht_next_mod mod_Suc_eq)

lemma ht_probe_less: "ht_size ht \<Longrightarrow> p < length ht \<Longrightarrow> ht_probe ht i p < length ht"
  using size_pos by (simp add: ht_probe_mod)

lemma ht_probe_0 [simp]: "ht_probe ht 0 p = p"
  by (simp add: ht_probe_def)

lemma ht_probe_Suc: "ht_probe ht (Suc i) p = ht_probe ht i (ht_next ht p)"
  by (simp add: ht_probe_def funpow_swap1)

lemma ht_next_less: "ht_size ht \<Longrightarrow> ht_next ht p < length ht"
  using size_pos by (simp add: ht_next_mod)

lemma ht_probe_onto:
  assumes "ht_size ht" "p < length ht" "r < length ht"
  shows "\<exists>i < length ht. ht_probe ht i p = r"
proof -
  have "(p + (r + length ht - p) mod length ht) mod length ht = r"
    using assms(2,3) by (simp add: mod_add_right_eq)
  then show ?thesis
    using assms size_pos[OF assms(1)] by (intro exI[of _ "(r + length ht - p) mod length ht"]) (simp add: ht_probe_mod)
qed

text \<open>Only the size of the table matters for the positions.\<close>

lemma ht_size_update [simp]: "ht_size (ht[p := s]) = ht_size ht"
  by (simp add: ht_size_def)

lemma ht_probe_update [simp]: "ht_probe (ht[p := s]) = ht_probe ht"
proof -
  have "ht_next (ht[p := s]) = ht_next ht" by (rule ext) (simp add: ht_next_def)
  then show ?thesis by (intro ext) (simp add: ht_probe_def)
qed

lemma ht_start_update [simp]: "ht_start (ht[p := s]) = ht_start ht"
  by (rule ext) (simp add: ht_start_def)

lemma seek_found:
  assumes "ht_size ht"
  shows "p < length ht \<Longrightarrow> i < n \<Longrightarrow> ht ! ht_probe ht i p = At v \<Longrightarrow> eq v = Some True \<Longrightarrow>
    \<forall>j < i. ht ! ht_probe ht j p \<noteq> Empty_slot \<Longrightarrow>
    \<forall>r < length ht. \<forall>u. ht ! r = At u \<longrightarrow> eq u = Some (u = v) \<Longrightarrow>
    \<exists>r < length ht. ht_seek n ht eq p = Inr (Some (r, v)) \<and> ht ! r = At v"
proof (induction n arbitrary: p i)
  case (Suc n)
  show ?case
  proof (cases i)
    case 0
    then show ?thesis using Suc.prems by auto
  next
    case (Suc k)
    then have ne: "ht ! p \<noteq> Empty_slot" using Suc.prems(5) by (metis ht_probe_0 zero_less_Suc)
    have IH: "\<exists>r < length ht. ht_seek n ht eq (ht_next ht p) = Inr (Some (r, v)) \<and> ht ! r = At v"
    proof (rule Suc.IH)
      show "ht_next ht p < length ht" by (rule ht_next_less[OF assms])
      show "k < n" using Suc Suc.prems(2) by simp
      show "ht ! ht_probe ht k (ht_next ht p) = At v" using Suc Suc.prems(3) by (simp add: ht_probe_Suc)
      show "\<forall>j<k. ht ! ht_probe ht j (ht_next ht p) \<noteq> Empty_slot"
        using Suc Suc.prems(5) by (auto simp: ht_probe_Suc[symmetric])
    qed (use Suc.prems in auto)
    then show ?thesis using ne Suc.prems(1,6) by (cases "ht ! p") auto
  qed
qed simp

lemma seek_none:
  assumes "ht_size ht" "\<forall>r < length ht. \<forall>u. ht ! r = At u \<longrightarrow> eq u = Some False"
  shows "p < length ht \<Longrightarrow> ht_seek n ht eq p = Inr None"
proof (induction n arbitrary: p)
  case (Suc n)
  then show ?case using ht_next_less[OF assms(1)] assms(2) by (cases "ht ! p") auto
qed simp

lemma place_SomeD:
  "ht_place free n ht p = Some r \<Longrightarrow>
   \<exists>i < n. r = ht_probe ht i p \<and> free (ht ! r) \<and> (\<forall>j < i. \<not> free (ht ! ht_probe ht j p))"
proof (induction n arbitrary: p)
  case (Suc n)
  show ?case
  proof (cases "free (ht ! p)")
    case False
    with Suc obtain i where i: "i < n" "r = ht_probe ht i (ht_next ht p)" "free (ht ! r)"
      "\<forall>j < i. \<not> free (ht ! ht_probe ht j (ht_next ht p))" by auto
    have "\<not> free (ht ! ht_probe ht j p)" if "j < Suc i" for j
      using that i(4) False by (cases j) (auto simp: ht_probe_Suc)
    then show ?thesis using i by (intro exI[of _ "Suc i"]) (auto simp: ht_probe_Suc)
  qed (use Suc.prems in auto)
qed simp

lemma place_None: "ht_place free n ht p = None \<Longrightarrow> i < n \<Longrightarrow> \<not> free (ht ! ht_probe ht i p)"
proof (induction n arbitrary: p i)
  case (Suc n)
  then show ?case by (cases i) (auto simp: ht_probe_Suc split: if_splits)
qed simp

section \<open>Lookup, removal and insertion on a table\<close>

lemma ht_liveD:
  assumes "ht_live L es ht"
  shows "ht_size ht" "L \<subseteq> {..<length es}" "card L < length ht"
    "v \<in> L \<Longrightarrow> ht_reaches ht (ie_key (es ! v)) v"
    "p < length ht \<Longrightarrow> ht ! p = At v \<Longrightarrow> v \<in> L"
    "p < length ht \<Longrightarrow> r < length ht \<Longrightarrow> ht ! p = At v \<Longrightarrow> ht ! r = At v \<Longrightarrow> p = r"
    "inj_on (\<lambda>v. ie_key (es ! v)) L" "v \<in> L \<Longrightarrow> nul_free (ie_path (es ! v))"
  using assms unfolding ht_live_def by blast+

lemma same_key_iff:
  assumes "v < length es" "nul_free (ie_path (es ! v))" "nul_free (fst k)"
  shows "same_key es k v = Some (ie_key (es ! v) = k)"
  using assms strcmp_eq_0[OF assms(2,3)] by (cases k) (auto simp: same_key_def ie_key_def)

lemma live_eq:
  assumes "ht_live L es ht" "nul_free (fst k)" "p < length ht" "ht ! p = At u"
  shows "same_key es k u = Some (ie_key (es ! u) = k)"
  using ht_liveD[OF assms(1)] assms(2-) by (intro same_key_iff) auto

lemma lookup_found:
  assumes t: "ht_live L es ht" and v: "v \<in> L" "ie_key (es ! v) = k"
  shows "\<exists>p < length ht. ht_lookup es ht k = Inr (Some (p, v)) \<and> ht ! p = At v"
proof -
  note l = ht_liveD[OF t]
  have nk: "nul_free (fst k)" using l(8)[OF v(1)] v(2) by (auto simp: ie_key_def)
  have st: "ht_start ht k < length ht" by (rule ht_start_less[OF l(1)])
  obtain i where i: "i < length ht" "ht ! ht_probe ht i (ht_start ht k) = At v"
      "\<forall>j < i. ht ! ht_probe ht j (ht_start ht k) \<noteq> Empty_slot"
    using l(4)[OF v(1)] v(2) by (auto simp: ht_reaches_def)
  have eq: "same_key es k u = Some (u = v)" if "r < length ht" "ht ! r = At u" for r u
    using live_eq[OF t nk that] l(5)[OF that] l(7) v by (auto simp: inj_on_def)
  have "\<exists>r < length ht. ht_seek (length ht) ht (same_key es k) (ht_start ht k) = Inr (Some (r, v)) \<and> ht ! r = At v"
  proof (rule seek_found[OF l(1) st i(1,2) _ i(3)])
    have "ht_probe ht i (ht_start ht k) < length ht" by (rule ht_probe_less[OF l(1) st])
    then show "same_key es k v = Some True" using eq i(2) by simp
  qed (use eq in blast)
  then show ?thesis using size_pos[OF l(1)] by (auto simp: ht_lookup_def)
qed

lemma lookup_none:
  assumes t: "ht_live L es ht" and k: "nul_free (fst k)" "\<forall>v \<in> L. ie_key (es ! v) \<noteq> k"
  shows "ht_lookup es ht k = Inr None"
proof -
  note l = ht_liveD[OF t]
  have "same_key es k u = Some False" if "r < length ht" "ht ! r = At u" for r u
    using live_eq[OF t k(1) that] l(5)[OF that] k(2) by simp
  then have "ht_seek (length ht) ht (same_key es k) (ht_start ht k) = Inr None"
    by (intro seek_none[OF l(1) _ ht_start_less[OF l(1)]]) blast
  then show ?thesis by (simp add: ht_lookup_def)
qed

lemma reaches_update:
  assumes "ht_reaches ht k v" "p < length ht" "ht ! p \<noteq> At v" "s \<noteq> Empty_slot"
  shows "ht_reaches (ht[p := s]) k v"
proof -
  obtain i where i: "i < length ht" "ht ! ht_probe ht i (ht_start ht k) = At v"
    "\<forall>j < i. ht ! ht_probe ht j (ht_start ht k) \<noteq> Empty_slot"
    using assms(1) by (auto simp: ht_reaches_def)
  have "ht[p := s] ! r \<noteq> Empty_slot" if "ht ! r \<noteq> Empty_slot" for r
    using that assms(2,4) by (cases "r = p") auto
  moreover have "ht[p := s] ! ht_probe ht i (ht_start ht k) = At v"
    using i(2) assms(3) by (cases "ht_probe ht i (ht_start ht k) = p") auto
  ultimately show ?thesis unfolding ht_reaches_def using i by auto
qed

lemma remove_live:
  assumes t: "ht_live L es ht" and v: "v \<in> L" "ie_key (es ! v) = k"
  shows "\<exists>ht'. fg_ht_remove es ht k = Inr ht' \<and> ht_live (L - {v}) es ht' \<and> length ht' = length ht"
proof -
  note l = ht_liveD[OF t]
  obtain p where p: "p < length ht" "ht_lookup es ht k = Inr (Some (p, v))" "ht ! p = At v"
    using lookup_found[OF t v] by blast
  let ?h = "ht[p := Tomb_slot]"
  have at: "?h ! r = At u \<Longrightarrow> r < length ht \<Longrightarrow> ht ! r = At u \<and> r \<noteq> p" for r u
    by (cases "r = p") auto
  have "ht_live (L - {v}) es ?h"
    unfolding ht_live_def
  proof (intro conjI allI ballI impI)
    show "card (L - {v}) < length ?h" using l(3) card_Diff1_le[of L v] by simp
    show "ht_reaches ?h (ie_key (es ! u)) u" if "u \<in> L - {v}" for u
      using that p l(4)[of u] by (intro reaches_update) auto
    show "u \<in> L - {v}" if "r < length ?h" "?h ! r = At u" for r u
      using at[OF that(2)] that(1) l(5)[of r u] l(6)[of r p v] p by auto
    show "r = r'" if "r < length ?h" "r' < length ?h" "?h ! r = At u \<and> ?h ! r' = At u" for r r' u
      using at[of r u] at[of r' u] that l(6)[of r r' u] by simp
    show "inj_on (\<lambda>v. ie_key (es ! v)) (L - {v})" using l(7) by (auto simp: inj_on_def)
  qed (use l in auto)
  then show ?thesis using p by (simp add: fg_ht_remove_def)
qed

text \<open>Fewer live entries than slots: some slot is not in use.\<close>

lemma free_slot:
  assumes t: "ht_live L es ht"
  shows "\<exists>p < length ht. \<forall>v. ht ! p \<noteq> At v"
proof (rule ccontr)
  assume "\<not> ?thesis"
  then obtain f where f: "\<forall>p < length ht. ht ! p = At (f p)" by metis
  note l = ht_liveD[OF t]
  have fin: "finite L" using l(2) finite_subset by auto
  have "f ` {..<length ht} \<subseteq> L" using f l(5) by auto
  moreover have "inj_on f {..<length ht}" unfolding inj_on_def using f l(6) by (metis lessThan_iff)
  ultimately have "card {..<length ht} \<le> card L" using fin by (metis card_image card_mono)
  then show False using l(3) by simp
qed

lemma put_live:
  assumes t: "ht_live L es ht" and v: "v \<notin> L" "v < length es" "nul_free (ie_path (es ! v))"
    and k: "ie_key (es ! v) = k" "\<forall>u \<in> L. ie_key (es ! u) \<noteq> k" and c: "card L + 1 < length ht"
    and p: "i < length ht" "p = ht_probe ht i (ht_start ht k)" "\<forall>u. ht ! p \<noteq> At u"
      "\<forall>j < i. ht ! ht_probe ht j (ht_start ht k) \<noteq> Empty_slot"
  shows "ht_live (insert v L) es (ht[p := At v])"
proof -
  note l = ht_liveD[OF t]
  let ?h = "ht[p := At v]"
  have pl: "p < length ht" unfolding p(2) by (rule ht_probe_less[OF l(1) ht_start_less[OF l(1)]])
  have at: "r < length ht \<Longrightarrow> ?h ! r = At u \<Longrightarrow> r = p \<and> u = v \<or> r \<noteq> p \<and> ht ! r = At u" for r u
    by (cases "r = p") auto
  have fin: "finite L" using l(2) finite_subset by auto
  have new: "ht_reaches ?h k v"
    unfolding ht_reaches_def
  proof (intro exI conjI allI impI)
    show "i < length ?h" using p(1) by simp
    show "?h ! ht_probe ?h i (ht_start ?h k) = At v" using pl by (simp add: p(2))
    show "?h ! ht_probe ?h j (ht_start ?h k) \<noteq> Empty_slot" if "j < i" for j
      using p(4) that pl by (cases "ht_probe ht j (ht_start ht k) = p") auto
  qed
  show ?thesis
    unfolding ht_live_def
  proof (intro conjI allI ballI impI)
    show "insert v L \<subseteq> {..<length es}" using l(2) v(2) by simp
    show "card (insert v L) < length ?h" using c v(1) fin by simp
    show "ht_reaches ?h (ie_key (es ! u)) u" if "u \<in> insert v L" for u
    proof (cases "u = v")
      case True
      then show ?thesis using new k(1) by simp
    next
      case False
      then show ?thesis using that l(4) p(3) pl by (intro reaches_update) auto
    qed
    show "u \<in> insert v L" if "r < length ?h" "?h ! r = At u" for r u
      using at[of r u] that l(5)[of r u] by auto
    show "r = r'" if "r < length ?h" "r' < length ?h" "?h ! r = At u \<and> ?h ! r' = At u" for r r' u
      using at[of r u] at[of r' u] that l(5)[of r u] l(5)[of r' u] l(6)[of r r' u] v(1) by auto
    show "inj_on (\<lambda>v. ie_key (es ! v)) (insert v L)" using l(7) k v(1) by (auto simp: inj_on_def)
  qed (use l v in auto)
qed

lemma place_live:
  assumes t: "ht_live L es ht" and v: "v \<notin> L" "v < length es" "nul_free (ie_path (es ! v))"
    and k: "ie_key (es ! v) = k" "\<forall>u \<in> L. ie_key (es ! u) \<noteq> k" and c: "card L + 1 < length ht"
    and fr: "\<And>s. free s \<Longrightarrow> \<forall>u. s \<noteq> At u" "\<And>s. \<not> free s \<Longrightarrow> s \<noteq> Empty_slot"
    and ex: "\<exists>p < length ht. free (ht ! p)"
  shows "\<exists>p < length ht. ht_place free (length ht) ht (ht_start ht k) = Some p \<and> ht_live (insert v L) es (ht[p := At v])"
proof -
  note l = ht_liveD[OF t]
  have st: "ht_start ht k < length ht" by (rule ht_start_less[OF l(1)])
  obtain p where p: "ht_place free (length ht) ht (ht_start ht k) = Some p"
  proof (cases "ht_place free (length ht) ht (ht_start ht k)")
    case None
    obtain r where r: "r < length ht" "free (ht ! r)" using ex by blast
    obtain i where "i < length ht" "ht_probe ht i (ht_start ht k) = r"
      using ht_probe_onto[OF l(1) st r(1)] by blast
    then show ?thesis using place_None[OF None, of i] r(2) by simp
  qed (use that in blast)
  from place_SomeD[OF p] obtain i where i: "i < length ht" "p = ht_probe ht i (ht_start ht k)" "free (ht ! p)"
    "\<forall>j < i. \<not> free (ht ! ht_probe ht j (ht_start ht k))" by blast
  have "ht_live (insert v L) es (ht[p := At v])"
    by (rule put_live[OF t v k c i(1,2)]) (use i(3,4) fr in auto)
  moreover have "p < length ht" unfolding i(2) by (rule ht_probe_less[OF l(1) st])
  ultimately show ?thesis using p by blast
qed

lemma live_cong:
  assumes "ht_live L es ht" "\<forall>v \<in> L. v < length es' \<and> es' ! v = es ! v"
  shows "ht_live L es' ht"
proof -
  have "inj_on (\<lambda>v. ie_key (es' ! v)) L = inj_on (\<lambda>v. ie_key (es ! v)) L"
    using assms(2) by (intro inj_on_cong) auto
  then show ?thesis using assms unfolding ht_live_def by auto
qed

end
