(* ===== verification/Index.thy ===== *)
theory Index
  imports HTable Odb
begin

unbundle bit_operations_syntax

text \<open>
  The index of \<^verbatim>\<open>src/index/index.c\<close> and \<^verbatim>\<open>src/index/entry.c\<close> in memory: adding files and buffers
  (which also writes blobs to the object database), removing, finding, conflict entries.

  The object database of an index lives in a directory next to the index file; \<open>fs\<close> gives the content
  of such a directory by its path. A file is what open, fstat and read give: its status and the bytes
  read, or \<open>None\<close> when it cannot be opened.
\<close>

section \<open>Entries\<close>

type_synonym fs = "bytes \<Rightarrow> disk"

record file_stat =
  st_size :: nat
  st_mode :: u32
  st_ctime :: u64
  st_ctime_nsec :: u64
  st_mtime :: u64
  st_mtime_nsec :: u64
  st_dev :: u64
  st_ino :: u64
  st_uid :: u32
  st_gid :: u32

definition STAGE_NORMAL :: u32 where "STAGE_NORMAL = 0"
definition STAGE_BASE :: u32 where "STAGE_BASE = 1"
definition STAGE_OURS :: u32 where "STAGE_OURS = 2"
definition STAGE_THEIRS :: u32 where "STAGE_THEIRS = 3"

definition blank_entry :: "oid \<Rightarrow> bytes \<Rightarrow> u32 \<Rightarrow> u32 \<Rightarrow> u16 \<Rightarrow> index_entry" where
  "blank_entry x path mode stage flags =
     \<lparr>ie_oid = x, ie_path = path, ie_mode = mode, ie_stage = stage, ie_ctime_sec = 0, ie_ctime_nsec = 0,
      ie_mtime_sec = 0, ie_mtime_nsec = 0, ie_dev = 0, ie_ino = 0, ie_uid = 0, ie_gid = 0, ie_size = 0,
      ie_flags = flags, ie_flags_extended = 0\<rparr>"

definition path_flags :: "bytes \<Rightarrow> u16" where
  "path_flags path = of_nat (length path) AND 0xFFF"

definition set_stat :: "file_stat \<Rightarrow> index_entry \<Rightarrow> index_entry" where
  "set_stat st e = e\<lparr>ie_size := of_nat (st_size st),
     ie_ctime_sec := ucast (st_ctime st), ie_ctime_nsec := ucast (st_ctime_nsec st),
     ie_mtime_sec := ucast (st_mtime st), ie_mtime_nsec := ucast (st_mtime_nsec st),
     ie_dev := ucast (st_dev st), ie_ino := ucast (st_ino st), ie_uid := st_uid st, ie_gid := st_gid st\<rparr>"

definition file_mode :: "file_stat \<Rightarrow> u32" where
  "file_mode st = (if st_mode st AND 0x40 \<noteq> 0 then 0x81ED else 0x81A4)"

definition fastgit_index_entry_new :: "bytes \<Rightarrow> u32 \<Rightarrow> oid \<Rightarrow> index_entry" where
  "fastgit_index_entry_new path mode x = blank_entry x path mode STAGE_NORMAL (of_nat (length path))"

definition index_entry_cmp :: "index_entry \<Rightarrow> index_entry \<Rightarrow> int" where
  "index_entry_cmp a b =
     (let c = strcmp (ie_path a) (ie_path b)
      in if c \<noteq> 0 then c else sint (ie_stage a) - sint (ie_stage b))"

definition fastgit_index_entry_cmp :: "index_entry option \<Rightarrow> index_entry option \<Rightarrow> int" where
  "fastgit_index_entry_cmp a b =
     (case (a, b) of (Some x, Some y) \<Rightarrow> index_entry_cmp x y
      | (Some x, None) \<Rightarrow> 1 | (None, Some y) \<Rightarrow> - 1 | (None, None) \<Rightarrow> 0)"

definition fastgit_index_entry_is_conflict :: "index_entry \<Rightarrow> bool" where
  "fastgit_index_entry_is_conflict e \<longleftrightarrow> ie_stage e \<noteq> STAGE_NORMAL"

definition fastgit_index_entry_is_valid :: "index_entry \<Rightarrow> bool" where
  "fastgit_index_entry_is_valid e \<longleftrightarrow> ie_path e \<noteq> []"

text \<open>qsort with \<open>index_entry_cmp\<close> (stages are at most 3); equal keys keep their order here.\<close>

definition qsort_index :: "index_entry list \<Rightarrow> index_entry list" where
  "qsort_index es = sort_key ie_key es"

section \<open>Life cycle\<close>

definition fastgit_index_new :: index where
  "fastgit_index_new = \<lparr>ix_path = None, ix_entries = [], ix_dirty = False, ix_sorted = True,
     ix_oid_algo = HASH_SHA256, ix_oid_len = 32, ix_checksum = None, ix_mtime = 0, ix_ht = fg_ht_init 1024\<rparr>"

definition fastgit_index_clear :: "index \<Rightarrow> index res" where
  "fastgit_index_clear ix =
     bindr (fg_ht_rebuild []) (\<lambda>ht.
       Inr (ix\<lparr>ix_entries := [], ix_dirty := True, ix_sorted := True, ix_ht := ht\<rparr>))"

definition sort_index :: "index \<Rightarrow> index res" where
  "sort_index ix =
     (let es = qsort_index (ix_entries ix)
      in bindr (fg_ht_rebuild es) (\<lambda>ht. Inr (ix\<lparr>ix_entries := es, ix_sorted := True, ix_ht := ht\<rparr>)))"

section \<open>Finding\<close>

text \<open>A miss in an index that is not sorted sorts it, rebuilds the table and tries once more.\<close>

definition fastgit_index_find :: "index \<Rightarrow> bytes \<Rightarrow> u32 \<Rightarrow> (index_entry option \<times> index) res" where
  "fastgit_index_find ix path stage =
     bindr (fg_ht_find ix path stage) (\<lambda>r.
       case r of
         Some i \<Rightarrow> Inr (Some (ix_entries ix ! i), ix)
       | None \<Rightarrow>
           if \<not> ix_sorted ix \<and> 1 < ix_count ix then
             bindr (sort_index ix) (\<lambda>ix1.
             bindr (fg_ht_find ix1 path stage) (\<lambda>r1. Inr (map_option ((!) (ix_entries ix1)) r1, ix1)))
           else Inr (None, ix))"

definition fastgit_index_find_by_oid :: "index \<Rightarrow> oid \<Rightarrow> index_entry option" where
  "fastgit_index_find_by_oid ix x = List.find (\<lambda>e. oid_eq (ie_oid e) x) (ix_entries ix)"

definition fastgit_index_entry_by_index :: "index \<Rightarrow> nat \<Rightarrow> index_entry option" where
  "fastgit_index_entry_by_index ix n = (if ix_count ix \<le> n then None else Some (ix_entries ix ! n))"

section \<open>Adding\<close>

text \<open>
  Replace the entry of (path, 0) or append a new one. The slot is made before the count goes up. The
  result tells whether an entry was appended.
\<close>

definition index_store :: "index \<Rightarrow> bytes \<Rightarrow> (index_entry \<Rightarrow> index_entry) \<Rightarrow> index_entry \<Rightarrow> (index \<times> bool) res" where
  "index_store ix path upd new =
     bindr (fg_ht_find ix path STAGE_NORMAL) (\<lambda>r.
       case r of
         Some i \<Rightarrow> Inr (ix\<lparr>ix_entries := (ix_entries ix)[i := upd (ix_entries ix ! i)]\<rparr>, False)
       | None \<Rightarrow>
           bindr (fg_ht_insert (ix_entries ix) (ix_ht ix) (path, STAGE_NORMAL) (ix_count ix)) (\<lambda>ht.
             Inr (ix\<lparr>ix_entries := ix_entries ix @ [new], ix_ht := ht\<rparr>, True)))"

text \<open>The id of a blob; results other than that of the last call are not looked at.\<close>

definition blob_oid :: "evp option \<Rightarrow> bytes \<Rightarrow> oid res" where
  "blob_oid crypto data =
     (case fastgit_hash_ctx_new crypto HASH_SHA256 of
        None \<Rightarrow> Inl ENOMEM
      | Some ctx \<Rightarrow>
          (case bindr (fastgit_hash_ctx_init ctx)
                  (\<lambda>c. update_all c ((str ''blob '' @ dec (length data) @ [0]) # (if data = [] then [] else [data]))) of
             Inl e \<Rightarrow> Inl Undefined
           | Inr c \<Rightarrow> bindr (fastgit_hash_ctx_final crypto c)
               (\<lambda>h. Inr \<lparr>oid_algo = HASH_SHA256, oid_hash = h_digest h\<rparr>)))"

definition odb_path_from_index :: "index \<Rightarrow> bytes res" where
  "odb_path_from_index ix =
     (case ix_path ix of
        None \<Rightarrow> Inl EINVAL
      | Some p \<Rightarrow>
          let sl = length (str ''/index''); gitdir_len = length p - sl in
          if length p < sl \<or> drop gitdir_len p \<noteq> str ''/index'' then Inl EINVAL
          else if 4096 \<le> gitdir_len + 9 then Inl EINVAL
          else Inr (take gitdir_len p @ str ''/objects''))"

text \<open>Blobs go to a freshly opened database; its errors are ignored.\<close>

fun write_blobs :: "evp option \<Rightarrow> zlib \<Rightarrow> bytes list \<Rightarrow> odb \<Rightarrow> odb res" where
  "write_blobs crypto z [] db = Inr db"
| "write_blobs crypto z (d # ds) db =
     (case fastgit_odb_write crypto z BLOB d db of
        (r, db') \<Rightarrow> if r = Inl Undefined then Inl Undefined else write_blobs crypto z ds db')"

definition index_blobs :: "evp option \<Rightarrow> zlib \<Rightarrow> index \<Rightarrow> bytes list \<Rightarrow> fs \<Rightarrow> fs res" where
  "index_blobs crypto z ix ds fs =
     (case odb_path_from_index ix of
        Inl e \<Rightarrow> Inr fs
      | Inr p \<Rightarrow> bindr (write_blobs crypto z ds (fastgit_odb_open (fs p)))
          (\<lambda>db. Inr (fs(p := oc_disk (odb_head db)))))"

text \<open>What the three ways of adding put into an entry.\<close>

definition file_update :: "oid \<Rightarrow> bytes \<Rightarrow> file_stat \<Rightarrow> index_entry \<Rightarrow> index_entry" where
  "file_update x path st e =
     set_stat st (e\<lparr>ie_oid := x, ie_mode := file_mode st, ie_flags := path_flags path\<rparr>)"

definition file_entry :: "oid \<Rightarrow> bytes \<Rightarrow> file_stat \<Rightarrow> index_entry" where
  "file_entry x path st = set_stat st (blank_entry x path (file_mode st) STAGE_NORMAL (path_flags path))"

definition fastgit_index_add ::
    "evp option \<Rightarrow> zlib \<Rightarrow> nat \<Rightarrow> bytes \<Rightarrow> (file_stat \<times> bytes) option \<Rightarrow> index \<times> fs \<Rightarrow> (index \<times> fs) res" where
  "fastgit_index_add crypto z mem path file ixfs =
     (case ixfs of (ix, fs) \<Rightarrow>
       case file of
         None \<Rightarrow> Inl ENOENT
       | Some (st, data) \<Rightarrow>
           if mem < st_size st then Inl ENOMEM
           else if length data \<noteq> st_size st then Inl EIO
           else bindr (blob_oid crypto data) (\<lambda>x.
             bindr (index_blobs crypto z ix [data] fs) (\<lambda>fs'.
             bindr (index_store ix path (file_update x path st) (file_entry x path st)) (\<lambda>(ix', added).
               Inr (ix'\<lparr>ix_dirty := True, ix_sorted := ix_sorted ix' \<and> \<not> added\<rparr>, fs')))))"

definition bulk_hash_fn ::
    "evp option \<Rightarrow> nat \<Rightarrow> bytes \<times> (file_stat \<times> bytes) option \<Rightarrow> (bytes \<times> file_stat \<times> bytes \<times> oid) res" where
  "bulk_hash_fn crypto mem pf =
     (case pf of (path, file) \<Rightarrow>
       case file of
         None \<Rightarrow> Inl ENOENT
       | Some (st, data) \<Rightarrow>
           if mem < st_size st then Inl ENOMEM
           else if length data \<noteq> st_size st then Inl EIO
           else bindr (blob_oid crypto data) (\<lambda>x. Inr (path, st, data, x)))"

text \<open>The workers only fill their own task; the files do not change between the two reads.\<close>

fun good :: "'a res list \<Rightarrow> 'a list" where
  "good [] = []"
| "good (Inl e # rs) = good rs"
| "good (Inr x # rs) = x # good rs"

fun store_tasks :: "index \<Rightarrow> (bytes \<times> file_stat \<times> bytes \<times> oid) list \<Rightarrow> index res" where
  "store_tasks ix [] = Inr ix"
| "store_tasks ix ((path, st, data, x) # ts) =
     bindr (index_store ix path (file_update x path st) (file_entry x path st)) (\<lambda>(ix', added). store_tasks ix' ts)"

definition fastgit_index_add_many ::
    "evp option \<Rightarrow> zlib \<Rightarrow> nat \<Rightarrow> (bytes \<times> (file_stat \<times> bytes) option) list \<Rightarrow> index \<times> fs \<Rightarrow> (index \<times> fs) res" where
  "fastgit_index_add_many crypto z mem files ixfs =
     (case files of
        [] \<Rightarrow> Inr ixfs
      | [(path, file)] \<Rightarrow> fastgit_index_add crypto z mem path file ixfs
      | _ \<Rightarrow>
          (case ixfs of (ix, fs) \<Rightarrow>
            let rs = map (bulk_hash_fn crypto mem) files; ts = good rs in
            if Inl Undefined \<in> set rs then Inl Undefined
            else if ts = [] then (case hd rs of Inl e \<Rightarrow> Inl e | Inr _ \<Rightarrow> Inl Undefined)
            else bindr (index_blobs crypto z ix (map (\<lambda>(_, _, d, _). d) ts) fs) (\<lambda>fs'.
              bindr (store_tasks ix ts) (\<lambda>ix'. Inr (ix'\<lparr>ix_dirty := True, ix_sorted := False\<rparr>, fs')))))"

definition buffer_update :: "oid \<Rightarrow> bytes \<Rightarrow> u32 \<Rightarrow> nat \<Rightarrow> index_entry \<Rightarrow> index_entry" where
  "buffer_update x path mode len e =
     e\<lparr>ie_oid := x, ie_mode := mode, ie_size := of_nat len, ie_flags := path_flags path\<rparr>"

definition buffer_entry :: "oid \<Rightarrow> bytes \<Rightarrow> u32 \<Rightarrow> nat \<Rightarrow> index_entry" where
  "buffer_entry x path mode len =
     (blank_entry x path mode STAGE_NORMAL (path_flags path))\<lparr>ie_size := of_nat len\<rparr>"

definition fastgit_index_add_from_buffer ::
    "evp option \<Rightarrow> zlib \<Rightarrow> bytes \<Rightarrow> u32 \<Rightarrow> bytes \<Rightarrow> index \<times> fs \<Rightarrow> (index \<times> fs) res" where
  "fastgit_index_add_from_buffer crypto z path mode data ixfs =
     (case ixfs of (ix, fs) \<Rightarrow>
       bindr (blob_oid crypto data) (\<lambda>x.
       bindr (index_blobs crypto z ix [data] fs) (\<lambda>fs'.
       bindr (index_store ix path (buffer_update x path mode (length data)) (buffer_entry x path mode (length data)))
         (\<lambda>(ix', added). Inr (ix'\<lparr>ix_dirty := True, ix_sorted := ix_sorted ix' \<and> \<not> added\<rparr>, fs')))))"

section \<open>Removing\<close>

text \<open>
  The last entry moves into the hole. The table is patched while the count still includes the entry
  removed: when the patch finds the table too full, it is rebuilt from entries of which two are equal.
\<close>

definition fastgit_index_remove :: "index \<Rightarrow> bytes \<Rightarrow> u32 \<Rightarrow> index res" where
  "fastgit_index_remove ix path stage =
     bindr (fg_ht_find ix path stage) (\<lambda>r.
       case r of
         None \<Rightarrow> Inl ENOENT
       | Some idx \<Rightarrow>
           bindr (fg_ht_remove (ix_entries ix) (ix_ht ix) (path, stage)) (\<lambda>ht1.
           let es = ix_entries ix; last_idx = length es - 1; last_e = es ! last_idx in
           bindr (if idx \<noteq> last_idx then
                    bindr (fg_ht_remove (es[idx := last_e]) ht1 (ie_key last_e)) (\<lambda>ht2.
                      fg_ht_insert (es[idx := last_e]) ht2 (ie_key last_e) idx)
                  else Inr ht1) (\<lambda>ht.
             Inr (ix\<lparr>ix_entries := butlast (es[idx := last_e]), ix_ht := ht,
                      ix_dirty := True, ix_sorted := False\<rparr>))))"

section \<open>Conflicts\<close>

text \<open>Neither operation touches the hash table.\<close>

definition fastgit_index_conflict_remove :: "index \<Rightarrow> bytes \<Rightarrow> unit res \<times> index" where
  "fastgit_index_conflict_remove ix path =
     (let es = filter (\<lambda>e. strcmp (ie_path e) path \<noteq> 0) (ix_entries ix)
      in if length es \<noteq> ix_count ix then (Inr (), ix\<lparr>ix_entries := es, ix_dirty := True\<rparr>)
         else (Inl ENOENT, ix\<lparr>ix_entries := es\<rparr>))"

definition conflict_entry :: "bytes \<Rightarrow> oid \<Rightarrow> u32 \<Rightarrow> index_entry" where
  "conflict_entry path x stage =
     blank_entry x path 0x81A4 stage (path_flags path OR push_bit 12 (ucast stage))"

definition fastgit_index_conflict_add :: "index \<Rightarrow> bytes \<Rightarrow> oid option \<Rightarrow> oid option \<Rightarrow> oid option \<Rightarrow> index res" where
  "fastgit_index_conflict_add ix path ancestor ours theirs =
     (if ancestor = None \<and> ours = None \<and> theirs = None then Inl EINVAL
      else let ix1 = snd (fastgit_index_conflict_remove ix path);
               new = concat (map (\<lambda>(x, stage). case x of None \<Rightarrow> [] | Some y \<Rightarrow> [conflict_entry path y stage])
                 [(ancestor, STAGE_BASE), (ours, STAGE_OURS), (theirs, STAGE_THEIRS)])
        in Inr (ix1\<lparr>ix_entries := ix_entries ix1 @ new, ix_dirty := True, ix_sorted := False\<rparr>))"

definition fastgit_index_has_conflicts :: "index \<Rightarrow> bool" where
  "fastgit_index_has_conflicts ix \<longleftrightarrow> (\<exists>e \<in> set (ix_entries ix). ie_stage e \<noteq> STAGE_NORMAL)"

end
