(* ===== verification/IndexProps.thy ===== *)
theory IndexProps
  imports Index OdbProps
begin

text \<open>
  The index as a map from (path, stage) to entries: rebuilding the table, storing, finding and
  removing entries refine the operations of that map, as long as the table is in order.
\<close>

section \<open>Rebuilding the table\<close>

lemma double_to_pow: "\<exists>b. double_to cap (2 ^ a) = 2 ^ b \<and> cap \<le> 2 ^ b"
proof (induction cap "2 ^ a :: nat" arbitrary: a rule: double_to.induct)
  case (1 cap)
  show ?case
  proof (cases "cap \<le> 2 ^ a")
    case True
    then show ?thesis by (subst double_to.simps) auto
  next
    case False
    then obtain b where "double_to cap (2 ^ Suc a) = 2 ^ b" "cap \<le> 2 ^ b"
      using "1.hyps"[of "Suc a"] by (auto simp: mult.commute)
    then show ?thesis using False by (subst double_to.simps) (simp add: mult.commute)
  qed
qed

lemma init_facts: "ht_size (fg_ht_init cap)" "cap \<le> length (fg_ht_init cap)"
    "p < length (fg_ht_init cap) \<Longrightarrow> fg_ht_init cap ! p = Empty_slot"
  using double_to_pow[of cap 10] by (auto simp: fg_ht_init_def ht_size_def)

lemma init_live: "ht_live {} es (fg_ht_init cap)"
  using init_facts[where cap = cap] size_pos[OF init_facts(1), of cap] by (auto simp: ht_live_def)

lemma take_numbered: "m < length es \<Longrightarrow> take (Suc m) (numbered es) = take m (numbered es) @ [(m, ie_key (es ! m))]"
  by (simp add: numbered_def take_Suc_conv_app_nth)

lemma ht_fill_snoc: "ht_fill (ks @ [(i, k)]) ht = bindr (ht_fill ks ht) (\<lambda>ht.
     case ht_place (\<lambda>s. s = Empty_slot) (length ht) ht (ht_start ht k) of
       None \<Rightarrow> Inl Undefined | Some p \<Rightarrow> Inr (ht[p := At i]))"
  by (simp add: ht_fill_def)

definition entries_ok :: "index_entry list \<Rightarrow> bool" where
  "entries_ok es \<longleftrightarrow> distinct (map ie_key es) \<and> (\<forall>e \<in> set es. nul_free (ie_path e))"

lemma fill_ok:
  assumes es: "entries_ok es" and c: "length es + 1 < length (fg_ht_init cap)"
  shows "m \<le> length es \<Longrightarrow> \<exists>ht. ht_fill (take m (numbered es)) (fg_ht_init cap) = Inr ht \<and>
    length ht = length (fg_ht_init cap) \<and> ht_live {..<m} es ht \<and> (\<forall>p < length ht. ht ! p \<noteq> Tomb_slot)"
proof (induction m)
  case 0
  then show ?case using init_live[of es cap] init_facts(3)[of _ cap] by (auto simp: ht_fill_def)
next
  case (Suc m)
  then obtain ht where ht: "ht_fill (take m (numbered es)) (fg_ht_init cap) = Inr ht"
    "length ht = length (fg_ht_init cap)" "ht_live {..<m} es ht" "\<forall>p < length ht. ht ! p \<noteq> Tomb_slot" by auto
  have m: "m < length es" using Suc.prems by simp
  have key: "\<forall>u \<in> {..<m}. ie_key (es ! u) \<noteq> ie_key (es ! m)"
    using es m by (auto simp: entries_ok_def distinct_conv_nth)
  have "\<exists>p < length ht. ht ! p = Empty_slot"
    using free_slot[OF ht(3)] ht(4) by (metis slot.exhaust)
  then obtain p where p: "p < length ht"
      "ht_place (\<lambda>s. s = Empty_slot) (length ht) ht (ht_start ht (ie_key (es ! m))) = Some p"
      "ht_live (insert m {..<m}) es (ht[p := At m])"
    using place_live[OF ht(3) _ m _ refl key, of "\<lambda>s. s = Empty_slot"] es m c ht(2)
    by (auto simp: entries_ok_def)
  have "insert m {..<m} = {..<Suc m}" by auto
  then have lv: "ht_live {..<Suc m} es (ht[p := At m])" using p(3) by simp
  have "\<forall>r < length (ht[p := At m]). ht[p := At m] ! r \<noteq> Tomb_slot"
    using ht(4) p(1) by (simp add: nth_list_update)
  then show ?case
    using lv ht p(2) by (simp add: take_numbered[OF m] ht_fill_snoc)
qed

lemma rebuild_ok:
  assumes "entries_ok es"
  shows "\<exists>ht. fg_ht_rebuild es = Inr ht \<and> ht_ok es ht \<and> length es * 2 + 64 \<le> length ht"
proof (cases "es = []")
  case True
  have "1024 \<le> length (fg_ht_init 1024)" by (rule init_facts(2))
  then show ?thesis using True init_live[of "[]" 1024] by (simp add: fg_ht_rebuild_def ht_ok_def)
next
  case False
  let ?cap = "length es * 2 + 64"
  have c: "?cap \<le> length (fg_ht_init ?cap)" by (rule init_facts(2))
  have t: "take (length es) (numbered es) = numbered es" by (simp add: numbered_def)
  have "length es + 1 < length (fg_ht_init ?cap)" using c by simp
  from fill_ok[OF assms this order_refl] show ?thesis
    using False c unfolding t fg_ht_rebuild_def ht_ok_def by auto
qed

section \<open>The index in order\<close>

definition index_ok :: "index \<Rightarrow> bool" where
  "index_ok ix \<longleftrightarrow> ht_ok (ix_entries ix) (ix_ht ix)"

definition index_map :: "index \<Rightarrow> ie_key \<rightharpoonup> index_entry" where
  "index_map ix = map_of (map (\<lambda>e. (ie_key e, e)) (ix_entries ix))"

lemma index_ok_entries: "index_ok ix \<Longrightarrow> entries_ok (ix_entries ix)"
proof -
  assume "index_ok ix"
  then have l: "ht_live {..<ix_count ix} (ix_entries ix) (ix_ht ix)" by (simp add: index_ok_def ht_ok_def)
  have "distinct (map ie_key (ix_entries ix))"
    using ht_liveD(7)[OF l] by (auto simp: distinct_conv_nth inj_on_def)
  moreover have "nul_free (ie_path e)" if "e \<in> set (ix_entries ix)" for e
    using that ht_liveD(8)[OF l] by (auto simp: in_set_conv_nth)
  ultimately show ?thesis by (simp add: entries_ok_def)
qed

lemma index_map_iff:
  "entries_ok (ix_entries ix) \<Longrightarrow> index_map ix k = Some e \<longleftrightarrow> e \<in> set (ix_entries ix) \<and> ie_key e = k"
  unfolding index_map_def entries_ok_def by (subst map_of_eq_Some_iff) (auto simp: comp_def)

lemma index_map_None: "index_map ix k = None \<longleftrightarrow> (\<forall>e \<in> set (ix_entries ix). ie_key e \<noteq> k)"
  unfolding index_map_def map_of_eq_None_iff by force

lemma find_spec:
  assumes ok: "index_ok ix" and p: "nul_free path"
  shows "(\<exists>i < ix_count ix. fg_ht_find ix path stage = Inr (Some i) \<and> ie_key (ix_entries ix ! i) = (path, stage) \<and>
      index_map ix (path, stage) = Some (ix_entries ix ! i)) \<or>
    fg_ht_find ix path stage = Inr None \<and> index_map ix (path, stage) = None"
proof -
  have l: "ht_live {..<ix_count ix} (ix_entries ix) (ix_ht ix)" using ok by (simp add: index_ok_def ht_ok_def)
  show ?thesis
  proof (cases "\<exists>i < ix_count ix. ie_key (ix_entries ix ! i) = (path, stage)")
    case True
    then obtain i where i: "i < ix_count ix" "ie_key (ix_entries ix ! i) = (path, stage)" by blast
    then have "fg_ht_find ix path stage = Inr (Some i)"
      using lookup_found[OF l, of i "(path, stage)"] by (auto simp: fg_ht_find_def)
    moreover have "index_map ix (path, stage) = Some (ix_entries ix ! i)"
      using i index_map_iff[OF index_ok_entries[OF ok]] by simp
    ultimately show ?thesis using i by blast
  next
    case False
    then have "fg_ht_find ix path stage = Inr None"
      using lookup_none[OF l, of "(path, stage)"] p by (simp add: fg_ht_find_def)
    moreover have "index_map ix (path, stage) = None"
      using False by (auto simp: index_map_None in_set_conv_nth)
    ultimately show ?thesis by blast
  qed
qed

lemma insert_new:
  assumes ok: "ht_ok es ht" and e: "nul_free (ie_path e)" "\<forall>u \<in> set es. ie_key u \<noteq> ie_key e"
  shows "\<exists>ht'. fg_ht_insert es ht (ie_key e) (length es) = Inr ht' \<and> ht_ok (es @ [e]) ht' \<and>
    length es * 2 + 64 \<le> length ht'"
proof -
  have eo: "entries_ok es" using index_ok_entries[of "fastgit_index_new\<lparr>ix_entries := es, ix_ht := ht\<rparr>"] ok
    by (simp add: index_ok_def)
  obtain ht1 where h1: "ht_ok es ht1" "length es * 2 + 64 \<le> length ht1"
    "(if ht = [] \<or> length ht < length es * 2 + 64 then
        bindr (fg_ht_rebuild es) (\<lambda>ht1. if length ht1 < length es * 2 + 64 then ht_grow es (length es) else Inr ht1)
      else Inr ht) = Inr ht1"
  proof (cases "ht = [] \<or> length ht < length es * 2 + 64")
    case True
    then show ?thesis using that rebuild_ok[OF eo] by fastforce
  next
    case False
    then show ?thesis using that ok by auto
  qed
  have l: "ht_live {..<length es} (es @ [e]) ht1"
    using h1(1) unfolding ht_ok_def by (rule live_cong) (auto simp: nth_append)
  have fr: "\<exists>p < length ht1. is_free (ht1 ! p)"
    using free_slot[OF l] by (metis is_free_def slot.exhaust)
  have k: "\<forall>u \<in> {..<length es}. ie_key ((es @ [e]) ! u) \<noteq> ie_key e" using e(2) by (simp add: nth_append)
  obtain p where p: "ht_place is_free (length ht1) ht1 (ht_start ht1 (ie_key e)) = Some p"
      "ht_live (insert (length es) {..<length es}) (es @ [e]) (ht1[p := At (length es)])"
    using place_live[OF l _ _ _ _ k, of "length es" is_free] fr e(1) h1(2) by (auto simp: is_free_def)
  have "insert (length es) {..<length es} = {..<length (es @ [e])}" by auto
  then have "ht_ok (es @ [e]) (ht1[p := At (length es)])" using p(2) by (simp add: ht_ok_def)
  then show ?thesis using h1(2,3) p(1) by (simp add: fg_ht_insert_def)
qed

lemma replace_ok:
  assumes ok: "ht_ok es ht" and i: "i < length es" "ie_key e = ie_key (es ! i)"
  shows "ht_ok (es[i := e]) ht"
proof -
  have "inj_on (\<lambda>v. ie_key (es[i := e] ! v)) {..<length es} = inj_on (\<lambda>v. ie_key (es ! v)) {..<length es}"
    using i by (intro inj_on_cong) (simp add: nth_list_update)
  moreover have "ie_key (es[i := e] ! v) = ie_key (es ! v)" "ie_path (es[i := e] ! v) = ie_path (es ! v)" for v
    using i by (simp_all add: nth_list_update ie_key_def)
  ultimately show ?thesis using ok by (simp add: ht_ok_def ht_live_def)
qed

lemma store_spec:
  assumes ok: "index_ok ix" and p: "nul_free path" and new: "ie_key new = (path, STAGE_NORMAL)"
    and upd: "\<And>e. ie_key (upd e) = ie_key e"
  shows "\<exists>ix'. index_store ix path upd new = Inr (ix', index_map ix (path, STAGE_NORMAL) = None) \<and> index_ok ix' \<and>
    index_map ix' = (index_map ix)((path, STAGE_NORMAL) \<mapsto>
      (case index_map ix (path, STAGE_NORMAL) of None \<Rightarrow> new | Some e \<Rightarrow> upd e)) \<and>
    ix_path ix' = ix_path ix \<and> ix_sorted ix' = ix_sorted ix"
  using find_spec[OF ok p, of STAGE_NORMAL]
proof (elim disjE exE conjE)
  fix i
  assume i: "i < ix_count ix" "fg_ht_find ix path STAGE_NORMAL = Inr (Some i)"
    "ie_key (ix_entries ix ! i) = (path, STAGE_NORMAL)" "index_map ix (path, STAGE_NORMAL) = Some (ix_entries ix ! i)"
  let ?e = "upd (ix_entries ix ! i)"
  let ?ix = "ix\<lparr>ix_entries := (ix_entries ix)[i := ?e]\<rparr>"
  have ok': "index_ok ?ix" using ok i(1) upd by (simp add: index_ok_def replace_ok)
  have d: "distinct (map ie_key (ix_entries ix))" using index_ok_entries[OF ok] by (simp add: entries_ok_def)
  have "index_map ?ix = (index_map ix)((path, STAGE_NORMAL) \<mapsto> ?e)"
  proof (rule ext)
    fix k
    show "index_map ?ix k = ((index_map ix)((path, STAGE_NORMAL) \<mapsto> ?e)) k"
    proof (cases "k = (path, STAGE_NORMAL)")
      case True
      then show ?thesis using index_map_iff[OF index_ok_entries[OF ok']] i(1,3) upd
        by (simp add: set_update_memI)
    next
      case False
      have "e \<in> set ((ix_entries ix)[i := ?e]) \<longleftrightarrow> e \<in> set (ix_entries ix)" if "ie_key e = k" for e
        using that False i(1,3) upd by (fastforce simp: in_set_conv_nth nth_list_update)
      then have "index_map ?ix k = Some e \<longleftrightarrow> index_map ix k = Some e" for e
        using index_map_iff[OF index_ok_entries[OF ok']] index_map_iff[OF index_ok_entries[OF ok]] by auto
      then show ?thesis using False by (metis fun_upd_apply not_Some_eq)
    qed
  qed
  then show ?thesis
    using i ok' by (simp add: index_store_def)
next
  assume n: "fg_ht_find ix path STAGE_NORMAL = Inr None" "index_map ix (path, STAGE_NORMAL) = None"
  have nf: "nul_free (ie_path new)" using new p by (simp add: ie_key_def)
  have k: "\<forall>u \<in> set (ix_entries ix). ie_key u \<noteq> ie_key new" using n(2) new by (simp add: index_map_None)
  obtain ht where h: "fg_ht_insert (ix_entries ix) (ix_ht ix) (path, STAGE_NORMAL) (ix_count ix) = Inr ht"
    "ht_ok (ix_entries ix @ [new]) ht"
    using insert_new[OF _ nf k] ok new by (auto simp: index_ok_def)
  let ?ix = "ix\<lparr>ix_entries := ix_entries ix @ [new], ix_ht := ht\<rparr>"
  have ok': "index_ok ?ix" using h(2) by (simp add: index_ok_def)
  have "index_map ?ix = (index_map ix)((path, STAGE_NORMAL) \<mapsto> new)"
    using n(2) new unfolding index_map_def by (auto simp: map_add_def split: option.splits)
  then show ?thesis using n h(1) ok' by (simp add: index_store_def)
qed

lemma sort_spec:
  assumes "index_ok ix"
  shows "\<exists>ix'. sort_index ix = Inr ix' \<and> index_ok ix' \<and> index_map ix' = index_map ix \<and>
    ix_entries ix' = qsort_index (ix_entries ix) \<and> ix_sorted ix'"
proof -
  have e: "entries_ok (ix_entries ix)" by (rule index_ok_entries[OF assms])
  have m: "mset (qsort_index (ix_entries ix)) = mset (ix_entries ix)" by (simp add: qsort_index_def)
  then have mk: "mset (map ie_key (qsort_index (ix_entries ix))) = mset (map ie_key (ix_entries ix))" by (metis mset_map)
  have e': "entries_ok (qsort_index (ix_entries ix))"
    using e mset_eq_setD[OF m] mset_eq_imp_distinct_iff[OF mk] by (simp add: entries_ok_def)
  from rebuild_ok[OF e'] obtain ht where ht: "fg_ht_rebuild (qsort_index (ix_entries ix)) = Inr ht"
    "ht_ok (qsort_index (ix_entries ix)) ht" by blast
  let ?ix = "ix\<lparr>ix_entries := qsort_index (ix_entries ix), ix_sorted := True, ix_ht := ht\<rparr>"
  have "index_map ?ix k = Some e \<longleftrightarrow> index_map ix k = Some e" for k e
    using index_map_iff[of ?ix] index_map_iff[OF e] e' mset_eq_setD[OF m] by simp
  then have "index_map ?ix = index_map ix" by (intro ext) (metis not_Some_eq)
  then show ?thesis using ht by (simp add: sort_index_def index_ok_def Let_def)
qed


section \<open>Removing\<close>

lemma is_free_At: "is_free s \<Longrightarrow> \<forall>u. s \<noteq> At u"
  by (auto simp: is_free_def)

lemma is_free_Empty: "\<not> is_free s \<Longrightarrow> s \<noteq> Empty_slot"
  by (auto simp: is_free_def)

lemma ht_liveI_butlast:
  assumes "ht_live {..<n} es ht" "length es = Suc n"
  shows "ht_ok (butlast es) ht"
proof -
  have "{..<length (butlast es)} = {..<n}" using assms(2) by simp
  moreover have "ht_live {..<n} (butlast es) ht"
    using assms by (intro live_cong[OF assms(1)]) (simp add: nth_butlast)
  ultimately show ?thesis by (simp add: ht_ok_def)
qed

text \<open>The patch of the table when the last entry moves to position \<open>i\<close> and no rebuild is needed.\<close>

lemma patch_ok:
  assumes ok: "ht_ok es ht" and i: "i < length es - 1" and room: "length es * 2 + 64 \<le> length ht"
  shows "\<exists>h1 h2 h3. fg_ht_remove es ht (ie_key (es ! i)) = Inr h1 \<and>
    fg_ht_remove (es[i := es ! (length es - 1)]) h1 (ie_key (es ! (length es - 1))) = Inr h2 \<and>
    fg_ht_insert (es[i := es ! (length es - 1)]) h2 (ie_key (es ! (length es - 1))) i = Inr h3 \<and>
    ht_ok (butlast (es[i := es ! (length es - 1)])) h3"
proof -
  let ?n = "length es - 1"
  let ?es = "es[i := es ! ?n]"
  let ?L = "{..<length es}"
  have l: "ht_live ?L es ht" using ok by (simp add: ht_ok_def)
  have n: "?n < length es" "i < length es" "i \<noteq> ?n" "length es = Suc ?n" using i by auto
  obtain h1 where h1: "fg_ht_remove es ht (ie_key (es ! i)) = Inr h1" "ht_live (?L - {i}) es h1" "length h1 = length ht"
    using remove_live[OF l _ refl, of i] n by auto
  have l1: "ht_live (?L - {i}) ?es h1" using h1(2) by (rule live_cong) auto
  have kn: "ie_key (?es ! ?n) = ie_key (es ! ?n)" using n by simp
  obtain h2 where h2: "fg_ht_remove ?es h1 (ie_key (es ! ?n)) = Inr h2" "ht_live (?L - {i} - {?n}) ?es h2" "length h2 = length h1"
    using remove_live[OF l1 _ kn] n by auto
  let ?M = "?L - {i} - {?n}"
  have key: "\<forall>u \<in> ?M. ie_key (?es ! u) \<noteq> ie_key (es ! ?n)"
    using ht_liveD(7)[OF l] n by (auto simp: inj_on_def nth_list_update)
  have nf: "nul_free (ie_path (?es ! i))" using ht_liveD(8)[OF l] n by simp
  have c: "card ?M + 1 < length h2"
  proof -
    have "card ?M \<le> card ?L" by (intro card_mono) auto
    then show ?thesis using room h1(3) h2(3) by simp
  qed
  have fr: "\<exists>p < length h2. is_free (h2 ! p)"
    using free_slot[OF h2(2)] by (metis is_free_def slot.exhaust)
  obtain p where p: "ht_place is_free (length h2) h2 (ht_start h2 (ie_key (es ! ?n))) = Some p"
      "ht_live (insert i ?M) ?es (h2[p := At i])"
    using place_live[OF h2(2) _ _ nf _ key c is_free_At is_free_Empty fr] n by auto
  have ins: "fg_ht_insert ?es h2 (ie_key (es ! ?n)) i = Inr (h2[p := At i])"
    using p(1) room h1(3) h2(3) by (auto simp: fg_ht_insert_def)
  have "insert i ?M = {..<?n}" using n by auto
  then have "ht_ok (butlast ?es) (h2[p := At i])"
    using ht_liveI_butlast[of ?n ?es "h2[p := At i]"] p(2) n(4) by simp
  then show ?thesis using h1(1) h2(1) ins by blast
qed

lemma removed_nth:
  assumes "i < length es"
  shows "set (butlast (es[i := es ! (length es - 1)])) = {es ! v |v. v < length es \<and> v \<noteq> i}"
proof -
  let ?n = "length es - 1"
  let ?bs = "butlast (es[i := es ! ?n])"
  have nth: "?bs ! j = (if j = i then es ! ?n else es ! j)" if "j < ?n" for j
    using that assms by (simp add: nth_butlast nth_list_update)
  show ?thesis
  proof (intro equalityI subsetI)
    fix e
    assume "e \<in> set ?bs"
    then obtain j where "j < ?n" "e = ?bs ! j" by (auto simp: in_set_conv_nth)
    then show "e \<in> {es ! v |v. v < length es \<and> v \<noteq> i}"
      using nth[of j] assms by (cases "j = i") auto
  next
    fix e
    assume "e \<in> {es ! v |v. v < length es \<and> v \<noteq> i}"
    then obtain v where v: "e = es ! v" "v < length es" "v \<noteq> i" by blast
    then have "(if v = ?n then i else v) < ?n" "?bs ! (if v = ?n then i else v) = e"
      using assms nth[of "if v = ?n then i else v"] by auto
    then show "e \<in> set ?bs" by (metis length_butlast length_list_update nth_mem)
  qed
qed

lemma removed_map:
  assumes ok: "index_ok ix" "index_ok ix'" and i: "i < ix_count ix"
    and es: "ix_entries ix' = butlast ((ix_entries ix)[i := ix_entries ix ! (ix_count ix - 1)])"
  shows "index_map ix' = (index_map ix)(ie_key (ix_entries ix ! i) := None)"
proof (rule ext)
  fix k
  have d: "distinct (map ie_key (ix_entries ix))"
    using index_ok_entries[OF ok(1)] by (simp add: entries_ok_def)
  have key: "ie_key (ix_entries ix ! v) = ie_key (ix_entries ix ! i) \<longleftrightarrow> v = i" if "v < ix_count ix" for v
    using d i that by (auto simp: distinct_conv_nth)
  have "index_map ix' k = Some e \<longleftrightarrow> ((index_map ix)(ie_key (ix_entries ix ! i) := None)) k = Some e" for e
    unfolding index_map_iff[OF index_ok_entries[OF ok(2)]] es removed_nth[OF i]
    using index_map_iff[OF index_ok_entries[OF ok(1)], of k e] key by (auto simp: in_set_conv_nth)
  then show "index_map ix' k = ((index_map ix)(ie_key (ix_entries ix ! i) := None)) k"
    by (metis not_Some_eq)
qed

lemma remove_spec:
  assumes ok: "index_ok ix" and p: "nul_free path"
    and room: "ix_count ix * 2 + 64 \<le> length (ix_ht ix) \<or> ie_key (last (ix_entries ix)) = (path, stage)"
    and k: "index_map ix (path, stage) \<noteq> None"
  shows "\<exists>ix'. fastgit_index_remove ix path stage = Inr ix' \<and> index_ok ix' \<and>
    index_map ix' = (index_map ix)((path, stage) := None)"
proof -
  obtain i where i: "i < ix_count ix" "fg_ht_find ix path stage = Inr (Some i)"
    "ie_key (ix_entries ix ! i) = (path, stage)"
    using find_spec[OF ok p, of stage] k by auto
  let ?es = "ix_entries ix" and ?n = "ix_count ix - 1"
  have t: "ht_ok ?es (ix_ht ix)" using ok by (simp add: index_ok_def)
  have fin: "\<exists>h. fastgit_index_remove ix path stage = Inr (ix\<lparr>ix_entries := butlast (?es[i := ?es ! ?n]), ix_ht := h,
      ix_dirty := True, ix_sorted := False\<rparr>) \<and> ht_ok (butlast (?es[i := ?es ! ?n])) h"
  proof (cases "i = ?n")
    case True
    have l: "ht_live {..<length ?es} ?es (ix_ht ix)" using t by (simp add: ht_ok_def)
    obtain h where h: "fg_ht_remove ?es (ix_ht ix) (path, stage) = Inr h" "ht_live ({..<length ?es} - {i}) ?es h"
      using remove_live[OF l _ i(3)] i(1) by auto
    have "{..<length ?es} - {i} = {..<?n}" using True i(1) by auto
    then have "ht_ok (butlast (?es[i := ?es ! ?n])) h"
      using ht_liveI_butlast[of ?n "?es[i := ?es ! ?n]" h] h(2) True i(1) by simp
    then show ?thesis
      using i(2) h(1) True by (intro exI[of _ h]) (simp add: fastgit_index_remove_def Let_def)
  next
    case False
    have "ie_key (last ?es) \<noteq> (path, stage)"
    proof -
      have "last ?es = ?es ! ?n" using i(1) by (intro last_conv_nth) auto
      moreover have "distinct (map ie_key ?es)" using index_ok_entries[OF ok] by (simp add: entries_ok_def)
      then have "ie_key (?es ! ?n) \<noteq> ie_key (?es ! i)"
        using i(1) False unfolding distinct_conv_nth by simp
      ultimately show ?thesis using i(3) by simp
    qed
    then have room': "length ?es * 2 + 64 \<le> length (ix_ht ix)" using room by simp
    have "i < ?n" using i(1) False by simp
    from patch_ok[OF t this room'] obtain h1 h2 h3 where
      "fg_ht_remove ?es (ix_ht ix) (path, stage) = Inr h1"
      "fg_ht_remove (?es[i := ?es ! ?n]) h1 (ie_key (?es ! ?n)) = Inr h2"
      "fg_ht_insert (?es[i := ?es ! ?n]) h2 (ie_key (?es ! ?n)) i = Inr h3"
      "ht_ok (butlast (?es[i := ?es ! ?n])) h3"
      using i(3) by auto
    then show ?thesis
      using i(2) False by (intro exI[of _ h3]) (simp add: fastgit_index_remove_def Let_def)
  qed
  then obtain h where h: "fastgit_index_remove ix path stage = Inr (ix\<lparr>ix_entries := butlast (?es[i := ?es ! ?n]), ix_ht := h,
      ix_dirty := True, ix_sorted := False\<rparr>)" "ht_ok (butlast (?es[i := ?es ! ?n])) h" by blast
  let ?ix = "ix\<lparr>ix_entries := butlast (?es[i := ?es ! ?n]), ix_ht := h, ix_dirty := True, ix_sorted := False\<rparr>"
  have ok': "index_ok ?ix" using h(2) by (simp add: index_ok_def)
  have "index_map ?ix = (index_map ix)((path, stage) := None)"
    using removed_map[OF ok ok' i(1)] i(3) by simp
  then show ?thesis using h(1) ok' by blast
qed


section \<open>Storing several files\<close>

lemma insert_no_rebuild:
  "length es * 2 + 64 \<le> length ht \<Longrightarrow> fg_ht_insert es ht k v = Inr ht' \<Longrightarrow> length ht' = length ht"
  by (auto simp: fg_ht_insert_def split: option.splits if_splits)

lemma index_store_count:
  assumes "index_store ix path upd new = Inr (ix', added)"
  shows "ix_count ix' = (if added then Suc (ix_count ix) else ix_count ix)"
    "ix_count ix * 2 + 64 \<le> length (ix_ht ix) \<Longrightarrow> length (ix_ht ix') = length (ix_ht ix)"
  using assms by (auto simp: index_store_def bindr_Inr_iff insert_no_rebuild split: option.splits)

definition task_path :: "bytes \<times> file_stat \<times> bytes \<times> oid \<Rightarrow> bytes" where
  "task_path t = fst t"

lemma file_key: "ie_key (file_entry x path st) = (path, STAGE_NORMAL)" "ie_key (file_update x path st e) = ie_key e"
  by (simp_all add: file_entry_def file_update_def set_stat_def blank_entry_def ie_key_def)

lemma store_tasks_ok:
  "index_ok ix \<Longrightarrow> \<forall>t \<in> set ts. nul_free (task_path t) \<Longrightarrow>
   \<exists>ix'. store_tasks ix ts = Inr ix' \<and> index_ok ix' \<and>
     dom (index_map ix') = dom (index_map ix) \<union> (\<lambda>t. (task_path t, STAGE_NORMAL)) ` set ts"
proof (induction ts arbitrary: ix)
  case (Cons t ts)
  obtain path st d x where t: "t = (path, st, d, x)" by (cases t) auto
  have nf: "nul_free path" using Cons.prems(2) by (simp add: t task_path_def)
  obtain ix1 a where s: "index_store ix path (file_update x path st) (file_entry x path st) = Inr (ix1, a)" "index_ok ix1"
    "dom (index_map ix1) = insert (path, STAGE_NORMAL) (dom (index_map ix))"
    using store_spec[OF Cons.prems(1) nf, of "file_entry x path st" "file_update x path st"] by (auto simp: file_key)
  from Cons.IH[OF s(2)] Cons.prems(2) show ?case
    using s by (auto simp: t task_path_def)
qed simp

lemma store_fresh_tasks:
  "index_ok ix \<Longrightarrow> \<forall>t \<in> set ts. nul_free (task_path t) \<and> (task_path t, STAGE_NORMAL) \<notin> dom (index_map ix) \<Longrightarrow>
   distinct (map task_path ts) \<Longrightarrow> (ix_count ix + length ts) * 2 + 62 \<le> length (ix_ht ix) \<Longrightarrow>
   store_tasks ix ts = Inr ix' \<Longrightarrow>
   ix_count ix' = ix_count ix + length ts \<and> length (ix_ht ix') = length (ix_ht ix) \<and>
   (\<exists>es. ix_entries ix' = ix_entries ix @ es \<and> map ie_key es = map (\<lambda>t. (task_path t, STAGE_NORMAL)) ts)"
proof (induction ts arbitrary: ix)
  case (Cons t ts)
  obtain path st d x where t: "t = (path, st, d, x)" by (cases t) auto
  let ?e = "file_entry x path st"
  have nf: "nul_free path" and fresh: "index_map ix (path, STAGE_NORMAL) = None"
    using Cons.prems(2) by (auto simp: t task_path_def)
  from store_spec[OF Cons.prems(1) nf, of ?e "file_update x path st"] fresh
  obtain ix1 where s: "index_store ix path (file_update x path st) ?e = Inr (ix1, True)" "index_ok ix1"
    "index_map ix1 = (index_map ix)((path, STAGE_NORMAL) \<mapsto> ?e)"
    by (auto simp: file_key)
  have es1: "ix_entries ix1 = ix_entries ix @ [?e]"
    using s(1) find_spec[OF Cons.prems(1) nf, of STAGE_NORMAL] fresh
    by (auto simp: index_store_def bindr_Inr_iff)
  have c: "ix_count ix1 = Suc (ix_count ix)" "length (ix_ht ix1) = length (ix_ht ix)"
    using index_store_count[OF s(1)] Cons.prems(4) by auto
  have st: "store_tasks ix1 ts = Inr ix'" using Cons.prems(5) s(1) by (simp add: t)
  have fr1: "\<forall>t \<in> set ts. nul_free (task_path t) \<and> (task_path t, STAGE_NORMAL) \<notin> dom (index_map ix1)"
    using Cons.prems(2,3) s(3) by (auto simp: t task_path_def)
  have "ix_count ix' = ix_count ix1 + length ts \<and> length (ix_ht ix') = length (ix_ht ix1) \<and>
    (\<exists>es. ix_entries ix' = ix_entries ix1 @ es \<and> map ie_key es = map (\<lambda>t. (task_path t, STAGE_NORMAL)) ts)"
    by (rule Cons.IH[OF s(2) fr1 _ _ st]) (use Cons.prems(3,4) c in auto)
  then show ?case using c es1 by (auto simp: t task_path_def file_key)
qed simp

lemma new_ok: "index_ok fastgit_index_new" "length (ix_ht fastgit_index_new) = 1024" "index_map fastgit_index_new = Map.empty"
proof -
  have "double_to 1024 1024 = 1024" by (subst double_to.simps) simp
  then show "length (ix_ht fastgit_index_new) = 1024" by (simp add: fastgit_index_new_def fg_ht_init_def)
  show "index_ok fastgit_index_new" using init_live[of "[]" 1024]
    by (simp add: index_ok_def ht_ok_def fastgit_index_new_def)
  show "index_map fastgit_index_new = Map.empty" by (simp add: index_map_def fastgit_index_new_def)
qed

section \<open>A rebuild in the middle of a removal\<close>

text \<open>Filling a fresh table gives every entry a slot, equal keys or not.\<close>

lemma fill_all:
  assumes "length es < length (fg_ht_init cap)"
  shows "m \<le> length es \<Longrightarrow> \<exists>ht. ht_fill (take m (numbered es)) (fg_ht_init cap) = Inr ht \<and>
    length ht = length (fg_ht_init cap) \<and> card {p. p < length ht \<and> ht ! p \<noteq> Empty_slot} \<le> m \<and>
    (\<forall>v < m. \<exists>p < length ht. ht ! p = At v)"
proof (induction m)
  case 0
  have "{p. p < length (fg_ht_init cap) \<and> fg_ht_init cap ! p \<noteq> Empty_slot} = {}" using init_facts(3) by auto
  then show ?case by (simp add: ht_fill_def)
next
  case (Suc m)
  then obtain ht where ht: "ht_fill (take m (numbered es)) (fg_ht_init cap) = Inr ht"
    "length ht = length (fg_ht_init cap)" "card {p. p < length ht \<and> ht ! p \<noteq> Empty_slot} \<le> m"
    "\<forall>v < m. \<exists>p < length ht. ht ! p = At v" by auto
  have m: "m < length es" using Suc.prems by simp
  have sz: "ht_size ht" using init_facts(1)[of cap] ht(2) by (simp add: ht_size_def)
  let ?k = "ie_key (es ! m)" and ?free = "\<lambda>s. s = Empty_slot"
  have "\<exists>p < length ht. ht ! p = Empty_slot"
  proof (rule ccontr)
    assume "\<not> ?thesis"
    then have "{p. p < length ht \<and> ht ! p \<noteq> Empty_slot} = {..<length ht}" by auto
    then show False using ht(2,3) assms m by simp
  qed
  then obtain r where r: "r < length ht" "ht ! r = Empty_slot" by blast
  obtain i where i: "i < length ht" "ht_probe ht i (ht_start ht ?k) = r"
    using ht_probe_onto[OF sz ht_start_less[OF sz] r(1)] by blast
  obtain p where p: "ht_place ?free (length ht) ht (ht_start ht ?k) = Some p"
    using place_None[of ?free "length ht" ht "ht_start ht ?k" i] i r(2) by (cases "ht_place ?free (length ht) ht (ht_start ht ?k)") auto
  from place_SomeD[OF p] have pe: "p < length ht" "ht ! p = Empty_slot"
    using ht_probe_less[OF sz ht_start_less[OF sz, of ?k]] by auto
  let ?h = "ht[p := At m]"
  have "{q. q < length ?h \<and> ?h ! q \<noteq> Empty_slot} = insert p {q. q < length ht \<and> ht ! q \<noteq> Empty_slot}"
    using pe by (auto simp: nth_list_update split: if_splits)
  then have cd: "card {q. q < length ?h \<and> ?h ! q \<noteq> Empty_slot} \<le> Suc m"
    using ht(3) card_insert_le_m1[of "Suc m"] by (simp add: card_insert_if)
  have "\<exists>q < length ?h. ?h ! q = At v" if v: "v < Suc m" for v
  proof (cases "v = m")
    case True
    then show ?thesis using pe by auto
  next
    case False
    then have "v < m" using v by simp
    then obtain q where "q < length ht" "ht ! q = At v" using ht(4) by blast
    then show ?thesis using pe by (intro exI[of _ q]) (auto simp: nth_list_update)
  qed
  then show ?case using ht cd p by (simp add: take_numbered[OF m] ht_fill_snoc)
qed

lemma insert_after_rebuild:
  assumes "length ht < length es * 2 + 64" "es \<noteq> []"
  shows "\<exists>ht'. fg_ht_insert es ht k i = Inr ht' \<and> (\<forall>v < length es. \<exists>p < length ht'. ht' ! p = At v)"
proof -
  let ?cap = "length es * 2 + 64"
  have c: "?cap \<le> length (fg_ht_init ?cap)" by (rule init_facts(2))
  have t: "take (length es) (numbered es) = numbered es" by (simp add: numbered_def)
  have "length es < length (fg_ht_init ?cap)" using c by simp
  from fill_all[OF this order_refl] obtain h where h: "fg_ht_rebuild es = Inr h"
    "length h = length (fg_ht_init ?cap)" "\<forall>v < length es. \<exists>p < length h. h ! p = At v"
    using assms(2) unfolding t by (auto simp: fg_ht_rebuild_def)
  have hc: "\<not> length h < ?cap" using c h(2) by simp
  have sz: "ht_size h" using init_facts(1)[of ?cap] h(2) by (simp add: ht_size_def)
  show ?thesis
  proof (cases "ht_place is_free (length h) h (ht_start h k)")
    case None
    then show ?thesis using h assms(1) hc by (auto simp: fg_ht_insert_def)
  next
    case (Some p)
    then have f: "is_free (h ! p)" using place_SomeD[OF Some] by blast
    have "\<exists>q < length (h[p := At i]). h[p := At i] ! q = At v" if v: "v < length es" for v
    proof -
      obtain q where q: "q < length h" "h ! q = At v" using h(3) v by blast
      then have "q \<noteq> p" using f by (auto simp: is_free_def)
      then show ?thesis using q by (intro exI[of _ q]) simp
    qed
    then show ?thesis using h(1) assms(1) hc Some by (auto simp: fg_ht_insert_def)
  qed
qed

lemma remove_rebuilds:
  assumes ok: "index_ok ix" and p: "nul_free path"
    and i: "i < ix_count ix - 1" "ie_key (ix_entries ix ! i) = (path, stage)"
    and full: "length (ix_ht ix) < ix_count ix * 2 + 64"
  shows "\<exists>ix'. fastgit_index_remove ix path stage = Inr ix' \<and> ix_count ix' = ix_count ix - 1 \<and>
    (\<exists>q < length (ix_ht ix'). ix_ht ix' ! q = At (ix_count ix'))"
proof -
  let ?es = "ix_entries ix" and ?n = "ix_count ix - 1"
  have l: "ht_live {..<length ?es} ?es (ix_ht ix)" using ok by (simp add: index_ok_def ht_ok_def)
  have n: "i < length ?es" "?n < length ?es" "i \<noteq> ?n" using i(1) by auto
  have f: "fg_ht_find ix path stage = Inr (Some i)"
    using lookup_found[OF l _ i(2)] n(1) by (auto simp: fg_ht_find_def)
  obtain h1 where h1: "fg_ht_remove ?es (ix_ht ix) (path, stage) = Inr h1" "ht_live ({..<length ?es} - {i}) ?es h1"
      "length h1 = length (ix_ht ix)"
    using remove_live[OF l _ i(2)] n(1) by auto
  let ?es' = "?es[i := ?es ! ?n]"
  have l1: "ht_live ({..<length ?es} - {i}) ?es' h1" using h1(2) by (rule live_cong) auto
  have kn: "ie_key (?es' ! ?n) = ie_key (?es ! ?n)" using n by simp
  obtain h2 where h2: "fg_ht_remove ?es' h1 (ie_key (?es ! ?n)) = Inr h2" "length h2 = length h1"
    using remove_live[OF l1 _ kn] n by auto
  have ne: "?es' \<noteq> []" using n(1) by (cases ?es) (auto split: nat.splits)
  have fu: "length h2 < length ?es' * 2 + 64" using h1(3) h2(2) full by simp
  from insert_after_rebuild[OF fu ne] obtain h3 where h3: "fg_ht_insert ?es' h2 (ie_key (?es ! ?n)) i = Inr h3"
    "\<forall>v < length ?es'. \<exists>p < length h3. h3 ! p = At v" by blast
  have "\<exists>q < length h3. h3 ! q = At (length (butlast ?es'))" using h3(2) n(2) by simp
  then show ?thesis using f h1(1) h2(1) h3(1) n by (simp add: fastgit_index_remove_def Let_def)
qed


section \<open>Blobs of added files\<close>

lemma blob_oid_hash:
  assumes c: "sha256_ok crypto"
  shows "\<exists>h. fastgit_hash crypto HASH_SHA256 (obj_text BLOB data) = Inr \<lparr>h_digest = h, h_algo = HASH_SHA256\<rparr> \<and>
    length h = 32 \<and> blob_oid crypto data = Inr \<lparr>oid_algo = HASH_SHA256, oid_hash = h\<rparr>"
proof -
  have w: "str ''blob '' = str (type_word BLOB) @ [32]" by (simp add: str_def type_word_def)
  have t: "concat ((str ''blob '' @ dec (length data) @ [0]) # (if data = [] then [] else [data])) = obj_text BLOB data"
    by (simp add: obj_text_def object_header_def w)
  obtain h where h: "fastgit_hash crypto HASH_SHA256 (obj_text BLOB data) = Inr \<lparr>h_digest = h, h_algo = HASH_SHA256\<rparr>"
    "length h = 32" using c unfolding sha256_ok_def by blast
  let ?bs = "(str ''blob '' @ dec (length data) @ [0]) # (if data = [] then [] else [data])"
  have st: "fastgit_hash_stream crypto HASH_SHA256 ?bs = Inr \<lparr>h_digest = h, h_algo = HASH_SHA256\<rparr>"
    unfolding stream_whole t by (rule h(1))
  obtain ctx c1 where x: "fastgit_hash_ctx_new crypto HASH_SHA256 = Some ctx" "fastgit_hash_ctx_init ctx = Inr c1"
    using st by (auto simp: fastgit_hash_stream_def bindr_Inr_iff split: option.splits)
  have "bindr (update_all c1 ?bs) (fastgit_hash_ctx_final crypto) = Inr \<lparr>h_digest = h, h_algo = HASH_SHA256\<rparr>"
    using st unfolding fastgit_hash_stream_def x option.case bindr_simps .
  then obtain c2 where "update_all c1 ?bs = Inr c2" "fastgit_hash_ctx_final crypto c2 = Inr \<lparr>h_digest = h, h_algo = HASH_SHA256\<rparr>"
    unfolding bindr_Inr_iff by blast
  then have "blob_oid crypto data = Inr \<lparr>oid_algo = HASH_SHA256, oid_hash = h\<rparr>"
    unfolding blob_oid_def x option.case bindr_simps by simp
  then show ?thesis using h by simp
qed

lemma blob_oid_name:
  assumes "sha256_ok crypto" "storable mem (BLOB, data)"
  shows "blob_oid crypto data = obj_name crypto (BLOB, data)"
  using blob_oid_hash[OF assms(1), of data] serialize_storable(1)[OF assms(2)]
  by (auto simp: obj_name_def fastgit_object_hash_def)

text \<open>A later handle on the directory reads what an earlier one wrote.\<close>

lemma reopen_ok:
  assumes "odb_ok crypto z mem U db"
  shows "odb_ok crypto z mem U (fastgit_odb_open (oc_disk (odb_head db)))"
  using assms by (simp add: odb_ok_def fastgit_odb_open_def fastgit_odb_new_def core_ok_def cache_ok_def)

lemma write_disk_loose:
  assumes "write_disk z x t d buf c = Inr c'"
  shows "map_of (d_loose (oc_disk c')) (odb_object_path x) \<noteq> None"
proof (cases "map_of (d_loose (oc_disk c)) (odb_object_path x) = None")
  case True
  then show ?thesis using assms
    by (auto simp: write_disk_def Let_def bindr_Inr_iff core_cache_simps map_add_def)
next
  case False
  then show ?thesis using assms by (auto simp: write_disk_def Let_def bindr_Inr_iff core_cache_simps)
qed

lemma write_opened:
  assumes db: "odb_ok crypto z mem U (fastgit_odb_open dk)" and p: "(t, d) \<in> U"
  shows "\<exists>x db. fastgit_odb_write crypto z t d (fastgit_odb_open dk) = (Inr x, db) \<and> obj_name crypto (t, d) = Inr x \<and>
    sha_key x \<and> odb_ok crypto z mem U db \<and> fst (odb_get z mem (fastgit_odb_open (oc_disk (odb_head db))) x) = Inr (t, d)"
proof -
  obtain x db' where w: "fastgit_odb_write crypto z t d (fastgit_odb_open dk) = (Inr x, db')" "sha_key x"
    "obj_name crypto (t, d) = Inr x" "odb_ok crypto z mem U db'"
    using odb_write_ok[OF db p] by blast
  have U: "universe crypto mem U" using db by (simp add: odb_ok_def)
  have s: "storable mem (t, d)" using U p by (simp add: universe_def)
  have "cache_find Map.empty x [0..<8] = None" by (simp add: upt_conv_Cons)
  moreover have "fastgit_object_hash crypto (fastgit_object_parse t d) HASH_SHA256 = Inr x"
    using w(3) by (simp add: obj_name_def)
  ultimately obtain c0 buf c' where wd: "write_disk z x t d buf c0 = Inr c'" "oc_disk (odb_head db') = oc_disk c'"
    using w(1) serialize_storable(1)[OF s]
    by (auto simp: fastgit_odb_write_def fastgit_odb_open_def fastgit_odb_new_def Let_def odb_head_def
        bindr_Inr_iff split: sum.splits if_splits)
  have "map_of (d_loose (oc_disk (odb_head db'))) (odb_object_path x) \<noteq> None"
    unfolding wd(2) by (rule write_disk_loose[OF wd(1)])
  then have "readable z mem (odb_head (fastgit_odb_open (oc_disk (odb_head db')))) x"
    by (simp add: readable_def fastgit_odb_open_def fastgit_odb_new_def)
  moreover have "named crypto U x (t, d)" using w(3) p by (simp add: named_def)
  ultimately show ?thesis
    using w get_of_readable[OF reopen_ok[OF w(4)] w(2)] by blast
qed

section \<open>Properties\<close>

lemma index_find_ok:
  assumes "index_ok ix" "nul_free path"
  shows "\<exists>ix'. fastgit_index_find ix path stage = Inr (index_map ix (path, stage), ix') \<and>
    index_ok ix' \<and> index_map ix' = index_map ix"
  using find_spec[OF assms, of stage]
proof (elim disjE exE conjE)
  fix i
  assume "fg_ht_find ix path stage = Inr (Some i)" "index_map ix (path, stage) = Some (ix_entries ix ! i)"
  then show ?thesis using assms(1) by (simp add: fastgit_index_find_def)
next
  assume n: "fg_ht_find ix path stage = Inr None" "index_map ix (path, stage) = None"
  obtain ix' where s: "sort_index ix = Inr ix'" "index_ok ix'" "index_map ix' = index_map ix"
    using sort_spec[OF assms(1)] by blast
  have "fg_ht_find ix' path stage = Inr None" using find_spec[OF s(2) assms(2), of stage] s(3) n(2) by auto
  then show ?thesis using n s assms(1) by (simp add: fastgit_index_find_def)
qed

text \<open>
  C31. Finding an entry is lookup in the map from (path, stage) to entries. In an index in order the
  answer is exactly the entry of that key, present or not, whether or not the miss makes the index
  sort itself and rebuild its table; the index stays in order and represents the same map.
\<close>

theorem index_find_refines:
  assumes "index_ok ix" "nul_free path"
  shows "\<exists>ix'. fastgit_index_find ix path stage = Inr (index_map ix (path, stage), ix') \<and>
    index_ok ix' \<and> index_map ix' = index_map ix"
  by (rule index_find_ok[OF assms])

theorem index_find_refines_witness:
  "\<exists>ix. fastgit_index_find fastgit_index_new (str ''a'') 0 = Inr (None, ix)"
  using index_find_refines[OF new_ok(1), of "str ''a''" 0] by (auto simp: new_ok(3) str_def)

text \<open>
  C3. Adding a buffer is an update of the map at (path, 0): afterwards that key has an entry with the
  id of the blob, the mode and the size given, every other key is unchanged, and the blob can be read
  by a later handle of the object database next to the index.
\<close>

theorem index_add_refines:
  assumes ix: "index_ok ix" and p: "nul_free path" and db: "odb_path_from_index ix = Inr dir"
    and o: "odb_ok crypto z mem U (fastgit_odb_open (fs dir))" and d: "(BLOB, data) \<in> U"
  shows "\<exists>ix' fs' e. fastgit_index_add_from_buffer crypto z path mode data (ix, fs) = Inr (ix', fs') \<and>
    index_ok ix' \<and> index_map ix' = (index_map ix)((path, STAGE_NORMAL) \<mapsto> e) \<and>
    obj_name crypto (BLOB, data) = Inr (ie_oid e) \<and> ie_mode e = mode \<and> ie_size e = of_nat (length data) \<and>
    fst (odb_get z mem (fastgit_odb_open (fs' dir)) (ie_oid e)) = Inr (BLOB, data) \<and> (\<forall>k. k \<noteq> dir \<longrightarrow> fs' k = fs k)"
proof -
  obtain x db' where w: "fastgit_odb_write crypto z BLOB data (fastgit_odb_open (fs dir)) = (Inr x, db')"
    "obj_name crypto (BLOB, data) = Inr x"
    "fst (odb_get z mem (fastgit_odb_open (oc_disk (odb_head db'))) x) = Inr (BLOB, data)"
    using write_opened[OF o d] by blast
  have c: "sha256_ok crypto" and s: "storable mem (BLOB, data)"
    using o d by (auto simp: odb_ok_def universe_def)
  have b: "blob_oid crypto data = Inr x" using blob_oid_name[OF c s] w(2) by simp
  let ?new = "buffer_entry x path mode (length data)" and ?upd = "buffer_update x path mode (length data)"
  have k: "ie_key ?new = (path, STAGE_NORMAL)" "\<And>e. ie_key (?upd e) = ie_key e"
    by (simp_all add: buffer_entry_def buffer_update_def blank_entry_def ie_key_def)
  let ?e = "case index_map ix (path, STAGE_NORMAL) of None \<Rightarrow> ?new | Some e \<Rightarrow> ?upd e"
  obtain ix1 where s1: "index_store ix path ?upd ?new = Inr (ix1, index_map ix (path, STAGE_NORMAL) = None)"
    "index_ok ix1" "index_map ix1 = (index_map ix)((path, STAGE_NORMAL) \<mapsto> ?e)"
    using store_spec[OF ix p k] by blast
  have bl: "index_blobs crypto z ix [data] fs = Inr (fs(dir := oc_disk (odb_head db')))"
    by (simp add: index_blobs_def db w(1))
  let ?ix = "ix1\<lparr>ix_dirty := True, ix_sorted := ix_sorted ix1 \<and> index_map ix (path, STAGE_NORMAL) \<noteq> None\<rparr>"
  have m: "index_ok ?ix" "index_map ?ix = index_map ix1" using s1(2) by (simp_all add: index_ok_def index_map_def)
  have e: "ie_oid ?e = x" "ie_mode ?e = mode" "ie_size ?e = of_nat (length data)"
    by (simp_all add: buffer_entry_def buffer_update_def blank_entry_def split: option.split)
  have "fastgit_index_add_from_buffer crypto z path mode data (ix, fs) = Inr (?ix, fs(dir := oc_disk (odb_head db')))"
    by (simp add: fastgit_index_add_from_buffer_def b bl s1(1))
  then show ?thesis using m s1(3) e w(2,3)
    by (intro exI[of _ ?ix] exI[of _ "fs(dir := oc_disk (odb_head db'))"] exI[of _ ?e]) simp
qed

theorem index_add_refines_witness:
  "\<exists>ix fs. fastgit_index_add_from_buffer None stuff_zlib (str ''a'') 0x81A4 [1, 2]
     (fastgit_index_new\<lparr>ix_path := Some (str ''/r/.git/index'')\<rparr>, \<lambda>_. empty_disk) = Inr (ix, fs)"
proof -
  let ?ix = "fastgit_index_new\<lparr>ix_path := Some (str ''/r/.git/index'')\<rparr>"
  have ok: "index_ok ?ix" using new_ok(1) by (simp add: index_ok_def)
  have p: "odb_path_from_index ?ix = Inr (str ''/r/.git'' @ str ''/objects'')"
    by (simp add: odb_path_from_index_def str_def Let_def)
  have n: "nul_free (str ''a'')" by (simp add: str_def)
  show ?thesis
    using index_add_refines[OF ok n p, of None stuff_zlib 10000 "{(BLOB, [1, 2])}" "\<lambda>_. empty_disk" "[1, 2]"]
      empty_ok[OF sha256_ok_portable stuff_zlib_ok small_universe] by blast
qed

text \<open>
  C32. Removing an entry removes its key from the map and nothing else, and keeps the index in order,
  provided the table has room (or the entry is the last one).
\<close>

theorem index_remove_refines:
  assumes "index_ok ix" "nul_free path" "index_map ix (path, stage) \<noteq> None"
    and "ix_count ix * 2 + 64 \<le> length (ix_ht ix) \<or> ie_key (last (ix_entries ix)) = (path, stage)"
  shows "\<exists>ix'. fastgit_index_remove ix path stage = Inr ix' \<and> index_ok ix' \<and>
    index_map ix' = (index_map ix)((path, stage) := None)"
  by (rule remove_spec[OF assms(1,2,4,3)])

theorem index_remove_refines_witness:
  "\<forall>st x. \<exists>ix ix'. store_tasks fastgit_index_new [(str ''a'', st, [], x), (str ''b'', st, [], x)] = Inr ix \<and>
     fastgit_index_remove ix (str ''a'') STAGE_NORMAL = Inr ix' \<and> index_map ix' (str ''a'', STAGE_NORMAL) = None"
proof (intro allI)
  fix st :: file_stat and x :: oid
  let ?ts = "[(str ''a'', st, [] :: bytes, x), (str ''b'', st, [], x)]"
  have nf: "\<forall>t \<in> set ?ts. nul_free (task_path t)" by (simp add: task_path_def str_def)
  from store_tasks_ok[OF new_ok(1) nf] obtain ix where s: "store_tasks fastgit_index_new ?ts = Inr ix" "index_ok ix"
    "(str ''a'', STAGE_NORMAL) \<in> dom (index_map ix)" by (auto simp: task_path_def)
  have "ix_count ix = 2 \<and> length (ix_ht ix) = 1024"
    using store_fresh_tasks[OF new_ok(1) _ _ _ s(1)] new_ok by (simp add: task_path_def str_def fastgit_index_new_def)
  then show "\<exists>ix ix'. store_tasks fastgit_index_new ?ts = Inr ix \<and>
     fastgit_index_remove ix (str ''a'') STAGE_NORMAL = Inr ix' \<and> index_map ix' (str ''a'', STAGE_NORMAL) = None"
    using index_remove_refines[OF s(2), of "str ''a''" STAGE_NORMAL] s(1,3) by (auto simp: str_def)
qed

text \<open>
  Without room the removal breaks the table. Store 481 different files in a new index and remove
  the first: the slot inserted for the moved entry triggers a rebuild while the count still includes
  the entry removed, and the table is left with a slot that points one past the last entry.
\<close>

theorem index_remove_stale_slot:
  assumes "length ts = 481" "distinct (map task_path ts)" "\<forall>t \<in> set ts. nul_free (task_path t)"
    and "store_tasks fastgit_index_new ts = Inr ix"
  shows "\<exists>ix'. fastgit_index_remove ix (task_path (hd ts)) STAGE_NORMAL = Inr ix' \<and> ix_count ix' = 480 \<and>
    (\<exists>q < length (ix_ht ix'). ix_ht ix' ! q = At 480)"
proof -
  have ok: "index_ok ix" using store_tasks_ok[OF new_ok(1) assms(3)] assms(4) by auto
  have c: "ix_count ix = 481 \<and> length (ix_ht ix) = 1024 \<and>
      (\<exists>es. ix_entries ix = es \<and> map ie_key es = map (\<lambda>t. (task_path t, STAGE_NORMAL)) ts)"
    using store_fresh_tasks[OF new_ok(1) _ assms(2) _ assms(4)] new_ok assms(1,3)
    by (simp add: fastgit_index_new_def)
  have ne: "ts \<noteq> []" using assms(1) by auto
  have "map ie_key (ix_entries ix) ! 0 = (task_path (hd ts), STAGE_NORMAL)"
    using c ne by (simp add: hd_conv_nth)
  then have k: "ie_key (ix_entries ix ! 0) = (task_path (hd ts), STAGE_NORMAL)" using c by simp
  have p: "nul_free (task_path (hd ts))" using assms(3) ne by simp
  from remove_rebuilds[OF ok p _ k] c show ?thesis by auto
qed

theorem index_remove_stale_slot_witness:
  "\<forall>st x. \<exists>ix ix' q. store_tasks fastgit_index_new (map (\<lambda>n. (replicate (Suc n) 97, st, [], x)) [0..<481]) = Inr ix \<and>
     fastgit_index_remove ix [97] STAGE_NORMAL = Inr ix' \<and> ix_count ix' = 480 \<and> ix_ht ix' ! q = At 480"
proof (intro allI)
  fix st :: file_stat and x :: oid
  let ?ts = "map (\<lambda>n. (replicate (Suc n) (97 :: byte), st, [] :: bytes, x)) [0..<481]"
  have nf: "\<forall>t \<in> set ?ts. nul_free (task_path t)" by (auto simp: task_path_def nul_free_def)
  have "inj_on (\<lambda>n. replicate (Suc n) (97 :: byte)) {0..<481}"
    by (rule inj_onI) (metis length_replicate nat.inject)
  then have d: "distinct (map task_path ?ts)"
    by (simp add: distinct_map task_path_def comp_def del: replicate_Suc)
  have h: "task_path (hd ?ts) = [97]" by (simp add: task_path_def hd_map)
  obtain ix where s: "store_tasks fastgit_index_new ?ts = Inr ix" using store_tasks_ok[OF new_ok(1) nf] by blast
  from index_remove_stale_slot[OF _ d nf s] show "\<exists>ix ix' q. store_tasks fastgit_index_new ?ts = Inr ix \<and>
     fastgit_index_remove ix [97] STAGE_NORMAL = Inr ix' \<and> ix_count ix' = 480 \<and> ix_ht ix' ! q = At 480"
    unfolding h using s by auto
qed

end
