(* ===== verification/IndexTree.thy ===== *)
theory IndexTree
  imports IndexProps
begin

unbundle bit_operations_syntax

text \<open>
  Trees from an index and back (\<^verbatim>\<open>src/index/index.c\<close>): writing the tree objects of an index,
  directory by directory, and filling an index from a tree.
\<close>

section \<open>Writing trees\<close>

definition TREE_MODE :: u32 where "TREE_MODE = 0x4000"

text \<open>The part of an entry's path below a pfx.\<close>

definition below :: "bytes \<Rightarrow> index_entry \<Rightarrow> bytes option" where
  "below pfx e =
     (if ie_stage e \<noteq> STAGE_NORMAL then None
      else if pfx \<noteq> [] \<and> take (length pfx) (ie_path e) \<noteq> pfx then None
      else Some (drop (length pfx) (ie_path e)))"

definition direct_files :: "index_entry list \<Rightarrow> bytes \<Rightarrow> tree_entry list" where
  "direct_files es pfx = List.map_filter (\<lambda>e.
     case below pfx e of
       None \<Rightarrow> None
     | Some p \<Rightarrow> if 47 \<in> set p then None
                 else Some \<lparr>te_oid = ie_oid e, te_path = p, te_mode = ie_mode e\<rparr>) es"

definition next_dir :: "bytes \<Rightarrow> index_entry \<Rightarrow> bytes option" where
  "next_dir pfx e =
     (case below pfx e of None \<Rightarrow> None | Some p \<Rightarrow> if 47 \<in> set p then Some (takeWhile (\<lambda>c. c \<noteq> 47) p) else None)"

text \<open>Each directory once, in the order of its first entry.\<close>

definition subdirs :: "index_entry list \<Rightarrow> bytes \<Rightarrow> bytes list" where
  "subdirs es pfx = foldl (\<lambda>ds e.
     case next_dir pfx e of None \<Rightarrow> ds | Some d \<Rightarrow> if d \<in> set ds then ds else ds @ [d]) [] es"

definition add_files :: "tree_entry list \<Rightarrow> tree_data res" where
  "add_files ts = foldl (\<lambda>r t. bindr r (\<lambda>d. fastgit_tree_add_entry d t)) (Inr fastgit_tree_create) ts"

text \<open>The mode is printed into a buffer with room for any 32-bit number.\<close>

definition tree_content :: "tree_data \<Rightarrow> bytes res" where
  "tree_content d = bindr (as_struct d) (\<lambda>ts. Inr (concat (map entry_bytes ts)))"

lemma subdirs_gen:
  "set (foldl (\<lambda>ds e. case next_dir pfx e of None \<Rightarrow> ds | Some d \<Rightarrow> if d \<in> set ds then ds else ds @ [d]) acc es) =
     set acc \<union> {d. \<exists>e \<in> set es. next_dir pfx e = Some d}"
  "distinct acc \<Longrightarrow> distinct (foldl (\<lambda>ds e. case next_dir pfx e of None \<Rightarrow> ds | Some d \<Rightarrow> if d \<in> set ds then ds else ds @ [d]) acc es)"
  by (induction es arbitrary: acc) (auto split: option.splits if_splits)

lemma set_subdirs: "set (subdirs es pfx) = {d. \<exists>e \<in> set es. next_dir pfx e = Some d}"
  by (simp add: subdirs_def subdirs_gen(1))

lemma distinct_subdirs: "distinct (subdirs es pfx)"
  by (simp add: subdirs_def subdirs_gen(2))

lemma below_SomeD: "below pfx e = Some p \<Longrightarrow> ie_path e = pfx @ p \<and> ie_stage e = STAGE_NORMAL"
  by (auto simp: below_def split: if_splits) (metis append_take_drop_id)

lemma next_dir_SomeD: "next_dir pfx e = Some d \<Longrightarrow> \<exists>r. ie_path e = pfx @ d @ 47 # r \<and> 47 \<notin> set d"
proof -
  assume "next_dir pfx e = Some d"
  then obtain p where p: "below pfx e = Some p" "47 \<in> set p" "d = takeWhile (\<lambda>c. c \<noteq> 47) p"
    by (auto simp: next_dir_def split: option.splits if_splits)
  have "dropWhile (\<lambda>c. c \<noteq> 47) p \<noteq> []" using p(2) by (auto simp: dropWhile_eq_Nil_conv)
  then obtain c r where r: "dropWhile (\<lambda>c. c \<noteq> 47) p = c # r" by (cases "dropWhile (\<lambda>c. c \<noteq> 47) p") auto
  then have "c = 47" using hd_dropWhile[of "\<lambda>c. c \<noteq> 47" p] by auto
  then have "p = d @ 47 # r" using r p(3) takeWhile_dropWhile_id[of "\<lambda>c. c \<noteq> 47" p] by simp
  moreover have "47 \<notin> set d" using p(3) by (auto dest: set_takeWhileD)
  ultimately show ?thesis using below_SomeD[OF p(1)] by simp
qed

text \<open>Prefixes get longer and stay within the longest path.\<close>

definition longest :: "index_entry list \<Rightarrow> nat" where
  "longest es = Max (insert 0 ((\<lambda>e. length (ie_path e)) ` set es))"

lemma longest_subdir: "d \<in> set (subdirs es pfx) \<Longrightarrow> length pfx + length d < longest es"
proof -
  assume "d \<in> set (subdirs es pfx)"
  then obtain e r where e: "e \<in> set es" "ie_path e = pfx @ d @ 47 # r"
    using next_dir_SomeD by (fastforce simp: set_subdirs)
  then have "length (ie_path e) \<le> longest es" unfolding longest_def by (intro Max_ge finite_insert[THEN iffD2] finite_imageI finite_set insertI2 imageI)
  then show ?thesis using e(2) by simp
qed

function write_tree_recursive ::
    "evp option \<Rightarrow> zlib \<Rightarrow> index_entry list \<Rightarrow> bytes \<Rightarrow> odb \<Rightarrow> oid res \<times> odb" where
  "write_tree_recursive crypto z es pfx db =
     (case foldl (\<lambda>r name. case r of
           (Inl e, db1) \<Rightarrow> (Inl e, db1)
         | (Inr t, db1) \<Rightarrow>
             (case write_tree_recursive crypto z es (pfx @ name @ [47]) db1 of
                (Inl e, db2) \<Rightarrow> (Inl e, db2)
              | (Inr x, db2) \<Rightarrow> (fastgit_tree_add_entry t \<lparr>te_oid = x, te_path = name, te_mode = TREE_MODE\<rparr>, db2)))
         (add_files (direct_files es pfx), db) (subdirs es pfx) of
        (Inl e, db') \<Rightarrow> (Inl e, db')
      | (Inr t, db') \<Rightarrow>
          (case tree_content t of
             Inl e \<Rightarrow> (Inl e, db')
           | Inr txt \<Rightarrow> fastgit_odb_write crypto z TREE txt db'))"
  by pat_completeness auto
termination
  by (relation "measure (\<lambda>(crypto, z, es, pfx, db). longest es - length pfx)")
    (auto dest!: longest_subdir)

declare write_tree_recursive.simps [simp del]

text \<open>The entries are put in order; unlike elsewhere the table of slots is not rebuilt.\<close>

definition sort_for_tree :: "index \<Rightarrow> index" where
  "sort_for_tree ix =
     (if \<not> ix_sorted ix \<and> 1 < ix_count ix
      then ix\<lparr>ix_entries := qsort_index (ix_entries ix), ix_sorted := True\<rparr> else ix)"

text \<open>An empty index is written as an empty tree.\<close>

definition fastgit_index_write_tree :: "evp option \<Rightarrow> zlib \<Rightarrow> index \<times> fs \<Rightarrow> oid res \<times> index \<times> fs" where
  "fastgit_index_write_tree crypto z ixfs =
     (case ixfs of (ix, fs) \<Rightarrow>
       if fastgit_index_has_conflicts ix then (Inl EINVAL, ix, fs)
       else let ix1 = sort_for_tree ix in (case odb_path_from_index ix of
                Inl e \<Rightarrow> (Inl e, ix1, fs)
              | Inr dir \<Rightarrow>
                  (case (if ix_entries ix = [] then fastgit_odb_write crypto z TREE [] (fastgit_odb_open (fs dir))
                         else write_tree_recursive crypto z (ix_entries ix1) [] (fastgit_odb_open (fs dir))) of
                     (r, db) \<Rightarrow> (r, ix1, fs(dir := oc_disk (odb_head db))))))"

section \<open>Reading a tree\<close>

text \<open>The items of a tree; the flag tells that a mode was too long. A malformed rest is ignored.\<close>

function read_items :: "bytes \<Rightarrow> tree_entry list \<times> bool" where
  "read_items s =
     (case split_at 32 s of
        None \<Rightarrow> ([], False)
      | Some (m, r) \<Rightarrow>
          if 16 \<le> length m then ([], True)
          else (case split_at 0 r of
              None \<Rightarrow> ([], False)
            | Some (name, r2) \<Rightarrow>
                if length r2 < 32 then ([], False)
                else (case read_items (drop 32 r2) of
                    (ts, bad) \<Rightarrow>
                      (\<lparr>te_oid = \<lparr>oid_algo = HASH_SHA256, oid_hash = take 32 r2\<rparr>, te_path = name,
                        te_mode = ucast (fst (strtoul 8 (cstr m)))\<rparr> # ts, bad))))"
  by pat_completeness auto
termination
  by (relation "measure length") (auto dest!: split_at_length)

declare read_items.simps [simp del]

definition item_entry :: "bytes \<Rightarrow> tree_entry \<Rightarrow> index_entry" where
  "item_entry pfx t =
     (let full = pfx @ te_path t in blank_entry (te_oid t) full (te_mode t) STAGE_NORMAL (path_flags full))"

text \<open>
  Directories go on the stack, files into the index. On objects that contain themselves the loop
  would not end.
\<close>

partial_function (option) read_tree_loop ::
    "zlib \<Rightarrow> nat \<Rightarrow> (oid \<times> bytes) list \<Rightarrow> index_entry list \<Rightarrow> odb \<Rightarrow> (unit res \<times> index_entry list \<times> odb) option" where
  "read_tree_loop z mem stack es db =
     (if stack = [] then Some (Inr (), es, db)
      else case fastgit_odb_read z mem (fst (last stack)) db of
        (Inl e, db') \<Rightarrow> Some (Inl e, es, db')
      | (Inr ob, db') \<Rightarrow>
          if oo_type ob \<noteq> TREE then Some (Inl EINVAL, es, db')
          else (case read_items (oo_data ob) of
            (ts, bad) \<Rightarrow>
              (let pfx = snd (last stack); es' = es @ map (item_entry pfx) (filter (\<lambda>t. te_mode t \<noteq> TREE_MODE) ts)
               in if bad then Some (Inl ERROR, es', db')
                  else read_tree_loop z mem
                    (butlast stack @ map (\<lambda>t. (te_oid t, pfx @ te_path t @ [47])) (filter (\<lambda>t. te_mode t = TREE_MODE) ts))
                    es' db')))"

definition fastgit_index_read_tree :: "zlib \<Rightarrow> nat \<Rightarrow> oid \<Rightarrow> index \<times> fs \<Rightarrow> (unit res \<times> index) option" where
  "fastgit_index_read_tree z mem x ixfs =
     (case ixfs of (ix, fs) \<Rightarrow>
       case odb_path_from_index ix of
         Inl e \<Rightarrow> Some (Inl e, ix)
       | Inr dir \<Rightarrow>
           (case fastgit_index_clear ix of
              Inl e \<Rightarrow> Some (Inl Undefined, ix)
            | Inr ix1 \<Rightarrow>
                (case read_tree_loop z mem [(x, [])] [] (fastgit_odb_open (fs dir)) of
                   None \<Rightarrow> None
                 | Some (Inl e, es, db) \<Rightarrow> Some (Inl e, ix1\<lparr>ix_entries := es\<rparr>)
                 | Some (Inr _, es, db) \<Rightarrow>
                     Some (Inr (), ix1\<lparr>ix_entries := es, ix_dirty := True, ix_sorted := False\<rparr>))))"

end
