(* ===== verification/OdbDisk.thy ===== *)
theory OdbDisk
  imports OdbProps
begin

text \<open>
  What outlives a handle of the database: a store that can be reopened, as an extension of the
  interface of stores, and the proof that the database provides it. The objects in the cache of a
  handle are on disk, so a later handle on the same directory reads whatever this one could read.
\<close>

section \<open>Stores that can be reopened\<close>

locale durable_store = object_store +
  fixes reopen :: "'a \<Rightarrow> 'a"
  assumes reopen_keeps: "ok s \<Longrightarrow> ok (reopen s) \<and> (\<forall>x v. key x \<and> fst (get s x) = Inr v \<longrightarrow> fst (get (reopen s) x) = Inr v)"
begin

lemma reopened_ok: "ok s \<Longrightarrow> ok (reopen s)"
  using reopen_keeps by blast

lemma reopened_extends: "ok s \<Longrightarrow> extends s (reopen s)"
  using reopen_keeps by (auto simp: extends_def holds_def)

lemma put_all_reopen:
  assumes "ok s" "\<forall>v \<in> set vs. adm v"
  shows "\<exists>ks t. put_all s vs = (Inr ks, t) \<and> ok (reopen t) \<and> list_all2 (holds (reopen t)) ks vs \<and> extends s (reopen t)"
proof -
  obtain ks t where t: "put_all s vs = (Inr ks, t)" "ok t" "list_all2 (holds t) ks vs" "extends s t"
    using put_all_holds[OF assms] by blast
  have e: "extends t (reopen t)" by (rule reopened_extends[OF t(2)])
  have "list_all2 (holds (reopen t)) ks vs"
    by (rule list_all2_mono[OF t(3)]) (use e in \<open>simp add: extends_def\<close>)
  then show ?thesis using t reopened_ok[OF t(2)] extends_trans[OF t(4) e] by blast
qed

end

section \<open>The cache mirrors the disk\<close>

definition on_disk :: "zlib \<Rightarrow> nat \<Rightarrow> disk \<Rightarrow> oid \<Rightarrow> bool" where
  "on_disk z mem dk x \<longleftrightarrow> read_packs z mem x (d_packs dk) \<noteq> Inr None \<or> map_of (d_loose dk) (odb_object_path x) \<noteq> None"

definition backed :: "zlib \<Rightarrow> nat \<Rightarrow> odb_core \<Rightarrow> bool" where
  "backed z mem c \<longleftrightarrow> (\<forall>s e. oc_cache c s = Some e \<longrightarrow> on_disk z mem (oc_disk c) (ce_oid e))"

definition odb_durable :: "evp option \<Rightarrow> zlib \<Rightarrow> nat \<Rightarrow> (obj_type \<times> bytes) set \<Rightarrow> odb \<Rightarrow> bool" where
  "odb_durable crypto z mem U db \<longleftrightarrow> odb_ok crypto z mem U db \<and> backed z mem (odb_head db)"

definition odb_reopen :: "odb \<Rightarrow> odb" where
  "odb_reopen db = fastgit_odb_open (oc_disk (odb_head db))"

lemma readable_on_disk:
  "readable z mem c x \<longleftrightarrow> cache_find (oc_cache c) x [0..<8] \<noteq> None \<or> on_disk z mem (oc_disk c) x"
  by (auto simp: readable_def on_disk_def)

lemma backed_readable: "backed z mem c \<Longrightarrow> readable z mem c x \<Longrightarrow> on_disk z mem (oc_disk c) x"
  unfolding readable_on_disk backed_def by (metis cache_find_SomeD option.exhaust)

lemma backed_open [simp]: "backed z mem (odb_head (fastgit_odb_open dk))"
  by (simp add: backed_def fastgit_odb_open_def fastgit_odb_new_def)

lemma open_readable: "readable z mem (odb_head (fastgit_odb_open dk)) x \<longleftrightarrow> on_disk z mem dk x"
  by (simp add: readable_on_disk fastgit_odb_open_def fastgit_odb_new_def upt_conv_Cons)

lemma backed_counters [simp]:
  "backed z mem (c\<lparr>oc_reads := n\<rparr>) = backed z mem c"
  "backed z mem (c\<lparr>oc_writes := n\<rparr>) = backed z mem c"
  "backed z mem (c\<lparr>oc_cache_misses := n\<rparr>) = backed z mem c"
  "backed z mem (odb_hit c) = backed z mem c"
  by (simp_all add: backed_def odb_hit_def)

lemma core_cache_backed:
  assumes "backed z mem c" "on_disk z mem (oc_disk c) x"
  shows "backed z mem (core_cache rep x t d c)"
  using assms cache_put_entries[of rep "\<lparr>ce_oid = x, ce_type = t, ce_data = d, ce_gen = oc_cache_gen c\<rparr>" "oc_cache c" "[0..<8]"]
  unfolding backed_def core_cache_eq core_cache_simps by fastforce

lemma on_disk_loose: "on_disk z mem dk x \<Longrightarrow> on_disk z mem (dk\<lparr>d_loose := d_loose dk @ l\<rparr>) x"
  by (auto simp: on_disk_def map_add_def split: option.splits)

lemma write_disk_backed:
  assumes "backed z mem c" "write_disk z x t d buf c = Inr c'"
  shows "backed z mem c'"
proof (cases "map_of (d_loose (oc_disk c)) (odb_object_path x)")
  case (Some f)
  then have "c' = core_cache False x t d c" using assms(2) by (auto simp: write_disk_def Let_def bindr_Inr_iff)
  then show ?thesis using core_cache_backed[OF assms(1)] Some by (simp add: on_disk_def)
next
  case None
  then obtain zd where c': "c' = core_cache True x t d
      (c\<lparr>oc_disk := (oc_disk c)\<lparr>d_loose := d_loose (oc_disk c) @ [(odb_object_path x, zd)]\<rparr>\<rparr>)"
    using assms(2) by (auto simp: write_disk_def Let_def bindr_Inr_iff)
  show ?thesis unfolding c'
  proof (rule core_cache_backed)
    show "backed z mem (c\<lparr>oc_disk := (oc_disk c)\<lparr>d_loose := d_loose (oc_disk c) @ [(odb_object_path x, zd)]\<rparr>\<rparr>)"
      using assms(1) by (simp add: backed_def on_disk_loose)
  qed (simp add: on_disk_def map_add_def None)
qed

lemma write_backed:
  assumes "backed z mem (odb_head db)" "fastgit_odb_write crypto z t d db = (r, db')"
  shows "backed z mem (odb_head db')"
proof -
  obtain c0 bs where db: "db = Odb c0 bs" by (cases db)
  have b: "backed z mem (c0\<lparr>oc_writes := oc_writes c0 + 1\<rparr>)" using assms(1) by (simp add: db)
  show ?thesis using assms(2) b
    by (auto simp: db fastgit_odb_write_def Let_def bindr_Inr_iff split: sum.splits if_splits
        dest: write_disk_backed[OF b[unfolded Suc_eq_plus1[symmetric]]])
qed

lemma read_backed:
  assumes "backed z mem (odb_head db)" "odb_backends db = []" "odb_get z mem db x = (r, db')"
  shows "backed z mem (odb_head db')"
proof -
  obtain c0 where db: "db = Odb c0 []" using assms(2) by (cases db) simp
  let ?c = "c0\<lparr>oc_reads := oc_reads c0 + 1\<rparr>"
  have b: "backed z mem ?c" using assms(1) by (simp add: db)
  have d: "backed z mem c1" if "read_disk z mem x ?c = (r1, c1)" for r1 c1
  proof (cases "map_of (d_loose (oc_disk c0)) (odb_object_path x)")
    case None
    then show ?thesis using that b by (auto simp: read_disk_def split: sum.splits option.splits)
  next
    case (Some f)
    then have "on_disk z mem (oc_disk c0) x" by (simp add: on_disk_def)
    then show ?thesis using that b Some
      by (auto simp: read_disk_def split: sum.splits option.splits intro!: core_cache_backed)
  qed
  then show ?thesis using assms(3) b
    by (auto simp: db odb_get_def Let_def split: option.splits if_splits prod.splits)
qed

section \<open>The database can be reopened\<close>

interpretation durable: durable_store "odb_put crypto z" "odb_get z mem" "odb_durable crypto z mem U"
  "\<lambda>p. p \<in> U" sha_key odb_reopen
proof
  fix s :: odb and v :: "obj_type \<times> bytes"
  assume s: "odb_durable crypto z mem U s" and v: "v \<in> U"
  have ok: "odb_ok crypto z mem U s" and b: "backed z mem (odb_head s)" using s by (simp_all add: odb_durable_def)
  obtain k s' where p: "odb_put crypto z s v = (Inr k, s')" "odb_ok crypto z mem U s'" "sha_key k"
    "fst (odb_get z mem s' k) = Inr v"
    using odbs.put_get[OF ok v] by blast
  then show "\<exists>k s'. odb_put crypto z s v = (Inr k, s') \<and> odb_durable crypto z mem U s' \<and> sha_key k \<and>
      fst (odb_get z mem s' k) = Inr v"
    using write_backed[OF b] by (auto simp: odb_durable_def odb_put_def)
  fix r s'' y w
  assume "odb_put crypto z s v = (r, s'')" "sha_key y" "fst (odb_get z mem s y) = Inr w"
  then show "fst (odb_get z mem s'' y) = Inr w" by (rule odbs.put_keeps[OF ok v])
next
  fix s s' :: odb and x g
  assume s: "odb_durable crypto z mem U s" and x: "sha_key x" and g: "odb_get z mem s x = (g, s')"
  have ok: "odb_ok crypto z mem U s" and b: "backed z mem (odb_head s)" using s by (simp_all add: odb_durable_def)
  have "backed z mem (odb_head s')" using ok by (intro read_backed[OF b _ g]) (simp add: odb_ok_def)
  then show "odb_durable crypto z mem U s' \<and>
      (\<forall>y w. sha_key y \<and> fst (odb_get z mem s y) = Inr w \<longrightarrow> fst (odb_get z mem s' y) = Inr w)"
    using odbs.get_keeps[OF ok x g] by (simp add: odb_durable_def)
next
  fix s :: odb
  assume s: "odb_durable crypto z mem U s"
  have ok: "odb_ok crypto z mem U s" and b: "backed z mem (odb_head s)" using s by (simp_all add: odb_durable_def)
  have ok': "odb_ok crypto z mem U (odb_reopen s)"
    using ok by (simp add: odb_reopen_def odb_ok_def fastgit_odb_open_def fastgit_odb_new_def core_ok_def cache_ok_def)
  have "fst (odb_get z mem (odb_reopen s) x) = Inr v" if x: "sha_key x" "fst (odb_get z mem s x) = Inr v" for x v
  proof -
    obtain g s' where g: "odb_get z mem s x = (g, s')" by fastforce
    then have r: "readable z mem (odb_head s) x" "named crypto U x v"
      using odb_get_ok[OF ok x(1) g] x(2) by fastforce+
    then have "readable z mem (odb_head (odb_reopen s)) x"
      unfolding odb_reopen_def open_readable by (intro backed_readable[OF b])
    then show ?thesis by (rule get_of_readable[OF ok' x(1) _ r(2)])
  qed
  then show "odb_durable crypto z mem U (odb_reopen s) \<and>
      (\<forall>x v. sha_key x \<and> fst (odb_get z mem s x) = Inr v \<longrightarrow> fst (odb_get z mem (odb_reopen s) x) = Inr v)"
    using ok' by (simp add: odb_durable_def odb_reopen_def)
qed

lemma opened_durable: "odb_ok crypto z mem U (fastgit_odb_open dk) \<Longrightarrow> odb_durable crypto z mem U (fastgit_odb_open dk)"
  by (simp add: odb_durable_def)

section \<open>A digest for examples\<close>

text \<open>It only tells lengths apart.\<close>

definition toy_hash :: evp where
  "toy_hash algo m = Some (of_nat (length m) # replicate 31 0)"

abbreviation toy_oid :: "byte \<Rightarrow> oid" where
  "toy_oid n \<equiv> \<lparr>oid_algo = HASH_SHA256, oid_hash = n # replicate 31 0\<rparr>"

lemma toy_name: "storable mem (t, d) \<Longrightarrow> obj_name (Some toy_hash) (t, d) = Inr (toy_oid (of_nat (length (obj_text t d))))"
  using serialize_storable(1)[of mem t d]
  by (simp add: obj_name_def fastgit_object_hash_def fastgit_hash_def evp_fast_def toy_hash_def)

lemma toy_params: "sha256_ok (Some toy_hash)"
  by (rule sha256_ok_evp) (simp add: toy_hash_def)

end
