(* ===== verification/IndexIO.thy ===== *)
theory IndexIO
  imports IndexProps
begin

unbundle bit_operations_syntax

text \<open>
  The index file of \<^verbatim>\<open>src/index/index.c\<close>: writing an index, reading and opening it, and the round trip
  between them. A file is its modification time and its bytes, \<open>None\<close> when it cannot be opened;
  writing the lock file and renaming it succeed.
\<close>

section \<open>One entry\<close>

definition INDEX_SIGNATURE :: u32 where "INDEX_SIGNATURE = 0x44495243"
definition INDEX_VERSION :: u32 where "INDEX_VERSION = 2"

definition index_algo_from_len :: "nat \<Rightarrow> byte" where
  "index_algo_from_len n =
     (if n = 20 then HASH_SHA1 else if n = 32 then HASH_SHA256 else if n = 48 then HASH_SHA384
      else if n = 64 then HASH_SHA3_512 else HASH_SHA256)"

text \<open>Ten integers, the id cut or filled to the width of the index, flags, path, NUL, padding.\<close>

definition entry_fields :: "index_entry \<Rightarrow> u32 list" where
  "entry_fields e = [ie_ctime_sec e, ie_ctime_nsec e, ie_mtime_sec e, ie_mtime_nsec e, ie_dev e, ie_ino e,
     ie_mode e, ie_uid e, ie_gid e, ie_size e]"

definition raw_flags :: "index_entry \<Rightarrow> u16" where
  "raw_flags e = (if ie_flags e \<noteq> 0 then ie_flags e
     else path_flags (ie_path e) OR push_bit 12 (ucast (ie_stage e)))"

definition fixed_size :: "nat \<Rightarrow> nat" where
  "fixed_size oid_len = 40 + oid_len + 2"

definition entry_pad :: "nat \<Rightarrow> bytes \<Rightarrow> nat" where
  "entry_pad oid_len path = (8 - (fixed_size oid_len + length path + 1) mod 8) mod 8"

definition entry_to_disk :: "nat \<Rightarrow> index_entry \<Rightarrow> bytes" where
  "entry_to_disk oid_len e =
     concat (map be32 (entry_fields e)) @
     take oid_len (oid_hash (ie_oid e) @ replicate (oid_len - length (oid_hash (ie_oid e))) 0) @
     be16 (raw_flags e) @ ie_path e @ [0] @ replicate (entry_pad oid_len (ie_path e)) 0"

definition index_entry_from_disk :: "u32 list \<Rightarrow> byte \<Rightarrow> bytes \<Rightarrow> u16 \<Rightarrow> bytes \<Rightarrow> index_entry" where
  "index_entry_from_disk fs algo oid flags path =
     \<lparr>ie_oid = \<lparr>oid_algo = algo, oid_hash = oid\<rparr>, ie_path = path, ie_mode = fs ! 6,
      ie_stage = ucast (drop_bit 12 flags AND 3), ie_ctime_sec = fs ! 0, ie_ctime_nsec = fs ! 1,
      ie_mtime_sec = fs ! 2, ie_mtime_nsec = fs ! 3, ie_dev = fs ! 4, ie_ino = fs ! 5, ie_uid = fs ! 7,
      ie_gid = fs ! 8, ie_size = fs ! 9, ie_flags = flags, ie_flags_extended = 0\<rparr>"

section \<open>Writing\<close>

text \<open>An oid length of 0 stands for the default.\<close>

definition default_oid :: "index \<Rightarrow> index" where
  "default_oid ix = (if ix_oid_len ix = 0 then ix\<lparr>ix_oid_len := 32, ix_oid_algo := HASH_SHA256\<rparr> else ix)"

definition index_body :: "index \<Rightarrow> bytes" where
  "index_body ix = be32 INDEX_SIGNATURE @ be32 INDEX_VERSION @ be32 (of_nat (ix_count ix)) @
     concat (map (entry_to_disk (ix_oid_len ix)) (ix_entries ix))"

text \<open>
  The buffer has room for \<open>oid_len\<close> bytes of checksum; a digest of another length overruns it or
  leaves bytes of the file uninitialised. When the hash fails, the old checksum is written.
\<close>

definition fastgit_index_write_to :: "evp option \<Rightarrow> index \<Rightarrow> (index \<times> bytes) res" where
  "fastgit_index_write_to crypto ix =
     bindr (if \<not> ix_sorted ix \<and> 1 < ix_count ix then sort_index ix else Inr ix) (\<lambda>ix1.
     let ix2 = default_oid (ix1\<lparr>ix_sorted := True\<rparr>); body = index_body ix2 in
     (case fastgit_hash crypto (ix_oid_algo ix2) body of
        Inl Undefined \<Rightarrow> Inl Undefined
      | h \<Rightarrow>
          let ck = (case h of Inl e \<Rightarrow> ix_checksum ix2 | Inr d \<Rightarrow> Some d);
              dg = (case ck of None \<Rightarrow> replicate (ix_oid_len ix2) 0 | Some d \<Rightarrow> h_digest d)
          in if length dg \<noteq> ix_oid_len ix2 then Inl Undefined
             else Inr (ix2\<lparr>ix_checksum := ck, ix_dirty := False\<rparr>, body @ dg)))"

definition fastgit_index_write :: "evp option \<Rightarrow> index \<Rightarrow> (index \<times> bytes) res" where
  "fastgit_index_write crypto ix = (if ix_path ix = None then Inl EINVAL else fastgit_index_write_to crypto ix)"

section \<open>Reading\<close>

text \<open>
  The loop ends early when the next entry does not fit. \<open>cap\<close> is the capacity of the array: an entry
  stored past it is written outside the allocation, an oid length above 64 outside the disk entry.
\<close>

fun read_entries :: "nat \<Rightarrow> nat \<Rightarrow> byte \<Rightarrow> nat \<Rightarrow> index_entry list \<Rightarrow> bytes \<Rightarrow> (index_entry list \<times> bytes) res" where
  "read_entries cap 0 algo oid_len es s = Inr (es, s)"
| "read_entries cap (Suc n) algo oid_len es s =
     (if length s < fixed_size oid_len then Inr (es, s)
      else if 64 < oid_len then Inl Undefined
      else case read_many get32 10 s of
        None \<Rightarrow> Inl Undefined
      | Some (fs, r1) \<Rightarrow>
          (case get16 (drop oid_len r1) of
             None \<Rightarrow> Inl Undefined
           | Some (flags, r2) \<Rightarrow>
               if cap \<le> length es then Inl Undefined
               else (case split_at 0 r2 of
                   None \<Rightarrow> Inl ERROR
                 | Some (path, r3) \<Rightarrow>
                     read_entries cap n algo oid_len
                       (es @ [index_entry_from_disk fs algo (take oid_len r1) flags path])
                       (drop (entry_pad oid_len path) r3))))"

text \<open>
  The array grows to \<open>header.count * 2\<close>, a product of 32 bits; an entry takes 136 bytes. \<open>mem\<close> bounds
  the allocation. On failure the index is left half read; its one caller frees it.
\<close>

definition read_capacity :: "nat \<Rightarrow> nat \<Rightarrow> u32 \<Rightarrow> nat res" where
  "read_capacity mem cap n =
     (if cap < unat n then
        let cap' = unat (n * 2) in
        if cap' = 0 then Inl Undefined else if mem < cap' * 136 then Inl ENOMEM else Inr cap'
      else Inr cap)"

definition fastgit_index_read :: "nat \<Rightarrow> nat \<Rightarrow> (nat \<times> bytes) option \<Rightarrow> index \<Rightarrow> index res" where
  "fastgit_index_read mem cap file ix =
     (case file of
        None \<Rightarrow> Inl ENOENT
      | Some (mtime, data) \<Rightarrow>
          if length data < 12 + 32 then Inl ERROR
          else case read_many get32 3 data of
            Some ([sig, version, n], s) \<Rightarrow>
              if sig \<noteq> INDEX_SIGNATURE then Inl ERROR
              else if version \<noteq> INDEX_VERSION then Inl EUNSUPPORTED
              else let ix1 = (if n = 0 then ix else default_oid ix)\<lparr>ix_mtime := mtime\<rparr> in
                bindr (if n = 0 then Inr (ix_entries ix1, s)
                       else bindr (read_capacity mem cap n) (\<lambda>cap'.
                         read_entries cap' (unat n) (ix_oid_algo ix1) (ix_oid_len ix1) (ix_entries ix1) s)) (\<lambda>(es, r).
                bindr (fg_ht_rebuild es) (\<lambda>ht.
                  Inr (ix1\<lparr>ix_entries := es, ix_ht := ht, ix_sorted := True,
                    ix_checksum := (if 32 \<le> length r then Some \<lparr>h_digest = take 32 r, h_algo = HASH_SHA256\<rparr>
                                    else ix_checksum ix1)\<rparr>)))
          | _ \<Rightarrow> Inl Undefined)"

definition fastgit_index_open :: "nat \<Rightarrow> bytes \<Rightarrow> (nat \<times> bytes) option \<Rightarrow> index res" where
  "fastgit_index_open mem path file =
     fastgit_index_read mem 1024 file (fastgit_index_new\<lparr>ix_path := Some path\<rparr>)"

section \<open>Well-formed entries\<close>

text \<open>An id of SHA-256, and a stage of two bits that the flags, when there are any, repeat.\<close>

definition entry_wf :: "index_entry \<Rightarrow> bool" where
  "entry_wf e \<longleftrightarrow> oid_algo (ie_oid e) = HASH_SHA256 \<and> length (oid_hash (ie_oid e)) = 32 \<and> nul_free (ie_path e) \<and>
     ie_flags_extended e = 0 \<and> ucast (drop_bit 12 (raw_flags e) AND 3) = ie_stage e"

definition index_wf :: "index \<Rightarrow> bool" where
  "index_wf ix \<longleftrightarrow> (\<forall>e \<in> set (ix_entries ix). entry_wf e) \<and> ix_oid_len ix = 32 \<and> ix_oid_algo ix = HASH_SHA256"

text \<open>What an entry is after a trip through the file: flags of 0 are filled in.\<close>

definition stored :: "index_entry \<Rightarrow> index_entry" where
  "stored e = e\<lparr>ie_flags := raw_flags e\<rparr>"

lemma stored_simps [simp]: "ie_key (stored e) = ie_key e" "ie_path (stored e) = ie_path e"
  by (simp_all add: stored_def ie_key_def)

lemma from_disk_stored:
  assumes "entry_wf e"
  shows "index_entry_from_disk (entry_fields e) HASH_SHA256 (oid_hash (ie_oid e)) (raw_flags e) (ie_path e) = stored e"
  using assms
  by (cases e, cases "ie_oid e") (simp add: index_entry_from_disk_def entry_fields_def stored_def entry_wf_def)

lemma read_entries_disk:
  assumes "\<forall>e \<in> set xs. entry_wf e" "length es + length xs \<le> cap"
  shows "read_entries cap (length xs) HASH_SHA256 32 es (concat (map (entry_to_disk 32) xs) @ r) =
    Inr (es @ map stored xs, r)"
  using assms
proof (induction xs arbitrary: es)
  case (Cons e xs)
  let ?r = "concat (map (entry_to_disk 32) xs) @ r"
  have wf: "entry_wf e" and l: "length (oid_hash (ie_oid e)) = 32" and nf: "0 \<notin> set (ie_path e)"
    using Cons.prems(1) by (auto simp: entry_wf_def nul_free_def)
  let ?t = "be16 (raw_flags e) @ ie_path e @ 0 # replicate (entry_pad 32 (ie_path e)) 0 @ ?r"
  have d: "entry_to_disk 32 e @ ?r = concat (map be32 (entry_fields e)) @ oid_hash (ie_oid e) @ ?t"
    using l by (simp add: entry_to_disk_def)
  have "length (entry_fields e) = 10" by (simp add: entry_fields_def)
  then have f: "read_many get32 10 (entry_to_disk 32 e @ ?r) = Some (entry_fields e, oid_hash (ie_oid e) @ ?t)"
    using be32c.read_many_enc[of "entry_fields e"] unfolding d by simp
  have "length (concat (map be32 (entry_fields e))) = 40" by (simp add: entry_fields_def)
  then have len: "\<not> length (entry_to_disk 32 e @ ?r) < fixed_size 32"
    unfolding d by (simp add: fixed_size_def l)
  have pad: "drop (entry_pad 32 (ie_path e)) (replicate (entry_pad 32 (ie_path e)) 0 @ ?r) = ?r" by simp
  have IH: "read_entries cap (length xs) HASH_SHA256 32 (es @ [stored e]) ?r = Inr ((es @ [stored e]) @ map stored xs, r)"
    using Cons.prems by (intro Cons.IH) auto
  have c: "\<not> cap \<le> length es" using Cons.prems(2) by simp
  have "read_entries cap (Suc (length xs)) HASH_SHA256 32 es (entry_to_disk 32 e @ ?r) =
      read_entries cap (length xs) HASH_SHA256 32 (es @ [stored e]) ?r"
    unfolding read_entries.simps(2) if_not_P[OF len] f using l nf c
    by (simp add: from_disk_stored[OF wf])
  then show ?case using IH by simp
qed simp

section \<open>Writing and reading back\<close>

lemma default_oid_wf: "index_wf ix \<Longrightarrow> default_oid ix = ix"
  by (simp add: index_wf_def default_oid_def)

lemma write_wf:
  assumes ok: "index_ok ix" and wf: "index_wf ix" and c: "sha256_ok crypto"
  shows "\<exists>ix1 ck. fastgit_index_write_to crypto ix = Inr (ix1, index_body ix1 @ h_digest ck) \<and>
    length (h_digest ck) = 32 \<and> h_algo ck = HASH_SHA256 \<and> ix_checksum ix1 = Some ck \<and>
    fastgit_hash crypto HASH_SHA256 (index_body ix1) = Inr ck \<and>
    index_ok ix1 \<and> index_wf ix1 \<and> index_map ix1 = index_map ix \<and> ix_count ix1 = ix_count ix"
proof -
  let ?s = "if \<not> ix_sorted ix \<and> 1 < ix_count ix then sort_index ix else Inr ix"
  obtain ix0 where s: "?s = Inr ix0" "index_ok ix0" "index_map ix0 = index_map ix" "mset (ix_entries ix0) = mset (ix_entries ix)"
    "ix_oid_len ix0 = ix_oid_len ix" "ix_oid_algo ix0 = ix_oid_algo ix"
  proof (cases "\<not> ix_sorted ix \<and> 1 < ix_count ix")
    case True
    obtain ix' where "sort_index ix = Inr ix'" "index_ok ix'" "index_map ix' = index_map ix"
      "ix_entries ix' = qsort_index (ix_entries ix)"
      using sort_spec[OF ok] by blast
    moreover from this(1) have "ix_oid_len ix' = ix_oid_len ix" "ix_oid_algo ix' = ix_oid_algo ix"
      by (auto simp: sort_index_def Let_def bindr_Inr_iff)
    ultimately show ?thesis using that True by (simp add: qsort_index_def)
  next
    case False
    then show ?thesis using ok by (intro that[of ix]) auto
  qed
  let ?ix = "ix0\<lparr>ix_sorted := True\<rparr>"
  have w: "index_wf ?ix" using wf s(5,6) mset_eq_setD[OF s(4)] by (simp add: index_wf_def)
  have a: "ix_oid_algo ?ix = HASH_SHA256" "ix_oid_len ?ix = 32" using w by (simp_all add: index_wf_def)
  obtain d where d: "fastgit_hash crypto HASH_SHA256 (index_body ?ix) = Inr \<lparr>h_digest = d, h_algo = HASH_SHA256\<rparr>" "length d = 32"
    using c unfolding sha256_ok_def by blast
  let ?ck = "\<lparr>h_digest = d, h_algo = HASH_SHA256\<rparr>"
  let ?ix1 = "?ix\<lparr>ix_checksum := Some ?ck, ix_dirty := False\<rparr>"
  have b: "index_body ?ix1 = index_body ?ix" by (simp add: index_body_def)
  have "fastgit_index_write_to crypto ix = Inr (?ix1, index_body ?ix1 @ d)"
    unfolding fastgit_index_write_to_def s(1) bindr_simps Let_def default_oid_wf[OF w] b a d(1) using d(2) by simp
  moreover have "index_ok ?ix1" "index_map ?ix1 = index_map ix" "index_wf ?ix1"
    using s(2,3) w by (simp_all add: index_ok_def index_map_def index_wf_def)
  moreover have "ix_count ?ix1 = ix_count ix" using mset_eq_length[OF s(4)] by simp
  ultimately show ?thesis using d b by (intro exI[of _ ?ix1] exI[of _ ?ck]) simp
qed

lemma read_capacity_ok:
  assumes "n < 2 ^ 31" "n * 2 * 136 \<le> mem"
  shows "\<exists>cap'. read_capacity mem cap (of_nat n) = Inr cap' \<and> n \<le> cap'"
proof -
  have "unat (of_nat n :: u32) = n" using assms(1) by (simp add: unat_of_nat)
  moreover have "unat (of_nat n * 2 :: u32) = n * 2"
  proof -
    have "(of_nat n * 2 :: u32) = of_nat (n * 2)" by simp
    then show ?thesis using assms(1) by (simp only: unat_of_nat) simp
  qed
  ultimately show ?thesis using assms by (auto simp: read_capacity_def Let_def)
qed

lemma map_of_stored:
  "map_of (map (\<lambda>e. (ie_key e, stored e)) es) k = map_option stored (map_of (map (\<lambda>e. (ie_key e, e)) es) k)"
  by (induction es) auto

lemma index_map_stored:
  "ix_entries ix' = map stored (ix_entries ix) \<Longrightarrow> index_map ix' = map_option stored \<circ> index_map ix"
  by (rule ext) (simp add: index_map_def comp_def map_of_stored)

lemma read_index_body:
  assumes wf: "index_wf ix" and ok: "index_ok ix" and n: "ix_count ix < 2 ^ 31" "ix_count ix * 2 * 136 \<le> mem"
    and dg: "length dg = 32"
  shows "\<exists>ix2. fastgit_index_open mem path (Some (t, index_body ix @ dg)) = Inr ix2 \<and> index_ok ix2 \<and>
    ix_entries ix2 = map stored (ix_entries ix) \<and> ix_checksum ix2 = Some \<lparr>h_digest = dg, h_algo = HASH_SHA256\<rparr>"
proof -
  let ?n = "ix_count ix" and ?es = "ix_entries ix" and ?new = "fastgit_index_new\<lparr>ix_path := Some path, ix_mtime := t\<rparr>"
  let ?t = "concat (map (entry_to_disk 32) ?es) @ dg"
  have u: "unat (of_nat ?n :: u32) = ?n" using n(1) by (simp add: unat_of_nat)
  have h: "read_many get32 3 (index_body ix @ dg) = Some ([INDEX_SIGNATURE, INDEX_VERSION, of_nat ?n], ?t)"
    using be32c.read_many_enc[of "[INDEX_SIGNATURE, INDEX_VERSION, of_nat ?n]" ?t] wf
    by (simp add: index_body_def index_wf_def numeral_3_eq_3)
  have len: "\<not> length (index_body ix @ dg) < 12 + 32" using dg by (simp add: index_body_def)
  have d: "default_oid (fastgit_index_new\<lparr>ix_path := Some path\<rparr>) = fastgit_index_new\<lparr>ix_path := Some path\<rparr>"
    by (simp add: default_oid_def fastgit_index_new_def)
  obtain cap where cap: "read_capacity mem 1024 (of_nat ?n) = Inr cap" "?n \<le> cap"
    using read_capacity_ok[OF n] by blast
  have z: "(of_nat ?n :: u32) = 0 \<longleftrightarrow> ?es = []" using u by (metis length_0_conv unat_0 unat_eq_zero)
  have r: "(if (of_nat ?n :: u32) = 0 then Inr (ix_entries ?new, ?t)
      else bindr (read_capacity mem 1024 (of_nat ?n)) (\<lambda>cap'.
        read_entries cap' (unat (of_nat ?n :: u32)) HASH_SHA256 32 (ix_entries ?new) ?t)) = Inr (map stored ?es, dg)"
    using z read_entries_disk[of ?es "[]" cap dg] wf cap unfolding u
    by (auto simp: index_wf_def fastgit_index_new_def)
  have "entries_ok (map stored ?es)"
    using index_ok_entries[OF ok] by (auto simp: entries_ok_def comp_def)
  then obtain ht where ht: "fg_ht_rebuild (map stored ?es) = Inr ht" "ht_ok (map stored ?es) ht"
    using rebuild_ok by blast
  let ?ix2 = "?new\<lparr>ix_entries := map stored ?es, ix_ht := ht, ix_sorted := True,
    ix_checksum := Some \<lparr>h_digest = dg, h_algo = HASH_SHA256\<rparr>\<rparr>"
  have e: "(if (of_nat ?n :: u32) = 0 then fastgit_index_new\<lparr>ix_path := Some path\<rparr>
      else default_oid (fastgit_index_new\<lparr>ix_path := Some path\<rparr>)) = fastgit_index_new\<lparr>ix_path := Some path\<rparr>"
    using d by simp
  have f: "ix_oid_algo ?new = HASH_SHA256" "ix_oid_len ?new = 32" by (simp_all add: fastgit_index_new_def)
  have "fastgit_index_open mem path (Some (t, index_body ix @ dg)) = Inr ?ix2"
    unfolding fastgit_index_open_def fastgit_index_read_def option.case prod.case if_not_P[OF len] h list.case
    unfolding Let_def e f r bindr_simps prod.case ht(1) using dg by simp
  moreover have "index_ok ?ix2" using ht(2) by (simp add: index_ok_def)
  ultimately show ?thesis by (intro exI[of _ ?ix2]) simp
qed

section \<open>Every operation keeps the entries well-formed\<close>

lemma staged_bits:
  assumes "(s :: u32) < 4"
  shows "ucast (drop_bit 12 (path_flags path OR push_bit 12 (ucast s)) AND 3) = s"
proof -
  have m: "(0xFFF :: u16) = mask 12" "(3 :: u16) = mask 2" by (simp_all add: mask_eq_exp_minus_1)
  have z: "drop_bit 12 (path_flags path) = 0"
    unfolding path_flags_def m by (rule bit_word_eqI) (auto simp: bit_simps)
  have "unat (take_bit 2 s) = unat s"
    using assms by (simp add: take_bit_eq_mod unat_mod word_less_nat_alt)
  then have "take_bit 2 s = s" by (simp only: word_unat_eq_iff)
  then have b: "bit s n \<Longrightarrow> n < 2" for n by (metis bit_take_bit_iff)
  show ?thesis unfolding m drop_bit_or z by (rule bit_word_eqI) (use b in \<open>fastforce simp: bit_simps\<close>)
qed

lemma entry_wf_staged:
  assumes "oid_algo (ie_oid e) = HASH_SHA256" "length (oid_hash (ie_oid e)) = 32" "nul_free (ie_path e)"
    "ie_flags_extended e = 0" "ie_stage e < 4" "ie_flags e = path_flags (ie_path e) OR push_bit 12 (ucast (ie_stage e))"
  shows "entry_wf e"
proof -
  have "raw_flags e = path_flags (ie_path e) OR push_bit 12 (ucast (ie_stage e))"
    using assms(6) by (simp add: raw_flags_def)
  then show ?thesis using assms staged_bits[OF assms(5)] unfolding entry_wf_def by metis
qed

lemma seek_hit:
  "ht_seek n ht (same_key es k) q = Inr (Some (p, v)) \<Longrightarrow>
   v < length es \<and> ie_stage (es ! v) = snd k \<and> strcmp (ie_path (es ! v)) (fst k) = 0"
  by (induction n arbitrary: q) (auto simp: same_key_def split: slot.splits option.splits if_splits)

lemma find_hit:
  assumes "fg_ht_find ix path stage = Inr (Some i)"
  shows "i < ix_count ix" "ie_stage (ix_entries ix ! i) = stage" "strcmp (ie_path (ix_entries ix ! i)) path = 0"
  using assms seek_hit[of _ _ _ "(path, stage)"]
  by (auto simp: fg_ht_find_def ht_lookup_def bindr_Inr_iff split: if_splits)

lemma index_store_wf:
  assumes wf: "index_wf ix" and new: "entry_wf new" and p: "nul_free path"
    and upd: "\<And>e. entry_wf e \<Longrightarrow> ie_key e = (path, STAGE_NORMAL) \<Longrightarrow> entry_wf (upd e)"
    and s: "index_store ix path upd new = Inr (ix', b)"
  shows "index_wf ix'"
proof -
  have "entry_wf (upd (ix_entries ix ! i))" if f: "fg_ht_find ix path STAGE_NORMAL = Inr (Some i)" for i
  proof (rule upd)
    show e: "entry_wf (ix_entries ix ! i)" using wf find_hit(1)[OF f] by (simp add: index_wf_def)
    then show "ie_key (ix_entries ix ! i) = (path, STAGE_NORMAL)"
      using find_hit[OF f] p by (auto simp: ie_key_def entry_wf_def strcmp_eq_0)
  qed
  then show ?thesis
    using s wf new unfolding index_store_def bindr_Inr_iff
    by (fastforce simp: index_wf_def bindr_Inr_iff dest: set_update_subset_insert[THEN subsetD] split: option.splits)
qed

lemma file_entry_wf:
  assumes "oid_algo x = HASH_SHA256" "length (oid_hash x) = 32" "nul_free path"
  shows "entry_wf (file_entry x path st)" "entry_wf (buffer_entry x path mode n)"
    "entry_wf e \<Longrightarrow> ie_key e = (path, STAGE_NORMAL) \<Longrightarrow> entry_wf (file_update x path st e)"
    "entry_wf e \<Longrightarrow> ie_key e = (path, STAGE_NORMAL) \<Longrightarrow> entry_wf (buffer_update x path mode n e)"
proof -
  show "entry_wf (file_entry x path st)" "entry_wf (buffer_entry x path mode n)"
    by (rule entry_wf_staged; use assms in \<open>simp add: file_entry_def buffer_entry_def blank_entry_def set_stat_def STAGE_NORMAL_def\<close>)+
  assume "entry_wf e" "ie_key e = (path, STAGE_NORMAL)"
  then have "ie_flags_extended e = 0" "ie_path e = path" "ie_stage e = 0"
    by (simp_all add: entry_wf_def ie_key_def STAGE_NORMAL_def)
  then show "entry_wf (file_update x path st e)" "entry_wf (buffer_update x path mode n e)"
    by - (rule entry_wf_staged; use assms in \<open>simp add: file_update_def buffer_update_def set_stat_def\<close>)+
qed

lemma conflict_entry_wf:
  assumes "oid_algo x = HASH_SHA256" "length (oid_hash x) = 32" "nul_free path"
    "stage \<in> {STAGE_BASE, STAGE_OURS, STAGE_THEIRS}"
  shows "entry_wf (conflict_entry path x stage)"
  by (rule entry_wf_staged)
    (use assms in \<open>auto simp: conflict_entry_def blank_entry_def STAGE_BASE_def STAGE_OURS_def STAGE_THEIRS_def\<close>)


lemma new_wf: "index_wf fastgit_index_new"
  by (simp add: index_wf_def fastgit_index_new_def)


section \<open>Properties\<close>

text \<open>
  C4. What is written is read back: opening the file of an index in order gives an index in order with
  the same entries, in the order of the file and with the flags filled in, and so with the same map
  from (path, stage) to entries; its checksum is the SHA-256 of the file up to the checksum.
\<close>

theorem index_file_roundtrip:
  assumes "index_ok ix" "index_wf ix" "sha256_ok crypto" "ix_count ix < 2 ^ 31" "ix_count ix * 2 * 136 \<le> mem"
  shows "\<exists>ix1 data ix2 ck. fastgit_index_write_to crypto ix = Inr (ix1, data) \<and>
    fastgit_index_open mem path (Some (t, data)) = Inr ix2 \<and> index_ok ix2 \<and>
    ix_entries ix2 = map stored (ix_entries ix1) \<and> index_map ix2 = map_option stored \<circ> index_map ix \<and>
    ix_checksum ix2 = Some ck \<and> fastgit_hash crypto HASH_SHA256 (take (length data - 32) data) = Inr ck"
proof -
  obtain ix1 ck where w: "fastgit_index_write_to crypto ix = Inr (ix1, index_body ix1 @ h_digest ck)"
    "length (h_digest ck) = 32" "h_algo ck = HASH_SHA256" "fastgit_hash crypto HASH_SHA256 (index_body ix1) = Inr ck"
    "index_ok ix1" "index_wf ix1" "index_map ix1 = index_map ix" "ix_count ix1 = ix_count ix"
    using write_wf[OF assms(1-3)] by blast
  obtain ix2 where r: "fastgit_index_open mem path (Some (t, index_body ix1 @ h_digest ck)) = Inr ix2" "index_ok ix2"
    "ix_entries ix2 = map stored (ix_entries ix1)" "ix_checksum ix2 = Some \<lparr>h_digest = h_digest ck, h_algo = HASH_SHA256\<rparr>"
    using read_index_body[OF w(6,5) _ _ w(2)] assms(4,5) w(8) by metis
  have "ck = \<lparr>h_digest = h_digest ck, h_algo = HASH_SHA256\<rparr>" using w(3) by (cases ck) simp
  then show ?thesis
    using w r index_map_stored[OF r(3)]
    by (intro exI[of _ ix1] exI[of _ "index_body ix1 @ h_digest ck"] exI[of _ ix2] exI[of _ ck]) simp
qed

theorem index_file_roundtrip_witness:
  "\<forall>st. \<exists>ix ix1 data ix2. store_tasks fastgit_index_new
       [(str ''a'', st, [], \<lparr>oid_algo = HASH_SHA256, oid_hash = replicate 32 0\<rparr>)] = Inr ix \<and>
     fastgit_index_write_to None ix = Inr (ix1, data) \<and>
     fastgit_index_open 1000 (str ''/r/.git/index'') (Some (7, data)) = Inr ix2 \<and> index_map ix2 (str ''a'', STAGE_NORMAL) \<noteq> None"
proof (intro allI)
  fix st :: file_stat
  let ?x = "\<lparr>oid_algo = HASH_SHA256, oid_hash = replicate 32 0\<rparr>"
  let ?ts = "[(str ''a'', st, [] :: bytes, ?x)]"
  have p: "nul_free (str ''a'')" by (simp add: str_def)
  then have nf: "\<forall>t \<in> set ?ts. nul_free (task_path t)" by (simp add: task_path_def)
  from store_tasks_ok[OF new_ok(1) nf] obtain ix where s: "store_tasks fastgit_index_new ?ts = Inr ix" "index_ok ix"
    "(str ''a'', STAGE_NORMAL) \<in> dom (index_map ix)" by (auto simp: task_path_def)
  have c: "ix_count ix = 1"
    using store_fresh_tasks[OF new_ok(1) _ _ _ s(1)] new_ok nf by (simp add: fastgit_index_new_def)
  obtain b where "index_store fastgit_index_new (str ''a'') (file_update ?x (str ''a'') st) (file_entry ?x (str ''a'') st) = Inr (ix, b)"
    using s(1) by (auto simp: bindr_Inr_iff)
  then have wf: "index_wf ix"
    by (rule index_store_wf[OF new_wf file_entry_wf(1) p file_entry_wf(3), rotated -1]) (simp_all add: p)
  have "ix_count ix < 2 ^ 31" "ix_count ix * 2 * 136 \<le> 1000" using c by simp_all
  from index_file_roundtrip[OF s(2) wf sha256_ok_portable this, of "str ''/r/.git/index''" 7]
  obtain ix1 data ix2 where "fastgit_index_write_to None ix = Inr (ix1, data)"
    "fastgit_index_open 1000 (str ''/r/.git/index'') (Some (7, data)) = Inr ix2"
    "index_map ix2 = map_option stored \<circ> index_map ix" by blast
  then show "\<exists>ix ix1 data ix2. store_tasks fastgit_index_new ?ts = Inr ix \<and>
     fastgit_index_write_to None ix = Inr (ix1, data) \<and>
     fastgit_index_open 1000 (str ''/r/.git/index'') (Some (7, data)) = Inr ix2 \<and> index_map ix2 (str ''a'', STAGE_NORMAL) \<noteq> None"
    using s(1,3) by auto
qed

end
