(* ===== verification/IndexTreeProps.thy ===== *)
theory IndexTreeProps
  imports IndexTree OdbDisk IndexIO
begin

unbundle bit_operations_syntax

text \<open>
  Writing the trees of an index and reading them back: the text of a directory as a pure function of
  the entries (its name depends on the names of its subdirectories), the writer shown to store
  exactly these texts, and the reader to collect exactly the files below a directory.
\<close>

section \<open>The text of a directory\<close>

definition add_all :: "tree_entry list \<Rightarrow> tree_entry list \<Rightarrow> tree_entry list" where
  "add_all acc ts = foldl (\<lambda>d t. qsort_entries (d @ [t])) acc ts"

definition name_of :: "evp option \<Rightarrow> bytes \<Rightarrow> oid" where
  "name_of crypto txt =
     (case obj_name crypto (TREE, txt) of Inr x \<Rightarrow> x | Inl e \<Rightarrow> \<lparr>oid_algo = HASH_SHA256, oid_hash = []\<rparr>)"

definition dir_entry :: "oid \<Rightarrow> bytes \<Rightarrow> tree_entry" where
  "dir_entry x d = \<lparr>te_oid = x, te_path = d, te_mode = TREE_MODE\<rparr>"

function tree_text :: "evp option \<Rightarrow> index_entry list \<Rightarrow> bytes \<Rightarrow> bytes" where
  "tree_text crypto es pfx =
     concat (map entry_bytes (add_all []
       (direct_files es pfx @
        map (\<lambda>d. dir_entry (name_of crypto (tree_text crypto es (pfx @ d @ [47]))) d) (subdirs es pfx))))"
  by pat_completeness auto
termination
  by (relation "measure (\<lambda>(crypto, es, pfx). longest es - length pfx)") (auto dest!: longest_subdir)

declare tree_text.simps [simp del]

definition tree_entries :: "evp option \<Rightarrow> index_entry list \<Rightarrow> bytes \<Rightarrow> tree_entry list" where
  "tree_entries crypto es pfx = add_all []
     (direct_files es pfx @
      map (\<lambda>d. dir_entry (name_of crypto (tree_text crypto es (pfx @ d @ [47]))) d) (subdirs es pfx))"

lemma tree_text_entries: "tree_text crypto es pfx = concat (map entry_bytes (tree_entries crypto es pfx))"
  by (subst tree_text.simps) (simp add: tree_entries_def)

text \<open>The directories of the entries: the root, and each part of a path that ends in a slash.\<close>

definition tree_dirs :: "index_entry list \<Rightarrow> bytes set" where
  "tree_dirs es = {q. q = [] \<or> (q \<noteq> [] \<and> last q = 47 \<and> (\<exists>e \<in> set es. \<exists>r. ie_path e = q @ r))}"

lemma root_dir: "[] \<in> tree_dirs es"
  by (simp add: tree_dirs_def)

lemma sub_dir: "d \<in> set (subdirs es pfx) \<Longrightarrow> pfx @ d @ [47] \<in> tree_dirs es"
  using next_dir_SomeD by (fastforce simp: set_subdirs tree_dirs_def)

lemma mset_add_all: "mset (add_all acc ts) = mset acc + mset ts"
  by (induction ts arbitrary: acc) (simp_all add: add_all_def qsort_entries_def)

section \<open>Writing\<close>

lemma add_files_all: "foldl (\<lambda>r t. bindr r (\<lambda>d. fastgit_tree_add_entry d t)) (Inr (Parsed acc)) ts = Inr (Parsed (add_all acc ts))"
  by (induction ts arbitrary: acc) (simp_all add: add_all_def fastgit_tree_add_entry_def as_struct_def)

lemma add_files_eq: "add_files ts = Inr (Parsed (add_all [] ts))"
  by (simp add: add_files_def fastgit_tree_create_def add_files_all)

abbreviation (input) holds_tree :: "evp option \<Rightarrow> zlib \<Rightarrow> nat \<Rightarrow> odb \<Rightarrow> bytes \<Rightarrow> bool" where
  "holds_tree crypto z mem db txt \<equiv> object_store.holds (odb_get z mem) sha_key db (name_of crypto txt) (TREE, txt)"

abbreviation (input) grows :: "zlib \<Rightarrow> nat \<Rightarrow> odb \<Rightarrow> odb \<Rightarrow> bool" where
  "grows z mem \<equiv> object_store.extends (odb_get z mem) sha_key"

text \<open>The directories below one, itself included.\<close>

function dirs_below :: "index_entry list \<Rightarrow> bytes \<Rightarrow> bytes list" where
  "dirs_below es pfx = pfx # concat (map (\<lambda>d. dirs_below es (pfx @ d @ [47])) (subdirs es pfx))"
  by pat_completeness auto
termination
  by (relation "measure (\<lambda>(es, pfx). longest es - length pfx)") (auto dest!: longest_subdir)

declare dirs_below.simps [simp del]

lemma write_node:
  assumes db: "odb_durable crypto z mem U db" and u: "(TREE, txt) \<in> U"
  shows "\<exists>db'. fastgit_odb_write crypto z TREE txt db = (Inr (name_of crypto txt), db') \<and>
    odb_durable crypto z mem U db' \<and> holds_tree crypto z mem db' txt \<and> grows z mem db db'"
proof -
  obtain k s' where p: "odb_put crypto z db (TREE, txt) = (Inr k, s')" "odb_durable crypto z mem U s'"
    "object_store.holds (odb_get z mem) sha_key s' k (TREE, txt)" "grows z mem db s'"
    by (rule durable.put_ok[OF db u])
  moreover have "obj_name crypto (TREE, txt) = Inr k"
    using odb_write_ok[of crypto z mem U db TREE "txt"] db u p(1) by (auto simp: odb_durable_def odb_put_def)
  ultimately show ?thesis by (auto simp: odb_put_def name_of_def)
qed

text \<open>The loop over the subdirectories, when each of them is written as its text says.\<close>

lemma write_dirs:
  assumes "\<And>d s. d \<in> set ds \<Longrightarrow> odb_durable crypto z mem U s \<Longrightarrow>
      \<exists>s'. w d s = (Inr (nm d), s') \<and> odb_durable crypto z mem U s' \<and>
        (\<forall>q \<in> Q d. holds_tree crypto z mem s' (tx q)) \<and> grows z mem s s'"
    and "odb_durable crypto z mem U db"
  shows "\<exists>db'. foldl (\<lambda>r d. case r of
           (Inl e, db1) \<Rightarrow> (Inl e, db1)
         | (Inr t, db1) \<Rightarrow>
             (case w d db1 of
                (Inl e, db2) \<Rightarrow> (Inl e, db2)
              | (Inr x, db2) \<Rightarrow> (fastgit_tree_add_entry t \<lparr>te_oid = x, te_path = d, te_mode = TREE_MODE\<rparr>, db2)))
         (Inr (Parsed acc), db) ds =
       (Inr (Parsed (add_all acc (map (\<lambda>d. dir_entry (nm d) d) ds))), db') \<and>
     odb_durable crypto z mem U db' \<and> (\<forall>d \<in> set ds. \<forall>q \<in> Q d. holds_tree crypto z mem db' (tx q)) \<and> grows z mem db db'"
  using assms
proof (induction ds arbitrary: acc db)
  case Nil
  then show ?case by (simp add: add_all_def durable.extends_refl)
next
  case (Cons d ds)
  obtain s where s: "w d db = (Inr (nm d), s)" "odb_durable crypto z mem U s"
    "\<forall>q \<in> Q d. holds_tree crypto z mem s (tx q)" "grows z mem db s"
    using Cons.prems(1)[of d db] Cons.prems(2) by auto
  let ?acc = "qsort_entries (acc @ [dir_entry (nm d) d])"
  have "\<exists>db'. foldl (\<lambda>r d. case r of
           (Inl e, db1) \<Rightarrow> (Inl e, db1)
         | (Inr t, db1) \<Rightarrow>
             (case w d db1 of
                (Inl e, db2) \<Rightarrow> (Inl e, db2)
              | (Inr x, db2) \<Rightarrow> (fastgit_tree_add_entry t \<lparr>te_oid = x, te_path = d, te_mode = TREE_MODE\<rparr>, db2)))
         (Inr (Parsed ?acc), s) ds =
       (Inr (Parsed (add_all ?acc (map (\<lambda>d. dir_entry (nm d) d) ds))), db') \<and>
     odb_durable crypto z mem U db' \<and> (\<forall>d \<in> set ds. \<forall>q \<in> Q d. holds_tree crypto z mem db' (tx q)) \<and> grows z mem s db'"
    by (rule Cons.IH) (use Cons.prems(1) s(2) in auto)
  then obtain db' where db': "foldl (\<lambda>r d. case r of
           (Inl e, db1) \<Rightarrow> (Inl e, db1)
         | (Inr t, db1) \<Rightarrow>
             (case w d db1 of
                (Inl e, db2) \<Rightarrow> (Inl e, db2)
              | (Inr x, db2) \<Rightarrow> (fastgit_tree_add_entry t \<lparr>te_oid = x, te_path = d, te_mode = TREE_MODE\<rparr>, db2)))
         (Inr (Parsed ?acc), s) ds =
       (Inr (Parsed (add_all ?acc (map (\<lambda>d. dir_entry (nm d) d) ds))), db')"
     "odb_durable crypto z mem U db'" "\<forall>d \<in> set ds. \<forall>q \<in> Q d. holds_tree crypto z mem db' (tx q)" "grows z mem s db'"
    by blast
  have "\<forall>q \<in> Q d. holds_tree crypto z mem db' (tx q)"
    using s(3) db'(4) by (simp add: durable.extends_def)
  then show ?case
    using db' durable.extends_trans[OF s(4) db'(4)]
    by (simp add: s(1) fastgit_tree_add_entry_def as_struct_def add_all_def dir_entry_def)
qed

lemma write_tree_ok:
  assumes "odb_durable crypto z mem U db" "\<forall>q \<in> tree_dirs es. (TREE, tree_text crypto es q) \<in> U" "pfx \<in> tree_dirs es"
  shows "\<exists>db'. write_tree_recursive crypto z es pfx db = (Inr (name_of crypto (tree_text crypto es pfx)), db') \<and>
    odb_durable crypto z mem U db' \<and> (\<forall>q \<in> set (dirs_below es pfx). holds_tree crypto z mem db' (tree_text crypto es q)) \<and>
    grows z mem db db'"
  using assms
proof (induction "longest es - length pfx" arbitrary: pfx db rule: less_induct)
  case less
  let ?nm = "\<lambda>d. name_of crypto (tree_text crypto es (pfx @ d @ [47]))"
  have step: "\<exists>s'. write_tree_recursive crypto z es (pfx @ d @ [47]) s = (Inr (?nm d), s') \<and>
      odb_durable crypto z mem U s' \<and>
      (\<forall>q \<in> set (dirs_below es (pfx @ d @ [47])). holds_tree crypto z mem s' (tree_text crypto es q)) \<and> grows z mem s s'"
    if d: "d \<in> set (subdirs es pfx)" and s: "odb_durable crypto z mem U s" for d s
    by (rule less.hyps) (use longest_subdir[OF d] sub_dir[OF d] s less.prems(2) in auto)
  obtain db1 where f: "foldl (\<lambda>r d. case r of
           (Inl e, db1) \<Rightarrow> (Inl e, db1)
         | (Inr t, db1) \<Rightarrow>
             (case write_tree_recursive crypto z es (pfx @ d @ [47]) db1 of
                (Inl e, db2) \<Rightarrow> (Inl e, db2)
              | (Inr x, db2) \<Rightarrow> (fastgit_tree_add_entry t \<lparr>te_oid = x, te_path = d, te_mode = TREE_MODE\<rparr>, db2)))
         (Inr (Parsed (add_all [] (direct_files es pfx))), db) (subdirs es pfx) =
       (Inr (Parsed (add_all (add_all [] (direct_files es pfx)) (map (\<lambda>d. dir_entry (?nm d) d) (subdirs es pfx)))), db1)"
    and ok: "odb_durable crypto z mem U db1"
    and h: "\<forall>d \<in> set (subdirs es pfx). \<forall>q \<in> set (dirs_below es (pfx @ d @ [47])). holds_tree crypto z mem db1 (tree_text crypto es q)"
    and g: "grows z mem db db1"
    using write_dirs[where w = "\<lambda>d. write_tree_recursive crypto z es (pfx @ d @ [47])" and nm = ?nm
        and Q = "\<lambda>d. set (dirs_below es (pfx @ d @ [47]))" and tx = "tree_text crypto es" and ds = "subdirs es pfx"
        and acc = "add_all [] (direct_files es pfx)" and crypto = crypto and z = z and mem = mem and U = U and db = db,
        OF step less.prems(1)] by blast
  have ts: "add_all (add_all [] (direct_files es pfx)) (map (\<lambda>d. dir_entry (?nm d) d) (subdirs es pfx)) = tree_entries crypto es pfx"
    by (simp add: tree_entries_def add_all_def)
  obtain db2 where w: "fastgit_odb_write crypto z TREE (tree_text crypto es pfx) db1 = (Inr (name_of crypto (tree_text crypto es pfx)), db2)"
    "odb_durable crypto z mem U db2" "holds_tree crypto z mem db2 (tree_text crypto es pfx)" "grows z mem db1 db2"
    using write_node[OF ok] less.prems(2,3) by blast
  have "write_tree_recursive crypto z es pfx db = (Inr (name_of crypto (tree_text crypto es pfx)), db2)"
    by (subst write_tree_recursive.simps)
      (simp add: add_files_eq f ts tree_content_def as_struct_def tree_text_entries[symmetric] w(1))
  moreover have "\<forall>q \<in> set (dirs_below es pfx). holds_tree crypto z mem db2 (tree_text crypto es q)"
    using h w(3,4) by (subst dirs_below.simps) (auto simp: durable.extends_def)
  ultimately show ?case using w(2) durable.extends_trans[OF g w(4)] by blast
qed

section \<open>The files below a directory\<close>

definition files_under :: "index_entry list \<Rightarrow> bytes \<Rightarrow> index_entry list" where
  "files_under es q = filter (\<lambda>e. below q e \<noteq> None) es"

definition is_direct :: "bytes \<Rightarrow> index_entry \<Rightarrow> bool" where
  "is_direct q e \<longleftrightarrow> below q e \<noteq> None \<and> next_dir q e = None"

lemma sum_list_one: "distinct ds \<Longrightarrow> k \<in> set ds \<Longrightarrow> (\<Sum>d\<leftarrow>ds. if d = k then {#e#} else {#}) = {#e#}"
proof (induction ds)
  case (Cons d ds)
  have "k \<notin> set ds \<Longrightarrow> (\<Sum>d\<leftarrow>ds. if d = k then {#e#} else {#}) = {#}" by (induction ds) auto
  then show ?case using Cons by auto
qed simp

lemma split_by_dir:
  assumes "distinct ds" "\<forall>e \<in> set es. \<forall>d. next_dir q e = Some d \<longrightarrow> d \<in> set ds"
  shows "mset (files_under es q) = mset (filter (is_direct q) es) + (\<Sum>d\<leftarrow>ds. mset (filter (\<lambda>e. next_dir q e = Some d) es))"
  using assms(2)
proof (induction es)
  case Nil
  then show ?case by (simp add: files_under_def sum_list_0)
next
  case (Cons e es)
  let ?s = "\<lambda>es. \<Sum>d\<leftarrow>ds. mset (filter (\<lambda>e. next_dir q e = Some d) es)"
  have IH: "mset (files_under es q) = mset (filter (is_direct q) es) + ?s es" using Cons by simp
  show ?case
  proof (cases "next_dir q e")
    case None
    then have "?s (e # es) = ?s es" by simp
    then show ?thesis using IH None by (simp add: files_under_def is_direct_def)
  next
    case (Some k)
    then have k: "k \<in> set ds" "below q e \<noteq> None" using Cons.prems by (auto simp: next_dir_def split: option.splits)
    have "?s (e # es) = (\<Sum>d\<leftarrow>ds. (if d = k then {#e#} else {#}) + mset (filter (\<lambda>e. next_dir q e = Some d) es))"
      by (intro arg_cong[where f = sum_list] map_cong refl) (simp add: Some eq_commute)
    also have "\<dots> = {#e#} + ?s es" by (simp add: sum_list_addf sum_list_one[OF assms(1) k(1)])
    finally show ?thesis using IH Some k(2) by (simp add: files_under_def is_direct_def)
  qed
qed

lemma below_Some: "below q e = Some p \<longleftrightarrow> ie_stage e = STAGE_NORMAL \<and> ie_path e = q @ p"
  by (auto simp: below_def split: if_splits) (metis append_take_drop_id)

lemma next_dir_below: "47 \<notin> set d \<Longrightarrow> next_dir q e = Some d \<longleftrightarrow> below (q @ d @ [47]) e \<noteq> None"
proof -
  assume d: "47 \<notin> set d"
  have t: "takeWhile (\<lambda>c. c \<noteq> 47) (d @ 47 # r) = d" for r using d by (induction d) auto
  show ?thesis
  proof
    assume n: "next_dir q e = Some d"
    then have "ie_stage e = STAGE_NORMAL" by (auto simp: next_dir_def below_Some split: option.splits)
    then show "below (q @ d @ [47]) e \<noteq> None"
      using next_dir_SomeD[OF n] below_Some[of "q @ d @ [47]" e] by auto
  next
    assume "below (q @ d @ [47]) e \<noteq> None"
    then obtain r where "below q e = Some (d @ 47 # r)" by (auto simp: below_Some)
    then show "next_dir q e = Some d" by (simp add: next_dir_def t)
  qed
qed

lemma subdir_no_slash: "d \<in> set (subdirs es q) \<Longrightarrow> 47 \<notin> set d"
  using next_dir_SomeD by (fastforce simp: set_subdirs)

lemma files_split:
  "mset (files_under es q) = mset (filter (is_direct q) es) + (\<Sum>d\<leftarrow>subdirs es q. mset (files_under es (q @ d @ [47])))"
proof -
  have "(\<Sum>d\<leftarrow>subdirs es q. mset (filter (\<lambda>e. next_dir q e = Some d) es)) = (\<Sum>d\<leftarrow>subdirs es q. mset (files_under es (q @ d @ [47])))"
    by (intro arg_cong[where f = sum_list] map_cong refl) (simp add: files_under_def next_dir_below[OF subdir_no_slash])
  then show ?thesis
    using split_by_dir[OF distinct_subdirs, of es q es q] by (simp add: set_subdirs) blast
qed

text \<open>An entry as a tree gives it back: the data of the file are gone.\<close>

definition fresh :: "index_entry \<Rightarrow> index_entry" where
  "fresh e = blank_entry (ie_oid e) (ie_path e) (ie_mode e) STAGE_NORMAL (path_flags (ie_path e))"

definition direct_of :: "bytes \<Rightarrow> index_entry \<Rightarrow> tree_entry" where
  "direct_of q e = \<lparr>te_oid = ie_oid e, te_path = drop (length q) (ie_path e), te_mode = ie_mode e\<rparr>"

lemma direct_files_of: "direct_files es q = map (direct_of q) (filter (is_direct q) es)"
proof (induction es)
  case (Cons e es)
  have "direct_files (e # es) q = (if is_direct q e then [direct_of q e] else []) @ direct_files es q"
  proof (cases "below q e")
    case None
    then show ?thesis by (simp add: direct_files_def is_direct_def map_filter_simps)
  next
    case (Some p)
    then have "ie_path e = q @ p" by (simp add: below_Some)
    then show ?thesis using Some by (simp add: direct_files_def is_direct_def next_dir_def direct_of_def map_filter_simps)
  qed
  then show ?case using Cons by simp
qed (simp add: direct_files_def map_filter_simps)

lemma direct_item: "is_direct q e \<Longrightarrow> item_entry q (direct_of q e) = fresh e"
  by (auto simp: is_direct_def item_entry_def direct_of_def fresh_def below_Some Let_def)

section \<open>Reading\<close>

definition item_ok :: "tree_entry \<Rightarrow> bool" where
  "item_ok t \<longleftrightarrow> nul_free (te_path t) \<and> oid_algo (te_oid t) = HASH_SHA256 \<and> length (oid_hash (te_oid t)) = 32"

lemma read_items_entry:
  assumes "item_ok t"
  shows "read_items (entry_bytes t @ r) = (case read_items r of (ts, bad) \<Rightarrow> (t # ts, bad))"
proof -
  let ?m = "oct (unat (te_mode t))"
  have "c \<in> set ?m \<Longrightarrow> 48 \<le> c" for c
    using print_base_range[of 8 c "unat (te_mode t)"] by simp
  then have sp: "32 \<notin> set ?m" by fastforce
  have nz: "cstr ?m = ?m"
    using print_base_nul_free[of 8 "unat (te_mode t)"]
    by (auto simp: cstr_def nul_free_def takeWhile_eq_all_conv)
  have nf: "0 \<notin> set (te_path t)" using assms by (simp add: item_ok_def nul_free_def)
  have val: "strtoul 8 ?m = (of_nat (unat (te_mode t)), [])"
    using strtoul_print[of 8 "[]" "unat (te_mode t)"] unat_u32[of "te_mode t"] by (simp add: stops_def)
  have len: "length ?m < 16"
    using length_print_base_le[of 8 11 "unat (te_mode t)"] unat_u32[of "te_mode t"] by simp
  have md: "ucast (of_nat (unat (te_mode t)) :: u64) = te_mode t"
    by (simp, rule bit_word_eqI, simp add: bit_simps)
  show ?thesis
    using assms sp nf len val nz md
    by (subst read_items.simps, cases t, cases "te_oid t") (simp add: entry_bytes_def item_ok_def)
qed

lemma read_items_all: "\<forall>t \<in> set ts. item_ok t \<Longrightarrow> read_items (concat (map entry_bytes ts)) = (ts, False)"
proof (induction ts)
  case Nil
  then show ?case by (subst read_items.simps) simp
next
  case (Cons t ts)
  then show ?case by (simp add: read_items_entry)
qed

lemma holds_named:
  assumes "odb_ok crypto z mem U db" "object_store.holds (odb_get z mem) sha_key db x p"
  shows "p \<in> U \<and> obj_name crypto p = Inr x \<and> length (oid_hash x) = 32 \<and> oid_algo x = HASH_SHA256"
proof -
  have k: "sha_key x" "fst (odb_get z mem db x) = Inr p" using assms(2) by (simp_all add: odbs.holds_def)
  obtain db' where "odb_get z mem db x = (Inr p, db')" using k(2) by (cases "odb_get z mem db x") auto
  then have n: "named crypto U x p" using odb_get_ok[OF assms(1) k(1)] by blast
  have U: "universe crypto mem U" "sha256_ok crypto" using assms(1) by (simp_all add: odb_ok_def)
  show ?thesis using obj_name_ok[OF U(2) named_storable[OF U(1) n]] n k(1) by (auto simp: named_def sha_key_def)
qed

text \<open>What the reader needs of the entries: no file with the mode of a directory.\<close>

definition files_ok :: "index_entry list \<Rightarrow> bool" where
  "files_ok es \<longleftrightarrow> (\<forall>e \<in> set es. nul_free (ie_path e) \<and> ie_mode e \<noteq> TREE_MODE \<and>
     oid_algo (ie_oid e) = HASH_SHA256 \<and> length (oid_hash (ie_oid e)) = 32)"

lemma set_tree_entries:
  "set (tree_entries crypto es q) = direct_of q ` {e \<in> set es. is_direct q e} \<union>
     (\<lambda>d. dir_entry (name_of crypto (tree_text crypto es (q @ d @ [47]))) d) ` set (subdirs es q)"
  by (simp add: tree_entries_def direct_files_of set_mset_mset[symmetric] mset_add_all del: set_mset_mset)

lemma below_self: "q \<in> set (dirs_below es q)"
  by (subst dirs_below.simps) simp

lemma sub_in_below: "d \<in> set (subdirs es q) \<Longrightarrow> q @ d @ [47] \<in> set (dirs_below es q)"
  by (subst dirs_below.simps) (auto intro!: bexI[of _ d] below_self)

lemma tree_entries_ok:
  assumes "files_ok es" "odb_ok crypto z mem U db"
    and "\<forall>p \<in> set (dirs_below es q). holds_tree crypto z mem db (tree_text crypto es p)"
  shows "\<forall>t \<in> set (tree_entries crypto es q). item_ok t"
proof
  fix t assume "t \<in> set (tree_entries crypto es q)"
  then consider (plain) e where "e \<in> set es" "is_direct q e" "t = direct_of q e"
    | (sub) d where "d \<in> set (subdirs es q)" "t = dir_entry (name_of crypto (tree_text crypto es (q @ d @ [47]))) d"
    unfolding set_tree_entries by auto
  then show "item_ok t"
  proof cases
    case plain
    then show ?thesis using assms(1) in_set_dropD[of 0 "length q" "ie_path e"]
      by (auto simp: files_ok_def item_ok_def direct_of_def nul_free_def)
  next
    case sub
    obtain e r where "e \<in> set es" "ie_path e = q @ d @ 47 # r"
      using sub(1) next_dir_SomeD by (fastforce simp: set_subdirs)
    then have "nul_free d" using assms(1) by (fastforce simp: files_ok_def nul_free_def)
    then show ?thesis
      using holds_named[OF assms(2) assms(3)[rule_format, OF sub_in_below[OF sub(1)]]]
      by (simp add: item_ok_def sub(2) dir_entry_def)
  qed
qed

text \<open>One round of the loop, with the object that is read.\<close>

lemma read_tree_round:
  assumes "stack \<noteq> []" "odb_get z mem db (fst (last stack)) = (Inr (TREE, concat (map entry_bytes ts)), db')"
    and "\<forall>t \<in> set ts. item_ok t"
  shows "read_tree_loop z mem stack acc db = read_tree_loop z mem
    (butlast stack @ map (\<lambda>t. (te_oid t, snd (last stack) @ te_path t @ [47])) (filter (\<lambda>t. te_mode t = TREE_MODE) ts))
    (acc @ map (item_entry (snd (last stack))) (filter (\<lambda>t. te_mode t \<noteq> TREE_MODE) ts)) db'"
proof -
  obtain ob where "fastgit_odb_read z mem (fst (last stack)) db = (Inr ob, db')"
    "oo_type ob = TREE" "oo_data ob = concat (map entry_bytes ts)"
    using assms(2) by (auto simp: odb_get_def content_def bindr_Inr_iff split: prod.splits)
  then show ?thesis using assms(1)
    by (subst read_tree_loop.simps) (simp add: read_items_all[OF assms(3)] Let_def)
qed

lemma filter_entries:
  "mset (filter P (tree_entries crypto es q)) = mset (filter P (direct_files es q)) +
     mset (filter P (map (\<lambda>d. dir_entry (name_of crypto (tree_text crypto es (q @ d @ [47]))) d) (subdirs es q)))"
  by (simp add: tree_entries_def mset_add_all)

lemma tree_entries_files:
  assumes "files_ok es"
  shows "mset (map (item_entry q) (filter (\<lambda>t. te_mode t \<noteq> TREE_MODE) (tree_entries crypto es q))) =
    image_mset fresh (mset (filter (is_direct q) es))"
proof -
  have f: "filter (\<lambda>t. te_mode t \<noteq> TREE_MODE) (map (direct_of q) (filter (is_direct q) es)) = map (direct_of q) (filter (is_direct q) es)"
    using assms by (simp add: direct_of_def files_ok_def filter_id_conv)
  have "mset (filter (\<lambda>t. te_mode t \<noteq> TREE_MODE) (tree_entries crypto es q)) = mset (map (direct_of q) (filter (is_direct q) es))"
    unfolding filter_entries direct_files_of f by (simp add: dir_entry_def comp_def)
  then have "mset (map (item_entry q) (filter (\<lambda>t. te_mode t \<noteq> TREE_MODE) (tree_entries crypto es q))) =
      image_mset (item_entry q) (image_mset (direct_of q) (mset (filter (is_direct q) es)))"
    by (metis mset_map)
  also have "\<dots> = image_mset fresh (mset (filter (is_direct q) es))"
    unfolding multiset.map_comp comp_def by (rule image_mset_cong) (simp add: direct_item)
  finally show ?thesis .
qed

lemma tree_entries_dirs:
  assumes "files_ok es"
  shows "mset (filter (\<lambda>t. te_mode t = TREE_MODE) (tree_entries crypto es q)) =
    mset (map (\<lambda>d. dir_entry (name_of crypto (tree_text crypto es (q @ d @ [47]))) d) (subdirs es q))"
proof -
  have f: "filter (\<lambda>t. te_mode t = TREE_MODE) (map (direct_of q) (filter (is_direct q) es)) = []"
    using assms by (simp add: direct_of_def files_ok_def filter_empty_conv)
  show ?thesis unfolding filter_entries direct_files_of f by (simp add: dir_entry_def comp_def)
qed

definition sub_paths :: "evp option \<Rightarrow> index_entry list \<Rightarrow> bytes \<Rightarrow> bytes list" where
  "sub_paths crypto es q = map (\<lambda>t. q @ te_path t @ [47]) (filter (\<lambda>t. te_mode t = TREE_MODE) (tree_entries crypto es q))"

lemma mset_sub_paths:
  assumes "files_ok es"
  shows "mset (sub_paths crypto es q) = mset (map (\<lambda>d. q @ d @ [47]) (subdirs es q))"
  unfolding sub_paths_def mset_map[of _ "filter _ _"] tree_entries_dirs[OF assms]
  by (simp add: dir_entry_def multiset.map_comp comp_def)

lemma sub_stack:
  assumes "files_ok es"
  shows "map (\<lambda>t. (te_oid t, q @ te_path t @ [47])) (filter (\<lambda>t. te_mode t = TREE_MODE) (tree_entries crypto es q)) =
    map (\<lambda>p. (name_of crypto (tree_text crypto es p), p)) (sub_paths crypto es q)"
proof -
  have "te_oid t = name_of crypto (tree_text crypto es (q @ te_path t @ [47]))"
    if "t \<in> set (filter (\<lambda>t. te_mode t = TREE_MODE) (tree_entries crypto es q))" for t
  proof -
    have "t \<in> set (map (\<lambda>d. dir_entry (name_of crypto (tree_text crypto es (q @ d @ [47]))) d) (subdirs es q))"
      using that mset_eq_setD[OF tree_entries_dirs[OF assms, of crypto q]] by blast
    then show ?thesis by (auto simp: dir_entry_def)
  qed
  then show ?thesis by (simp add: sub_paths_def)
qed

lemma files_of_subs:
  assumes "files_ok es"
  shows "(\<Sum>p\<leftarrow>sub_paths crypto es q. image_mset fresh (mset (files_under es p))) + image_mset fresh (mset (filter (is_direct q) es)) =
    image_mset fresh (mset (files_under es q))"
proof -
  have image_sum: "(\<Sum>d\<leftarrow>ds. image_mset fresh (g d)) = image_mset fresh (\<Sum>d\<leftarrow>ds. g d)" for ds :: "bytes list" and g
    by (induction ds) simp_all
  have "(\<Sum>p\<leftarrow>sub_paths crypto es q. image_mset fresh (mset (files_under es p))) =
      sum_mset (image_mset (\<lambda>p. image_mset fresh (mset (files_under es p))) (mset (sub_paths crypto es q)))"
    by (simp only: sum_mset_sum_list[symmetric] mset_map)
  also have "\<dots> = (\<Sum>d\<leftarrow>subdirs es q. image_mset fresh (mset (files_under es (q @ d @ [47]))))"
    unfolding mset_sub_paths[OF assms] by (simp add: sum_mset_sum_list[symmetric] multiset.map_comp comp_def)
  also have "\<dots> = image_mset fresh (\<Sum>d\<leftarrow>subdirs es q. mset (files_under es (q @ d @ [47])))"
    by (rule image_sum)
  finally show ?thesis unfolding files_split[of es q] by (simp add: add.commute)
qed

lemma dirs_of_subs:
  assumes "files_ok es"
  shows "mset (concat (map (dirs_below es) (sub_paths crypto es q))) + {#q#} = mset (dirs_below es q)"
proof -
  have m: "mset (concat (map f xs)) = sum_mset (image_mset (\<lambda>x. mset (f x)) (mset xs))" for f :: "bytes \<Rightarrow> bytes list" and xs
    by (induction xs) simp_all
  have "mset (dirs_below es q) = {#q#} + mset (concat (map (dirs_below es) (map (\<lambda>d. q @ d @ [47]) (subdirs es q))))"
    by (subst dirs_below.simps) (simp add: comp_def)
  then show ?thesis unfolding m[of "dirs_below es"] mset_sub_paths[OF assms] by simp
qed

lemma read_loop_ok:
  assumes fo: "files_ok es"
    and "odb_ok crypto z mem U db"
    and "\<forall>q \<in> set (concat (map (dirs_below es) qs)). holds_tree crypto z mem db (tree_text crypto es q)"
  shows "\<exists>es' db'. read_tree_loop z mem (map (\<lambda>q. (name_of crypto (tree_text crypto es q), q)) qs) acc db = Some (Inr (), es', db') \<and>
    mset es' = mset acc + (\<Sum>q\<leftarrow>qs. image_mset fresh (mset (files_under es q)))"
  using assms(2,3)
proof (induction "length (concat (map (dirs_below es) qs))" arbitrary: qs acc db rule: less_induct)
  case less
  show ?case
  proof (cases qs rule: rev_cases)
    case Nil
    then show ?thesis by (subst read_tree_loop.simps) simp
  next
    case (snoc ps q)
    let ?ts = "tree_entries crypto es q" and ?qs = "ps @ sub_paths crypto es q"
      and ?st = "map (\<lambda>q. (name_of crypto (tree_text crypto es q), q))"
    let ?acc = "acc @ map (item_entry q) (filter (\<lambda>t. te_mode t \<noteq> TREE_MODE) ?ts)"
    have h: "\<forall>p \<in> set (dirs_below es q). holds_tree crypto z mem db (tree_text crypto es p)"
      using less.prems(2) snoc by auto
    then have "holds_tree crypto z mem db (tree_text crypto es q)" using below_self by blast
    then obtain db1 where g: "odb_get z mem db (name_of crypto (tree_text crypto es q)) = (Inr (TREE, tree_text crypto es q), db1)"
      "odb_ok crypto z mem U db1" "grows z mem db db1"
      by (rule odbs.get_ok[OF less.prems(1)])
    have round: "read_tree_loop z mem (?st qs) acc db = read_tree_loop z mem (?st ?qs) ?acc db1"
      using read_tree_round[of "?st qs" z mem db ?ts db1 acc] g(1) tree_entries_ok[OF fo less.prems(1) h]
      by (simp add: snoc tree_text_entries[symmetric] sub_stack[OF fo])
    have subs: "mset (concat (map (dirs_below es) (sub_paths crypto es q))) + {#q#} = mset (dirs_below es q)"
      by (rule dirs_of_subs[OF fo])
    have "length (concat (map (dirs_below es) ?qs)) < length (concat (map (dirs_below es) qs))"
      using arg_cong[OF subs, of size] by (simp add: snoc)
    moreover have "\<forall>p \<in> set (concat (map (dirs_below es) ?qs)). holds_tree crypto z mem db1 (tree_text crypto es p)"
    proof
      fix p assume "p \<in> set (concat (map (dirs_below es) ?qs))"
      moreover have "set (concat (map (dirs_below es) (sub_paths crypto es q))) \<subseteq> set (dirs_below es q)"
        using arg_cong[OF subs, of set_mset] by auto
      ultimately have "p \<in> set (concat (map (dirs_below es) qs))" by (auto simp: snoc)
      then show "holds_tree crypto z mem db1 (tree_text crypto es p)"
        using less.prems(2) g(3) unfolding odbs.extends_def by blast
    qed
    ultimately obtain es' db' where r: "read_tree_loop z mem (?st ?qs) ?acc db1 = Some (Inr (), es', db')"
      "mset es' = mset ?acc + (\<Sum>q\<leftarrow>?qs. image_mset fresh (mset (files_under es q)))"
      using less.hyps[OF _ g(2)] by blast
    have "mset es' = mset acc + (\<Sum>q\<leftarrow>qs. image_mset fresh (mset (files_under es q)))"
      using files_of_subs[OF fo, of crypto q]
      unfolding r(2) snoc mset_append tree_entries_files[OF fo] map_append sum_list_append by (simp add: ac_simps)
    then show ?thesis using r(1) round by auto
  qed
qed

section \<open>Properties\<close>

lemma sort_for_tree_facts:
  "mset (ix_entries (sort_for_tree ix)) = mset (ix_entries ix)" "ix_path (sort_for_tree ix) = ix_path ix"
  by (simp_all add: sort_for_tree_def qsort_index_def)

lemma clear_empty:
  "\<exists>ix1. fastgit_index_clear ix = Inr ix1 \<and> ix_entries ix1 = [] \<and> ix_ht ix1 = fg_ht_init 1024"
  by (simp add: fastgit_index_clear_def fg_ht_rebuild_def)

lemma write_read:
  assumes fo: "files_ok es" and st: "\<forall>e \<in> set es. ie_stage e = STAGE_NORMAL" and dir: "odb_path_from_index ix' = Inr dir"
    and db: "odb_ok crypto z mem U (fastgit_odb_open (fs dir))"
    and u: "\<forall>q \<in> tree_dirs es. (TREE, tree_text crypto es q) \<in> U"
  shows "\<exists>x db' ix2. write_tree_recursive crypto z es [] (fastgit_odb_open (fs dir)) = (Inr x, db') \<and>
    obj_name crypto (TREE, tree_text crypto es []) = Inr x \<and>
    fastgit_index_read_tree z mem x (ix', fs(dir := oc_disk (odb_head db'))) = Some (Inr (), ix2) \<and>
    mset (ix_entries ix2) = image_mset fresh (mset es)"
proof -
  obtain db' where w: "write_tree_recursive crypto z es [] (fastgit_odb_open (fs dir)) = (Inr (name_of crypto (tree_text crypto es [])), db')"
    "odb_durable crypto z mem U db'" "\<forall>q \<in> set (dirs_below es []). holds_tree crypto z mem db' (tree_text crypto es q)"
    using write_tree_ok[OF opened_durable[OF db] u root_dir] by blast
  let ?fs = "fs(dir := oc_disk (odb_head db'))" and ?x = "name_of crypto (tree_text crypto es [])"
  have re: "odb_reopen db' = fastgit_odb_open (?fs dir)" by (simp add: odb_reopen_def)
  have "odb_ok crypto z mem U (odb_reopen db')" using durable.reopened_ok[OF w(2)] by (simp add: odb_durable_def)
  moreover have "\<forall>q \<in> set (concat (map (dirs_below es) [[]])). holds_tree crypto z mem (odb_reopen db') (tree_text crypto es q)"
    using w(3) durable.reopened_extends[OF w(2)] by (simp add: durable.extends_def)
  ultimately obtain es' db2 where r: "read_tree_loop z mem [(?x, [])] [] (odb_reopen db') = Some (Inr (), es', db2)"
    "mset es' = image_mset fresh (mset (files_under es []))"
    using read_loop_ok[OF fo, where qs = "[[]]" and acc = "[]" and crypto = crypto and z = z and mem = mem and U = U
        and db = "odb_reopen db'"] by simp blast
  have all: "files_under es [] = es" using st by (simp add: files_under_def filter_id_conv below_def)
  obtain ix1 where c: "fastgit_index_clear ix' = Inr ix1" using clear_empty by blast
  let ?ix2 = "ix1\<lparr>ix_entries := es', ix_dirty := True, ix_sorted := False\<rparr>"
  have "fastgit_index_read_tree z mem ?x (ix', ?fs) = Some (Inr (), ?ix2)"
    using r(1) by (simp add: fastgit_index_read_tree_def dir c re)
  moreover have "obj_name crypto (TREE, tree_text crypto es []) = Inr ?x"
    using holds_named[of crypto z mem U db'] w(2,3) below_self by (fastforce simp: odb_durable_def)
  ultimately show ?thesis using w(1) r(2) all by auto
qed

text \<open>
  C5. Trees of an index and back: writing the trees of an index without conflicts succeeds and gives
  the id of its root directory; reading that id, through a later handle, into any index of the same
  repository terminates and gives exactly the files of the first index, with their paths, ids and
  modes and no data of the file system. The hypotheses: no entry has the mode of a directory, and the
  texts of the directories are among the objects whose names do not collide.
\<close>

theorem index_tree_roundtrip:
  assumes fo: "files_ok (ix_entries ix)" and st: "\<forall>e \<in> set (ix_entries ix). ie_stage e = STAGE_NORMAL"
    and dir: "odb_path_from_index ix = Inr dir" "odb_path_from_index ix' = Inr dir"
    and db: "odb_ok crypto z mem U (fastgit_odb_open (fs dir))"
    and u: "\<forall>q \<in> tree_dirs (ix_entries ix). (TREE, tree_text crypto (ix_entries (sort_for_tree ix)) q) \<in> U"
  shows "\<exists>x ix1 fs1 ix2. fastgit_index_write_tree crypto z (ix, fs) = (Inr x, ix1, fs1) \<and> ix1 = sort_for_tree ix \<and>
    obj_name crypto (TREE, tree_text crypto (ix_entries ix1) []) = Inr x \<and>
    fastgit_index_read_tree z mem x (ix', fs1) = Some (Inr (), ix2) \<and>
    mset (ix_entries ix2) = image_mset fresh (mset (ix_entries ix))"
proof -
  let ?ix = "sort_for_tree ix" and ?es = "ix_entries (sort_for_tree ix)"
  have es: "set ?es = set (ix_entries ix)" by (rule mset_eq_setD[OF sort_for_tree_facts(1)])
  have pre: "files_ok ?es" "\<forall>e \<in> set ?es. ie_stage e = STAGE_NORMAL" using fo st by (simp_all add: files_ok_def es)
  have U: "\<forall>q \<in> tree_dirs ?es. (TREE, tree_text crypto ?es q) \<in> U" using u by (simp add: tree_dirs_def es)
  then have "(TREE, tree_text crypto ?es []) \<in> U" using root_dir by blast
  then have "storable mem (TREE, tree_text crypto ?es [])" using db by (auto simp: odb_ok_def universe_def)
  moreover have "tree_text crypto [] [] = []"
    by (subst tree_text.simps) (simp add: direct_files_def subdirs_def add_all_def map_filter_simps)
  ultimately have "?es \<noteq> []" by (fastforce simp: storable_def)
  then have ne: "ix_entries ix \<noteq> []" using es by auto
  obtain x db' ix2 where w: "write_tree_recursive crypto z ?es [] (fastgit_odb_open (fs dir)) = (Inr x, db')"
    "obj_name crypto (TREE, tree_text crypto ?es []) = Inr x"
    "fastgit_index_read_tree z mem x (ix', fs(dir := oc_disk (odb_head db'))) = Some (Inr (), ix2)"
    "mset (ix_entries ix2) = image_mset fresh (mset ?es)"
    using write_read[where fs = fs, OF pre dir(2) db U] by blast
  have "fastgit_index_write_tree crypto z (ix, fs) = (Inr x, ?ix, fs(dir := oc_disk (odb_head db')))"
    using st ne by (simp add: fastgit_index_write_tree_def fastgit_index_has_conflicts_def dir(1) w(1) Let_def)
  then show ?thesis using w sort_for_tree_facts(1)[of ix] by auto
qed

definition demo_entry :: index_entry where
  "demo_entry = blank_entry (toy_oid 7) (str ''d/a'') 0x81A4 STAGE_NORMAL 3"

definition demo_index :: index where
  "demo_index = fastgit_index_new\<lparr>ix_path := Some (str ''/r/.git/index''), ix_entries := [demo_entry]\<rparr>"

lemma demo_dirs:
  "subdirs [demo_entry] [] = [str ''d'']" "subdirs [demo_entry] (str ''d/'') = []"
  "direct_files [demo_entry] [] = []"
  "direct_files [demo_entry] (str ''d/'') = [\<lparr>te_oid = toy_oid 7, te_path = str ''a'', te_mode = 0x81A4\<rparr>]"
  by code_simp+

definition d_text :: bytes where
  "d_text = str ''100644 a'' @ [0, 7] @ replicate 31 0"

definition root_tree :: bytes where
  "root_tree = str ''40000 d'' @ [0, 49] @ replicate 31 0"

lemma demo_storable: "storable 10000 (TREE, d_text)" "storable 10000 (TREE, root_tree)"
  by (simp_all add: storable_def base_type_def d_text_def root_tree_def)

lemma demo_lengths: "length (obj_text TREE d_text) = 49" "length (obj_text TREE root_tree) = 48"
  by code_simp+

lemma demo_names:
  "obj_name (Some toy_hash) (TREE, d_text) = Inr (toy_oid 49)" "obj_name (Some toy_hash) (TREE, root_tree) = Inr (toy_oid 48)"
  using toy_name[OF demo_storable(1)] toy_name[OF demo_storable(2)] by (simp_all add: demo_lengths)

lemma add_all_one: "add_all [] [t] = [t]"
  by (simp add: add_all_def qsort_entries_def)

lemma demo_modes: "oct 33188 = str ''100644''" "oct 16384 = str ''40000''"
  by (simp_all add: print_base_def digits.simps digit_char_def str_def)

lemma demo_entries:
  "concat (map entry_bytes (add_all [] [\<lparr>te_oid = toy_oid 7, te_path = str ''a'', te_mode = 0x81A4\<rparr>])) = d_text"
  "concat (map entry_bytes (add_all [] [dir_entry (toy_oid 49) (str ''d'')])) = root_tree"
  by (simp_all add: add_all_one d_text_def root_tree_def entry_bytes_def dir_entry_def TREE_MODE_def demo_modes str_def)

lemma demo_text_d: "tree_text (Some toy_hash) [demo_entry] (str ''d/'') = d_text"
  by (subst tree_text.simps) (simp only: demo_dirs list.map append_Nil2 demo_entries)

lemma demo_text_root: "tree_text (Some toy_hash) [demo_entry] [] = root_tree"
proof -
  have p: "str ''d'' @ [47] = str ''d/''" by (simp add: str_def)
  have n: "name_of (Some toy_hash) d_text = toy_oid 49" by (simp add: name_of_def demo_names)
  show ?thesis
    by (subst tree_text.simps) (simp only: demo_dirs list.map append_Nil p demo_text_d n demo_entries)
qed

lemma demo_universe: "universe (Some toy_hash) 10000 {(TREE, d_text), (TREE, root_tree)}"
  using demo_storable demo_names by (auto simp: universe_def inj_on_def)

lemma demo_tree_dirs: "q \<in> tree_dirs [demo_entry] \<Longrightarrow> q = [] \<or> q = str ''d/''"
  by (auto simp: tree_dirs_def demo_entry_def blank_entry_def str_def append_eq_Cons_conv Cons_eq_append_conv)

lemma demo_facts:
  shows demo_entries_of: "ix_entries demo_index = [demo_entry]" "sort_for_tree demo_index = demo_index" "fresh demo_entry = demo_entry"
    and demo_files: "files_ok [demo_entry]" "\<forall>e \<in> set [demo_entry]. ie_stage e = STAGE_NORMAL"
    and demo_dir: "odb_path_from_index demo_index = Inr (str ''/r/.git'' @ str ''/objects'')"
proof -
  show "ix_entries demo_index = [demo_entry]" "sort_for_tree demo_index = demo_index"
    by (simp_all add: demo_index_def sort_for_tree_def)
  show "fresh demo_entry = demo_entry" by code_simp
  show "files_ok [demo_entry]" "\<forall>e \<in> set [demo_entry]. ie_stage e = STAGE_NORMAL"
    by (simp_all add: files_ok_def demo_entry_def blank_entry_def TREE_MODE_def str_def)
  show "odb_path_from_index demo_index = Inr (str ''/r/.git'' @ str ''/objects'')"
    by (simp add: demo_index_def odb_path_from_index_def str_def Let_def)
qed

lemma demo_in_universe:
  "\<forall>q \<in> tree_dirs [demo_entry]. (TREE, tree_text (Some toy_hash) [demo_entry] q) \<in> {(TREE, d_text), (TREE, root_tree)}"
  by (auto simp: demo_text_d demo_text_root dest!: demo_tree_dirs)

lemma demo_disk: "odb_ok (Some toy_hash) stuff_zlib 10000 {(TREE, d_text), (TREE, root_tree)} (fastgit_odb_open empty_disk)"
  by (rule empty_ok[OF toy_params stuff_zlib_ok demo_universe])

lemma demo_trip:
  "\<exists>x fs ix. fastgit_index_read_tree stuff_zlib 10000 x (demo_index, fs) = Some (Inr (), ix) \<and> ix_entries ix = [demo_entry]"
  using write_read[where fs = "\<lambda>_. empty_disk", OF demo_files demo_dir demo_disk demo_in_universe] by (auto simp: demo_entries_of)

theorem index_tree_roundtrip_witness:
  "\<exists>x ix1 fs1 ix2. fastgit_index_write_tree (Some toy_hash) stuff_zlib (demo_index, \<lambda>_. empty_disk) = (Inr x, ix1, fs1) \<and>
     x = toy_oid 48 \<and> fastgit_index_read_tree stuff_zlib 10000 x (demo_index, fs1) = Some (Inr (), ix2) \<and>
     ix_entries ix2 = [demo_entry]"
  using index_tree_roundtrip[where ix = demo_index and fs = "\<lambda>_. empty_disk", unfolded demo_entries_of(1,2), OF demo_files
      demo_dir demo_dir demo_disk demo_in_universe]
  by (auto simp: demo_entries_of demo_text_root demo_names)

section \<open>The table of slots after reading a tree\<close>

lemma empty_table_miss: "ix_ht ix = fg_ht_init 1024 \<Longrightarrow> fg_ht_find ix path stage = Inr None"
proof -
  assume h: "ix_ht ix = fg_ht_init 1024"
  have z: "ht_size (fg_ht_init 1024)" by (rule init_facts(1))
  have st: "ht_start (fg_ht_init 1024) k < length (fg_ht_init 1024)" for k by (rule ht_start_less[OF z])
  then have e: "fg_ht_init 1024 ! ht_start (fg_ht_init 1024) k = Empty_slot" for k by (simp add: fg_ht_init_def)
  obtain n where n: "length (fg_ht_init 1024) = Suc n" using size_pos[OF z] by (cases "length (fg_ht_init 1024)") auto
  then have "fg_ht_init 1024 \<noteq> []" by auto
  then show ?thesis by (simp add: fg_ht_find_def ht_lookup_def h n e)
qed

lemma read_tree_table:
  assumes "fastgit_index_read_tree z mem x (ix, fs) = Some (Inr (), ix')"
  shows "ix_ht ix' = fg_ht_init 1024" "\<not> ix_sorted ix'"
  using assms clear_empty[of ix]
  by (auto simp: fastgit_index_read_tree_def split: sum.splits option.splits prod.splits)

text \<open>
  Reading a tree leaves the table of slots empty: until something sorts the index, no entry is
  found by path. With a single file nothing ever sorts it, so that file is not found at all; and a
  file that is in the tree and is added again gets a second entry.
\<close>

theorem index_read_tree_unfound:
  assumes "fastgit_index_read_tree z mem x (ix, fs) = Some (Inr (), ix')"
  shows "fg_ht_find ix' path stage = Inr None \<and>
    (ix_count ix' \<le> 1 \<longrightarrow> fastgit_index_find ix' path stage = Inr (None, ix')) \<and>
    (\<forall>upd new ix2 b. index_store ix' path upd new = Inr (ix2, b) \<longrightarrow> b \<and> ix_entries ix2 = ix_entries ix' @ [new])"
  using empty_table_miss[OF read_tree_table(1)[OF assms]]
  by (auto simp: fastgit_index_find_def index_store_def bindr_Inr_iff)

theorem index_read_tree_unfound_witness:
  "\<exists>x fs ix. fastgit_index_read_tree stuff_zlib 10000 x (demo_index, fs) = Some (Inr (), ix) \<and> ix_entries ix = [demo_entry] \<and>
     fastgit_index_find ix (str ''d/a'') STAGE_NORMAL = Inr (None, ix)"
proof -
  obtain x fs ix where r: "fastgit_index_read_tree stuff_zlib 10000 x (demo_index, fs) = Some (Inr (), ix)" "ix_entries ix = [demo_entry]"
    using demo_trip by blast
  then show ?thesis using index_read_tree_unfound[OF r(1), of "str ''d/a''" STAGE_NORMAL] by auto
qed

end
