(* ===== verification/Ring.thy ===== *)
theory Ring
  imports Prelude
begin

text \<open>
  The task queue of a thread pool (\<^verbatim>\<open>src/platform/platform.c\<close>): a ring of fixed size with head, tail and
  count. The interface \<open>fifo\<close> states what a bounded queue promises; the pool relies on that only.
\<close>

section \<open>A bounded queue\<close>

locale fifo =
  fixes enq :: "'q \<Rightarrow> 'a \<Rightarrow> 'q option" and deq :: "'q \<Rightarrow> ('a \<times> 'q) option"
    and content :: "'q \<Rightarrow> 'a list" and room :: "'q \<Rightarrow> nat" and good :: "'q \<Rightarrow> bool"
  assumes enq_full: "good q \<Longrightarrow> room q = 0 \<Longrightarrow> enq q x = None"
    and enq_room: "good q \<Longrightarrow> 0 < room q \<Longrightarrow>
      \<exists>q'. enq q x = Some q' \<and> good q' \<and> content q' = content q @ [x] \<and> room q' = room q - 1"
    and deq_empty: "good q \<Longrightarrow> content q = [] \<Longrightarrow> deq q = None"
    and deq_first: "good q \<Longrightarrow> content q = x # xs \<Longrightarrow>
      \<exists>q'. deq q = Some (x, q') \<and> good q' \<and> content q' = xs \<and> room q' = room q + 1"
begin

lemma enq_SomeD:
  assumes "good q" "enq q x = Some q'"
  shows "good q' \<and> content q' = content q @ [x] \<and> room q = room q' + 1"
  using assms enq_full[of q x] enq_room[of q x] by (cases "room q = 0") auto

lemma deq_SomeD:
  assumes "good q" "deq q = Some (x, q')"
  shows "good q' \<and> content q = x # content q' \<and> room q' = room q + 1"
  using assms deq_empty[of q] deq_first[of q] by (cases "content q") auto

lemma enq_None_iff: "good q \<Longrightarrow> enq q x = None \<longleftrightarrow> room q = 0"
  using enq_full[of q x] enq_room[of q x] by (cases "room q = 0") auto

lemma deq_None_iff: "good q \<Longrightarrow> deq q = None \<longleftrightarrow> content q = []"
  using deq_empty[of q] deq_first[of q] by (cases "content q") auto

text \<open>What was taken so far, followed by what is still queued, is what was put in.\<close>

lemma enq_history: "good q \<Longrightarrow> enq q x = Some q' \<Longrightarrow> out @ content q = ins \<Longrightarrow> out @ content q' = ins @ [x]"
  using enq_SomeD by fastforce

lemma deq_history: "good q \<Longrightarrow> deq q = Some (x, q') \<Longrightarrow> out @ content q = ins \<Longrightarrow> (out @ [x]) @ content q' = ins"
  using deq_SomeD by fastforce

end

section \<open>The ring\<close>

text \<open>The arrays of functions and of arguments are one array of tasks; calloc leaves them empty.\<close>

record 'a ring =
  rq_tasks :: "'a option list"
  rq_head :: nat
  rq_tail :: nat
  rq_count :: nat

definition ring_new :: "nat \<Rightarrow> 'a ring" where
  "ring_new depth = \<lparr>rq_tasks = replicate depth None, rq_head = 0, rq_tail = 0, rq_count = 0\<rparr>"

definition ring_enq :: "'a ring \<Rightarrow> 'a \<Rightarrow> 'a ring option" where
  "ring_enq q x =
     (if length (rq_tasks q) \<le> rq_count q then None
      else Some (q\<lparr>rq_tasks := (rq_tasks q)[rq_tail q := Some x],
                   rq_tail := (rq_tail q + 1) mod length (rq_tasks q), rq_count := rq_count q + 1\<rparr>))"

text \<open>A slot that was never filled holds a null function; the pool never takes one.\<close>

definition ring_deq :: "'a ring \<Rightarrow> ('a \<times> 'a ring) option" where
  "ring_deq q =
     (if rq_count q = 0 then None
      else (case rq_tasks q ! rq_head q of
          None \<Rightarrow> None
        | Some x \<Rightarrow> Some (x, q\<lparr>rq_head := (rq_head q + 1) mod length (rq_tasks q), rq_count := rq_count q - 1\<rparr>)))"

section \<open>The ring is a bounded queue\<close>

definition ring_slot :: "'a ring \<Rightarrow> nat \<Rightarrow> 'a option" where
  "ring_slot q i = rq_tasks q ! ((rq_head q + i) mod length (rq_tasks q))"

definition ring_content :: "'a ring \<Rightarrow> 'a list" where
  "ring_content q = map (\<lambda>i. the (ring_slot q i)) [0..<rq_count q]"

definition ring_room :: "'a ring \<Rightarrow> nat" where
  "ring_room q = length (rq_tasks q) - rq_count q"

definition ring_ok :: "'a ring \<Rightarrow> bool" where
  "ring_ok q \<longleftrightarrow> rq_head q < length (rq_tasks q) \<and> rq_count q \<le> length (rq_tasks q) \<and>
     rq_tail q = (rq_head q + rq_count q) mod length (rq_tasks q) \<and> (\<forall>i < rq_count q. ring_slot q i \<noteq> None)"

lemma ring_new_ok: "0 < depth \<Longrightarrow> ring_ok (ring_new depth)" "ring_content (ring_new depth) = []"
    "ring_room (ring_new depth) = depth"
  by (simp_all add: ring_ok_def ring_new_def ring_content_def ring_room_def)

lemma mod_add_inj:
  assumes "(h + i) mod n = (h + j) mod n" "i < n" "j < n"
  shows "i = (j :: nat)"
proof (rule ccontr)
  assume "i \<noteq> j"
  then consider "i < j" | "j < i" by linarith
  then show False
  proof cases
    case 1
    then have "n dvd (h + j) - (h + i)" using assms(1) by (subst mod_eq_dvd_iff_nat[symmetric]) auto
    then show False using 1 assms(3) by (auto dest: dvd_imp_le)
  next
    case 2
    then have "n dvd (h + i) - (h + j)" using assms(1) by (subst mod_eq_dvd_iff_nat[symmetric]) auto
    then show False using 2 assms(2) by (auto dest: dvd_imp_le)
  qed
qed

lemma enq_slot:
  assumes "ring_ok q" "rq_count q < length (rq_tasks q)" "ring_enq q x = Some q'" "i \<le> rq_count q"
  shows "ring_slot q' i = (if i = rq_count q then Some x else ring_slot q i)"
proof -
  let ?n = "length (rq_tasks q)"
  have "(rq_head q + i) mod ?n = (rq_head q + rq_count q) mod ?n \<longleftrightarrow> i = rq_count q"
    using mod_add_inj[of "rq_head q" i ?n "rq_count q"] assms(2,4) by auto
  moreover have "(rq_head q + i) mod ?n < ?n" using assms(2) by (intro mod_less_divisor) auto
  ultimately show ?thesis
    using assms by (auto simp: ring_enq_def ring_slot_def ring_ok_def nth_list_update)
qed

lemma deq_slot: "ring_deq q = Some (x, q') \<Longrightarrow> ring_slot q' i = ring_slot q (Suc i)"
  by (auto simp: ring_deq_def ring_slot_def mod_simps split: if_splits option.splits)

lemma ring_enq_ok:
  assumes ok: "ring_ok q" and r: "0 < ring_room q"
  shows "\<exists>q'. ring_enq q x = Some q' \<and> ring_ok q' \<and> ring_content q' = ring_content q @ [x] \<and>
    ring_room q' = ring_room q - 1"
proof -
  have c: "rq_count q < length (rq_tasks q)" using r by (simp add: ring_room_def)
  then obtain q' where q': "ring_enq q x = Some q'" "rq_count q' = rq_count q + 1" "rq_head q' = rq_head q"
    "length (rq_tasks q') = length (rq_tasks q)" "rq_tail q' = (rq_tail q + 1) mod length (rq_tasks q)"
    by (simp add: ring_enq_def)
  note s = enq_slot[OF ok c q'(1)]
  have "ring_content q' = ring_content q @ [x]" using s by (simp add: ring_content_def q'(2))
  moreover have "ring_ok q'"
    using ok c s q' by (auto simp: ring_ok_def mod_simps less_Suc_eq)
  ultimately show ?thesis using q' by (simp add: ring_room_def)
qed

lemma ring_deq_ok:
  assumes ok: "ring_ok q" and c: "ring_content q = x # xs"
  shows "\<exists>q'. ring_deq q = Some (x, q') \<and> ring_ok q' \<and> ring_content q' = xs \<and> ring_room q' = ring_room q + 1"
proof -
  have n: "0 < rq_count q" using c by (cases "rq_count q") (simp_all add: ring_content_def)
  then have "ring_slot q 0 \<noteq> None" using ok by (simp add: ring_ok_def)
  then obtain y where y: "rq_tasks q ! rq_head q = Some y" using ok by (auto simp: ring_slot_def ring_ok_def)
  let ?q = "q\<lparr>rq_head := (rq_head q + 1) mod length (rq_tasks q), rq_count := rq_count q - 1\<rparr>"
  have d: "ring_deq q = Some (y, ?q)" using y n by (simp add: ring_deq_def)
  note s = deq_slot[OF d]
  have "ring_content q = y # ring_content ?q"
  proof -
    have "[0..<rq_count q] = 0 # map Suc [0..<rq_count q - 1]" using n by (simp add: map_Suc_upt upt_conv_Cons)
    then show ?thesis using y ok s by (simp add: ring_content_def ring_slot_def[of q 0] ring_ok_def comp_def)
  qed
  moreover have "ring_ok ?q"
  proof -
    let ?n = "length (rq_tasks q)"
    have "((rq_head q + 1) mod ?n + (rq_count q - 1)) mod ?n = (rq_head q + 1 + (rq_count q - 1)) mod ?n"
      by (rule mod_add_left_eq)
    then have "rq_tail q = ((rq_head q + 1) mod ?n + (rq_count q - 1)) mod ?n" using n ok by (simp add: ring_ok_def)
    moreover have "(rq_head q + 1) mod ?n < ?n" using ok by (intro mod_less_divisor) (auto simp: ring_ok_def)
    moreover have "\<forall>i < rq_count q - 1. ring_slot q (Suc i) \<noteq> None" using ok by (simp add: ring_ok_def)
    moreover have "rq_count q - 1 \<le> ?n" using ok unfolding ring_ok_def by linarith
    ultimately show ?thesis using ok s by (simp add: ring_ok_def)
  qed
  ultimately show ?thesis using d c n ok by (auto simp: ring_room_def ring_ok_def)
qed

lemma ring_full: "ring_room q = 0 \<Longrightarrow> ring_enq q x = None"
  by (simp add: ring_room_def ring_enq_def)

lemma ring_empty: "ring_content q = [] \<Longrightarrow> ring_deq q = None"
  by (simp add: ring_content_def ring_deq_def)

interpretation ring: fifo ring_enq ring_deq ring_content ring_room ring_ok
  by (rule fifo.intro) (rule ring_full ring_enq_ok ring_empty ring_deq_ok; assumption)+

end
