(* ===== verification/ThreadPool.thy ===== *)
theory ThreadPool
  imports Ring
begin

text \<open>
  The thread pool of \<^verbatim>\<open>src/platform/platform.c\<close> as a state machine: one client that submits tasks, waits
  and frees the pool, and its workers. A critical section without a wait in it is one step. The
  section in which a worker finds nothing to do is split where it goes to sleep, because freeing the
  pool does not take the lock. \<open>pl_given\<close>, \<open>pl_taken\<close> and \<open>pl_finished\<close> record what happened and are not
  part of the program's state. Thread creation succeeds, and memory is sequentially consistent
  although \<open>shutdown\<close> is a plain variable.
\<close>

section \<open>The state\<close>

text \<open>
  A worker is about to take the lock, holds it after it has seen an empty queue and no shutdown,
  sleeps on the condition, runs a task, or has returned.
\<close>

datatype 'a worker = Ready | Testing | Sleeping | Running 'a | Exited

text \<open>What the client does; \<open>Waited\<close>: its last call was a wait, and that has returned.\<close>

datatype client = Calling | In_wait | Waited | In_free | Joining | Freed

record 'a pool =
  pl_queue :: "'a ring"
  pl_pending :: nat
  pl_shutdown :: bool
  pl_workers :: "'a worker list"
  pl_client :: client
  pl_given :: "'a list"
  pl_taken :: "'a list"
  pl_finished :: "'a list"

definition lock_free :: "'a pool \<Rightarrow> bool" where
  "lock_free p \<longleftrightarrow> Testing \<notin> set (pl_workers p)"

section \<open>The operations\<close>

text \<open>Defaults for a configuration without counts; \<open>cpus\<close> is the number of processors online.\<close>

definition fastgit_thread_pool_new :: "nat \<Rightarrow> int \<Rightarrow> int \<Rightarrow> 'a pool" where
  "fastgit_thread_pool_new cpus worker_count max_queue_depth =
     \<lparr>pl_queue = ring_new (if max_queue_depth \<le> 0 then 1024 else nat max_queue_depth), pl_pending = 0,
      pl_shutdown = False, pl_workers = replicate (if worker_count \<le> 0 then cpus else nat worker_count) Ready,
      pl_client = Calling, pl_given = [], pl_taken = [], pl_finished = []\<rparr>"

text \<open>A signal wakes one sleeping worker, if there is one; which one is not determined.\<close>

definition may_signal :: "nat option \<Rightarrow> 'a worker list \<Rightarrow> bool" where
  "may_signal w ws = (case w of None \<Rightarrow> Sleeping \<notin> set ws | Some i \<Rightarrow> i < length ws \<and> ws ! i = Sleeping)"

definition cond_signal :: "nat option \<Rightarrow> 'a worker list \<Rightarrow> 'a worker list" where
  "cond_signal w ws = (case w of None \<Rightarrow> ws | Some i \<Rightarrow> ws[i := Ready])"

definition cond_broadcast :: "'a worker list \<Rightarrow> 'a worker list" where
  "cond_broadcast ws = map (\<lambda>w. if w = Sleeping then Ready else w) ws"

definition fastgit_thread_pool_submit :: "nat option \<Rightarrow> 'a \<Rightarrow> 'a pool \<Rightarrow> unit res \<times> 'a pool" where
  "fastgit_thread_pool_submit w x p =
     (case ring_enq (pl_queue p) x of
        None \<Rightarrow> (Inl EBUSY, p)
      | Some q \<Rightarrow> (Inr (), p\<lparr>pl_queue := q, pl_pending := pl_pending p + 1,
          pl_workers := cond_signal w (pl_workers p), pl_given := pl_given p @ [x]\<rparr>))"

definition fastgit_thread_pool_wait :: "'a pool \<Rightarrow> 'a pool" where
  "fastgit_thread_pool_wait p = p\<lparr>pl_client := (if 0 < pl_pending p then In_wait else Waited)\<rparr>"

text \<open>Freeing: set the flag, wake everybody, join.\<close>

definition free_begin :: "'a pool \<Rightarrow> 'a pool" where
  "free_begin p = p\<lparr>pl_shutdown := True, pl_client := In_free\<rparr>"

definition free_broadcast :: "'a pool \<Rightarrow> 'a pool" where
  "free_broadcast p = p\<lparr>pl_workers := cond_broadcast (pl_workers p), pl_client := Joining\<rparr>"

definition free_joined :: "'a pool \<Rightarrow> bool" where
  "free_joined p \<longleftrightarrow> (\<forall>w \<in> set (pl_workers p). w = Exited)"

text \<open>Worker \<open>i\<close> takes a task; after a task it counts down and wakes the waiting client at zero.\<close>

definition set_worker :: "nat \<Rightarrow> 'a worker \<Rightarrow> 'a pool \<Rightarrow> 'a pool" where
  "set_worker i w p = p\<lparr>pl_workers := (pl_workers p)[i := w]\<rparr>"

definition worker_take :: "nat \<Rightarrow> 'a pool \<Rightarrow> 'a pool option" where
  "worker_take i p =
     map_option (\<lambda>(x, q). set_worker i (Running x) (p\<lparr>pl_queue := q, pl_taken := pl_taken p @ [x]\<rparr>))
       (ring_deq (pl_queue p))"

definition worker_done :: "nat \<Rightarrow> 'a \<Rightarrow> 'a pool \<Rightarrow> 'a pool" where
  "worker_done i x p =
     set_worker i Ready (p\<lparr>pl_pending := pl_pending p - 1, pl_finished := pl_finished p @ [x],
       pl_client := (if pl_pending p = 1 \<and> pl_client p = In_wait then Waited else pl_client p)\<rparr>)"

section \<open>Steps\<close>

inductive worker_step :: "'a pool \<Rightarrow> 'a pool \<Rightarrow> bool" where
  take_task: "i < length (pl_workers p) \<Longrightarrow> pl_workers p ! i = Ready \<Longrightarrow> lock_free p \<Longrightarrow> worker_take i p = Some p' \<Longrightarrow>
    worker_step p p'"
| test_empty: "i < length (pl_workers p) \<Longrightarrow> pl_workers p ! i = Ready \<Longrightarrow> lock_free p \<Longrightarrow>
    rq_count (pl_queue p) = 0 \<Longrightarrow> \<not> pl_shutdown p \<Longrightarrow> worker_step p (set_worker i Testing p)"
| sleep: "i < length (pl_workers p) \<Longrightarrow> pl_workers p ! i = Testing \<Longrightarrow> worker_step p (set_worker i Sleeping p)"
| leave: "i < length (pl_workers p) \<Longrightarrow> pl_workers p ! i = Ready \<Longrightarrow> lock_free p \<Longrightarrow>
    rq_count (pl_queue p) = 0 \<Longrightarrow> pl_shutdown p \<Longrightarrow> worker_step p (set_worker i Exited p)"
| finish: "i < length (pl_workers p) \<Longrightarrow> pl_workers p ! i = Running x \<Longrightarrow> lock_free p \<Longrightarrow>
    worker_step p (worker_done i x p)"

inductive client_step :: "'a pool \<Rightarrow> 'a pool \<Rightarrow> bool" where
  submit: "pl_client p \<in> {Calling, Waited} \<Longrightarrow> lock_free p \<Longrightarrow> may_signal w (pl_workers p) \<Longrightarrow>
    client_step p (snd (fastgit_thread_pool_submit w x p)\<lparr>pl_client := Calling\<rparr>)"
| wait: "pl_client p \<in> {Calling, Waited} \<Longrightarrow> lock_free p \<Longrightarrow> client_step p (fastgit_thread_pool_wait p)"
| free: "pl_client p \<in> {Calling, Waited} \<Longrightarrow> client_step p (free_begin p)"
| broadcast: "pl_client p = In_free \<Longrightarrow> client_step p (free_broadcast p)"
| join: "pl_client p = Joining \<Longrightarrow> free_joined p \<Longrightarrow> client_step p (p\<lparr>pl_client := Freed\<rparr>)"

text \<open>POSIX lets a sleeping thread wake up without a signal.\<close>

inductive spurious :: "'a pool \<Rightarrow> 'a pool \<Rightarrow> bool" where
  "i < length (pl_workers p) \<Longrightarrow> pl_workers p ! i = Sleeping \<Longrightarrow> spurious p (set_worker i Ready p)"

definition calm_run :: "'a pool \<Rightarrow> 'a pool \<Rightarrow> bool" where
  "calm_run = (\<lambda>p q. worker_step p q \<or> client_step p q)\<^sup>*\<^sup>*"

definition pool_run :: "'a pool \<Rightarrow> 'a pool \<Rightarrow> bool" where
  "pool_run = (\<lambda>p q. worker_step p q \<or> client_step p q \<or> spurious p q)\<^sup>*\<^sup>*"

section \<open>The invariant\<close>

definition runs :: "'a worker list \<Rightarrow> 'a list" where
  "runs ws = concat (map (\<lambda>w. case w of Running x \<Rightarrow> [x] | _ \<Rightarrow> []) ws)"

text \<open>
  The history of the queue, every task taken runs or has finished, \<open>pending\<close> counts what is queued or
  running; a worker holds the lock alone and only while the queue is empty; while tasks are queued
  and there is a worker, one is awake.
\<close>

definition history_ok :: "'a pool \<Rightarrow> bool" where
  "history_ok p \<longleftrightarrow> ring_ok (pl_queue p) \<and> pl_taken p @ ring_content (pl_queue p) = pl_given p \<and>
     mset (pl_taken p) = mset (pl_finished p) + mset (runs (pl_workers p)) \<and>
     pl_pending p = rq_count (pl_queue p) + length (runs (pl_workers p)) \<and>
     (pl_client p = Waited \<longrightarrow> pl_pending p = 0) \<and> (pl_client p = In_wait \<longrightarrow> 0 < pl_pending p)"

definition awake :: "'a worker \<Rightarrow> bool" where
  "awake w \<longleftrightarrow> w \<noteq> Sleeping \<and> w \<noteq> Exited"

definition wake_ok :: "'a pool \<Rightarrow> bool" where
  "wake_ok p \<longleftrightarrow> (Testing \<in> set (pl_workers p) \<longrightarrow> rq_count (pl_queue p) = 0) \<and>
     (pl_shutdown p \<longleftrightarrow> pl_client p \<in> {In_free, Joining, Freed}) \<and>
     (\<not> pl_shutdown p \<longrightarrow> Exited \<notin> set (pl_workers p) \<and>
       (0 < rq_count (pl_queue p) \<and> pl_workers p \<noteq> [] \<longrightarrow> (\<exists>w \<in> set (pl_workers p). awake w)))"

section \<open>The invariant is kept\<close>

lemma runs_simps [simp]: "runs [] = []" "runs (w # ws) = (case w of Running x \<Rightarrow> [x] | _ \<Rightarrow> []) @ runs ws"
  by (simp_all add: runs_def)

lemma runs_update:
  "i < length ws \<Longrightarrow> mset (runs (ws[i := w])) + mset (runs [ws ! i]) = mset (runs ws) + mset (runs [w])"
  by (induction ws arbitrary: i) (auto split: nat.splits worker.splits)

lemma length_runs_update:
  "i < length ws \<Longrightarrow> length (runs (ws[i := w])) + length (runs [ws ! i]) = length (runs ws) + length (runs [w])"
  using arg_cong[OF runs_update[of i ws w], of size] by simp

lemma runs_idle:
  assumes "i < length ws" "runs [ws ! i] = []" "runs [w] = []"
  shows "mset (runs (ws[i := w])) = mset (runs ws)" "length (runs (ws[i := w])) = length (runs ws)"
  using runs_update[OF assms(1), of w] length_runs_update[OF assms(1), of w] assms(2,3) by simp_all

lemma runs_broadcast [simp]: "runs (cond_broadcast ws) = runs ws"
  by (induction ws) (auto simp: cond_broadcast_def)

lemma length_content: "length (ring_content q) = rq_count q"
  by (simp add: ring_content_def)

lemma set_worker_simps [simp]:
  "pl_queue (set_worker i w p) = pl_queue p" "pl_pending (set_worker i w p) = pl_pending p"
  "pl_shutdown (set_worker i w p) = pl_shutdown p" "pl_workers (set_worker i w p) = (pl_workers p)[i := w]"
  "pl_client (set_worker i w p) = pl_client p" "pl_given (set_worker i w p) = pl_given p"
  "pl_taken (set_worker i w p) = pl_taken p" "pl_finished (set_worker i w p) = pl_finished p"
  by (simp_all add: set_worker_def)

lemma history_idle:
  assumes "history_ok p" "i < length (pl_workers p)" "runs [pl_workers p ! i] = []" "runs [w] = []"
  shows "history_ok (set_worker i w p)"
  using assms(1) runs_idle[OF assms(2-4)] by (auto simp: history_ok_def)

lemma history_signal:
  assumes "may_signal w ws"
  shows "mset (runs (cond_signal w ws)) = mset (runs ws)" "length (runs (cond_signal w ws)) = length (runs ws)"
  using assms by (auto simp: may_signal_def cond_signal_def runs_idle split: option.splits)

lemma history_worker: "worker_step p q \<Longrightarrow> history_ok p \<Longrightarrow> history_ok q"
proof (induction rule: worker_step.induct)
  case (take_task i p p')
  then obtain x q where q: "ring_deq (pl_queue p) = Some (x, q)"
    "p' = set_worker i (Running x) (p\<lparr>pl_queue := q, pl_taken := pl_taken p @ [x]\<rparr>)"
    by (auto simp: worker_take_def)
  have ok: "ring_ok (pl_queue p)" using take_task by (simp add: history_ok_def)
  note d = ring.deq_SomeD[OF ok q(1)]
  have "rq_count (pl_queue p) = Suc (rq_count q)" using d by (metis length_content length_Cons)
  moreover have "mset (runs ((pl_workers p)[i := Running x])) = mset (runs (pl_workers p)) + {#x#}"
    "length (runs ((pl_workers p)[i := Running x])) = length (runs (pl_workers p)) + 1"
    using runs_update[OF take_task(1), of "Running x"] length_runs_update[OF take_task(1), of "Running x"] take_task(2)
    by simp_all
  ultimately show ?case
    using take_task(5) d ring.deq_history[OF ok q(1)] by (auto simp: history_ok_def q(2))
next
  case (finish i p x)
  have r: "mset (runs (pl_workers p)) = add_mset x (mset (runs ((pl_workers p)[i := Ready])))"
    "length (runs (pl_workers p)) = Suc (length (runs ((pl_workers p)[i := Ready])))"
    using runs_update[OF finish(1), of Ready] length_runs_update[OF finish(1), of Ready] finish(2) by simp_all
  then show ?case using finish(4) by (auto simp: history_ok_def worker_done_def)
qed (auto intro!: history_idle)

lemma history_client: "client_step p q \<Longrightarrow> history_ok p \<Longrightarrow> history_ok q"
proof (induction rule: client_step.induct)
  case (submit p w x)
  show ?case
  proof (cases "ring_enq (pl_queue p) x")
    case None
    then show ?thesis using submit by (simp add: fastgit_thread_pool_submit_def history_ok_def)
  next
    case (Some q)
    have ok: "ring_ok (pl_queue p)" using submit by (simp add: history_ok_def)
    note e = ring.enq_SomeD[OF ok Some]
    have "rq_count q = Suc (rq_count (pl_queue p))" using e by (metis length_content length_append_singleton)
    then show ?thesis
      using submit Some e ring.enq_history[OF ok Some] history_signal[OF submit(3)]
      by (simp add: fastgit_thread_pool_submit_def history_ok_def)
  qed
qed (auto simp: history_ok_def fastgit_thread_pool_wait_def free_begin_def free_broadcast_def)

lemma history_spurious: "spurious p q \<Longrightarrow> history_ok p \<Longrightarrow> history_ok q"
  by (induction rule: spurious.induct) (auto intro!: history_idle)

lemma wake_worker: "worker_step p q \<Longrightarrow> wake_ok p \<Longrightarrow> history_ok p \<Longrightarrow> wake_ok q"
proof (induction rule: worker_step.induct)
  case (take_task i p p')
  then obtain x q where q: "ring_deq (pl_queue p) = Some (x, q)"
    "p' = set_worker i (Running x) (p\<lparr>pl_queue := q, pl_taken := pl_taken p @ [x]\<rparr>)"
    by (auto simp: worker_take_def)
  have "Running x \<in> set ((pl_workers p)[i := Running x])" using take_task(1) by (rule set_update_memI)
  then show ?case
    using take_task(3,5) set_update_subset_insert[of "pl_workers p" i "Running x"]
    by (auto simp: wake_ok_def q(2) lock_free_def awake_def)
next
  case (finish i p x)
  have "Ready \<in> set ((pl_workers p)[i := Ready])" using finish(1) by (rule set_update_memI)
  then show ?case
    using finish(3,4) set_update_subset_insert[of "pl_workers p" i Ready]
    by (auto simp: wake_ok_def worker_done_def lock_free_def awake_def)
next
  case (test_empty i p)
  then show ?case using set_update_subset_insert[of "pl_workers p" i Testing] by (auto simp: wake_ok_def)
next
  case (sleep i p)
  then have "Testing \<in> set (pl_workers p)" by (metis nth_mem)
  then show ?case using sleep set_update_subset_insert[of "pl_workers p" i Sleeping] by (auto simp: wake_ok_def)
next
  case (leave i p)
  then show ?case using set_update_subset_insert[of "pl_workers p" i Exited] by (auto simp: wake_ok_def)
qed

lemma wake_client: "client_step p q \<Longrightarrow> wake_ok p \<Longrightarrow> history_ok p \<Longrightarrow> wake_ok q"
proof (induction rule: client_step.induct)
  case (submit p w x)
  have sd: "\<not> pl_shutdown p" and ne: "Exited \<notin> set (pl_workers p)" using submit by (auto simp: wake_ok_def)
  show ?case
  proof (cases "ring_enq (pl_queue p) x")
    case None
    then show ?thesis using submit sd ne by (auto simp: fastgit_thread_pool_submit_def wake_ok_def)
  next
    case (Some q)
    let ?ws = "cond_signal w (pl_workers p)"
    have sub: "set ?ws \<subseteq> insert Ready (set (pl_workers p))"
      using set_update_subset_insert[of "pl_workers p" _ Ready] by (simp add: cond_signal_def subset_insertI split: option.split)
    have "\<exists>v \<in> set ?ws. awake v" if "?ws \<noteq> []"
    proof (cases w)
      case None
      then show ?thesis using submit(3) ne that
        by (cases "pl_workers p") (auto simp: may_signal_def cond_signal_def awake_def)
    next
      case (Some i)
      then have "Ready \<in> set ?ws" using submit(3) by (simp add: may_signal_def cond_signal_def set_update_memI)
      then show ?thesis by (auto simp: awake_def)
    qed
    then show ?thesis
      using sub sd ne submit(2) Some by (auto simp: fastgit_thread_pool_submit_def wake_ok_def lock_free_def)
  qed
next
  case (broadcast p)
  have "Testing \<in> set (cond_broadcast ws) \<longleftrightarrow> Testing \<in> set ws" for ws :: "'a worker list"
    by (force simp: cond_broadcast_def)
  then show ?case using broadcast by (auto simp: wake_ok_def free_broadcast_def)
qed (auto simp: wake_ok_def fastgit_thread_pool_wait_def free_begin_def)

lemma wake_spurious: "spurious p q \<Longrightarrow> wake_ok p \<Longrightarrow> wake_ok q"
proof (induction rule: spurious.induct)
  case (1 i p)
  have "Ready \<in> set ((pl_workers p)[i := Ready])" using 1(1) by (rule set_update_memI)
  then show ?case
    using 1 set_update_subset_insert[of "pl_workers p" i Ready] by (auto simp: wake_ok_def awake_def)
qed

lemma new_pool_ok:
  "history_ok (fastgit_thread_pool_new cpus wc depth)" "wake_ok (fastgit_thread_pool_new cpus wc depth)"
proof -
  have r: "runs (replicate n Ready) = []" for n by (induction n) auto
  let ?d = "if depth \<le> 0 then 1024 else nat depth"
  have d: "ring_ok (ring_new ?d)" "ring_content (ring_new ?d) = []" "rq_count (ring_new ?d) = 0"
    by (rule ring_new_ok; simp) (simp_all add: ring_new_ok(2), simp add: ring_new_def)
  show "history_ok (fastgit_thread_pool_new cpus wc depth)"
    using d by (simp add: history_ok_def fastgit_thread_pool_new_def r)
  show "wake_ok (fastgit_thread_pool_new cpus wc depth)"
    by (simp add: wake_ok_def fastgit_thread_pool_new_def ring_new_def)
qed

lemma pool_run_ok: "pool_run p q \<Longrightarrow> history_ok p \<and> wake_ok p \<Longrightarrow> history_ok q \<and> wake_ok q"
  unfolding pool_run_def
  by (induction rule: rtranclp_induct)
    (use history_worker history_client history_spurious wake_worker wake_client wake_spurious in blast)+

lemmas reached_ok = pool_run_ok[OF _ conjI[OF new_pool_ok]]

section \<open>Progress\<close>

text \<open>Every step of a worker uses up some of the work in the pool.\<close>

primrec effort :: "'a worker \<Rightarrow> nat" where
  "effort Ready = 2" | "effort Testing = 1" | "effort Sleeping = 0" | "effort (Running x) = 3" | "effort Exited = 0"

definition pool_work :: "'a pool \<Rightarrow> nat" where
  "pool_work p = 4 * rq_count (pl_queue p) + sum_list (map effort (pl_workers p))"

lemma sum_update:
  "i < length ws \<Longrightarrow> sum_list (map f (ws[i := w])) + f (ws ! i) = sum_list (map f ws) + (f w :: nat)"
  by (induction ws arbitrary: i) (auto split: nat.splits)

lemma work_decreases: "worker_step p q \<Longrightarrow> pool_work q < pool_work p"
proof (induction rule: worker_step.induct)
  case (take_task i p p')
  then obtain x q where q: "ring_deq (pl_queue p) = Some (x, q)"
    "p' = set_worker i (Running x) (p\<lparr>pl_queue := q, pl_taken := pl_taken p @ [x]\<rparr>)"
    by (auto simp: worker_take_def)
  have "rq_count (pl_queue p) = Suc (rq_count q)"
    using q(1) by (auto simp: ring_deq_def split: if_splits option.splits)
  then show ?case
    using sum_update[OF take_task(1), of effort "Running x"] take_task(2) by (simp add: pool_work_def q(2))
next
  case (finish i p x)
  then show ?case using sum_update[OF finish(1), of effort Ready] by (simp add: pool_work_def worker_done_def)
next
  case (test_empty i p)
  then show ?case using sum_update[of i "pl_workers p" effort Testing] by (simp add: pool_work_def)
next
  case (sleep i p)
  then show ?case using sum_update[of i "pl_workers p" effort Sleeping] by (simp add: pool_work_def)
next
  case (leave i p)
  then show ?case using sum_update[of i "pl_workers p" effort Exited] by (simp add: pool_work_def)
qed

lemma worker_steps_end: "wf {(q, p). worker_step p q}"
  by (rule wf_subset[OF wf_measure[of pool_work]]) (auto simp: work_decreases)

lemma running_runs: "x \<in> set (runs ws) \<longleftrightarrow> Running x \<in> set ws"
  by (induction ws) (auto split: worker.splits)

lemma can_step:
  assumes h: "history_ok p" and w: "wake_ok p" and n: "pl_workers p \<noteq> []" and sd: "\<not> pl_shutdown p" and pend: "0 < pl_pending p"
  shows "\<exists>q. worker_step p q"
proof (cases "Testing \<in> set (pl_workers p)")
  case True
  then obtain i where "i < length (pl_workers p)" "pl_workers p ! i = Testing" by (auto simp: in_set_conv_nth)
  then show ?thesis by (blast intro: worker_step.sleep)
next
  case False
  then have l: "lock_free p" by (simp add: lock_free_def)
  show ?thesis
  proof (cases "\<exists>x. Running x \<in> set (pl_workers p)")
    case True
    then obtain i x where "i < length (pl_workers p)" "pl_workers p ! i = Running x" by (auto simp: in_set_conv_nth)
    then show ?thesis using l by (blast intro: worker_step.finish)
  next
    case none: False
    then have "runs (pl_workers p) = []" using running_runs by (metis ex_in_conv set_empty)
    then have c: "0 < rq_count (pl_queue p)" using h pend by (simp add: history_ok_def)
    then obtain v where "v \<in> set (pl_workers p)" "awake v" using w n sd by (auto simp: wake_ok_def)
    then have "v = Ready" using none False worker.exhaust[of v] by (auto simp: awake_def)
    then have "Ready \<in> set (pl_workers p)" using \<open>v \<in> set (pl_workers p)\<close> by simp
    then obtain i where i: "i < length (pl_workers p)" "pl_workers p ! i = Ready" by (auto simp: in_set_conv_nth)
    have "ring_content (pl_queue p) \<noteq> []" using c by (simp add: ring_content_def)
    then obtain r where "ring_deq (pl_queue p) = Some r"
      using ring.deq_None_iff[of "pl_queue p"] h by (auto simp: history_ok_def)
    then obtain q where "worker_take i p = Some q" by (simp add: worker_take_def)
    then show ?thesis using i l by (blast intro: worker_step.take_task)
  qed
qed

lemma workers_kept:
  "worker_step p q \<Longrightarrow> length (pl_workers q) = length (pl_workers p)"
  "client_step p q \<Longrightarrow> length (pl_workers q) = length (pl_workers p)"
  "spurious p q \<Longrightarrow> length (pl_workers q) = length (pl_workers p)"
  by (auto elim!: worker_step.cases client_step.cases spurious.cases
      simp: worker_take_def worker_done_def fastgit_thread_pool_submit_def cond_signal_def fastgit_thread_pool_wait_def
        free_begin_def free_broadcast_def cond_broadcast_def split: option.splits)

lemma pool_run_workers: "pool_run p q \<Longrightarrow> length (pl_workers q) = length (pl_workers p)"
  unfolding pool_run_def by (induction rule: rtranclp_induct) (auto dest: workers_kept)

lemma worker_client:
  "worker_step p q \<Longrightarrow> pl_shutdown q = pl_shutdown p \<and> (pl_client q = pl_client p \<or> pl_client p = In_wait \<and> pl_client q = Waited)"
  by (induction rule: worker_step.induct) (auto simp: worker_take_def worker_done_def)

lemma pool_run_steps:
  "pool_run p p"
  "client_step p q \<Longrightarrow> pool_run q r \<Longrightarrow> pool_run p r"
  "worker_step p q \<Longrightarrow> pool_run q r \<Longrightarrow> pool_run p r"
  unfolding pool_run_def by (auto intro: converse_rtranclp_into_rtranclp)

lemma calm_run_steps:
  "calm_run p p"
  "client_step p q \<Longrightarrow> calm_run q r \<Longrightarrow> calm_run p r"
  "worker_step p q \<Longrightarrow> calm_run q r \<Longrightarrow> calm_run p r"
  unfolding calm_run_def by (auto intro: converse_rtranclp_into_rtranclp)

section \<open>Properties\<close>

text \<open>
  C8. In every state a pool can reach: tasks are started in the order they were given; every given
  task is queued, running or finished, exactly once; and when a wait has returned and nothing was
  given since, exactly the tasks given have finished, nothing runs and nothing is queued.
\<close>

theorem pool_runs_every_task:
  assumes "pool_run (fastgit_thread_pool_new cpus worker_count max_queue_depth) p"
  shows "pl_given p = pl_taken p @ ring_content (pl_queue p) \<and>
    mset (pl_given p) = mset (pl_finished p) + mset (runs (pl_workers p)) + mset (ring_content (pl_queue p)) \<and>
    (pl_client p = Waited \<longrightarrow> mset (pl_finished p) = mset (pl_given p) \<and> runs (pl_workers p) = [] \<and>
       ring_content (pl_queue p) = [])"
proof -
  have h: "history_ok p" using reached_ok[OF assms] by simp
  then have g: "pl_given p = pl_taken p @ ring_content (pl_queue p)"
    "mset (pl_taken p) = mset (pl_finished p) + mset (runs (pl_workers p))"
    "pl_pending p = rq_count (pl_queue p) + length (runs (pl_workers p))"
    "pl_client p = Waited \<longrightarrow> pl_pending p = 0" by (auto simp: history_ok_def)
  then have m: "mset (pl_given p) = mset (pl_finished p) + mset (runs (pl_workers p)) + mset (ring_content (pl_queue p))"
    by simp
  moreover have "pl_client p = Waited \<longrightarrow> runs (pl_workers p) = [] \<and> ring_content (pl_queue p) = []"
    using g(3,4) by (simp add: ring_content_def)
  ultimately show ?thesis using g(1) by simp
qed

theorem pool_runs_every_task_witness:
  "\<exists>p :: nat pool. pl_client p = Waited \<and> pl_given p = [7] \<and> mset (pl_finished p) = {#7#}"
proof -
  let ?p0 = "fastgit_thread_pool_new 4 1 2 :: nat pool"
  let ?p1 = "snd (fastgit_thread_pool_submit None 7 ?p0)\<lparr>pl_client := Calling\<rparr>"
  let ?p2 = "fastgit_thread_pool_wait ?p1"
  let ?p3 = "the (worker_take 0 ?p2)"
  let ?p4 = "worker_done 0 7 ?p3"
  note defs = fastgit_thread_pool_new_def fastgit_thread_pool_submit_def fastgit_thread_pool_wait_def worker_take_def
    worker_done_def ring_new_def ring_enq_def ring_deq_def cond_signal_def set_worker_def lock_free_def numeral_2_eq_2
  have s1: "client_step ?p0 ?p1" by (rule client_step.submit) (simp_all add: defs may_signal_def)
  have s2: "client_step ?p1 ?p2" by (rule client_step.wait) (simp_all add: defs)
  have s3: "worker_step ?p2 ?p3" by (rule worker_step.take_task[of 0]) (simp_all add: defs)
  have s4: "worker_step ?p3 ?p4" by (rule worker_step.finish) (simp_all add: defs)
  note run = pool_run_steps
  have "pool_run ?p0 ?p4" by (rule run(2)[OF s1 run(2)[OF s2 run(3)[OF s3 run(3)[OF s4 run(1)]]]])
  then have m: "pl_client ?p4 = Waited \<longrightarrow> mset (pl_finished ?p4) = mset (pl_given ?p4)"
    using pool_runs_every_task by blast
  have c: "pl_client ?p4 = Waited" and g: "pl_given ?p4 = [7]" by (simp_all add: defs)
  have "mset (pl_finished ?p4) = {#7#}" using mp[OF m c] unfolding g by simp
  then show ?thesis using c g by blast
qed

text \<open>
  C25. A wait returns. In a pool with a worker, while the client waits the workers can always make a
  step, whatever they did before, and no sequence of their steps is endless: so every run of the
  workers, under any scheduling, reaches the end of the wait.
\<close>

theorem pool_wait_returns:
  assumes run: "pool_run (fastgit_thread_pool_new cpus worker_count max_queue_depth) p"
    and n: "0 < worker_count \<or> 0 < cpus" and w: "pl_client p = In_wait"
  shows "wf {(r, q). worker_step q r} \<and>
    (\<forall>q. worker_step\<^sup>*\<^sup>* p q \<longrightarrow> pl_client q = Waited \<or> (\<exists>r. worker_step q r))"
proof (intro conjI allI impI)
  show "wf {(r, q). worker_step q r}" by (rule worker_steps_end)
  fix q assume s: "worker_step\<^sup>*\<^sup>* p q"
  then have "pool_run p q" unfolding pool_run_def by (rule rtranclp_mono[THEN predicate2D, rotated]) auto
  then have run: "pool_run (fastgit_thread_pool_new cpus worker_count max_queue_depth) q"
    using run unfolding pool_run_def by (rule rtranclp_trans[rotated])
  have ok: "history_ok q" "wake_ok q" using reached_ok[OF run] by simp_all
  have "length (pl_workers q) = length (pl_workers (fastgit_thread_pool_new cpus worker_count max_queue_depth :: 'a pool))"
    by (rule pool_run_workers[OF run])
  then have ne: "pl_workers q \<noteq> []" using n by (auto simp: fastgit_thread_pool_new_def split: if_splits)
  have "pl_client q = In_wait \<or> pl_client q = Waited"
    using s w by (induction rule: rtranclp_induct) (auto dest: worker_client)
  then show "pl_client q = Waited \<or> (\<exists>r. worker_step q r)"
    using can_step[OF ok ne] ok by (auto simp: wake_ok_def history_ok_def)
qed

theorem pool_wait_returns_witness:
  "\<exists>p q. pool_run (fastgit_thread_pool_new 4 1 2 :: nat pool) p \<and> pl_client p = In_wait \<and> worker_step p q"
proof -
  let ?p0 = "fastgit_thread_pool_new 4 1 2 :: nat pool"
  let ?p1 = "snd (fastgit_thread_pool_submit None 7 ?p0)\<lparr>pl_client := Calling\<rparr>"
  let ?p2 = "fastgit_thread_pool_wait ?p1"
  note defs = fastgit_thread_pool_new_def fastgit_thread_pool_submit_def fastgit_thread_pool_wait_def
    ring_new_def ring_enq_def cond_signal_def lock_free_def numeral_2_eq_2
  have s1: "client_step ?p0 ?p1" by (rule client_step.submit) (simp_all add: defs may_signal_def)
  have s2: "client_step ?p1 ?p2" by (rule client_step.wait) (simp_all add: defs)
  note run = pool_run_steps
  have r: "pool_run ?p0 ?p2" by (rule run(2)[OF s1 run(2)[OF s2 run(1)]])
  have w: "pl_client ?p2 = In_wait" by (simp add: defs)
  from pool_wait_returns[OF r _ w] w have "\<exists>q. worker_step ?p2 q" by (auto dest: spec[of _ ?p2])
  then show ?thesis using r w by blast
qed

text \<open>
  Freeing a pool may hang. Because \<open>shutdown\<close> is set without the lock, the broadcast can come after
  a worker has found no shutdown and before it sleeps: the worker misses the only wake-up there is.
  Every pool with a worker can get into a state from which it is never freed, unless a sleeping thread
  wakes up without reason.
\<close>

theorem pool_free_hangs:
  assumes "0 < worker_count"
  shows "\<exists>p. calm_run (fastgit_thread_pool_new cpus worker_count max_queue_depth) p \<and> pl_client p = Joining \<and>
    (\<forall>q. calm_run p q \<longrightarrow> pl_client q \<noteq> Freed)"
proof -
  let ?p0 = "fastgit_thread_pool_new cpus worker_count max_queue_depth"
  let ?p1 = "set_worker 0 Testing ?p0" and ?p2 = "free_begin (set_worker 0 Testing ?p0)"
  let ?p3 = "free_broadcast ?p2"
  let ?p4 = "set_worker 0 Sleeping ?p3"
  note defs = fastgit_thread_pool_new_def ring_new_def set_worker_def lock_free_def free_begin_def free_broadcast_def
    cond_broadcast_def
  have n: "0 < nat worker_count" using assms by simp
  have s1: "worker_step ?p0 ?p1" by (rule worker_step.test_empty) (use n in \<open>simp_all add: defs\<close>)
  have s2: "client_step ?p1 ?p2" by (rule client_step.free) (simp add: defs)
  have s3: "client_step ?p2 ?p3" by (rule client_step.broadcast) (simp add: defs)
  have s4: "worker_step ?p3 ?p4" by (rule worker_step.sleep) (use n in \<open>simp_all add: defs nth_list_update\<close>)
  note run = calm_run_steps
  have run: "calm_run ?p0 ?p4" by (rule run(3)[OF s1 run(2)[OF s2 run(2)[OF s3 run(3)[OF s4 run(1)]]]])
  have j: "pl_client ?p4 = Joining" "0 < length (pl_workers ?p4)" "pl_workers ?p4 ! 0 = Sleeping"
    using n by (simp_all add: defs)
  have "pl_client q = Joining \<and> 0 < length (pl_workers q) \<and> pl_workers q ! 0 = Sleeping" if "calm_run ?p4 q" for q
    using that unfolding calm_run_def
  proof (induction rule: rtranclp_induct)
    case base
    then show ?case using j by simp
  next
    case (step q r)
    then have s: "worker_step q r \<or> client_step q r" and q: "pl_client q = Joining" "pl_workers q ! 0 = Sleeping"
      "pl_workers q \<noteq> []" by auto
    have "Sleeping \<in> set (pl_workers q)" using q(2,3) nth_mem[of 0 "pl_workers q"] by simp
    then have "\<not> client_step q r" using q(1) by (auto elim!: client_step.cases simp: free_joined_def)
    then have "worker_step q r" using s by blast
    then show ?case
      using q by (auto elim!: worker_step.cases simp: worker_take_def worker_done_def nth_list_update intro!: gr0I)
  qed
  then show ?thesis using run j(1) by (intro exI[of _ ?p4]) fastforce
qed

theorem pool_free_hangs_witness:
  "\<exists>p. calm_run (fastgit_thread_pool_new 4 2 8 :: nat pool) p \<and> pl_client p = Joining"
  using pool_free_hangs[of 2 4 8] by auto

end
