(* ===== verification/Refs.thy ===== *)
theory Refs
  imports ObjectIO Odb
begin

unbundle bit_operations_syntax

text \<open>
  References of \<^verbatim>\<open>src/repository.c\<close>: names, symbolic references, packed references, the reflog,
  revision syntax and replacement references.

  The files of the repository are an association list from full paths to contents; \<open>readdir\<close> gives
  entries in the order of the list. Directories are made as needed and writing a file succeeds.
  \<open>sg\<close> is what \<^verbatim>\<open>fastgit_signature_default\<close> gives (environment and clock).
\<close>

section \<open>Files and text\<close>

type_synonym files = "(bytes \<times> bytes) list"

record repo =
  rp_gitdir :: bytes
  rp_files :: files

definition put_file :: "bytes \<Rightarrow> bytes \<Rightarrow> files \<Rightarrow> files" where
  "put_file p d fs =
     (if p \<in> fst ` set fs then map (\<lambda>(k, c). if k = p then (k, d) else (k, c)) fs else fs @ [(p, d)])"

definition drop_file :: "bytes \<Rightarrow> files \<Rightarrow> files" where
  "drop_file p fs = filter (\<lambda>(k, c). k \<noteq> p) fs"

text \<open>\<open>snprintf\<close> into a buffer of \<open>n\<close> bytes; a buffer of C text.\<close>

definition bufn :: "nat \<Rightarrow> bytes \<Rightarrow> bytes" where
  "bufn n s = take (n - 1) s"

text \<open>\<open>fgets\<close>: up to \<open>n - 1\<close> bytes, ending after a newline; the text seen ends at a NUL.\<close>

definition fgets_raw :: "nat \<Rightarrow> bytes \<Rightarrow> (bytes \<times> bytes) option" where
  "fgets_raw n s =
     (if s = [] \<or> n < 2 then None
      else let l = takeWhile (\<lambda>c. c \<noteq> 10) (take (n - 1) s);
               k = (if length l < length (take (n - 1) s) then length l + 1 else length l)
           in Some (take k s, drop k s))"

function fgets_lines :: "nat \<Rightarrow> bytes \<Rightarrow> bytes list" where
  "fgets_lines n s =
     (case fgets_raw n s of None \<Rightarrow> []
      | Some (l, r) \<Rightarrow> if length r < length s then cstr l # fgets_lines n r else [])"
  by pat_completeness auto
termination
  by (relation "measure (\<lambda>(n, s). length s)") auto

declare fgets_lines.simps [simp del]

definition chomp :: "bytes \<Rightarrow> bytes" where
  "chomp s = rev (dropWhile (\<lambda>c. c = 10 \<or> c = 13) (rev s))"

text \<open>\<open>%ns\<close> of \<open>sscanf\<close>: skip white space, then up to \<open>n\<close> other characters, at least one.\<close>

definition scan_word :: "nat \<Rightarrow> bytes \<Rightarrow> (bytes \<times> bytes) option" where
  "scan_word n s =
     (let s1 = dropWhile isspace s; w = take n (takeWhile (\<lambda>c. \<not> isspace c) s1)
      in if w = [] then None else Some (w, drop (length w) s1))"

definition starts :: "string \<Rightarrow> bytes \<Rightarrow> bool" where
  "starts key s \<longleftrightarrow> take (length key) s = str key"

section \<open>Names and files of references\<close>

definition ref_path_for_name :: "bytes \<Rightarrow> bytes \<Rightarrow> nat \<Rightarrow> bytes" where
  "ref_path_for_name gitdir name n =
     bufn n (if starts ''refs/'' name then gitdir @ [47] @ name
             else if name = str ''HEAD'' then gitdir @ str ''/HEAD''
             else gitdir @ str ''/refs/heads/'' @ name)"

text \<open>What a reference file says: an id in hex, or that it is symbolic (\<open>EAGAIN\<close>).\<close>

definition read_ref_file :: "files \<Rightarrow> bytes \<Rightarrow> nat \<Rightarrow> bytes res" where
  "read_ref_file fs path n =
     (case map_of fs path of
        None \<Rightarrow> Inl ENOENT
      | Some c \<Rightarrow>
          (case fgets_raw n c of
             None \<Rightarrow> Inl EIO
           | Some (l, _) \<Rightarrow> let hex = chomp (cstr l) in if starts ''ref: '' hex then Inl EAGAIN else Inr hex))"

text \<open>The target of a symbolic reference, from its first line.\<close>

definition ref_target :: "bytes \<Rightarrow> bytes" where
  "ref_target c =
     (case fgets_raw 512 c of
        None \<Rightarrow> []
      | Some (l, _) \<Rightarrow> chomp (dropWhile (\<lambda>b. b = 32) (drop 5 (cstr l))))"

definition full_name :: "bytes \<Rightarrow> bytes" where
  "full_name name = (if \<not> starts ''refs/'' name \<and> name \<noteq> str ''HEAD'' then bufn 512 (str ''refs/heads/'' @ name) else name)"

definition packed_line :: "bytes \<Rightarrow> (bytes \<times> bytes) option" where
  "packed_line line =
     (if line \<noteq> [] \<and> (hd line = 35 \<or> hd line = 94) then None
      else case scan_word 127 line of
        None \<Rightarrow> None
      | Some (ohex, r) \<Rightarrow> (case scan_word 255 r of None \<Rightarrow> None | Some (rname, _) \<Rightarrow> Some (ohex, rname)))"

definition packed_refs :: "repo \<Rightarrow> (bytes \<times> bytes) list option" where
  "packed_refs rp =
     map_option (\<lambda>c. List.map_filter packed_line (fgets_lines 512 c))
       (map_of (rp_files rp) (bufn 4096 (rp_gitdir rp @ str ''/packed-refs'')))"

definition lookup_packed :: "repo \<Rightarrow> bytes \<Rightarrow> fg_error \<Rightarrow> oid res" where
  "lookup_packed rp name er =
     (case packed_refs rp of
        None \<Rightarrow> Inl er
      | Some ps \<Rightarrow>
          (case List.find (\<lambda>(h, r). r = full_name name \<or> r = name) ps of
             None \<Rightarrow> Inl ENOENT
           | Some (h, r) \<Rightarrow> fastgit_oid_from_hex h))"

text \<open>At most eight files are read along symbolic references.\<close>

primrec resolve_ref :: "nat \<Rightarrow> repo \<Rightarrow> bytes \<Rightarrow> bytes \<Rightarrow> oid res" where
  "resolve_ref 0 rp name path = Inl EIO"
| "resolve_ref (Suc n) rp name path =
     (case read_ref_file (rp_files rp) path 256 of
        Inr hex \<Rightarrow> fastgit_oid_from_hex hex
      | Inl er \<Rightarrow>
          if er = EAGAIN then
            (case map_of (rp_files rp) path of
               None \<Rightarrow> Inl ENOENT
             | Some c \<Rightarrow> resolve_ref n rp name (bufn 4096 (rp_gitdir rp @ [47] @ ref_target c)))
          else lookup_packed rp name er)"

definition fastgit_reference_lookup :: "repo \<Rightarrow> bytes \<Rightarrow> oid res" where
  "fastgit_reference_lookup rp name = resolve_ref 8 rp name (ref_path_for_name (rp_gitdir rp) name 4096)"

section \<open>Changing references\<close>

definition hex_or_empty :: "oid \<Rightarrow> bytes" where
  "hex_or_empty x = (case fastgit_oid_to_hex x 129 of None \<Rightarrow> [] | Some h \<Rightarrow> h)"

definition reflog_line :: "signature option \<Rightarrow> oid option \<Rightarrow> oid option \<Rightarrow> bytes \<Rightarrow> bytes" where
  "reflog_line sg old new msg =
     (let width = (case old of Some x \<Rightarrow> if oid_hash x = [] then 64 else length (oid_hash x) * 2
                   | None \<Rightarrow> (case new of Some x \<Rightarrow> if oid_hash x = [] then 64 else length (oid_hash x) * 2 | None \<Rightarrow> 64));
          hex = (\<lambda>x. case x of None \<Rightarrow> replicate width 48 | Some y \<Rightarrow> hex_or_empty y);
          (nm, em, w, off) = (case sg of None \<Rightarrow> (str ''fastgit'', str ''fastgit@local'', 0, 0)
             | Some s \<Rightarrow> (sig_name s, sig_email s, sig_when s, sig_offset s))
      in hex old @ [32] @ hex new @ [32] @ nm @ [32, 60] @ em @ [62, 32] @ dec_int w @ [32] @
         bufn 16 (dec_plus05 off) @ [9] @ msg @ [10])"

definition append_reflog :: "signature option \<Rightarrow> bytes \<Rightarrow> oid option \<Rightarrow> oid option \<Rightarrow> bytes \<Rightarrow> repo \<Rightarrow> repo" where
  "append_reflog sg name old new msg rp =
     (let p = bufn 4096 (rp_gitdir rp @ str ''/logs/'' @ full_name name);
          c = (case map_of (rp_files rp) p of None \<Rightarrow> [] | Some c \<Rightarrow> c)
      in rp\<lparr>rp_files := put_file p (c @ reflog_line sg old new msg) (rp_files rp)\<rparr>)"

text \<open>Writing to a symbolic HEAD writes the reference it names, one level deep.\<close>

definition effective_name :: "repo \<Rightarrow> bytes \<Rightarrow> bytes" where
  "effective_name rp name =
     (if name \<noteq> str ''HEAD'' then name
      else case map_of (rp_files rp) (bufn 4096 (rp_gitdir rp @ str ''/HEAD'')) of
        None \<Rightarrow> name
      | Some c \<Rightarrow>
          (case fgets_raw 512 c of
             None \<Rightarrow> name
           | Some (l, _) \<Rightarrow> if starts ''ref: '' (cstr l) then bufn 512 (ref_target c) else name))"

definition ok_of :: "'a res \<Rightarrow> 'a option" where
  "ok_of r = (case r of Inl e \<Rightarrow> None | Inr x \<Rightarrow> Some x)"

definition fastgit_reference_create ::
    "signature option \<Rightarrow> bytes \<Rightarrow> oid \<Rightarrow> bool \<Rightarrow> bytes option \<Rightarrow> repo \<Rightarrow> unit res \<times> repo" where
  "fastgit_reference_create sg name x force msg rp =
     (let path = ref_path_for_name (rp_gitdir rp) (effective_name rp name) 4096
      in if \<not> force \<and> map_of (rp_files rp) path \<noteq> None then (Inl EEXIST, rp)
         else let old = ok_of (fastgit_reference_lookup rp name);
                  rp1 = rp\<lparr>rp_files := put_file path (hex_or_empty x @ [10]) (rp_files rp)\<rparr>
              in (Inr (), append_reflog sg name old (Some x) (case msg of None \<Rightarrow> str ''create'' | Some t \<Rightarrow> t) rp1))"

definition fastgit_reference_update :: "signature option \<Rightarrow> bytes \<Rightarrow> oid \<Rightarrow> bytes option \<Rightarrow> repo \<Rightarrow> unit res \<times> repo" where
  "fastgit_reference_update sg name x msg rp =
     fastgit_reference_create sg name x True (Some (case msg of None \<Rightarrow> str ''update'' | Some t \<Rightarrow> t)) rp"

definition fastgit_reference_remove :: "signature option \<Rightarrow> bytes \<Rightarrow> repo \<Rightarrow> unit res \<times> repo" where
  "fastgit_reference_remove sg name rp =
     (let path = ref_path_for_name (rp_gitdir rp) name 4096; old = ok_of (fastgit_reference_lookup rp name)
      in if map_of (rp_files rp) path = None then (Inl ENOENT, rp)
         else (Inr (), append_reflog sg name old None (str ''delete'') (rp\<lparr>rp_files := drop_file path (rp_files rp)\<rparr>)))"

section \<open>Listing\<close>

text \<open>Files below \<^verbatim>\<open>refs\<close> whose name contains the pattern.\<close>

definition collect_refs :: "bytes \<Rightarrow> bytes option \<Rightarrow> files \<Rightarrow> bytes list" where
  "collect_refs gitdir pattern fs =
     List.map_filter (\<lambda>(p, c).
       let base = gitdir @ str ''/refs/''; rel = drop (length base) p; name = str ''refs/'' @ rel
       in if prefix base p \<and> rel \<noteq> [] \<and>
             (case pattern of None \<Rightarrow> True | Some s \<Rightarrow> sublist s name \<or> sublist s rel) then Some name else None) fs"

definition list_packed :: "bytes option \<Rightarrow> (bytes \<times> bytes) list \<Rightarrow> bytes list \<Rightarrow> bytes list" where
  "list_packed pattern ps acc =
     foldl (\<lambda>acc (h, r).
       if starts ''refs/'' r \<and> (case pattern of None \<Rightarrow> True | Some s \<Rightarrow> sublist s r) \<and> r \<notin> set acc then acc @ [r] else acc)
       acc ps"

definition fastgit_reference_list :: "bytes option \<Rightarrow> repo \<Rightarrow> bytes list" where
  "fastgit_reference_list pattern rp =
     list_packed pattern (case packed_refs rp of None \<Rightarrow> [] | Some ps \<Rightarrow> ps)
       (collect_refs (rp_gitdir rp) pattern (rp_files rp))"

section \<open>Revisions\<close>

definition fastgit_object_lookup :: "zlib \<Rightarrow> nat \<Rightarrow> oid \<Rightarrow> odb \<Rightarrow> object res \<times> odb" where
  "fastgit_object_lookup z mem x db =
     (case fastgit_odb_read z mem x db of
        (r, db') \<Rightarrow> (bindr r (\<lambda>ob. Inr \<lparr>o_type = oo_type ob, o_data = Raw_data (oo_data ob)\<rparr>), db'))"

definition fastgit_rev_parse_single :: "repo \<Rightarrow> bytes \<Rightarrow> oid res" where
  "fastgit_rev_parse_single rp spec =
     (if spec = str ''HEAD'' then fastgit_reference_lookup rp (str ''HEAD'')
      else case ok_of (fastgit_oid_from_hex spec) of Some x \<Rightarrow> Inr x
      | None \<Rightarrow> (case ok_of (fastgit_reference_lookup rp spec) of Some x \<Rightarrow> Inr x
      | None \<Rightarrow> (case ok_of (fastgit_reference_lookup rp (bufn 512 (str ''refs/heads/'' @ spec))) of Some x \<Rightarrow> Inr x
      | None \<Rightarrow> (case ok_of (fastgit_reference_lookup rp (bufn 512 (str ''refs/tags/'' @ spec))) of Some x \<Rightarrow> Inr x
      | None \<Rightarrow> Inl ENOENT))))"

text \<open>One step to the first parent.\<close>

definition first_parent :: "zlib \<Rightarrow> nat \<Rightarrow> oid \<Rightarrow> odb \<Rightarrow> oid res \<times> odb" where
  "first_parent z mem cur db =
     (case fastgit_object_lookup z mem cur db of
        (Inl e, db') \<Rightarrow> (Inl (if e = Undefined then Undefined else ENOENT), db')
      | (Inr obj, db') \<Rightarrow>
          (if o_type obj \<noteq> COMMIT then Inl EINVAL
           else bindr (fastgit_commit_parse obj) (\<lambda>(c, _).
             case c of None \<Rightarrow> Inl ENOENT
             | Some cm \<Rightarrow> (case c_parents cm of [] \<Rightarrow> Inl ENOENT | p # _ \<Rightarrow> Inr p)), db'))"

primrec walk_back :: "nat \<Rightarrow> zlib \<Rightarrow> nat \<Rightarrow> oid \<Rightarrow> odb \<Rightarrow> oid res \<times> odb" where
  "walk_back 0 z mem cur db = (Inr cur, db)"
| "walk_back (Suc n) z mem cur db =
     (case first_parent z mem cur db of
        (Inl e, db') \<Rightarrow> (Inl e, db')
      | (Inr p, db') \<Rightarrow> walk_back n z mem p db')"

text \<open>\<open>^\<close> and what follows it are dropped; the first \<open>~\<close> wins over any \<open>^\<close>.\<close>

definition rev_suffix :: "bytes \<Rightarrow> (bytes \<times> int res) option" where
  "rev_suffix spec =
     (case split_at 126 spec of
        Some (b, r) \<Rightarrow> Some (b, if r = [] then Inr 1 else atoi r)
      | None \<Rightarrow> (case split_at 94 spec of Some (b, r) \<Rightarrow> Some (b, Inr 0) | None \<Rightarrow> None))"

definition fastgit_rev_parse :: "zlib \<Rightarrow> nat \<Rightarrow> repo \<Rightarrow> bytes \<Rightarrow> odb \<Rightarrow> oid res \<times> odb" where
  "fastgit_rev_parse z mem rp spec db =
     (case rev_suffix spec of
        None \<Rightarrow> (fastgit_rev_parse_single rp spec, db)
      | Some (b, n) \<Rightarrow>
          if 512 \<le> length b then (Inl EINVAL, db)
          else (case bindr n (\<lambda>k. bindr (fastgit_rev_parse_single rp (if b = [] then str ''HEAD'' else b)) (\<lambda>x. Inr (k, x))) of
             Inl e \<Rightarrow> (Inl e, db)
           | Inr (k, x) \<Rightarrow> walk_back (nat k) z mem x db))"

section \<open>Replacement references\<close>

definition replace_path_for_name :: "bytes \<Rightarrow> bytes \<Rightarrow> nat \<Rightarrow> bytes" where
  "replace_path_for_name gitdir name n =
     bufn n (if starts ''refs/replace/'' name then gitdir @ [47] @ name else gitdir @ str ''/refs/replace/'' @ name)"

definition fastgit_replace_ref_create :: "bytes \<Rightarrow> oid \<Rightarrow> bool \<Rightarrow> repo \<Rightarrow> unit res \<times> repo" where
  "fastgit_replace_ref_create name x force rp =
     (let path = replace_path_for_name (rp_gitdir rp) name 4096
      in if \<not> force \<and> map_of (rp_files rp) path \<noteq> None then (Inl EEXIST, rp)
         else (Inr (), rp\<lparr>rp_files := put_file path (hex_or_empty x @ [10]) (rp_files rp)\<rparr>))"

definition fastgit_replace_ref_lookup :: "bytes \<Rightarrow> repo \<Rightarrow> oid res" where
  "fastgit_replace_ref_lookup name rp =
     (case map_of (rp_files rp) (replace_path_for_name (rp_gitdir rp) name 4096) of
        None \<Rightarrow> Inl ENOENT
      | Some c \<Rightarrow>
          (case fgets_raw 129 c of None \<Rightarrow> Inl EIO | Some (l, _) \<Rightarrow> fastgit_oid_from_hex (chomp (cstr l))))"

text \<open>The entries of the directory; the count handed out is not their number.\<close>

definition fastgit_replace_ref_list :: "repo \<Rightarrow> bytes list \<times> nat" where
  "fastgit_replace_ref_list rp =
     (let base = rp_gitdir rp @ str ''/refs/replace/'';
          names = List.map_filter (\<lambda>(p, c).
            let rel = drop (length base) p
            in if prefix base p \<and> rel \<noteq> [] then Some (takeWhile (\<lambda>b. b \<noteq> 47) rel) else None) (rp_files rp)
      in (map ((@) (str ''refs/replace/'')) (remdups names), 0))"

end
