(* ===== verification/RefProps.thy ===== *)
theory RefProps
  imports Refs
begin

text \<open>
  Facts about references: what is written to a reference is what a lookup of its name reads, through
  a symbolic HEAD too; what removal and packed references do to that.
\<close>

section \<open>Files\<close>

lemma map_of_put [simp]: "map_of (put_file p d fs) = (map_of fs)(p \<mapsto> d)"
proof -
  have a: "map_of (map (\<lambda>(a, c). if a = p then (a, d) else (a, c)) fs) k =
      (if k = p then map_option (\<lambda>_. d) (map_of fs k) else map_of fs k)" for fs k
    by (induction fs) auto
  show ?thesis
  proof (cases "p \<in> fst ` set fs")
    case True
    then obtain c where "map_of fs p = Some c" by (metis map_of_eq_None_iff option.exhaust)
    then show ?thesis using True by (auto simp: put_file_def a fun_eq_iff)
  next
    case False
    then have "map_of fs p = None" by (simp add: map_of_eq_None_iff)
    then show ?thesis using False by (auto simp: put_file_def map_add_def fun_eq_iff split: option.splits)
  qed
qed

lemma map_of_drop [simp]: "map_of (drop_file p fs) = (map_of fs)(p := None)"
  by (induction fs) (auto simp: drop_file_def fun_eq_iff)

section \<open>One line of a file\<close>

lemma fgets_line:
  assumes "10 \<notin> set l" "length l + 1 < n"
  shows "fgets_raw n (l @ 10 # r) = Some (l @ [10], r)"
proof -
  have t: "take (n - 1) (l @ 10 # r) = l @ 10 # take (n - 2 - length l) r"
    using assms(2) by (simp add: take_Cons' numeral_2_eq_2)
  have w: "takeWhile (\<lambda>c. c \<noteq> 10) (l @ 10 # r') = l" for r'
    using assms(1) by (subst takeWhile_append2) auto
  show ?thesis using assms(2) unfolding fgets_raw_def t w by simp
qed

lemma chomp_line: "l = [] \<or> last l \<noteq> 10 \<and> last l \<noteq> 13 \<Longrightarrow> chomp (l @ [10]) = l"
  by (cases l rule: rev_cases) (auto simp: chomp_def)

lemma hex_chars: "c \<in> set (bytes_to_hex d) \<Longrightarrow> c \<noteq> 10 \<and> c \<noteq> 13 \<and> c \<noteq> 0 \<and> c \<noteq> 114"
proof (induction d)
  case (Cons b d)
  have "hex_char n \<noteq> 10 \<and> hex_char n \<noteq> 13 \<and> hex_char n \<noteq> 0 \<and> hex_char n \<noteq> 114" if "n < 16" for n
    using hex_val_char[OF that] by (auto simp: hex_val_def)
  then show ?case using Cons nibbles by auto
qed simp

lemma read_hex_file:
  assumes "map_of fs p = Some (hex_or_empty x @ [10])" "oid_plain x" "oid_hash x \<noteq> []"
  shows "read_ref_file fs p 256 = Inr (bytes_to_hex (oid_hash x))"
proof -
  let ?h = "bytes_to_hex (oid_hash x)"
  have l: "length (oid_hash x) \<le> 64" using assms(2) by (simp add: oid_plain_def)
  then have e: "hex_or_empty x = ?h" by (simp add: hex_or_empty_def fastgit_oid_to_hex_def)
  have ne: "?h \<noteq> []" using assms(3) length_bytes_to_hex[of "oid_hash x"] by (metis length_0_conv mult_is_0 zero_neq_numeral)
  have n: "10 \<notin> set ?h" "0 \<notin> set ?h" "114 \<notin> set ?h" "last ?h \<noteq> 13" "last ?h \<noteq> 10"
    using hex_chars[of _ "oid_hash x"] last_in_set[OF ne] by blast+
  have g: "fgets_raw 256 (?h @ [10]) = Some (?h @ [10], [])"
    using fgets_line[of ?h 256 "[]"] n(1) l by simp
  have c: "cstr (?h @ [10]) = ?h @ [10]" using n(2) by (intro cstr_id) (simp add: nul_free_def)
  have s: "\<not> starts ''ref: '' ?h" using n(3) ne by (cases ?h) (auto simp: starts_def str_def)
  show ?thesis using assms(1) n(4,5) s unfolding read_ref_file_def e
    by (simp add: g c chomp_line)
qed

lemma hex_back: "oid_plain x \<Longrightarrow> fastgit_oid_from_hex (bytes_to_hex (oid_hash x)) = Inr x"
  by (cases x) (simp add: oid_plain_def fastgit_oid_from_hex_def)

section \<open>Paths\<close>

abbreviation ref_path :: "repo \<Rightarrow> bytes \<Rightarrow> bytes" where
  "ref_path rp name \<equiv> ref_path_for_name (rp_gitdir rp) name 4096"

abbreviation log_path :: "repo \<Rightarrow> bytes \<Rightarrow> bytes" where
  "log_path rp name \<equiv> bufn 4096 (rp_gitdir rp @ str ''/logs/'' @ full_name name)"

text \<open>Nothing is cut off by the buffers of the code.\<close>

definition ref_fits :: "repo \<Rightarrow> bytes \<Rightarrow> bool" where
  "ref_fits rp name \<longleftrightarrow> length (rp_gitdir rp) + length name + 20 \<le> 4095 \<and> length name < 500"

text \<open>HEAD holds the name of a reference.\<close>

definition symbolic_head :: "repo \<Rightarrow> bytes \<Rightarrow> bool" where
  "symbolic_head rp t \<longleftrightarrow> map_of (rp_files rp) (rp_gitdir rp @ str ''/HEAD'') = Some (str ''ref: '' @ t @ [10]) \<and>
     nul_free t \<and> 10 \<notin> set t \<and> 13 \<notin> set t \<and> starts ''refs/'' t \<and> length t < 240"

lemma bufn_id: "length s < n \<Longrightarrow> bufn n s = s"
  by (simp add: bufn_def)

lemma starts_refs: "starts ''refs/'' n \<Longrightarrow> \<exists>r. n = 114 # r"
  by (cases n) (auto simp: starts_def str_def)

lemma full_name_fits: "length name < 500 \<Longrightarrow> full_name name = (if \<not> starts ''refs/'' name \<and> name \<noteq> str ''HEAD'' then str ''refs/heads/'' @ name else name)"
  by (simp add: full_name_def bufn_id)

text \<open>The files of references, the logs and the packed references are apart.\<close>

lemma paths_apart:
  assumes "ref_fits rp name" "ref_fits rp n"
  shows "ref_path rp n \<noteq> log_path rp name" "ref_path rp n \<noteq> rp_gitdir rp @ str ''/packed-refs''"
    "log_path rp name \<noteq> rp_gitdir rp @ str ''/packed-refs''" "log_path rp name \<noteq> rp_gitdir rp @ str ''/HEAD''"
proof -
  obtain s where l: "log_path rp name = rp_gitdir rp @ [47, 108] @ s"
    using assms(1) by (auto simp: full_name_fits bufn_id ref_fits_def str_def)
  have "ref_path rp n = rp_gitdir rp @ [47] @ n \<and> starts ''refs/'' n \<or> ref_path rp n = rp_gitdir rp @ str ''/HEAD'' \<or>
      ref_path rp n = rp_gitdir rp @ str ''/refs/heads/'' @ n"
    using assms(2) by (simp add: ref_path_for_name_def bufn_id ref_fits_def)
  then obtain c s' where r: "ref_path rp n = rp_gitdir rp @ [47, c] @ s'" "c = 114 \<or> c = 72"
    by (auto dest!: starts_refs simp: str_def)
  show "ref_path rp n \<noteq> log_path rp name" "ref_path rp n \<noteq> rp_gitdir rp @ str ''/packed-refs''"
    "log_path rp name \<noteq> rp_gitdir rp @ str ''/packed-refs''" "log_path rp name \<noteq> rp_gitdir rp @ str ''/HEAD''"
    unfolding l r(1) using r(2) by (auto simp: str_def)
qed

lemma head_symbolic:
  assumes "symbolic_head rp t"
  shows "read_ref_file (rp_files rp) (rp_gitdir rp @ str ''/HEAD'') 256 = Inl EAGAIN"
    "ref_target (str ''ref: '' @ t @ [10]) = t"
    "length (rp_gitdir rp) < 4080 \<Longrightarrow> effective_name rp (str ''HEAD'') = t"
proof -
  let ?l = "str ''ref: '' @ t"
  obtain t' where t': "t = 114 # t'" using assms starts_refs by (auto simp: symbolic_head_def)
  have nl: "10 \<notin> set ?l" and len: "length ?l + 1 < 256" and z: "nul_free (?l @ [10])" and la: "last ?l \<noteq> 10" "last ?l \<noteq> 13"
    using assms t' last_in_set[of t] by (auto simp: symbolic_head_def str_def)
  have g: "fgets_raw n (?l @ [10]) = Some (?l @ [10], [])" if "256 \<le> n" for n
    using fgets_line[of ?l n "[]"] nl len that by simp
  have f: "map_of (rp_files rp) (rp_gitdir rp @ str ''/HEAD'') = Some (?l @ [10])"
    using assms by (simp add: symbolic_head_def)
  have c: "cstr (?l @ [10]) = ?l @ [10]" by (rule cstr_id[OF z])
  have ch: "chomp (?l @ [10]) = ?l" by (rule chomp_line) (use la in simp)
  have s: "starts ''ref: '' ?l" "starts ''ref: '' (?l @ [10])" by (simp_all add: starts_def str_def)
  show "read_ref_file (rp_files rp) (rp_gitdir rp @ str ''/HEAD'') 256 = Inl EAGAIN"
    using g[of 256] f c ch s by (simp add: read_ref_file_def)
  have tg: "ref_target (?l @ [10]) = t"
  proof -
    have d: "drop 5 (?l @ [10]) = t @ [10]" by (simp add: str_def)
    have "t = [] \<or> last t \<noteq> 10 \<and> last t \<noteq> 13" using la t' by (simp add: str_def)
    then show ?thesis using g[of 512] c d t' chomp_line[of t] by (simp add: ref_target_def)
  qed
  then show "ref_target (str ''ref: '' @ t @ [10]) = t" by simp
  assume "length (rp_gitdir rp) < 4080"
  then have "bufn 4096 (rp_gitdir rp @ str ''/HEAD'') = rp_gitdir rp @ str ''/HEAD''" by (simp add: bufn_id)
  then show "effective_name rp (str ''HEAD'') = t"
    using f g[of 512] c s(2) tg assms by (simp add: effective_name_def bufn_id symbolic_head_def)
qed

section \<open>Lookups after a change\<close>

lemma reflog_files:
  "map_of (rp_files (append_reflog sg name old new msg rp)) = (map_of (rp_files rp))(log_path rp name \<mapsto>
     (case map_of (rp_files rp) (log_path rp name) of None \<Rightarrow> [] | Some c \<Rightarrow> c) @ reflog_line sg old new msg)"
  "rp_gitdir (append_reflog sg name old new msg rp) = rp_gitdir rp"
  by (simp_all add: append_reflog_def Let_def)

lemma lookup_steps: "fastgit_reference_lookup rp name = resolve_ref (Suc (Suc 6)) rp name (ref_path rp name)"
  by (simp add: fastgit_reference_lookup_def del: resolve_ref.simps)

lemma lookup_by: "ref_path rp name = path \<Longrightarrow> resolve_ref (Suc (Suc 6)) rp name path = r \<Longrightarrow> fastgit_reference_lookup rp name = r"
  by (simp only: lookup_steps)

lemma lookup_hex:
  assumes "map_of (rp_files rp) path = Some (hex_or_empty x @ [10])" "oid_plain x" "oid_hash x \<noteq> []"
  shows "resolve_ref (Suc n) rp name path = Inr x"
  using read_hex_file[OF assms] hex_back[OF assms(2)] by simp

lemma resolve_other:
  "read_ref_file (rp_files rp) path 256 = Inl er \<Longrightarrow> er \<noteq> EAGAIN \<Longrightarrow> resolve_ref (Suc n) rp name path = lookup_packed rp name er"
  by simp

lemma resolve_symbolic:
  "read_ref_file (rp_files rp) path 256 = Inl EAGAIN \<Longrightarrow> map_of (rp_files rp) path = Some c \<Longrightarrow>
   bufn 4096 (rp_gitdir rp @ [47] @ ref_target c) = p \<Longrightarrow> resolve_ref n rp name p = r \<Longrightarrow> resolve_ref (Suc n) rp name path = r"
  by simp

text \<open>A lookup that is not symbolic sees only the file of its name and the packed references.\<close>

lemma lookup_local:
  assumes "map_of (rp_files rp') (ref_path rp n) = map_of (rp_files rp) (ref_path rp n)" "rp_gitdir rp' = rp_gitdir rp"
    "map_of (rp_files rp') (rp_gitdir rp @ str ''/packed-refs'') = map_of (rp_files rp) (rp_gitdir rp @ str ''/packed-refs'')"
    "read_ref_file (rp_files rp) (ref_path rp n) 256 \<noteq> Inl EAGAIN" "ref_fits rp n"
  shows "fastgit_reference_lookup rp' n = fastgit_reference_lookup rp n"
proof -
  have pk: "bufn 4096 (rp_gitdir rp @ str ''/packed-refs'') = rp_gitdir rp @ str ''/packed-refs''"
    using assms(5) by (simp add: bufn_id ref_fits_def)
  have r: "read_ref_file (rp_files rp') (ref_path rp n) 256 = read_ref_file (rp_files rp) (ref_path rp n) 256"
    using assms(1) by (simp add: read_ref_file_def)
  have p: "lookup_packed rp' n er = lookup_packed rp n er" for er
    using assms(2,3) by (simp add: lookup_packed_def packed_refs_def pk)
  show ?thesis unfolding lookup_steps resolve_ref.simps(2)[of "Suc 6"] assms(2) r p
    using assms(4) by (simp split: sum.splits)
qed

text \<open>What a reference that is created leaves in the files: its own file and a line in its log.\<close>

lemma ref_written:
  assumes "ref_fits rp name" "ref_fits rp (effective_name rp name)"
    and "force \<or> map_of (rp_files rp) (ref_path rp (effective_name rp name)) = None"
  shows "\<exists>rp'. fastgit_reference_create sg name x force msg rp = (Inr (), rp') \<and> rp_gitdir rp' = rp_gitdir rp \<and>
    (\<forall>q. q \<noteq> log_path rp name \<longrightarrow> map_of (rp_files rp') q =
      (if q = ref_path rp (effective_name rp name) then Some (hex_or_empty x @ [10]) else map_of (rp_files rp) q))"
proof -
  let ?p = "ref_path rp (effective_name rp name)"
  let ?rp1 = "rp\<lparr>rp_files := put_file ?p (hex_or_empty x @ [10]) (rp_files rp)\<rparr>"
  let ?rp' = "append_reflog sg name (ok_of (fastgit_reference_lookup rp name)) (Some x) (case msg of None \<Rightarrow> str ''create'' | Some t \<Rightarrow> t) ?rp1"
  have "fastgit_reference_create sg name x force msg rp = (Inr (), ?rp')"
    using assms(3) by (auto simp: fastgit_reference_create_def Let_def)
  then show ?thesis by (simp add: reflog_files)
qed

text \<open>HEAD leads to the file of the branch that it names.\<close>

lemma lookup_through_head:
  assumes sh: "symbolic_head rp t" and fits: "ref_fits rp (str ''HEAD'')" "ref_fits rp t"
    and f: "map_of (rp_files rp') (ref_path rp t) = Some (hex_or_empty x @ [10])" "rp_gitdir rp' = rp_gitdir rp"
      "map_of (rp_files rp') (rp_gitdir rp @ str ''/HEAD'') = map_of (rp_files rp) (rp_gitdir rp @ str ''/HEAD'')"
    and x: "oid_plain x" "oid_hash x \<noteq> []"
  shows "fastgit_reference_lookup rp' (str ''HEAD'') = Inr x"
proof -
  have pt: "ref_path rp t = rp_gitdir rp @ [47] @ t"
    using sh fits(2) by (simp add: ref_path_for_name_def symbolic_head_def bufn_id ref_fits_def)
  have hp: "ref_path rp' (str ''HEAD'') = rp_gitdir rp @ str ''/HEAD''"
    using fits(1) by (simp add: f(2) ref_path_for_name_def bufn_id ref_fits_def starts_def str_def)
  have h: "map_of (rp_files rp') (rp_gitdir rp @ str ''/HEAD'') = Some (str ''ref: '' @ t @ [10])"
    using f(3) sh by (simp add: symbolic_head_def)
  have rd: "read_ref_file (rp_files rp') (rp_gitdir rp @ str ''/HEAD'') 256 = Inl EAGAIN"
    using head_symbolic(1)[OF sh] f(3) by (simp add: read_ref_file_def)
  have bb: "bufn 4096 (rp_gitdir rp @ [47] @ t) = ref_path rp t" using fits(2) unfolding pt by (simp add: bufn_id ref_fits_def)
  have b: "bufn 4096 (rp_gitdir rp' @ [47] @ ref_target (str ''ref: '' @ t @ [10])) = ref_path rp t"
    by (simp only: f(2) head_symbolic(2)[OF sh] bb)
  show ?thesis by (rule lookup_by[OF hp], rule resolve_symbolic[OF rd h b], rule lookup_hex[OF f(1) x])
qed

section \<open>Properties\<close>



text \<open>
  Removing a reference removes its file only: afterwards the name stands for whatever the packed
  references say, so a reference that is packed too is still there.
\<close>

theorem ref_remove_lookup:
  assumes fits: "ref_fits rp name" and old: "map_of (rp_files rp) (ref_path rp name) \<noteq> None"
  shows "\<exists>rp'. fastgit_reference_remove sg name rp = (Inr (), rp') \<and>
    fastgit_reference_lookup rp' name = lookup_packed rp name ENOENT"
proof -
  let ?rp1 = "rp\<lparr>rp_files := drop_file (ref_path rp name) (rp_files rp)\<rparr>"
  let ?rp' = "append_reflog sg name (ok_of (fastgit_reference_lookup rp name)) None (str ''delete'') ?rp1"
  note ap = paths_apart[OF fits fits]
  have g: "rp_gitdir ?rp' = rp_gitdir rp" by (simp add: reflog_files)
  have f: "map_of (rp_files ?rp') q = (if q = ref_path rp name then None else map_of (rp_files rp) q)"
    if "q \<noteq> log_path rp name" for q
    using that by (simp add: reflog_files)
  have pk: "bufn 4096 (rp_gitdir rp @ str ''/packed-refs'') = rp_gitdir rp @ str ''/packed-refs''"
    using fits by (simp add: bufn_id ref_fits_def)
  have "packed_refs ?rp' = packed_refs rp"
    unfolding packed_refs_def g pk f[OF ap(3)[symmetric]] using ap(2) by simp
  then have pl: "lookup_packed ?rp' name ENOENT = lookup_packed rp name ENOENT" by (simp add: lookup_packed_def)
  have e: "read_ref_file (rp_files ?rp') (ref_path rp name) 256 = Inl ENOENT"
    using f[OF ap(1)] by (simp add: read_ref_file_def)
  have r: "resolve_ref (Suc (Suc 6)) ?rp' name (ref_path rp name) = lookup_packed rp name ENOENT"
    by (rule trans[OF resolve_other[OF e] pl]) simp
  have "ref_path ?rp' name = ref_path rp name" unfolding g ..
  then have "fastgit_reference_lookup ?rp' name = lookup_packed rp name ENOENT" by (rule lookup_by[OF _ r])
  then show ?thesis using old by (simp add: fastgit_reference_remove_def Let_def)
qed

theorem ref_remove_lookup_witness:
  "\<exists>rp. fastgit_reference_remove None (str ''m'')
       \<lparr>rp_gitdir = str ''/g'', rp_files = [(str ''/g/refs/heads/m'', str ''ab'' @ [10]),
          (str ''/g/packed-refs'', str ''ab refs/heads/m'' @ [10])]\<rparr> = (Inr (), rp) \<and>
     fastgit_reference_lookup rp (str ''m'') = Inr \<lparr>oid_algo = HASH_SHA256, oid_hash = [0xAB]\<rparr>"
proof -
  let ?rp = "\<lparr>rp_gitdir = str ''/g'', rp_files = [(str ''/g/refs/heads/m'', str ''ab'' @ [10]),
    (str ''/g/packed-refs'', str ''ab refs/heads/m'' @ [10])]\<rparr>"
  have "lookup_packed ?rp (str ''m'') ENOENT = Inr \<lparr>oid_algo = HASH_SHA256, oid_hash = [0xAB]\<rparr>" by code_simp
  moreover have "ref_fits ?rp (str ''m'')" by (simp add: ref_fits_def str_def)
  moreover have "map_of (rp_files ?rp) (ref_path ?rp (str ''m'')) \<noteq> None"
    by (simp add: ref_path_for_name_def bufn_def starts_def str_def)
  ultimately show ?thesis using ref_remove_lookup[of ?rp "str ''m''" None] by metis
qed

end
