(* ===== verification/Merge.thy ===== *)
theory Merge
  imports RefProps OdbProps
begin

text \<open>
  Merge analysis and the ancestor tests of \<^verbatim>\<open>src/merge/merge.c\<close> and \<^verbatim>\<open>src/merge/rebase.c\<close>. The tests
  walk the commits of the object database with arrays of 256 ids; the walk is written over a function
  that reads the parents of a commit, and shown exact on histories that fit, through the interface
  \<open>history\<close> that the object database implements.
\<close>

section \<open>Reading parents\<close>

text \<open>The parents of a commit; nothing when the object is missing or not a commit.\<close>

definition commit_parents :: "zlib \<Rightarrow> nat \<Rightarrow> oid \<Rightarrow> odb \<Rightarrow> oid list option res \<times> odb" where
  "commit_parents z mem x db =
     (case fastgit_object_lookup z mem x db of
        (Inl e, db') \<Rightarrow> (if e = Undefined then Inl Undefined else Inr None, db')
      | (Inr obj, db') \<Rightarrow> (bindr (fastgit_commit_parse obj) (\<lambda>(c, _). Inr (map_option c_parents c)), db'))"

section \<open>The ancestor test of merge\<close>

text \<open>
  A stack and a list of visited ids, 256 of each at most; parents that do not fit on the stack are
  dropped, and ids that do not fit in the list are not remembered. The loop has no other bound.
\<close>

partial_function (option) ancestor_loop ::
    "(oid \<Rightarrow> 's \<Rightarrow> oid list option res \<times> 's) \<Rightarrow> oid \<Rightarrow> oid list \<Rightarrow> oid list \<Rightarrow> 's \<Rightarrow> (bool res \<times> 's) option" where
  "ancestor_loop look anc stack visited s =
     (if stack = [] then Some (Inr False, s)
      else if \<exists>v \<in> set visited. oid_eq v (last stack) then ancestor_loop look anc (butlast stack) visited s
      else if oid_eq (last stack) anc then Some (Inr True, s)
      else case look (last stack) s of
        (Inl e, s') \<Rightarrow> Some (Inl e, s')
      | (Inr None, s') \<Rightarrow> ancestor_loop look anc (butlast stack) (take 256 (visited @ [last stack])) s'
      | (Inr (Some ps), s') \<Rightarrow>
          ancestor_loop look anc (butlast stack @ take (256 - length (butlast stack)) ps)
            (take 256 (visited @ [last stack])) s')"

definition is_ancestor :: "(oid \<Rightarrow> 's \<Rightarrow> oid list option res \<times> 's) \<Rightarrow> oid \<Rightarrow> oid \<Rightarrow> 's \<Rightarrow> (bool res \<times> 's) option" where
  "is_ancestor look anc desc s = (if oid_eq anc desc then Some (Inr True, s) else ancestor_loop look anc [desc] [] s)"

section \<open>Merge analysis\<close>

datatype merge_analysis = NONE | NORMAL | UP_TO_DATE | UNBORN | FASTFORWARD

definition fastgit_merge_analysis ::
    "zlib \<Rightarrow> nat \<Rightarrow> repo \<Rightarrow> oid \<Rightarrow> odb \<Rightarrow> ((merge_analysis \<times> oid list) res \<times> odb) option" where
  "fastgit_merge_analysis z mem rp their db =
     (let look = commit_parents z mem in
      case fastgit_rev_parse_single rp (str ''HEAD'') of
        Inl e \<Rightarrow> Some (if e = ENOENT then Inr (UNBORN, [their]) else Inl e, db)
      | Inr hd_oid \<Rightarrow>
          if oid_eq hd_oid their then Some (Inr (UP_TO_DATE, []), db)
          else (case is_ancestor look hd_oid their db of
              None \<Rightarrow> None
            | Some (Inl e, db1) \<Rightarrow> Some (Inl e, db1)
            | Some (Inr True, db1) \<Rightarrow> Some (Inr (FASTFORWARD, [their]), db1)
            | Some (Inr False, db1) \<Rightarrow>
                (case is_ancestor look their hd_oid db1 of
                   None \<Rightarrow> None
                 | Some (Inl e, db2) \<Rightarrow> Some (Inl e, db2)
                 | Some (Inr b, db2) \<Rightarrow> Some (Inr (if b then (UP_TO_DATE, []) else (NORMAL, [their])), db2))))"

text \<open>Conflicts are never reported.\<close>

definition fastgit_merge_conflicts :: "repo \<Rightarrow> (bytes list \<times> nat) res" where
  "fastgit_merge_conflicts rp = Inr ([], 0)"

section \<open>The ancestor test of rebase\<close>

text \<open>Only the bytes of ids are compared; only first parents are followed, at most 256 commits.\<close>

definition rebase_oid_equal :: "oid \<Rightarrow> oid \<Rightarrow> bool" where
  "rebase_oid_equal a b \<longleftrightarrow> oid_hash a = oid_hash b"

primrec rebase_walk :: "nat \<Rightarrow> (oid \<Rightarrow> 's \<Rightarrow> oid list option res \<times> 's) \<Rightarrow> oid \<Rightarrow> oid \<Rightarrow> 's \<Rightarrow> bool res \<times> 's" where
  "rebase_walk 0 look anc cur s = (Inr False, s)"
| "rebase_walk (Suc n) look anc cur s =
     (if rebase_oid_equal cur anc then (Inr True, s)
      else case look cur s of
        (Inl e, s') \<Rightarrow> (Inl e, s')
      | (Inr None, s') \<Rightarrow> (Inr False, s')
      | (Inr (Some ps), s') \<Rightarrow>
          (case ps of
             [] \<Rightarrow> (Inr False, s')
           | p # _ \<Rightarrow> if rebase_oid_equal p cur then (Inr False, s') else rebase_walk n look anc p s'))"

definition rebase_is_ancestor :: "(oid \<Rightarrow> 's \<Rightarrow> oid list option res \<times> 's) \<Rightarrow> oid \<Rightarrow> oid \<Rightarrow> 's \<Rightarrow> bool res \<times> 's" where
  "rebase_is_ancestor look anc desc s =
     (if rebase_oid_equal anc desc then (Inr True, s) else rebase_walk 256 look anc desc s)"

section \<open>Histories\<close>

text \<open>The commit \<open>n\<close> first parents back.\<close>

primrec first_chain :: "(oid \<Rightarrow> oid list) \<Rightarrow> nat \<Rightarrow> oid \<Rightarrow> oid option" where
  "first_chain par 0 x = Some x"
| "first_chain par (Suc n) x = (case par x of [] \<Rightarrow> None | p # _ \<Rightarrow> first_chain par n p)"

lemma first_chain_loop: "par x = x # ps \<Longrightarrow> first_chain par n x = Some x"
  by (induction n) auto

lemma loop_cases:
  "ancestor_loop look anc [] visited s = Some (Inr False, s)"
  "x \<in> set visited \<Longrightarrow> ancestor_loop look anc (st @ [x]) visited s = ancestor_loop look anc st visited s"
  "x \<notin> set visited \<Longrightarrow> ancestor_loop look x (st @ [x]) visited s = Some (Inr True, s)"
  "x \<notin> set visited \<Longrightarrow> x \<noteq> anc \<Longrightarrow> look x s = (Inr r, s') \<Longrightarrow> ps = (case r of None \<Rightarrow> [] | Some ps \<Rightarrow> ps) \<Longrightarrow>
     length (visited @ [x]) \<le> 256 \<Longrightarrow> length st + length ps \<le> 256 \<Longrightarrow>
     ancestor_loop look anc (st @ [x]) visited s = ancestor_loop look anc (st @ ps) (visited @ [x]) s'"
  by (subst ancestor_loop.simps, auto split: option.splits)+

text \<open>
  A reader of parents over a history: a graph on known ids, closed under parents, that every read
  reports and leaves as it is.
\<close>

locale history =
  fixes look :: "oid \<Rightarrow> 's \<Rightarrow> oid list option res \<times> 's"
    and ok :: "'s \<Rightarrow> bool"
    and known :: "oid \<Rightarrow> bool"
    and parents :: "oid \<Rightarrow> oid list"
  assumes look_known: "ok s \<Longrightarrow> known x \<Longrightarrow>
      \<exists>r s'. look x s = (Inr r, s') \<and> ok s' \<and> (case r of None \<Rightarrow> [] | Some ps \<Rightarrow> ps) = parents x"
    and known_parents: "known x \<Longrightarrow> p \<in> set (parents x) \<Longrightarrow> known p"
begin

definition descent :: "(oid \<times> oid) set" where
  "descent = {(x, p). known x \<and> p \<in> set (parents x)}\<^sup>*"

lemma descent_refl: "(x, x) \<in> descent"
  by (simp add: descent_def)

lemma descent_parent: "(d, x) \<in> descent \<Longrightarrow> known x \<Longrightarrow> p \<in> set (parents x) \<Longrightarrow> (d, p) \<in> descent"
  unfolding descent_def by (erule rtrancl_into_rtrancl) simp

lemma descent_known: "(d, x) \<in> descent \<Longrightarrow> known d \<Longrightarrow> known x"
  unfolding descent_def by (induction rule: rtrancl_induct) (auto intro: known_parents)

lemma descent_closed:
  assumes "d \<in> V" "\<forall>x \<in> V. set (parents x) \<subseteq> V" "(d, x) \<in> descent"
  shows "x \<in> V"
  using assms(3,1,2) unfolding descent_def by (induction rule: rtrancl_induct) auto

text \<open>The ids reached from \<open>d\<close>, and the room their parents take.\<close>

definition reach :: "oid \<Rightarrow> oid set" where
  "reach d = {x. (d, x) \<in> descent}"

definition fits :: "oid \<Rightarrow> bool" where
  "fits d \<longleftrightarrow> known d \<and> finite (reach d) \<and> card (reach d) \<le> 256 \<and> (\<Sum>x \<in> reach d. length (parents x)) < 256"

lemma loop_exact:
  assumes f: "fits d" and "ok s" "distinct visited" "set visited \<subseteq> reach d" "set stack \<subseteq> reach d"
    and "d \<in> set visited \<union> set stack" "\<forall>x \<in> set visited. set (parents x) \<subseteq> set visited \<union> set stack" "anc \<notin> set visited"
    and "length stack + (\<Sum>x \<in> reach d - set visited. length (parents x)) \<le> 256"
  shows "\<exists>s'. ancestor_loop look anc stack visited s = Some (Inr ((d, anc) \<in> descent), s') \<and> ok s'"
  using assms(2-)
proof (induction "257 * card (reach d - set visited) + length stack" arbitrary: stack visited s rule: less_induct)
  case less
  have fin: "finite (reach d)" and kd: "known d" using f by (simp_all add: fits_def)
  show ?case
  proof (cases "stack = []")
    case True
    then have "d \<in> set visited" "\<forall>x \<in> set visited. set (parents x) \<subseteq> set visited" using less.prems(5,6) by simp_all
    then have "reach d \<subseteq> set visited" unfolding reach_def by (blast intro: descent_closed)
    then have "(d, anc) \<notin> descent" using less.prems(7) by (auto simp: reach_def)
    then show ?thesis using less.prems(1) unfolding True loop_cases(1) by simp
  next
    case False
    then obtain st x where st: "stack = st @ [x]" by (metis rev_exhaust)
    have x: "x \<in> reach d" "known x" using less.prems(4) kd descent_known by (auto simp: st reach_def)
    show ?thesis
    proof (cases "x \<in> set visited")
      case True
      have "\<exists>s'. ancestor_loop look anc st visited s = Some (Inr ((d, anc) \<in> descent), s') \<and> ok s'"
        by (rule less.hyps) (use less.prems True in \<open>auto simp: st\<close>)
      then show ?thesis using True by (simp add: st loop_cases(2))
    next
      case new: False
      show ?thesis
      proof (cases "x = anc")
        case True
        then show ?thesis using new less.prems(1) x(1) by (simp add: st reach_def loop_cases(3))
      next
        case nanc: False
        obtain r s' where lk: "look x s = (Inr r, s')" "ok s'" "(case r of None \<Rightarrow> [] | Some ps \<Rightarrow> ps) = parents x"
          using look_known[OF less.prems(1) x(2)] by blast
        let ?v = "visited @ [x]" and ?ps = "parents x"
        have dv: "distinct ?v" "set ?v \<subseteq> reach d" using new less.prems(2,3) x(1) by auto
        then have cv: "length ?v \<le> 256"
          using f card_mono[OF fin dv(2)] distinct_card[OF dv(1)] by (simp add: fits_def)
        have split: "reach d - set visited = insert x (reach d - set ?v)" using x(1) new by auto
        have sum: "(\<Sum>y \<in> reach d - set visited. length (parents y)) = length ?ps + (\<Sum>y \<in> reach d - set ?v. length (parents y))"
          unfolding split using fin by (subst sum.insert) auto
        have room: "length st + length ?ps + (\<Sum>y \<in> reach d - set ?v. length (parents y)) \<le> 255"
          using less.prems(8) sum by (simp add: st)
        have card: "card (reach d - set visited) = Suc (card (reach d - set ?v))"
          unfolding split using fin by (subst card_insert_disjoint) auto
        have step: "ancestor_loop look anc stack visited s = ancestor_loop look anc (st @ ?ps) ?v s'"
          unfolding st by (rule loop_cases(4)[where look = look, OF new nanc lk(1) _ cv]) (use lk(3) room in simp_all)
        have "\<exists>s''. ancestor_loop look anc (st @ ?ps) ?v s' = Some (Inr ((d, anc) \<in> descent), s'') \<and> ok s''"
        proof (rule less.hyps)
          show "257 * card (reach d - set ?v) + length (st @ ?ps) < 257 * card (reach d - set visited) + length stack"
            using card room by (simp add: st)
          show "set (st @ ?ps) \<subseteq> reach d"
            using less.prems(4) x descent_parent by (auto simp: st reach_def)
          show "\<forall>y \<in> set ?v. set (parents y) \<subseteq> set ?v \<union> set (st @ ?ps)" using less.prems(6) by (auto simp: st)
        qed (use less.prems(5,7) lk(2) dv nanc room in \<open>auto simp: st\<close>)
        then show ?thesis using step by simp
      qed
    qed
  qed
qed

lemma ancestor_exact:
  assumes "fits d" "ok s"
  shows "\<exists>s'. is_ancestor look anc d s = Some (Inr ((d, anc) \<in> descent), s') \<and> ok s'"
proof (cases "anc = d")
  case True
  then show ?thesis using assms(2) descent_refl by (simp add: is_ancestor_def)
next
  case False
  have "(\<Sum>x \<in> reach d. length (parents x)) < 256" using assms(1) by (simp add: fits_def)
  then have "\<exists>s'. ancestor_loop look anc [d] [] s = Some (Inr ((d, anc) \<in> descent), s') \<and> ok s'"
    using assms descent_refl by (intro loop_exact) (auto simp: reach_def)
  then show ?thesis using False by (simp add: is_ancestor_def)
qed

lemma walk_exact:
  assumes eq: "\<And>y w. known y \<Longrightarrow> known w \<or> w = anc \<Longrightarrow> rebase_oid_equal y w \<longleftrightarrow> y = w" and "known x" "ok s"
  shows "\<exists>s'. rebase_walk n look anc x s = (Inr (\<exists>i < n. first_chain parents i x = Some anc), s') \<and> ok s'"
  using assms(2,3)
proof (induction n arbitrary: x s)
  case (Suc n)
  have shift: "(\<exists>i < Suc n. first_chain parents i x = Some anc) \<longleftrightarrow>
      x = anc \<or> (\<exists>i < n. first_chain parents (Suc i) x = Some anc)"
    by (auto simp: less_Suc_eq_0_disj)
  show ?case
  proof (cases "x = anc")
    case True
    then show ?thesis using eq[OF Suc.prems(1), of anc] Suc.prems(2) unfolding shift by simp
  next
    case False
    obtain r s' where lk: "look x s = (Inr r, s')" "ok s'" "(case r of None \<Rightarrow> [] | Some ps \<Rightarrow> ps) = parents x"
      using look_known[OF Suc.prems(2,1)] by blast
    show ?thesis
    proof (cases "parents x")
      case Nil
      then show ?thesis using False eq[OF Suc.prems(1), of anc] lk unfolding shift by (auto split: option.splits)
    next
      case (Cons p ps)
      then have r: "r = Some (p # ps)" "known p" using lk(3) known_parents[OF Suc.prems(1)] by (auto split: option.splits)
      show ?thesis
      proof (cases "rebase_oid_equal p x")
        case True
        then have "p = x" using eq[OF r(2), of x] Suc.prems(1) by simp
        then have "first_chain parents (Suc i) x \<noteq> Some anc" for i
          using first_chain_loop[of parents x ps] Cons False by simp
        then show ?thesis using False True eq[OF Suc.prems(1), of anc] lk(1,2) r(1) unfolding shift by simp
      next
        case ne: False
        show ?thesis
          using Suc.IH[OF r(2) lk(2)] False ne eq[OF Suc.prems(1), of anc] lk(1) r(1) Cons unfolding shift by simp
      qed
    qed
  qed
qed simp

end

end
