(* ===== verification/MergeProps.thy ===== *)
theory MergeProps
  imports Merge OdbDisk
begin

text \<open>
  The history in an object database, the ancestor tests on it, and what merge analysis decides.
\<close>

section \<open>The history of a database\<close>

definition stored_parents :: "zlib \<Rightarrow> nat \<Rightarrow> odb \<Rightarrow> oid \<Rightarrow> oid list" where
  "stored_parents z mem db x = (case fst (commit_parents z mem x db) of Inr (Some ps) \<Rightarrow> ps | _ \<Rightarrow> [])"

definition ancestry :: "zlib \<Rightarrow> nat \<Rightarrow> odb \<Rightarrow> (oid \<times> oid) set" where
  "ancestry z mem db = {(x, p). p \<in> set (stored_parents z mem db x)}\<^sup>*"

text \<open>Everything \<open>x\<close> descends from is in the database, and its commits can be parsed.\<close>

definition history_of :: "zlib \<Rightarrow> nat \<Rightarrow> odb \<Rightarrow> oid \<Rightarrow> bool" where
  "history_of z mem db x \<longleftrightarrow> (\<forall>y. (x, y) \<in> ancestry z mem db \<longrightarrow>
     sha_key y \<and> (\<exists>v. fst (odb_get z mem db y) = Inr v) \<and> (\<exists>r. fst (commit_parents z mem y db) = Inr r))"

lemma commit_parents_get:
  "commit_parents z mem x db =
     (case odb_get z mem db x of
        (Inl e, db') \<Rightarrow> (if e = Undefined then Inl Undefined else Inr None, db')
      | (Inr (t, d), db') \<Rightarrow>
          (bindr (fastgit_commit_parse \<lparr>o_type = t, o_data = Raw_data d\<rparr>) (\<lambda>(c, _). Inr (map_option c_parents c)), db'))"
proof (cases "fastgit_odb_read z mem x db")
  case (Pair r db')
  then show ?thesis by (cases r) (simp_all add: commit_parents_def fastgit_object_lookup_def odb_get_def content_def)
qed

lemma history_step:
  assumes "history_of z mem db x" "p \<in> set (stored_parents z mem db x)"
  shows "history_of z mem db p"
  using assms unfolding history_of_def ancestry_def
  by (metis (mono_tags, lifting) case_prodI converse_rtrancl_into_rtrancl mem_Collect_eq)

abbreviation keeps :: "zlib \<Rightarrow> nat \<Rightarrow> odb \<Rightarrow> odb \<Rightarrow> bool" where
  "keeps z mem \<equiv> object_store.extends (odb_get z mem) sha_key"

lemma look_stored:
  assumes ok: "odb_ok crypto z mem U s" "keeps z mem db s" and x: "history_of z mem db x"
  shows "\<exists>r s'. commit_parents z mem x s = (Inr r, s') \<and> (odb_ok crypto z mem U s' \<and> keeps z mem db s') \<and>
    (case r of None \<Rightarrow> [] | Some ps \<Rightarrow> ps) = stored_parents z mem db x"
proof -
  have k: "sha_key x" and r: "\<exists>r. fst (commit_parents z mem x db) = Inr r" and v: "\<exists>v. fst (odb_get z mem db x) = Inr v"
    using x unfolding history_of_def ancestry_def by auto
  obtain t d where g: "fst (odb_get z mem db x) = Inr (t, d)" using v by auto
  then have "object_store.holds (odb_get z mem) sha_key db x (t, d)" using k by (simp add: odbs.holds_def)
  then have "object_store.holds (odb_get z mem) sha_key s x (t, d)" using ok(2) by (simp add: odbs.extends_def)
  then obtain s' where s': "odb_get z mem s x = (Inr (t, d), s')" "odb_ok crypto z mem U s'" "keeps z mem s s'"
    using odbs.get_ok[OF ok(1)] by blast
  obtain db' where db': "odb_get z mem db x = (Inr (t, d), db')" using g by (cases "odb_get z mem db x") auto
  obtain q where q: "bindr (fastgit_commit_parse \<lparr>o_type = t, o_data = Raw_data d\<rparr>) (\<lambda>(c, _). Inr (map_option c_parents c)) = Inr q"
    using r by (auto simp: commit_parents_get db')
  have "commit_parents z mem x s = (Inr q, s')" by (simp add: commit_parents_get s'(1) q)
  moreover have "(case q of None \<Rightarrow> [] | Some ps \<Rightarrow> ps) = stored_parents z mem db x"
    by (simp add: stored_parents_def commit_parents_get db' q split: option.split)
  moreover have "keeps z mem db s'" by (rule odbs.extends_trans[OF ok(2) s'(3)])
  ultimately show ?thesis using s'(2) by blast
qed

interpretation hist: history "commit_parents z mem" "\<lambda>s. odb_ok crypto z mem U s \<and> keeps z mem db s"
  "history_of z mem db" "stored_parents z mem db"
  by unfold_locales (use look_stored history_step in blast)+

section \<open>Exactness\<close>

text \<open>The whole history below \<open>d\<close> is there and fits into the arrays of the test.\<close>

definition history_fits :: "zlib \<Rightarrow> nat \<Rightarrow> odb \<Rightarrow> oid \<Rightarrow> bool" where
  "history_fits z mem db d \<longleftrightarrow> history_of z mem db d \<and> finite {y. (d, y) \<in> ancestry z mem db} \<and>
     card {y. (d, y) \<in> ancestry z mem db} \<le> 256 \<and>
     (\<Sum>y \<in> {y. (d, y) \<in> ancestry z mem db}. length (stored_parents z mem db y)) < 256"

lemma descent_ancestry:
  assumes "history_of z mem db d"
  shows "(d, y) \<in> {(x, p). history_of z mem db x \<and> p \<in> set (stored_parents z mem db x)}\<^sup>* \<longleftrightarrow> (d, y) \<in> ancestry z mem db"
proof
  assume "(d, y) \<in> {(x, p). history_of z mem db x \<and> p \<in> set (stored_parents z mem db x)}\<^sup>*"
  then show "(d, y) \<in> ancestry z mem db" unfolding ancestry_def by (rule rtrancl_mono[THEN subsetD, rotated]) auto
next
  assume "(d, y) \<in> ancestry z mem db"
  then have "(d, y) \<in> {(x, p). history_of z mem db x \<and> p \<in> set (stored_parents z mem db x)}\<^sup>* \<and> history_of z mem db y"
    unfolding ancestry_def
  proof (induction rule: rtrancl_induct)
    case base
    then show ?case using assms by simp
  next
    case (step a b)
    then show ?case using history_step by (auto intro: rtrancl_into_rtrancl)
  qed
  then show "(d, y) \<in> {(x, p). history_of z mem db x \<and> p \<in> set (stored_parents z mem db x)}\<^sup>*" by simp
qed

lemma is_ancestor_exact:
  assumes "history_fits z mem db d" "odb_ok crypto z mem U s" "keeps z mem db s"
  shows "\<exists>s'. is_ancestor (commit_parents z mem) anc d s = Some (Inr ((d, anc) \<in> ancestry z mem db), s') \<and>
    odb_ok crypto z mem U s' \<and> keeps z mem db s'"
proof -
  have k: "history_of z mem db d" using assms(1) by (simp add: history_fits_def)
  have "hist.fits z mem db d"
    using assms(1) by (simp add: history_fits_def hist.fits_def hist.reach_def hist.descent_def descent_ancestry)
  from hist.ancestor_exact[OF this, of crypto U s anc] assms(2,3) show ?thesis
    by (simp add: hist.descent_def descent_ancestry[OF k])
qed

section \<open>Properties\<close>

text \<open>
  C13. Merge analysis is exact, and returns, on histories that are in the database and fit into the
  arrays of the test: nothing to do when both heads are equal or theirs is an ancestor, a fast forward
  when ours is an ancestor of theirs, and a real merge otherwise; an unborn HEAD is reported as such.
\<close>

theorem merge_analysis_exact:
  assumes "odb_ok crypto z mem U db" "history_fits z mem db their"
    and "\<forall>h. fastgit_rev_parse_single rp (str ''HEAD'') = Inr h \<longrightarrow> history_fits z mem db h"
  shows "\<exists>db'. fastgit_merge_analysis z mem rp their db =
    Some (case fastgit_rev_parse_single rp (str ''HEAD'') of
        Inl e \<Rightarrow> if e = ENOENT then Inr (UNBORN, [their]) else Inl e
      | Inr h \<Rightarrow> Inr (if h = their then (UP_TO_DATE, [])
          else if (their, h) \<in> ancestry z mem db then (FASTFORWARD, [their])
          else if (h, their) \<in> ancestry z mem db then (UP_TO_DATE, []) else (NORMAL, [their])), db')"
proof (cases "fastgit_rev_parse_single rp (str ''HEAD'')")
  case (Inl e)
  then show ?thesis by (simp add: fastgit_merge_analysis_def)
next
  case (Inr h)
  then have f: "history_fits z mem db h" using assms(3) by simp
  obtain s1 where s1: "is_ancestor (commit_parents z mem) h their db = Some (Inr ((their, h) \<in> ancestry z mem db), s1)"
    "odb_ok crypto z mem U s1" "keeps z mem db s1"
    using is_ancestor_exact[OF assms(2,1) odbs.extends_refl] by blast
  obtain s2 where "is_ancestor (commit_parents z mem) their h s1 = Some (Inr ((h, their) \<in> ancestry z mem db), s2)"
    using is_ancestor_exact[OF f s1(2,3)] by blast
  then show ?thesis using Inr s1(1) by (simp add: fastgit_merge_analysis_def split: bool.split)
qed

text \<open>A database with two commits.\<close>

definition root_text :: bytes where
  "root_text = str ''tree '' @ replicate 64 48 @ [10] @ str ''author a <b> 0 +0000'' @ [10] @
     str ''committer a <b> 0 +0000'' @ [10, 10] @ str ''m''"

definition child_text :: bytes where
  "child_text = str ''tree '' @ replicate 64 48 @ [10] @ str ''parent '' @ bytes_to_hex (128 # replicate 31 0) @ [10] @
     str ''author a <b> 0 +0000'' @ [10] @ str ''committer a <b> 0 +0000'' @ [10, 10] @ str ''m''"

lemma root_parse: "map_option c_parents (ok_of (commit_parse_raw root_text)) = Some []"
  by code_simp

lemma child_parse: "map_option c_parents (ok_of (commit_parse_raw child_text)) = Some [toy_oid 128]"
  by code_simp

lemma toy_lengths: "length (obj_text COMMIT root_text) = 128" "length (obj_text COMMIT child_text) = 200"
  by code_simp+

lemma toy_storable: "storable 10000 (COMMIT, root_text)" "storable 10000 (COMMIT, child_text)"
  by (simp_all add: storable_def base_type_def root_text_def child_text_def)

lemma toy_names:
  "obj_name (Some toy_hash) (COMMIT, root_text) = Inr (toy_oid 128)"
  "obj_name (Some toy_hash) (COMMIT, child_text) = Inr (toy_oid 200)"
  using toy_name[OF toy_storable(1)] toy_name[OF toy_storable(2)] by (simp_all add: toy_lengths)

abbreviation toy_universe :: "(obj_type \<times> bytes) set" where
  "toy_universe \<equiv> {(COMMIT, root_text), (COMMIT, child_text)}"

lemma toy_ok: "odb_ok (Some toy_hash) stuff_zlib 10000 toy_universe (fastgit_odb_open empty_disk)"
proof (rule empty_ok)
  show "sha256_ok (Some toy_hash)" by (rule toy_params)
  show "zlib_fast_ok stuff_zlib" by (rule stuff_zlib_ok)
  show "universe (Some toy_hash) 10000 toy_universe"
    using toy_storable toy_names by (auto simp: universe_def inj_on_def)
qed

lemma toy_database:
  "\<exists>db. odb_ok (Some toy_hash) stuff_zlib 10000 toy_universe db \<and>
     fst (odb_get stuff_zlib 10000 db (toy_oid 128)) = Inr (COMMIT, root_text) \<and>
     fst (odb_get stuff_zlib 10000 db (toy_oid 200)) = Inr (COMMIT, child_text)"
proof -
  from odbs.put_all_holds[OF toy_ok, of "[(COMMIT, root_text), (COMMIT, child_text)]"]
  obtain ks db where p: "odb_ok (Some toy_hash) stuff_zlib 10000 toy_universe db"
    "list_all2 (object_store.holds (odb_get stuff_zlib 10000) sha_key db) ks [(COMMIT, root_text), (COMMIT, child_text)]"
    by auto
  then obtain k1 k2 where h: "object_store.holds (odb_get stuff_zlib 10000) sha_key db k1 (COMMIT, root_text)"
    "object_store.holds (odb_get stuff_zlib 10000) sha_key db k2 (COMMIT, child_text)"
    by (auto simp: list_all2_Cons2)
  have "named (Some toy_hash) toy_universe k (u, d)"
    if "object_store.holds (odb_get stuff_zlib 10000) sha_key db k (u, d)" for k u d
    using that odb_get_ok[OF p(1), of k] by (cases "odb_get stuff_zlib 10000 db k") (auto simp: odbs.holds_def)
  then have "k1 = toy_oid 128" "k2 = toy_oid 200" using h toy_names by (auto simp: named_def)
  then show ?thesis using h p(1) by (auto simp: odbs.holds_def)
qed

lemma ancestry_closed:
  assumes "x \<in> V" "\<forall>y \<in> V. set (stored_parents z mem db y) \<subseteq> V" "(x, y) \<in> ancestry z mem db"
  shows "y \<in> V"
  using assms(3,1,2) unfolding ancestry_def by (induction rule: rtrancl_induct) auto

theorem merge_analysis_exact_witness:
  "\<exists>db db'. fastgit_merge_analysis stuff_zlib 10000
     \<lparr>rp_gitdir = str ''/g'', rp_files = [(str ''/g/HEAD'', bytes_to_hex (128 # replicate 31 0) @ [10])]\<rparr>
     (toy_oid 200) db = Some (Inr (FASTFORWARD, [toy_oid 200]), db')"
proof -
  let ?rp = "\<lparr>rp_gitdir = str ''/g'', rp_files = [(str ''/g/HEAD'', bytes_to_hex (128 # replicate 31 0) @ [10])]\<rparr>"
  let ?z = stuff_zlib and ?m = 10000
  obtain db where db: "odb_ok (Some toy_hash) ?z ?m toy_universe db"
    "fst (odb_get ?z ?m db (toy_oid 128)) = Inr (COMMIT, root_text)"
    "fst (odb_get ?z ?m db (toy_oid 200)) = Inr (COMMIT, child_text)" using toy_database by blast
  have par: "fst (commit_parents ?z ?m x db) = Inr (Some ps)"
    if "fst (odb_get ?z ?m db x) = Inr (COMMIT, d)" "map_option c_parents (ok_of (commit_parse_raw d)) = Some ps" "d \<noteq> []" for x d ps
    using that by (cases "odb_get ?z ?m db x", cases "commit_parse_raw d")
      (auto simp: commit_parents_get fastgit_commit_parse_def ok_of_def)
  have ne: "root_text \<noteq> []" "child_text \<noteq> []" by (simp_all add: root_text_def child_text_def str_def)
  note p = par[OF db(2) root_parse ne(1)] par[OF db(3) child_parse ne(2)]
  have sp: "stored_parents ?z ?m db (toy_oid 128) = []" "stored_parents ?z ?m db (toy_oid 200) = [toy_oid 128]"
    using p by (simp_all add: stored_parents_def)
  have r: "{y. (toy_oid 128, y) \<in> ancestry ?z ?m db} = {toy_oid 128}"
    using ancestry_closed[of "toy_oid 128" "{toy_oid 128}" ?z ?m db] sp by (auto simp: ancestry_def)
  have edge: "(toy_oid 200, toy_oid 128) \<in> ancestry ?z ?m db"
    unfolding ancestry_def by (rule r_into_rtrancl) (simp add: sp)
  have c: "{y. (toy_oid 200, y) \<in> ancestry ?z ?m db} = {toy_oid 200, toy_oid 128}"
    using ancestry_closed[of "toy_oid 200" "{toy_oid 200, toy_oid 128}" ?z ?m db] sp edge by (auto simp: ancestry_def)
  have known: "sha_key y \<and> (\<exists>v. fst (odb_get ?z ?m db y) = Inr v) \<and> (\<exists>r. fst (commit_parents ?z ?m y db) = Inr r)"
    if "y \<in> {toy_oid 200, toy_oid 128}" for y
    using that db p by (auto simp: sha_key_def)
  have k: "history_of ?z ?m db (toy_oid 128)" "history_of ?z ?m db (toy_oid 200)"
    unfolding history_of_def using known r c by blast+
  have f1: "history_fits ?z ?m db (toy_oid 128)" unfolding history_fits_def r using k(1) by (simp add: sp)
  have f2: "history_fits ?z ?m db (toy_oid 200)" unfolding history_fits_def c using k(2) by (simp add: sp)
  have h: "fastgit_rev_parse_single ?rp (str ''HEAD'') = Inr (toy_oid 128)" by code_simp
  show ?thesis using merge_analysis_exact[OF db(1) f2, of ?rp] f1 h edge by auto
qed

text \<open>
  The ancestor test of rebase follows first parents only: on a history in the database it answers
  whether the ancestor is among the first 256 commits of the chain of first parents, so an ancestor
  merged in through another parent is not found.
\<close>

theorem rebase_ancestor_first_parents:
  assumes "odb_ok crypto z mem U db" "history_of z mem db desc" "sha_key anc"
  shows "\<exists>db'. rebase_is_ancestor (commit_parents z mem) anc desc db =
    (Inr (\<exists>n < 256. first_chain (stored_parents z mem db) n desc = Some anc), db')"
proof -
  have sk: "sha_key y" if "history_of z mem db y" for y using that by (auto simp: history_of_def ancestry_def)
  have eq: "rebase_oid_equal y w \<longleftrightarrow> y = w" if "history_of z mem db y" "history_of z mem db w \<or> w = anc" for y w
    using sk[OF that(1)] sk[of w] that(2) assms(3) by (cases y; cases w) (auto simp: rebase_oid_equal_def sha_key_def)
  have k: "rebase_oid_equal anc desc \<longleftrightarrow> desc = anc" using eq[OF assms(2), of anc] by (auto simp: rebase_oid_equal_def)
  obtain s' where w: "rebase_walk 256 (commit_parents z mem) anc desc db =
      (Inr (\<exists>i < 256. first_chain (stored_parents z mem db) i desc = Some anc), s')"
    using hist.walk_exact[where n = 256, OF eq assms(2) conjI[OF assms(1) odbs.extends_refl]] by blast
  show ?thesis
  proof (cases "desc = anc")
    case True
    then have "\<exists>n < 256. first_chain (stored_parents z mem db) n desc = Some anc" by (intro exI[of _ 0]) simp
    then show ?thesis using True k by (simp add: rebase_is_ancestor_def)
  next
    case False
    then show ?thesis using k w by (simp add: rebase_is_ancestor_def)
  qed
qed

theorem rebase_ancestor_first_parents_witness:
  "\<exists>db db'. rebase_is_ancestor (commit_parents stuff_zlib 10000) (toy_oid 7) (toy_oid 128) db = (Inr False, db')"
proof -
  let ?z = stuff_zlib and ?m = 10000
  obtain db where db: "odb_ok (Some toy_hash) ?z ?m toy_universe db"
    "fst (odb_get ?z ?m db (toy_oid 128)) = Inr (COMMIT, root_text)" using toy_database by blast
  have ne: "root_text \<noteq> []" by (simp add: root_text_def str_def)
  have p: "fst (commit_parents ?z ?m (toy_oid 128) db) = Inr (Some [])"
    using db(2) root_parse ne by (cases "odb_get ?z ?m db (toy_oid 128)", cases "commit_parse_raw root_text")
      (auto simp: commit_parents_get fastgit_commit_parse_def ok_of_def)
  have sp: "stored_parents ?z ?m db (toy_oid 128) = []" using p by (simp add: stored_parents_def)
  have r: "{y. (toy_oid 128, y) \<in> ancestry ?z ?m db} = {toy_oid 128}"
    using ancestry_closed[of "toy_oid 128" "{toy_oid 128}" ?z ?m db] sp by (auto simp: ancestry_def)
  have "sha_key y \<and> (\<exists>v. fst (odb_get ?z ?m db y) = Inr v) \<and> (\<exists>r. fst (commit_parents ?z ?m y db) = Inr r)"
    if "y \<in> {toy_oid 128}" for y
    using that db p by (auto simp: sha_key_def)
  then have k: "history_of ?z ?m db (toy_oid 128)" unfolding history_of_def using r by blast
  have "first_chain (stored_parents ?z ?m db) n (toy_oid 128) \<noteq> Some (toy_oid 7)" for n
    by (cases n) (simp_all add: sp)
  then show ?thesis
    using rebase_ancestor_first_parents[OF db(1) k, of "toy_oid 7"] by (auto simp: sha_key_def)
qed

end
