(* ===== verification/PktLine.thy ===== *)
theory PktLine
  imports RefProps OdbProps
begin

unbundle bit_operations_syntax

text \<open>
  Packet lines (\<^verbatim>\<open>src/network/protocol.c\<close>): the framing of the smart protocol, the parser of the
  reference advertisement, the request of a fetch and of a push, and the extraction of the pack from a
  response. Every packet starts with its length in four hexadecimal digits, which count themselves;
  0000 is a flush.
\<close>

section \<open>Framing\<close>

text \<open>strtoul in base 16 also takes a prefix 0x before a digit.\<close>

definition skip_0x :: "bytes \<Rightarrow> bytes" where
  "skip_0x s =
     (case s of a # b # c # _ \<Rightarrow>
        if a = 48 \<and> (b = 120 \<or> b = 88) \<and> (case digit_val c of Some d \<Rightarrow> d < 16 | None \<Rightarrow> False) then drop 2 s else s
      | _ \<Rightarrow> s)"

definition strtoul16 :: "bytes \<Rightarrow> u64 \<times> bytes" where
  "strtoul16 s =
     (let s1 = dropWhile isspace s;
          neg = (s1 \<noteq> [] \<and> hd s1 = 45);
          s2 = (if s1 \<noteq> [] \<and> (hd s1 = 45 \<or> hd s1 = 43) then tl s1 else s1);
          s3 = skip_0x s2;
          (v, r) = read_digits 16 0 s3
      in if r = s3 then (0, s)
         else if 2 ^ 64 \<le> v then (- 1, r)
         else (if neg then - of_nat v else of_nat v, r))"

text \<open>The length in front of a packet; \<open>None\<close> ends the loops.\<close>

definition pkt_len :: "bytes \<Rightarrow> nat option" where
  "pkt_len s =
     (let hex4 = cstr (take 4 s); (v, ep) = strtoul16 hex4
      in if ep = hex4 \<or> 65535 < v then None else Some (unat v))"

definition hex4 :: "nat \<Rightarrow> bytes" where
  "hex4 n = replicate (4 - length (print_base 16 n)) 48 @ print_base 16 n"

text \<open>A payload is a C string; one that does not fit is cut.\<close>

definition fastgit_pktline_encode :: "bytes option \<Rightarrow> bytes" where
  "fastgit_pktline_encode payload =
     (case payload of
        None \<Rightarrow> str ''0000''
      | Some p \<Rightarrow> let tlen = (if 65535 < length p + 4 then 65535 else length p + 4) in hex4 tlen @ take (tlen - 4) p)"

definition pktline_append :: "bytes \<Rightarrow> bytes option \<Rightarrow> bytes" where
  "pktline_append buf payload = buf @ fastgit_pktline_encode payload"

section \<open>The reference advertisement\<close>

record remote_ref =
  rr_name :: bytes
  rr_oid :: oid

definition is_hex :: "byte \<Rightarrow> bool" where
  "is_hex c \<longleftrightarrow> 48 \<le> c \<and> c \<le> 57 \<or> 97 \<le> c \<and> c \<le> 102 \<or> 65 \<le> c \<and> c \<le> 70"

text \<open>A line that is not a reference is skipped.\<close>

definition ref_of_payload :: "bytes \<Rightarrow> remote_ref option" where
  "ref_of_payload payload =
     (let p = chomp payload; hexlen = length (takeWhile is_hex p)
      in if 2 \<le> length p \<and> starts ''# '' p then None
         else if hexlen \<noteq> 40 \<and> hexlen \<noteq> 64 then None
         else if length p \<le> hexlen \<or> p ! hexlen \<noteq> 32 then None
         else let refname = cstr (drop (hexlen + 1) p)
           in if refname = [] \<or> 1024 < length refname then None
              else (case fastgit_oid_from_hex (take hexlen p) of
                  Inl e \<Rightarrow> None
                | Inr x \<Rightarrow> Some \<lparr>rr_name = refname, rr_oid = x\<rparr>))"

function fastgit_pktline_parse_refs :: "bytes \<Rightarrow> remote_ref list" where
  "fastgit_pktline_parse_refs s =
     (if length s < 4 then []
      else case pkt_len s of
        None \<Rightarrow> []
      | Some n \<Rightarrow>
          if n = 0 \<or> n = 1 then fastgit_pktline_parse_refs (drop 4 s)
          else if n < 4 \<or> length s < n then []
          else (case ref_of_payload (take (n - 4) (drop 4 s)) of
              None \<Rightarrow> fastgit_pktline_parse_refs (drop n s)
            | Some r \<Rightarrow> r # fastgit_pktline_parse_refs (drop n s)))"
  by pat_completeness auto
termination
  by (relation "measure length") auto

declare fastgit_pktline_parse_refs.simps [simp del]

section \<open>Requests\<close>

datatype filter_spec = FILTER_NONE | FILTER_BLOB_NONE | FILTER_BLOB_LIMIT u64 | FILTER_TREE_DEPTH u32 | FILTER_COMBINE

definition filter_text :: "filter_spec \<Rightarrow> bytes" where
  "filter_text f =
     (case f of
        FILTER_BLOB_NONE \<Rightarrow> str '' filter=blob:none''
      | FILTER_BLOB_LIMIT m \<Rightarrow> str '' filter=blob:limit='' @ dec (unat m)
      | FILTER_TREE_DEPTH d \<Rightarrow> str '' filter=tree:'' @ dec (unat d)
      | _ \<Rightarrow> [])"

text \<open>The filters are joined with \<open>strcat\<close> in a buffer of 2048 bytes.\<close>

definition filter_str :: "filter_spec list \<Rightarrow> bytes res" where
  "filter_str fs = (let t = concat (map filter_text fs) in if 2048 \<le> length t then Inl Undefined else Inr t)"

definition oid_text :: "oid \<Rightarrow> bytes res" where
  "oid_text x = (case fastgit_oid_to_hex x 129 of None \<Rightarrow> Inl Undefined | Some h \<Rightarrow> Inr h)"

definition want_lines :: "filter_spec list \<Rightarrow> remote_ref list \<Rightarrow> bytes list res" where
  "want_lines fs refs =
     (case refs of
        [] \<Rightarrow> Inr []
      | r # rs \<Rightarrow>
          bindr (oid_text (rr_oid r)) (\<lambda>h.
          bindr (filter_str fs) (\<lambda>f.
          bindr (mapr (\<lambda>r. bindr (oid_text (rr_oid r)) (\<lambda>h. Inr (str ''want '' @ h @ [10]))) rs) (\<lambda>ls.
            Inr (bufn 2048 (str ''want '' @ h @ str '' thin-pack ofs-delta side-band side-band-64k agent=fastgit/0.1.0''
                   @ f @ [10]) # ls)))))"

text \<open>\<open>local_oids\<close> is what the iterator of the local database gives; without references there is no request.\<close>

definition build_fetch_request :: "remote_ref list \<Rightarrow> oid list \<Rightarrow> filter_spec list \<Rightarrow> bytes option res" where
  "build_fetch_request refs local_oids fs =
     bindr (want_lines fs refs) (\<lambda>ws.
       let buf = foldl pktline_append [] (map Some ws) in
       if buf = [] then Inr None
       else bindr (mapr (\<lambda>x. bindr (oid_text x) (\<lambda>h. Inr (bufn 256 (str ''have '' @ h @ [10])))) (take 32 local_oids)) (\<lambda>hs.
         Inr (Some (pktline_append (pktline_append (foldl pktline_append buf (map Some hs)) (Some (str ''done'' @ [10]))) None))))"

section \<open>The pack in a response\<close>

definition PACK :: bytes where "PACK = str ''PACK''"

definition begins :: "bytes \<Rightarrow> bytes \<Rightarrow> bool" where
  "begins key s \<longleftrightarrow> take (length key) s = key"

text \<open>The packets after each other; the second component tells the raw rest after the packet.\<close>

definition packet_data :: "bytes \<Rightarrow> bytes \<Rightarrow> bytes \<times> bool" where
  "packet_data payload rest =
     (case payload of
        [] \<Rightarrow> ([], False)
      | b # r \<Rightarrow>
          if b = 1 then (r, False)
          else if b = 2 \<or> b = 3 then ([], False)
          else let chunk = (if begins PACK payload then payload else [])
            in if length payload = 8 \<and> begins (str ''NAK'' @ [10]) payload \<and> begins PACK rest
               then (chunk @ rest, True) else (chunk, False))"

function extract_loop :: "bytes \<Rightarrow> bytes \<Rightarrow> bytes" where
  "extract_loop s pack =
     (if length s < 4 then pack
      else case pkt_len s of
        None \<Rightarrow> pack
      | Some n \<Rightarrow>
          if n = 0 then extract_loop (drop 4 s) pack
          else if n < 4 \<or> length s < n then pack
          else (case packet_data (take (n - 4) (drop 4 s)) (drop n s) of
              (d, stop) \<Rightarrow> if stop then pack @ d else extract_loop (drop n s) (pack @ d)))"
  by pat_completeness auto
termination
  by (relation "measure (\<lambda>(s, pack). length s)") auto

declare extract_loop.simps [simp del]

text \<open>The first place where the signature stands.\<close>

fun scan_pack :: "bytes \<Rightarrow> bytes option" where
  "scan_pack [] = None"
| "scan_pack (b # s) = (if begins PACK (b # s) then Some (b # s) else scan_pack s)"

definition extract_pack_from_response :: "bytes \<Rightarrow> bytes res" where
  "extract_pack_from_response rdata =
     (if begins PACK rdata then Inr rdata
      else let pack = extract_loop rdata [];
               pack' = (if length pack < 12 then (case scan_pack rdata of None \<Rightarrow> pack | Some p \<Rightarrow> p) else pack)
           in if length pack' < 12 then Inl ENOENT else Inr pack')"

section \<open>The request of a push\<close>

definition zero_hex :: bytes where "zero_hex = replicate 64 48"

text \<open>
  The line of a branch. The first one is printed with a 0 character before the capabilities, where
  the C string that is framed ends.
\<close>

definition push_line :: "bool \<Rightarrow> bytes \<Rightarrow> bytes \<Rightarrow> bytes \<Rightarrow> bytes" where
  "push_line is_first old new name =
     cstr (bufn 4096 (old @ [32] @ new @ [32] @ name @
       (if is_first then [0] @ str '' report-status side-band-64k'' @ [10] else [10])))"

definition push_lines :: "remote_ref list \<Rightarrow> remote_ref list \<Rightarrow> bytes list res" where
  "push_lines remote_refs heads =
     bindr (mapr (\<lambda>h.
       bindr (oid_text (rr_oid h)) (\<lambda>new.
       bindr (case List.find (\<lambda>r. strcmp (rr_name r) (rr_name h) = 0) remote_refs of
                None \<Rightarrow> Inr zero_hex
              | Some r \<Rightarrow> Inr (case fastgit_oid_to_hex (rr_oid r) 129 of None \<Rightarrow> zero_hex | Some h \<Rightarrow> h)) (\<lambda>old.
         Inr (old, new, rr_name h)))) heads) (\<lambda>ts.
       Inr (map (\<lambda>(i, old, new, name). push_line (i = 0) old new name) (zip [0..<length ts] ts)))"

text \<open>The local branches that can be looked up, with their ids.\<close>

definition local_heads :: "repo \<Rightarrow> remote_ref list" where
  "local_heads rp = List.map_filter (\<lambda>n. case fastgit_reference_lookup rp n of
      Inl e \<Rightarrow> None | Inr x \<Rightarrow> Some \<lparr>rr_name = n, rr_oid = x\<rparr>) (fastgit_reference_list (Some (str ''refs/heads/'')) rp)"

definition build_receive_pack_request :: "repo \<Rightarrow> remote_ref list \<Rightarrow> bytes \<Rightarrow> bytes option res" where
  "build_receive_pack_request rp remote_refs pack_data =
     bindr (push_lines remote_refs (local_heads rp)) (\<lambda>ls.
       let buf = foldl pktline_append [] (map Some ls) in
       Inr (if buf = [] then None else Some (pktline_append buf None @ pack_data)))"

end
