(* ===== verification/PktLineProps.thy ===== *)
theory PktLineProps
  imports PktLine
begin

text \<open>
  Frames as a codec, the advertisement of references and the pack in a side-band response: what the
  other side frames is what the parsers give back.
\<close>

section \<open>The length of a packet\<close>

lemma digit_is_hex: "d < 16 \<Longrightarrow> is_hex (digit_char d) \<and> digit_char d \<noteq> 120 \<and> digit_char d \<noteq> 88"
proof -
  have "\<forall>d \<in> set [0..<16]. is_hex (digit_char d) \<and> digit_char d \<noteq> 120 \<and> digit_char d \<noteq> 88" by code_simp
  moreover assume "d < 16"
  ultimately show ?thesis by simp
qed

lemma hex_print: "c \<in> set (print_base 16 n) \<Longrightarrow> is_hex c \<and> c \<noteq> 120 \<and> c \<noteq> 88"
  unfolding print_base_def using digits_less[of 16 _ n] digit_is_hex by fastforce

lemma hex4_chars: "c \<in> set (hex4 n) \<Longrightarrow> is_hex c \<and> c \<noteq> 120 \<and> c \<noteq> 88"
  using hex_print[of c n] by (auto simp: hex4_def is_hex_def)

lemma is_hex_plain: "is_hex c \<Longrightarrow> c \<noteq> 0 \<and> \<not> isspace c \<and> c \<noteq> 45 \<and> c \<noteq> 43"
  by (auto simp: is_hex_def isspace_def word_le_nat_alt)

lemma hex4_length: "n < 65536 \<Longrightarrow> length (hex4 n) = 4"
  using length_print_base_le[of 16 4 n] by (simp add: hex4_def)

lemma read_zeros: "0 < b \<Longrightarrow> read_digits b 0 (replicate k 48 @ s) = read_digits b 0 s"
  by (induction k) (simp_all add: digit_val_def)

lemma read_hex4: "read_digits 16 0 (hex4 n) = (n, [])"
  using read_print_base[of 16 "[]" n] by (simp add: hex4_def read_zeros stops_def)

lemma strtoul16_hex4:
  assumes "n < 65536"
  shows "strtoul16 (hex4 n) = (of_nat n, [])"
proof -
  obtain a b r where h: "hex4 n = a # b # r"
    using hex4_length[OF assms] by (cases "hex4 n"; cases "tl (hex4 n)") auto
  have a: "\<not> isspace a" "a \<noteq> 45" "a \<noteq> 43" and b: "b \<noteq> 120" "b \<noteq> 88"
    using hex4_chars[of a n] hex4_chars[of b n] is_hex_plain by (simp_all add: h)
  have s3: "skip_0x (hex4 n) = hex4 n" using b by (simp add: skip_0x_def h split: list.split)
  have d: "dropWhile isspace (hex4 n) = hex4 n" "hex4 n \<noteq> []" "hd (hex4 n) = a" using a by (simp_all add: h)
  then have e: "[] \<noteq> hex4 n" by simp
  show ?thesis
    unfolding strtoul16_def Let_def d(1) using d(2,3) a s3 e assms by (simp add: read_hex4)
qed

lemma pkt_len_hex4:
  assumes "n < 65536"
  shows "pkt_len (hex4 n @ r) = Some n"
proof -
  have "nul_free (hex4 n)" using hex4_chars is_hex_plain by (auto simp: nul_free_def)
  then have c: "cstr (take 4 (hex4 n @ r)) = hex4 n"
    using hex4_length[OF assms] by (auto simp: cstr_def nul_free_def takeWhile_eq_all_conv)
  have u: "unat (of_nat n :: u64) = n" using assms by (simp add: unat_of_nat)
  have "\<not> 65535 < (of_nat n :: u64)" using assms by (simp add: word_less_nat_alt u)
  moreover have "hex4 n \<noteq> []" using hex4_length[OF assms] by auto
  ultimately show ?thesis unfolding pkt_len_def Let_def c strtoul16_hex4[OF assms] using u by auto
qed

section \<open>Frames\<close>

definition frame :: "bytes \<Rightarrow> bytes" where
  "frame p = hex4 (length p + 4) @ p"

abbreviation flush :: bytes where "flush \<equiv> str ''0000''"

definition read_frame :: "bytes \<Rightarrow> (bytes \<times> bytes) option" where
  "read_frame s =
     (case pkt_len s of
        None \<Rightarrow> None
      | Some n \<Rightarrow> if 4 \<le> n \<and> n \<le> length s then Some (take (n - 4) (drop 4 s), drop n s) else None)"

definition frame_ok :: "bytes \<Rightarrow> bool" where
  "frame_ok p \<longleftrightarrow> length p + 4 < 65536"

lemma frame_facts:
  assumes "frame_ok p"
  shows "pkt_len (frame p @ r) = Some (length p + 4)" "drop (length p + 4) (frame p @ r) = r" "drop 4 (frame p @ r) = p @ r"
  using assms pkt_len_hex4[of "length p + 4" "p @ r"] hex4_length[of "length p + 4"]
  by (simp_all add: frame_def frame_ok_def)

lemma frame_length: "frame_ok p \<Longrightarrow> length (frame p) = length p + 4"
  using hex4_length[of "length p + 4"] by (simp add: frame_def frame_ok_def)

interpretation framec: codec frame read_frame frame_ok
  by unfold_locales (simp add: read_frame_def frame_facts[simplified] frame_facts frame_length del: drop_append)

lemma encode_frame: "frame_ok p \<Longrightarrow> fastgit_pktline_encode (Some p) = frame p"
  by (simp add: fastgit_pktline_encode_def frame_def frame_ok_def Let_def)

lemma encode_flush: "fastgit_pktline_encode None = flush"
  by (simp add: fastgit_pktline_encode_def)

lemma flush_len: "pkt_len (flush @ r) = Some 0"
proof -
  have "print_base 16 0 = [48]" by (simp add: print_base_def digits.simps[of 16 0] digit_char_def)
  then have "hex4 0 = flush" by (simp add: hex4_def str_def numeral_3_eq_3)
  then show ?thesis using pkt_len_hex4[of 0 r] by simp
qed

section \<open>The loops over packets\<close>

lemma parse_flush: "fastgit_pktline_parse_refs (flush @ s) = fastgit_pktline_parse_refs s"
  using flush_len[of s] by (subst fastgit_pktline_parse_refs.simps) simp

lemma parse_frame:
  assumes "frame_ok p"
  shows "fastgit_pktline_parse_refs (frame p @ s) =
    (case ref_of_payload p of None \<Rightarrow> fastgit_pktline_parse_refs s | Some r \<Rightarrow> r # fastgit_pktline_parse_refs s)"
  using frame_facts[OF assms, of s] frame_length[OF assms]
  by (subst fastgit_pktline_parse_refs.simps) (simp del: drop_append split: option.split)

lemma parse_end: "fastgit_pktline_parse_refs [] = []"
  by (subst fastgit_pktline_parse_refs.simps) simp

lemma parse_frames:
  "\<forall>p \<in> set ps. frame_ok p \<Longrightarrow>
   fastgit_pktline_parse_refs (concat (map frame ps) @ s) = List.map_filter ref_of_payload ps @ fastgit_pktline_parse_refs s"
  by (induction ps) (simp_all add: parse_frame map_filter_simps split: option.split)

lemma extract_flush: "extract_loop (flush @ s) pack = extract_loop s pack"
  using flush_len[of s] by (subst extract_loop.simps) simp

lemma extract_end: "extract_loop [] pack = pack"
  by (subst extract_loop.simps) simp

lemma extract_frame:
  assumes "frame_ok p"
  shows "extract_loop (frame p @ s) pack =
    (case packet_data p s of (d, stop) \<Rightarrow> if stop then pack @ d else extract_loop s (pack @ d))"
  using frame_facts[OF assms, of s] frame_length[OF assms]
  by (subst extract_loop.simps) (simp del: drop_append split: prod.split)

section \<open>Lines of references\<close>

definition ref_ok :: "remote_ref \<Rightarrow> bool" where
  "ref_ok r \<longleftrightarrow> length (oid_hash (rr_oid r)) \<in> {20, 32} \<and> oid_algo (rr_oid r) = infer_algo (length (oid_hash (rr_oid r))) \<and>
     rr_name r \<noteq> [] \<and> length (rr_name r) \<le> 1024 \<and> nul_free (rr_name r) \<and> last (rr_name r) \<noteq> 10 \<and> last (rr_name r) \<noteq> 13"

text \<open>A line as servers send it; the first one carries their capabilities after a 0 character.\<close>

definition ref_line :: "bytes option \<Rightarrow> remote_ref \<Rightarrow> bytes" where
  "ref_line caps r = bytes_to_hex (oid_hash (rr_oid r)) @ [32] @ rr_name r @
     (case caps of None \<Rightarrow> [] | Some c \<Rightarrow> 0 # c) @ [10]"

lemma chomp_keeps: "x \<noteq> [] \<Longrightarrow> last x \<noteq> 10 \<Longrightarrow> last x \<noteq> 13 \<Longrightarrow> chomp (x @ y) = x @ chomp y"
  by (cases x rule: rev_cases) (auto simp: chomp_def dropWhile_append)

lemma hex_is_hex: "c \<in> set (bytes_to_hex d) \<Longrightarrow> is_hex c"
proof (induction d)
  case (Cons b d)
  have "is_hex (hex_char n)" if "n < 16" for n
    using digit_is_hex[of "unat n"] that by (simp add: hex_char_def word_less_nat_alt)
  then show ?case using Cons nibbles by auto
qed simp

lemma ref_of_line:
  assumes "ref_ok r"
  shows "ref_of_payload (ref_line caps r) = Some r"
proof -
  let ?h = "bytes_to_hex (oid_hash (rr_oid r))" and ?n = "rr_name r"
  let ?t = "(case caps of None \<Rightarrow> [] | Some c \<Rightarrow> 0 # c) @ [10]"
  have r: "?n \<noteq> []" "last ?n \<noteq> 10" "last ?n \<noteq> 13" "length ?n \<le> 1024" "nul_free ?n" using assms by (auto simp: ref_ok_def)
  have "chomp (ref_line caps r) = (?h @ [32] @ ?n) @ chomp ?t"
    using chomp_keeps[of "?h @ [32] @ ?n" ?t] r by (simp add: ref_line_def)
  moreover obtain t where t: "chomp ?t = t" "t = [] \<or> (\<exists>u. t = 0 # u)"
    using chomp_keeps[of "[0]" "_ @ [10]"] chomp_line[of "[]"] by (cases caps) auto
  ultimately have c: "chomp (ref_line caps r) = ?h @ 32 # ?n @ t" by simp
  have tw: "takeWhile is_hex (?h @ 32 # ?n @ t) = ?h"
    using hex_is_hex by (subst takeWhile_append2) (auto simp: is_hex_def)
  have len: "length ?h \<in> {40, 64}" using assms by (auto simp: ref_ok_def)
  have hash: "\<not> starts ''# '' (?h @ 32 # ?n @ t)"
  proof -
    obtain c0 h where h: "?h = c0 # h" using len by (cases ?h) auto
    then have "is_hex c0" using hex_is_hex[of c0 "oid_hash (rr_oid r)"] by simp
    then show ?thesis using h by (auto simp: starts_def str_def is_hex_def take_Cons')
  qed
  have "takeWhile (\<lambda>c. c \<noteq> 0) (?n @ t) = ?n"
    using r(5) t(2) by (subst takeWhile_append2) (auto simp: nul_free_def)
  then have nm: "cstr (drop (length ?h + 1) (?h @ 32 # ?n @ t)) = ?n" by (simp add: cstr_def)
  have ox: "fastgit_oid_from_hex ?h = Inr (rr_oid r)"
    using assms by (cases "rr_oid r") (auto simp: fastgit_oid_from_hex_def ref_ok_def)
  have n32: "(?h @ 32 # ?n @ t) ! length ?h = 32" by (simp add: nth_append)
  show ?thesis
    using len hash r n32
    unfolding ref_of_payload_def c Let_def tw nm
    by (auto simp: ox)
qed

section \<open>Properties\<close>

definition advertisement :: "bytes \<Rightarrow> bytes \<Rightarrow> remote_ref list \<Rightarrow> bytes" where
  "advertisement service caps refs =
     frame (str ''# service='' @ service @ [10]) @ flush @
     concat (map frame (case refs of [] \<Rightarrow> [] | r # rs \<Rightarrow> ref_line (Some caps) r # map (ref_line None) rs)) @ flush"

lemma service_line: "ref_of_payload (str ''# service='' @ service @ [10]) = None"
proof -
  have "chomp (str ''# service='' @ service @ [10]) = str ''# service='' @ chomp (service @ [10])"
    by (rule chomp_keeps) (simp_all add: str_def)
  then show ?thesis by (simp add: ref_of_payload_def starts_def Let_def str_def)
qed

lemma ref_line_fits: "ref_ok r \<Longrightarrow> length (ref_line caps r) \<le> 1091 + (case caps of None \<Rightarrow> 0 | Some c \<Rightarrow> length c)"
  by (auto simp: ref_ok_def ref_line_def split: option.split)

lemma advertisement_parsed:
  assumes "\<forall>r \<in> set refs. ref_ok r" "length service \<le> 1000" "length caps \<le> 60000"
  shows "fastgit_pktline_parse_refs (advertisement service caps refs) = refs"
proof -
  let ?ls = "case refs of [] \<Rightarrow> [] | r # rs \<Rightarrow> ref_line (Some caps) r # map (ref_line None) rs"
  have "\<forall>p \<in> set ?ls. frame_ok p"
    using assms ref_line_fits[where caps = None] ref_line_fits[where caps = "Some caps"]
    by (fastforce simp: frame_ok_def split: list.split)
  moreover have "List.map_filter ref_of_payload ?ls = refs"
  proof (cases refs)
    case (Cons r rs)
    have "\<forall>r \<in> set rs. ref_ok r \<Longrightarrow> List.map_filter ref_of_payload (map (ref_line None) rs) = rs" for rs
      by (induction rs) (simp_all add: map_filter_simps ref_of_line)
    then show ?thesis using assms(1) Cons by (simp add: map_filter_simps ref_of_line)
  qed (simp add: map_filter_simps)
  moreover have "frame_ok (str ''# service='' @ service @ [10])" using assms(2) by (simp add: frame_ok_def)
  ultimately show ?thesis
    using parse_flush[of "[]"]
    by (simp add: advertisement_def parse_frame service_line parse_flush parse_frames parse_end)
qed

text \<open>
  C20. Reading an advertisement of references: when a server frames the service line, a flush, one
  line per reference (the first with its capabilities after a 0 character) and a flush, the parser
  gives exactly these references, in order, with their names and ids, for ids of 20 and 32 bytes.
\<close>

theorem pktline_refs_roundtrip:
  assumes "\<forall>r \<in> set refs. ref_ok r" "length service \<le> 1000" "length caps \<le> 60000"
  shows "fastgit_pktline_parse_refs (advertisement service caps refs) = refs"
  by (rule advertisement_parsed[OF assms])

theorem pktline_refs_roundtrip_witness:
  "fastgit_pktline_parse_refs (advertisement (str ''git-upload-pack'') (str ''ofs-delta'')
     [\<lparr>rr_name = str ''refs/heads/main'', rr_oid = \<lparr>oid_algo = HASH_SHA256, oid_hash = replicate 32 0xAB\<rparr>\<rparr>]) =
   [\<lparr>rr_name = str ''refs/heads/main'', rr_oid = \<lparr>oid_algo = HASH_SHA256, oid_hash = replicate 32 0xAB\<rparr>\<rparr>]"
  by (rule pktline_refs_roundtrip) (simp_all add: ref_ok_def infer_algo_def str_def)

definition sideband :: "(byte \<times> bytes) list \<Rightarrow> bytes" where
  "sideband ps = concat (map (\<lambda>(c, d). frame (c # d)) ps)"

lemma extract_sideband:
  assumes "\<forall>(c, d) \<in> set ps. c \<in> {1, 2, 3} \<and> length d \<le> 65515"
  shows "extract_loop (sideband ps @ s) pack = extract_loop s (pack @ concat (map snd (filter (\<lambda>(c, d). c = 1) ps)))"
  using assms
proof (induction ps arbitrary: pack)
  case (Cons p ps)
  obtain c d where p: "p = (c, d)" by fastforce
  then have "frame_ok (c # d)" "c \<in> {1, 2, 3}" using Cons.prems by (auto simp: frame_ok_def)
  then show ?case using Cons by (auto simp: p sideband_def extract_frame packet_data_def)
qed (simp add: sideband_def)

lemma nak_frame: "frame (str ''NAK'' @ [10]) = str ''0008NAK'' @ [10]"
proof -
  have "print_base 16 8 = [56]" by (simp add: print_base_def digits.simps[of 16 8] digit_char_def)
  then show ?thesis by (simp add: frame_def hex4_def str_def numeral_3_eq_3)
qed

lemma extract_nak: "extract_loop (frame (str ''NAK'' @ [10]) @ s) pack = extract_loop s pack"
  by (simp add: extract_frame frame_ok_def packet_data_def str_def begins_def PACK_def)

lemma scan_nak: "begins PACK s \<Longrightarrow> scan_pack (str ''0008NAK'' @ 10 # s) = Some s"
  by (cases s) (simp_all add: str_def begins_def PACK_def take_Cons' split: if_splits)

lemma pack_is_no_length: "begins PACK s \<Longrightarrow> pkt_len s = None"
proof -
  assume "begins PACK s"
  then have "take 4 s = str ''PACK''" by (simp add: begins_def PACK_def numeral_eq_Suc)
  moreover have "strtoul16 (str ''PACK'') = (0, str ''PACK'')" "cstr (str ''PACK'') = str ''PACK''" by code_simp+
  ultimately show ?thesis by (simp add: pkt_len_def)
qed

lemma response_pack:
  assumes "\<forall>(c, d) \<in> set ps. c \<in> {1, 2, 3} \<and> length d \<le> 65515"
    and "pack = concat (map snd (filter (\<lambda>(c, d). c = 1) ps))" "12 \<le> length pack"
  shows "extract_pack_from_response (frame (str ''NAK'' @ [10]) @ sideband ps @ flush) = Inr pack \<and>
    (begins PACK pack \<longrightarrow> extract_pack_from_response (frame (str ''NAK'' @ [10]) @ pack) = Inr pack)"
proof -
  have nb: "\<not> begins PACK (frame (str ''NAK'' @ [10]) @ s)" for s
    unfolding nak_frame by (simp add: begins_def PACK_def str_def)
  have "extract_loop (frame (str ''NAK'' @ [10]) @ sideband ps @ flush) [] = pack"
    using extract_flush[of "[]" pack]
    by (simp add: extract_nak extract_sideband[OF assms(1)] assms(2)[symmetric] extract_end)
  moreover have "extract_loop (frame (str ''NAK'' @ [10]) @ pack) [] = []" if "begins PACK pack"
    unfolding extract_nak using pack_is_no_length[OF that] by (subst extract_loop.simps) simp
  moreover have "scan_pack (frame (str ''NAK'' @ [10]) @ pack) = Some pack" if "begins PACK pack"
    using scan_nak[OF that] by (simp add: nak_frame)
  ultimately show ?thesis using assms(3) nb by (simp add: extract_pack_from_response_def Let_def)
qed

text \<open>
  C19. The pack in the response to a fetch. When the server sends the NAK line and then the pack in
  side-band packets, cut anywhere and mixed with progress and error messages, the bytes of the first
  channel come back in order; when it sends the NAK line and then the raw pack, the pack comes back.
\<close>

theorem extract_pack_exact:
  assumes "\<forall>(c, d) \<in> set ps. c \<in> {1, 2, 3} \<and> length d \<le> 65515"
    and "pack = concat (map snd (filter (\<lambda>(c, d). c = 1) ps))" "12 \<le> length pack"
  shows "extract_pack_from_response (frame (str ''NAK'' @ [10]) @ sideband ps @ flush) = Inr pack \<and>
    (begins PACK pack \<longrightarrow> extract_pack_from_response (frame (str ''NAK'' @ [10]) @ pack) = Inr pack)"
  by (rule response_pack[OF assms])

theorem extract_pack_exact_witness:
  "extract_pack_from_response (frame (str ''NAK'' @ [10]) @
     sideband [(1, str ''PACK'' @ [0, 0, 0, 2]), (2, str ''50%''), (1, [0, 0, 0, 0])] @ flush) =
   Inr (str ''PACK'' @ [0, 0, 0, 2, 0, 0, 0, 0])"
  using extract_pack_exact[of "[(1, str ''PACK'' @ [0, 0, 0, 2]), (2, str ''50%''), (1, [0, 0, 0, 0])]"
      "str ''PACK'' @ [0, 0, 0, 2, 0, 0, 0, 0]"] by simp

text \<open>The first line of a push has neither the capabilities nor a newline.\<close>

lemma push_first_line:
  assumes "nul_free old" "nul_free new" "nul_free name" "length old + length new + length name < 4000"
  shows "push_line True old new name = old @ [32] @ new @ [32] @ name"
proof -
  let ?l = "old @ [32] @ new @ [32] @ name"
  have "take 4095 (?l @ 0 # t) = ?l @ 0 # take (4095 - length ?l - 1) t" for t
    using assms(4) by (simp add: take_Cons' add.assoc)
  moreover have "takeWhile (\<lambda>c. c \<noteq> 0) (?l @ 0 # t) = ?l" for t
    using assms(1-3) by (subst takeWhile_append2) (auto simp: nul_free_def)
  ultimately show ?thesis by (simp add: push_line_def bufn_def cstr_def)
qed

end
