(* ===== verification/Unpack.thy ===== *)
theory Unpack
  imports PackProps OdbProps
begin

unbundle bit_operations_syntax

text \<open>
  Receiving and sending packs (\<^verbatim>\<open>src/network/protocol.c\<close>): \<open>unpack_pack_to_odb\<close>, which walks a pack
  without an index, resolves its deltas and writes every object into the database, and
  \<open>pack_local_odb\<close>, which packs the loose objects of a database.

  This reader of packs is lenient where the one of \<^verbatim>\<open>packfile.c\<close> reports errors: numbers that
  the data ends in count as far as they go, and an error ends the walk with success. The copy in a
  temporary file, which nothing reads, is left out.
\<close>

section \<open>Numbers\<close>

text \<open>\<open>hlen\<close> bytes have been read, \<open>c\<close> is the last of them.\<close>

fun unpack_size :: "nat \<Rightarrow> byte \<Rightarrow> nat \<Rightarrow> u64 \<Rightarrow> bytes \<Rightarrow> (u64 \<times> nat) res" where
  "unpack_size hlen c shift psize p =
     (if c AND 0x80 = 0 then Inr (psize, hlen)
      else (case p of
          [] \<Rightarrow> Inr (psize, hlen)
        | b # r \<Rightarrow>
            if 64 \<le> shift then Inl Undefined
            else let psize' = psize OR push_bit shift (ucast (b AND 0x7F))
              in if 10 < hlen + 1 then Inr (psize', hlen + 1) else unpack_size (hlen + 1) b (shift + 7) psize' r))"

declare unpack_size.simps [simp del]

fun unpack_ofs :: "byte \<Rightarrow> u64 \<Rightarrow> nat \<Rightarrow> bytes \<Rightarrow> u64 \<times> nat" where
  "unpack_ofs c ofs olen p =
     (if c AND 0x80 = 0 then (ofs, olen)
      else (case p of
          [] \<Rightarrow> (ofs, olen)
        | b # r \<Rightarrow> unpack_ofs b (push_bit 7 (ofs + 1) OR ucast (b AND 0x7F)) (olen + 1) r))"

declare unpack_ofs.simps [simp del]

fun light_varint :: "nat \<Rightarrow> u64 \<Rightarrow> bytes \<Rightarrow> (u64 \<times> bytes) res" where
  "light_varint s v [] = Inr (v, [])"
| "light_varint s v (b # r) =
     (if 64 \<le> s then Inl Undefined
      else let v' = v OR push_bit s (ucast (b AND 0x7F))
           in if b AND 0x80 = 0 then Inr (v', r) else light_varint (s + 7) v' r)"

section \<open>Deltas\<close>

text \<open>
  What has been written when the commands end or one of them does not fit. \<open>res\<close> tells whether
  malloc gave the buffer, which is not checked. Operands are read without looking at the end.
\<close>

function light_loop :: "bool \<Rightarrow> bytes \<Rightarrow> nat \<Rightarrow> bytes \<Rightarrow> bytes \<Rightarrow> bytes res" where
  "light_loop res base dst d out =
     (case d of
        [] \<Rightarrow> Inr out
      | cmd # d1 \<Rightarrow>
          if cmd AND 0x80 \<noteq> 0 then
            if off_byte_undefined cmd d1 then Inl Undefined
            else (case read_copy cmd d1 of
               None \<Rightarrow> Inl Undefined
             | Some (off, sz, d2) \<Rightarrow>
                 if length base < unat (off + sz) \<or> dst < length out + unat sz then Inr out
                 else if \<not> res then Inl Undefined
                 else (case copy_from base off sz of
                     Inl e \<Rightarrow> Inl e
                   | Inr x \<Rightarrow> light_loop res base dst d2 (out @ x)))
          else if cmd = 0 then Inr out
          else let n = unat (cmd AND 0x7F) in
            if length d1 < n \<or> dst < length out + n then Inr out
            else if \<not> res then Inl Undefined
            else light_loop res base dst (drop n d1) (out @ take n d1))"
  by pat_completeness auto
termination
  by (relation "measure (\<lambda>(res, base, dst, d, out). length d)")
    (auto dest!: read_copy_length simp: less_Suc_eq_le)

declare light_loop.simps [simp del]

text \<open>\<open>None\<close>: the output is not complete and the object is left out.\<close>

definition light_apply :: "nat \<Rightarrow> bytes \<Rightarrow> bytes \<Rightarrow> bytes option res" where
  "light_apply mem base delta =
     bindr (light_varint 0 0 delta) (\<lambda>(src_sz, d1).
     bindr (light_varint 0 0 d1) (\<lambda>(dst_sz, d2).
     bindr (light_loop (unat dst_sz \<le> mem) base (unat dst_sz) d2 []) (\<lambda>out.
       Inr (if length out = unat dst_sz then Some out else None))))"

section \<open>The walk\<close>

text \<open>The objects so far, by the offset of their entries; the first entry of an offset counts.\<close>

type_synonym unpack_cache = "(u64 \<times> obj_type \<times> bytes) list"

text \<open>
  The input from \<open>cur\<close> on without the last 32 bytes; nearer to the end the length wraps. The uInt
  fields of z_stream keep the low 32 bits of both lengths. \<open>None\<close> when the stream does not end in
  the input or its data does not fit in the output.
\<close>

definition unpack_inflate :: "zlib \<Rightarrow> bytes \<Rightarrow> nat \<Rightarrow> nat \<Rightarrow> (bytes \<times> nat) option res" where
  "unpack_inflate z pack cur psize =
     (let fit = (\<lambda>x. case x of None \<Rightarrow> None | Some (d, n) \<Rightarrow> if psize mod 2 ^ 32 < length d then None else Some (d, n))
      in if cur + 32 \<le> length pack
         then Inr (fit (z_inflate z (take ((length pack - cur - 32) mod 2 ^ 32) (drop cur pack))))
         else (case z_inflate z (drop cur pack) of None \<Rightarrow> Inl Undefined | Some x \<Rightarrow> Inr (fit (Some x))))"

text \<open>The table of \<open>obj_count\<close> entries of 32 bytes is not checked either.\<close>

definition unpack_store :: "evp option \<Rightarrow> zlib \<Rightarrow> nat \<Rightarrow> nat \<Rightarrow> nat \<Rightarrow> obj_type \<Rightarrow> bytes \<Rightarrow>
    unpack_cache \<times> odb \<Rightarrow> (unpack_cache \<times> odb) res" where
  "unpack_store crypto z mem obj_count off t d st =
     (case st of (cache, db) \<Rightarrow>
       (case fastgit_odb_write crypto z t d db of
          (r, db') \<Rightarrow>
            if r = Inl Undefined then Inl Undefined
            else if length cache < obj_count then
              (if mem < 32 * obj_count then Inl Undefined else Inr (cache @ [(of_nat off, t, d)], db'))
            else Inr (cache, db')))"

definition unpack_type :: "nat \<Rightarrow> obj_type" where
  "unpack_type ptype =
     (if ptype = 1 then COMMIT else if ptype = 2 then TREE else if ptype = 3 then BLOB
      else if ptype = 4 then TAG else BLOB)"

text \<open>
  The base of a delta at \<open>off\<close>, whose reference starts at \<open>cur\<close>: the base if it is found and the
  position after the reference. \<open>None\<close> ends the walk.
\<close>

datatype delta_base = Base_Offset u64 | Base_Oid oid

definition unpack_base :: "bytes \<Rightarrow> nat \<Rightarrow> nat \<Rightarrow> nat \<Rightarrow> (delta_base \<times> nat) option" where
  "unpack_base pack ptype off cur =
     (if ptype = 6 then
        (if length pack \<le> cur then None
         else case unpack_ofs (pack ! cur) (ucast (pack ! cur AND 0x7F)) 1 (drop (cur + 1) pack) of
             (ofs, olen) \<Rightarrow> Some (Base_Offset (of_nat off - ofs), cur + olen))
      else if length pack < cur + 32 then None
      else Some (Base_Oid \<lparr>oid_algo = HASH_SHA256, oid_hash = take 32 (drop cur pack)\<rparr>, cur + 32))"

definition find_base :: "zlib \<Rightarrow> nat \<Rightarrow> delta_base \<Rightarrow> unpack_cache \<times> odb \<Rightarrow> (obj_type \<times> bytes) option res \<times> odb" where
  "find_base z mem b st =
     (case st of (cache, db) \<Rightarrow>
       (case b of
          Base_Offset o1 \<Rightarrow> (Inr (map_of cache o1), db)
        | Base_Oid x \<Rightarrow>
            (case fastgit_odb_read z mem x db of
               (Inr ob, db') \<Rightarrow> (Inr (Some (oo_type ob, oo_data ob)), db')
             | (Inl e, db') \<Rightarrow> (if e = Undefined then Inl Undefined else Inr (map_of cache 0), db'))))"

text \<open>
  One object; \<open>None\<close> ends the walk with the database as it is. A stream that is shorter than the
  size of the header leaves bytes of the buffer uninitialised, which the object or the delta includes.
\<close>

type_synonym unpack_state = "nat \<times> unpack_cache \<times> odb"

definition unpack_delta :: "evp option \<Rightarrow> zlib \<Rightarrow> nat \<Rightarrow> nat \<Rightarrow> bytes \<Rightarrow> nat \<Rightarrow> nat \<Rightarrow> nat \<Rightarrow>
    unpack_state \<Rightarrow> unpack_state option res" where
  "unpack_delta crypto z mem obj_count pack ptype psize cur0 s =
     (case s of (off, cache, db) \<Rightarrow>
       (case unpack_base pack ptype off cur0 of
          None \<Rightarrow> Inr None
        | Some (b, cur) \<Rightarrow>
            if mem < psize then Inr None
            else bindr (unpack_inflate z pack cur psize) (\<lambda>r.
              (case r of
                 None \<Rightarrow> Inr None
               | Some (delta, n) \<Rightarrow>
                   (case find_base z mem b (cache, db) of
                      (Inl e, db') \<Rightarrow> Inl e
                    | (Inr None, db') \<Rightarrow> Inr (Some (cur + n, cache, db'))
                    | (Inr (Some (bt, bd)), db') \<Rightarrow>
                        if length delta < psize then Inl Undefined
                        else bindr (light_apply mem bd delta) (\<lambda>o1.
                          (case o1 of
                             None \<Rightarrow> Inr (Some (cur + n, cache, db'))
                           | Some out \<Rightarrow>
                               bindr (unpack_store crypto z mem obj_count off bt out (cache, db')) (\<lambda>st.
                                 Inr (Some (cur + n, st))))))))))"

definition unpack_plain :: "evp option \<Rightarrow> zlib \<Rightarrow> nat \<Rightarrow> nat \<Rightarrow> bytes \<Rightarrow> nat \<Rightarrow> nat \<Rightarrow> nat \<Rightarrow>
    unpack_state \<Rightarrow> unpack_state option res" where
  "unpack_plain crypto z mem obj_count pack ptype psize cur s =
     (case s of (off, cache, db) \<Rightarrow>
       if mem < psize then Inr None
       else bindr (unpack_inflate z pack cur psize) (\<lambda>r.
         (case r of
            None \<Rightarrow> Inr None
          | Some (out, n) \<Rightarrow>
              if length out < psize then Inl Undefined
              else bindr (unpack_store crypto z mem obj_count off (unpack_type ptype) out (cache, db)) (\<lambda>st.
                Inr (Some (cur + n, st))))))"

definition unpack_object :: "evp option \<Rightarrow> zlib \<Rightarrow> nat \<Rightarrow> nat \<Rightarrow> bytes \<Rightarrow> unpack_state \<Rightarrow> unpack_state option res" where
  "unpack_object crypto z mem obj_count pack s =
     (let off = fst s in
      if 32 \<le> length pack \<and> length pack - 32 \<le> off then Inr None
      else if length pack \<le> off then Inr None
      else let c = pack ! off; ptype = unat (drop_bit 4 c AND 0x07) in
        bindr (unpack_size 1 c 4 (ucast (c AND 0x0F)) (drop (off + 1) pack)) (\<lambda>(psize, hlen).
          if ptype = 6 \<or> ptype = 7
          then unpack_delta crypto z mem obj_count pack ptype (unat psize) (off + hlen) s
          else unpack_plain crypto z mem obj_count pack ptype (unat psize) (off + hlen) s))"

text \<open>The first argument is how many of the objects are left.\<close>

primrec unpack_loop :: "nat \<Rightarrow> evp option \<Rightarrow> zlib \<Rightarrow> nat \<Rightarrow> nat \<Rightarrow> bytes \<Rightarrow> unpack_state \<Rightarrow> odb res" where
  "unpack_loop 0 crypto z mem obj_count pack s = Inr (snd (snd s))"
| "unpack_loop (Suc k) crypto z mem obj_count pack s =
     bindr (unpack_object crypto z mem obj_count pack s) (\<lambda>r.
       (case r of None \<Rightarrow> Inr (snd (snd s)) | Some s' \<Rightarrow> unpack_loop k crypto z mem obj_count pack s'))"

definition unpack_pack_to_odb :: "evp option \<Rightarrow> zlib \<Rightarrow> nat \<Rightarrow> bytes \<Rightarrow> odb \<Rightarrow> odb res" where
  "unpack_pack_to_odb crypto z mem pack db =
     (if length pack < 12 then Inl EINVAL
      else case get32 (drop 8 pack) of
          None \<Rightarrow> Inl EINVAL
        | Some (n, _) \<Rightarrow> unpack_loop (unat n) crypto z mem (unat n) pack (12, [], db))"

section \<open>Packing a database\<close>

text \<open>Objects that cannot be read or added are left out.\<close>

fun pack_all :: "evp option \<Rightarrow> zlib \<Rightarrow> nat \<Rightarrow> oid list \<Rightarrow> pack \<Rightarrow> odb \<Rightarrow> (pack \<times> odb) res" where
  "pack_all crypto z mem [] p db = Inr (p, db)"
| "pack_all crypto z mem (x # xs) p db =
     (case fastgit_odb_read z mem x db of
        (Inl e, db') \<Rightarrow> if e = Undefined then Inl Undefined else pack_all crypto z mem xs p db'
      | (Inr ob, db') \<Rightarrow>
          (case fastgit_pack_add_object crypto z p (oo_type ob) (oo_data ob) of
             Inl e \<Rightarrow> if e = Undefined then Inl Undefined else pack_all crypto z mem xs p db'
           | Inr (_, p') \<Rightarrow> pack_all crypto z mem xs p' db'))"

definition pack_local_odb :: "evp option \<Rightarrow> zlib \<Rightarrow> nat \<Rightarrow> odb \<Rightarrow> (bytes \<times> odb) res" where
  "pack_local_odb crypto z mem db =
     bindr (pack_all crypto z mem (fastgit_odb_iterator_new db) fastgit_pack_create db) (\<lambda>(p, db').
     bindr (fastgit_pack_close crypto p) (\<lambda>(f, idx).
       if mem < length f then Inl ENOMEM else Inr (f, db')))"

end
