(* ===== verification/UnpackProps.thy ===== *)
theory UnpackProps
  imports Unpack OdbDisk
begin

unbundle bit_operations_syntax

text \<open>
  What the receiving side does with a pack: every object of it, whole, a delta over an object that the
  database has (a thin pack) or over an earlier entry, can be read from the database afterwards.
  Packing a database and unpacking it elsewhere transfers its objects.
\<close>

section \<open>The numbers of an entry\<close>

lemma unpack_size_parse:
  "parse_size_groups i c s v p = Inr (w, r) \<Longrightarrow> unpack_size i c s v p = Inr (w, i + (length p - length r)) \<and> length r \<le> length p"
proof (induction i c s v p rule: parse_size_groups.induct)
  case (1 i c s v p)
  show ?case
  proof (cases "c AND 0x80 = 0")
    case True
    then show ?thesis
      using "1.prems" by (subst unpack_size.simps) (simp add: parse_size_groups.simps)
  next
    case False
    then obtain b q where p: "p = b # q" "\<not> 64 \<le> s" "\<not> 10 < i + 1"
      and g: "parse_size_groups (i + 1) b (s + 7) (v OR push_bit s (ucast (b AND 0x7F))) q = Inr (w, r)"
      using "1.prems" by (subst (asm) parse_size_groups.simps) (auto simp: Let_def split: list.splits if_splits)
    have "unpack_size (i + 1) b (s + 7) (v OR push_bit s (ucast (b AND 0x7F))) q = Inr (w, (i + 1) + (length q - length r)) \<and>
        length r \<le> length q"
      by (rule "1.IH"[OF False p(1) p(2) refl p(3) g])
    then show ?thesis using False p by (subst unpack_size.simps) (simp add: Let_def Suc_diff_le)
  qed
qed

lemma unpack_header:
  assumes "ptype < 8"
  obtains c h where "encode_pack_header ptype w = c # h" "unat (drop_bit 4 c AND 0x07) = ptype"
    "unpack_size 1 c 4 (ucast (c AND 0x0F)) (h @ r) = Inr (w, length (c # h))"
proof -
  obtain c h where e: "encode_pack_header ptype w = c # h" by (simp add: encode_pack_header_def Let_def)
  have "parse_size_groups 1 c 4 (ucast (c AND 0x0F)) (h @ r) = Inr (w, r)" "unat (drop_bit 4 c AND 0x07) = ptype"
    using parse_pack_header_print[OF assms, of w r] by (auto simp: e parse_pack_header_def bindr_Inr_iff)
  then show ?thesis using that[OF e] unpack_size_parse by fastforce
qed

text \<open>The offsets as senders of packs write them, most significant group first.\<close>

fun ofs_high :: "nat \<Rightarrow> bytes" where
  "ofs_high m = (if m = 0 then [] else ofs_high ((m - 1) div 128) @ [of_nat (128 + (m - 1) mod 128)])"

declare ofs_high.simps [simp del]

definition ofs_code :: "nat \<Rightarrow> bytes" where
  "ofs_code n = ofs_high (n div 128) @ [of_nat (n mod 128)]"

lemma group_byte:
  assumes "k < 128"
  shows "(of_nat (128 + k) :: byte) AND 0x80 \<noteq> 0 \<and> (of_nat k :: byte) AND 0x80 = 0 \<and>
    ucast ((of_nat (128 + k) :: byte) AND 0x7F) = (of_nat k :: u64) \<and> ucast ((of_nat k :: byte) AND 0x7F) = (of_nat k :: u64)"
proof -
  have "\<forall>k \<in> set [0..<128]. (of_nat (128 + k) :: byte) AND 0x80 \<noteq> 0 \<and> (of_nat k :: byte) AND 0x80 = 0 \<and>
    ucast ((of_nat (128 + k) :: byte) AND 0x7F) = (of_nat k :: u64) \<and> ucast ((of_nat k :: byte) AND 0x7F) = (of_nat k :: u64)"
    by code_simp
  then show ?thesis using assms by simp
qed

lemma push_or: "k < 128 \<Longrightarrow> push_bit 7 (of_nat q) OR of_nat k = (of_nat (128 * q + k) :: u64)"
proof -
  assume k: "k < 128"
  have "unat (of_nat k :: u64) = k" using k by (simp add: unat_of_nat)
  then have t: "take_bit 7 (of_nat k :: u64) = of_nat k"
    using k by (simp add: take_bit_eq_mod word_unat_eq_iff unat_mod_distrib)
  have "push_bit 7 (of_nat q) OR of_nat k = push_bit 7 (of_nat q) + (of_nat k :: u64)"
    by (rule disjunctive_add [symmetric]) (metis bit_push_bit_iff bit_take_bit_iff not_le t)
  then show ?thesis by (simp add: push_bit_eq_mult algebra_simps)
qed

lemma unpack_ofs_step:
  "c AND 0x80 \<noteq> 0 \<Longrightarrow> unpack_ofs c v l (b # s) = unpack_ofs b (push_bit 7 (v + 1) OR ucast (b AND 0x7F)) (l + 1) s"
  by (subst unpack_ofs.simps) simp

lemma unpack_ofs_high:
  "m \<noteq> 0 \<Longrightarrow> \<exists>c h c'. ofs_high m = c # h \<and> c' AND 0x80 \<noteq> 0 \<and>
     (\<forall>s. unpack_ofs c (ucast (c AND 0x7F)) 1 (h @ s) = unpack_ofs c' (of_nat (m - 1)) (length (ofs_high m)) s)"
proof (induction m rule: ofs_high.induct)
  case (1 m)
  let ?q = "(m - 1) div 128" and ?k = "(m - 1) mod 128"
  let ?c = "of_nat (128 + ?k) :: byte"
  have k: "?k < 128" by simp
  have c: "?c AND 0x80 \<noteq> 0" "ucast (?c AND 0x7F) = (of_nat ?k :: u64)" using group_byte[OF k] by blast+
  have e: "ofs_high m = ofs_high ?q @ [?c]" using "1.prems" by (subst ofs_high.simps) simp
  show ?case
  proof (cases "?q = 0")
    case True
    then have "?k = m - 1" by (simp add: div_eq_0_iff)
    moreover have "ofs_high m = [?c]" unfolding e True by (simp add: ofs_high.simps)
    ultimately show ?thesis using c by auto
  next
    case False
    obtain d h c' where ih: "ofs_high ?q = d # h" "c' AND 0x80 \<noteq> 0"
      "\<forall>s. unpack_ofs d (ucast (d AND 0x7F)) 1 (h @ s) = unpack_ofs c' (of_nat (?q - 1)) (length (ofs_high ?q)) s"
      using "1.IH"[OF "1.prems" False] by blast
    have "push_bit 7 (of_nat (?q - 1) + 1) OR ucast (?c AND 0x7F) = (of_nat (m - 1) :: u64)"
      using push_or[OF k, of ?q] False c(2) by simp
    then have "unpack_ofs d (ucast (d AND 0x7F)) 1 ((h @ [?c]) @ s) = unpack_ofs ?c (of_nat (m - 1)) (length (ofs_high m)) s" for s
      unfolding append_assoc append_Cons append_Nil ih(3)[rule_format] unpack_ofs_step[OF ih(2)] e by simp
    then show ?thesis using ih(1) c(1) e by auto
  qed
qed

lemma unpack_ofs_code:
  obtains c h where "ofs_code n = c # h"
    "\<And>s. unpack_ofs c (ucast (c AND 0x7F)) 1 (h @ s) = (of_nat n, length (ofs_code n))"
proof -
  let ?c = "of_nat (n mod 128) :: byte"
  have k: "n mod 128 < 128" by simp
  have c: "?c AND 0x80 = 0" "ucast (?c AND 0x7F) = (of_nat (n mod 128) :: u64)" using group_byte[OF k] by blast+
  show ?thesis
  proof (cases "n div 128 = 0")
    case True
    then have "ofs_code n = [?c]" "n mod 128 = n" by (simp_all add: ofs_code_def ofs_high.simps div_eq_0_iff)
    then show ?thesis using c by (intro that[of ?c "[]"]) (simp_all add: unpack_ofs.simps)
  next
    case False
    obtain d h c' where h: "ofs_high (n div 128) = d # h" "c' AND 0x80 \<noteq> 0"
      "\<forall>s. unpack_ofs d (ucast (d AND 0x7F)) 1 (h @ s) = unpack_ofs c' (of_nat (n div 128 - 1)) (length (ofs_high (n div 128))) s"
      using unpack_ofs_high[OF False] by blast
    have v: "push_bit 7 (of_nat (n div 128 - 1) + 1) OR ucast (?c AND 0x7F) = (of_nat n :: u64)"
      using push_or[OF k, of "n div 128"] False c(2) by simp
    have "unpack_ofs c' (of_nat (n div 128 - 1)) l (?c # s) = (of_nat n, l + 1)" for l s
      unfolding unpack_ofs_step[OF h(2)] v using c(1) by (simp add: unpack_ofs.simps[of ?c])
    then show ?thesis using h(1,3) by (intro that[of d "h @ [?c]"]) (simp_all add: ofs_code_def)
  qed
qed

section \<open>Deltas\<close>

interpretation light: delta_reader "light_loop True"
proof unfold_locales
  fix base out lit r :: bytes and dst off len :: nat
  show "length out = dst \<Longrightarrow> light_loop True base dst [] out = Inr out"
    by (subst light_loop.simps) simp
  show "light_loop True base dst (of_nat (length lit) # lit @ r) out = light_loop True base dst r (out @ lit)"
    if "lit \<noteq> []" "length lit \<le> 127" "length out + length lit \<le> dst"
  proof -
    have n: "0 < length lit" using that by simp
    show ?thesis
      using that lit_cmd[OF n that(2)] by (subst light_loop.simps) (simp add: Let_def)
  qed
  show "light_loop True base dst (copy_op off len @ r) out = light_loop True base dst r (out @ take len (drop off base))"
    if c: "0 < len" "len \<le> 0x10000" "off + len \<le> length base" "length base < 2 ^ 31" "length out + len \<le> dst"
  proof -
    obtain d where d: "copy_op off len = cmd_of (of_nat off) (of_nat len) # d"
      "\<not> off_byte_undefined (cmd_of (of_nat off) (of_nat len)) (d @ r)"
      "read_copy (cmd_of (of_nat off) (of_nat len)) (d @ r) = Some (of_nat off, of_nat len, r)"
      using copy_op_runs[OF c(1-4)] by blast
    show ?thesis
      unfolding d(1) append_Cons
      by (subst light_loop.simps)
        (use d(2,3) c copy_no_wrap[OF c(1-4)] copy_op_cmd in simp)
  qed
qed

lemma light_decode: "decode_varint s v p = Inr (Some (w, r)) \<Longrightarrow> light_varint s v p = Inr (w, r)"
  by (induction s v p rule: decode_varint.induct) (auto simp: Let_def split: if_splits)

lemma light_apply_compress:
  assumes "length base < 2 ^ 31" "length t \<le> mem" "mem < 2 ^ 64"
  shows "light_apply mem base (fastgit_delta_compress base t) = Inr (Some t)"
proof -
  have u: "unat (of_nat (length t) :: u64) = length t" using assms(2,3) by (simp add: unat_of_nat)
  show ?thesis
    using light.run_delta[OF assms(1), of t] assms(2) u
    by (auto simp: light_apply_def light_decode decode_encode)
qed

section \<open>Packs as other programs write them\<close>

text \<open>
  An entry is a whole object, a delta over an object that is named (with the type and the data it
  should have), or a delta over the entry with a given index.
\<close>

datatype item = Whole obj_type bytes | Ref_Delta oid obj_type bytes bytes | Ofs_Delta nat bytes

text \<open>The entries so far, with their offsets.\<close>

type_synonym placed = "(nat \<times> obj_type \<times> bytes) list"

definition item_object :: "placed \<Rightarrow> item \<Rightarrow> obj_type \<times> bytes" where
  "item_object pl it =
     (case it of Whole t d \<Rightarrow> (t, d) | Ref_Delta x t b d \<Rightarrow> (t, d) | Ofs_Delta i d \<Rightarrow> (fst (snd (pl ! i)), d))"

definition item_data :: "placed \<Rightarrow> item \<Rightarrow> bytes" where
  "item_data pl it =
     (case it of Whole t d \<Rightarrow> d | Ref_Delta x t b d \<Rightarrow> fastgit_delta_compress b d
      | Ofs_Delta i d \<Rightarrow> fastgit_delta_compress (snd (snd (pl ! i))) d)"

definition item_ref :: "nat \<Rightarrow> placed \<Rightarrow> item \<Rightarrow> bytes" where
  "item_ref off pl it =
     (case it of Whole t d \<Rightarrow> [] | Ref_Delta x t b d \<Rightarrow> oid_hash x | Ofs_Delta i d \<Rightarrow> ofs_code (off - fst (pl ! i)))"

definition item_code :: "item \<Rightarrow> nat" where
  "item_code it = (case it of Whole t d \<Rightarrow> pack_type_of t | Ref_Delta x t b d \<Rightarrow> 7 | Ofs_Delta i d \<Rightarrow> 6)"

definition item_bytes :: "zlib \<Rightarrow> nat \<Rightarrow> placed \<Rightarrow> item \<Rightarrow> bytes" where
  "item_bytes z off pl it =
     encode_pack_header (item_code it) (of_nat (length (item_data pl it))) @ item_ref off pl it @
     the (z_deflate z (item_data pl it))"

definition place :: "nat \<Rightarrow> placed \<Rightarrow> item \<Rightarrow> placed" where
  "place off pl it = pl @ [(off, item_object pl it)]"

fun layout :: "zlib \<Rightarrow> nat \<Rightarrow> placed \<Rightarrow> item list \<Rightarrow> bytes" where
  "layout z off pl [] = []"
| "layout z off pl (it # its) =
     item_bytes z off pl it @ layout z (off + length (item_bytes z off pl it)) (place off pl it) its"

fun all_placed :: "zlib \<Rightarrow> nat \<Rightarrow> placed \<Rightarrow> item list \<Rightarrow> placed" where
  "all_placed z off pl [] = pl"
| "all_placed z off pl (it # its) = all_placed z (off + length (item_bytes z off pl it)) (place off pl it) its"

text \<open>An entry makes sense: its object is of the universe, and the base of a delta is known.\<close>

definition item_ok :: "evp option \<Rightarrow> (obj_type \<times> bytes) set \<Rightarrow> (oid \<Rightarrow> obj_type \<times> bytes \<Rightarrow> bool) \<Rightarrow> placed \<Rightarrow> item \<Rightarrow> bool" where
  "item_ok crypto U known pl it \<longleftrightarrow> item_object pl it \<in> U \<and>
     (case it of
        Whole t d \<Rightarrow> True
      | Ref_Delta x t b d \<Rightarrow> sha_key x \<and> length (oid_hash x) = 32 \<and> (t, b) \<in> U \<and>
          (known x (t, b) \<or> (t, b) \<in> snd ` set pl \<and> obj_name crypto (t, b) = Inr x)
      | Ofs_Delta i d \<Rightarrow> i < length pl)"

fun items_ok :: "evp option \<Rightarrow> zlib \<Rightarrow> (obj_type \<times> bytes) set \<Rightarrow> (oid \<Rightarrow> obj_type \<times> bytes \<Rightarrow> bool) \<Rightarrow> nat \<Rightarrow> placed \<Rightarrow> item list \<Rightarrow> bool" where
  "items_ok crypto z U known off pl [] = True"
| "items_ok crypto z U known off pl (it # its) \<longleftrightarrow> item_ok crypto U known pl it \<and>
     items_ok crypto z U known (off + length (item_bytes z off pl it)) (place off pl it) its"

section \<open>One entry\<close>

abbreviation held :: "zlib \<Rightarrow> nat \<Rightarrow> odb \<Rightarrow> oid \<Rightarrow> obj_type \<times> bytes \<Rightarrow> bool" where
  "held z mem \<equiv> object_store.holds (odb_get z mem) sha_key"

abbreviation grown :: "zlib \<Rightarrow> nat \<Rightarrow> odb \<Rightarrow> odb \<Rightarrow> bool" where
  "grown z mem \<equiv> object_store.extends (odb_get z mem) sha_key"

definition cache_of :: "placed \<Rightarrow> unpack_cache" where
  "cache_of pl = map (\<lambda>(o1, p). (of_nat o1, p)) pl"

text \<open>What holds before the entry at \<open>off\<close>: the placed objects are in the database, under their names.\<close>

definition unpacked :: "evp option \<Rightarrow> zlib \<Rightarrow> nat \<Rightarrow> (obj_type \<times> bytes) set \<Rightarrow> odb \<Rightarrow> nat \<Rightarrow> placed \<Rightarrow> odb \<Rightarrow> bool" where
  "unpacked crypto z mem U db0 off pl db \<longleftrightarrow> odb_ok crypto z mem U db \<and> grown z mem db0 db \<and>
     sorted_wrt (<) (map fst pl) \<and> (\<forall>(o1, p) \<in> set pl. o1 < off \<and> p \<in> U \<and> (\<exists>x. obj_name crypto p = Inr x \<and> held z mem db x p))"

lemma unpacked_base:
  assumes "unpacked crypto z mem U db0 off pl db" "i < length pl" "off < 2 ^ 31"
  shows "map_of (cache_of pl) (of_nat (fst (pl ! i))) = Some (snd (pl ! i))" "fst (pl ! i) \<le> off" "snd (pl ! i) \<in> U"
proof -
  have s: "sorted_wrt (<) (map fst pl)" and l: "\<forall>(o1, p) \<in> set pl. o1 < off \<and> p \<in> U"
    using assms(1) by (auto simp: unpacked_def)
  show "fst (pl ! i) \<le> off" "snd (pl ! i) \<in> U" using l nth_mem[OF assms(2)] by (auto simp: case_prod_beta)
  have "distinct (map fst (cache_of pl))"
  proof -
    have "inj_on (of_nat :: nat \<Rightarrow> u64) {..<2 ^ 31}"
      by (auto intro!: inj_onI simp: word_unat_eq_iff unat_of_nat)
    moreover have "set (map fst pl) \<subseteq> {..<2 ^ 31}" using l assms(3) by fastforce
    moreover have "distinct (map fst pl)" using s by (simp add: strict_sorted_iff)
    ultimately have "distinct (map of_nat (map fst pl) :: u64 list)"
      by (simp only: distinct_map inj_on_subset)
    then show ?thesis by (simp add: cache_of_def case_prod_beta comp_def)
  qed
  moreover have "(of_nat (fst (pl ! i)), snd (pl ! i)) \<in> set (cache_of pl)"
    using nth_mem[OF assms(2)] by (force simp: cache_of_def)
  ultimately show "map_of (cache_of pl) (of_nat (fst (pl ! i))) = Some (snd (pl ! i))" by simp
qed

lemma unpack_store_ok:
  assumes "unpacked crypto z mem U db0 off pl db" "p \<in> U" "length pl < n" "32 * n \<le> mem" "off < off'"
  shows "\<exists>db'. unpack_store crypto z mem n off (fst p) (snd p) (cache_of pl, db) = Inr (cache_of (pl @ [(off, p)]), db') \<and>
    unpacked crypto z mem U db0 off' (pl @ [(off, p)]) db'"
proof -
  have ok: "odb_ok crypto z mem U db" using assms(1) by (simp add: unpacked_def)
  obtain x db' where w: "fastgit_odb_write crypto z (fst p) (snd p) db = (Inr x, db')" "obj_name crypto p = Inr x"
    using odb_write_ok[OF ok, of "fst p" "snd p"] assms(2) by auto
  then have h: "odb_ok crypto z mem U db'" "held z mem db' x p" "grown z mem db db'"
    using odbs.put_ok[OF ok assms(2)] by (auto simp: odb_put_def)
  have "unpacked crypto z mem U db0 off' (pl @ [(off, p)]) db'"
    using assms(1,2,5) w(2) h odbs.extends_trans[OF _ h(3)]
    unfolding unpacked_def odbs.extends_def by (fastforce simp: sorted_wrt_append)
  then show ?thesis using w(1) assms(3,4) by (simp add: unpack_store_def cache_of_def)
qed

lemma unpack_inflate_ok:
  assumes "zlib_ok z" "z_deflate z d = Some zd" "pack = pre @ zd @ post" "32 \<le> length post"
    and "length pack < 2 ^ 31" "length d < 2 ^ 32"
  shows "unpack_inflate z pack (length pre) (length d) = Inr (Some (d, length zd))"
proof -
  have "take ((length pack - length pre - 32) mod 2 ^ 32) (drop (length pre) pack) = zd @ take (length post - 32) post"
    using assms(3-5) by simp
  moreover have "z_inflate z (zd @ take (length post - 32) post) = Some (d, length zd)"
    using assms(1,2) unfolding zlib_ok_def by blast
  ultimately show ?thesis using assms(3,4,6) by (simp add: unpack_inflate_def)
qed

lemma encode_varint_length: "unat v < 128 ^ Suc k \<Longrightarrow> length (encode_varint v) \<le> Suc k"
proof (induction v arbitrary: k rule: encode_varint.induct)
  case (1 v)
  show ?case
  proof (cases "0x80 \<le> v")
    case True
    then have "128 \<le> unat v" by (simp add: word_le_nat_alt)
    then obtain j where k: "k = Suc j" using "1.prems" by (cases k) auto
    have "unat (drop_bit 7 v) < 128 ^ Suc j"
      using "1.prems" by (simp add: k drop_bit_eq_div unat_div_distrib less_mult_imp_div_less mult.commute)
    from "1.IH"[OF True this] True k show ?thesis by (subst encode_varint.simps) simp
  qed (subst encode_varint.simps, simp)
qed

lemma compress_length: "length (fastgit_delta_compress b t) \<le> 2 * length t + 20"
proof -
  have "length (encode_varint v) \<le> 10" for v
    using encode_varint_length[of v 9] unat_u64[of v] by simp
  from this[of "of_nat (length b)"] this[of "of_nat (length t)"] show ?thesis
    using compress_loop_size[of b "build_chains b" t 0 "[]" "encode_varint (of_nat (length b)) @ encode_varint (of_nat (length t))"]
    by (simp add: fastgit_delta_compress_def)
qed

text \<open>The objects of a universe are below 1 GiB, so that every size fits in the fields of zlib.\<close>

definition moderate :: "(obj_type \<times> bytes) set \<Rightarrow> bool" where
  "moderate U \<longleftrightarrow> (\<forall>p \<in> U. length (snd p) < 2 ^ 30)"

lemma item_data_fits:
  assumes "universe crypto mem U" "moderate U" "item_ok crypto U known pl it"
  shows "length (item_data pl it) \<le> mem" "length (item_data pl it) < 2 ^ 32"
proof -
  have p: "item_object pl it \<in> U" using assms(3) by (simp add: item_ok_def)
  then have "8 * length (snd (item_object pl it)) + 2048 \<le> mem" "length (snd (item_object pl it)) < 2 ^ 30"
    using assms(1,2) by (auto simp: universe_def storable_def moderate_def)
  moreover have "length (item_data pl it) \<le> 2 * length (snd (item_object pl it)) + 20"
    using compress_length by (cases it) (auto simp: item_data_def item_object_def)
  ultimately show "length (item_data pl it) \<le> mem" "length (item_data pl it) < 2 ^ 32" by simp_all
qed

text \<open>The header of an entry leads to its own branch.\<close>

lemma unpack_object_entry:
  assumes "pack = pre @ encode_pack_header ptype w @ post" "ptype < 8" "32 \<le> length post"
  shows "unpack_object crypto z mem n pack (length pre, s) =
    (if ptype = 6 \<or> ptype = 7 then unpack_delta crypto z mem n pack ptype (unat w) (length pre + length (encode_pack_header ptype w)) (length pre, s)
     else unpack_plain crypto z mem n pack ptype (unat w) (length pre + length (encode_pack_header ptype w)) (length pre, s))"
proof -
  obtain c h where h: "encode_pack_header ptype w = c # h" "unat (drop_bit 4 c AND 0x07) = ptype"
    "unpack_size 1 c 4 (ucast (c AND 0x0F)) (h @ post) = Inr (w, length (c # h))"
    by (rule unpack_header[OF assms(2), of w post])
  have "drop (Suc (length pre)) pack = h @ post" "pack ! length pre = c" by (simp_all add: assms(1) h(1))
  moreover have "\<not> length pack - 32 \<le> length pre" "\<not> length pack \<le> length pre" using assms(3) by (simp_all add: assms(1) h(1))
  ultimately show ?thesis using h by (simp add: unpack_object_def Let_def)
qed

lemma unpack_delta_ok:
  assumes u: "unpacked crypto z mem U db0 off pl db"
    and b: "unpack_base pack ptype off cur0 = Some (b, cur)" "length delta \<le> mem"
    and i: "unpack_inflate z pack cur (length delta) = Inr (Some (delta, m))"
    and f: "find_base z mem b (cache_of pl, db) = (Inr (Some (bt, bd)), db1)" "unpacked crypto z mem U db0 off pl db1"
    and d: "delta = fastgit_delta_compress bd out" "(bt, bd) \<in> U" "(bt, out) \<in> U" "moderate U"
    and n: "length pl < n" "32 * n \<le> mem" "off < off'" "off' = cur + m"
  shows "\<exists>db'. unpack_delta crypto z mem n pack ptype (length delta) cur0 (off, cache_of pl, db) =
      Inr (Some (off', cache_of (pl @ [(off, bt, out)]), db')) \<and> unpacked crypto z mem U db0 off' (pl @ [(off, bt, out)]) db'"
proof -
  have "storable mem (bt, out)" using u d(3) by (auto simp: unpacked_def odb_ok_def universe_def)
  then have "light_apply mem bd delta = Inr (Some out)"
    using d by (auto simp: storable_def moderate_def intro!: light_apply_compress)
  then show ?thesis
    using unpack_store_ok[OF f(2) d(3) n(1-3)] b i f(1) n(4) by (auto simp: unpack_delta_def)
qed

lemma find_offset_base:
  assumes "unpacked crypto z mem U db0 off pl db" "i < length pl" "off < 2 ^ 31"
  shows "find_base z mem (Base_Offset (of_nat off - of_nat (off - fst (pl ! i)))) (cache_of pl, db) = (Inr (Some (snd (pl ! i))), db)"
  using unpacked_base[OF assms] by (simp add: find_base_def of_nat_diff)

lemma find_named_base:
  assumes u: "unpacked crypto z mem U db0 off pl db" and x: "sha_key x"
    and k: "held z mem db0 x (t, b) \<or> (t, b) \<in> snd ` set pl \<and> obj_name crypto (t, b) = Inr x"
  shows "\<exists>db'. find_base z mem (Base_Oid x) (cache_of pl, db) = (Inr (Some (t, b)), db') \<and> unpacked crypto z mem U db0 off pl db'"
proof -
  have ok: "odb_ok crypto z mem U db" using u by (simp add: unpacked_def)
  have h: "held z mem db x (t, b)"
    using k u by (fastforce simp: unpacked_def odbs.extends_def)
  obtain db' where g: "odb_get z mem db x = (Inr (t, b), db')" "odb_ok crypto z mem U db'" "grown z mem db db'"
    by (rule odbs.get_ok[OF ok h])
  then obtain ob where "fastgit_odb_read z mem x db = (Inr ob, db')" "content ob = (t, b)"
    by (auto simp: odb_get_def bindr_Inr_iff split: prod.splits)
  moreover have "unpacked crypto z mem U db0 off pl db'"
    using u g(2,3) odbs.extends_trans[OF _ g(3)] unfolding unpacked_def odbs.extends_def by fastforce
  ultimately show ?thesis by (auto simp: find_base_def content_def)
qed

text \<open>Every entry is resolved and written.\<close>

lemma unpack_item:
  assumes u: "unpacked crypto z mem U db0 (length pre) pl db" and it: "item_ok crypto U (held z mem db0) pl it"
    and z: "zlib_ok z" "\<forall>d. z_deflate z d \<noteq> None" and U: "moderate U"
    and pack: "pack = pre @ item_bytes z (length pre) pl it @ post" "32 \<le> length post" "length pack < 2 ^ 31"
    and n: "length pl < n" "32 * n \<le> mem"
  shows "\<exists>db'. unpack_object crypto z mem n pack (length pre, cache_of pl, db) =
      Inr (Some (length pre + length (item_bytes z (length pre) pl it), cache_of (place (length pre) pl it), db')) \<and>
    unpacked crypto z mem U db0 (length pre + length (item_bytes z (length pre) pl it)) (place (length pre) pl it) db'"
proof -
  let ?off = "length pre" and ?d = "item_data pl it" and ?r = "item_ref (length pre) pl it"
  let ?h = "encode_pack_header (item_code it) (of_nat (length ?d))"
  let ?off' = "?off + length (item_bytes z ?off pl it)"
  have uU: "universe crypto mem U" using u by (simp add: unpacked_def odb_ok_def)
  have obj: "item_object pl it \<in> U" using it by (simp add: item_ok_def)
  have d: "length ?d \<le> mem" "length ?d < 2 ^ 32" using item_data_fits[OF uU U it] by simp_all
  then have w: "unat (of_nat (length ?d) :: u64) = length ?d" by (simp add: unat_of_nat)
  obtain zd where zd: "z_deflate z ?d = Some zd" using z(2) by blast
  have e: "item_bytes z ?off pl it = ?h @ ?r @ zd" by (simp add: item_bytes_def zd)
  have code: "item_code it < 8"
    using it uU by (cases it) (auto simp: item_code_def pack_type_of_def)
  have ent: "unpack_object crypto z mem n pack (?off, cache_of pl, db) =
    (if item_code it = 6 \<or> item_code it = 7
     then unpack_delta crypto z mem n pack (item_code it) (length ?d) (?off + length ?h) (?off, cache_of pl, db)
     else unpack_plain crypto z mem n pack (item_code it) (length ?d) (?off + length ?h) (?off, cache_of pl, db))"
    using unpack_object_entry[OF _ code, of pack pre "of_nat (length ?d)" "?r @ zd @ post"] pack(1,2) by (simp add: e w)
  have inf: "unpack_inflate z pack (length (pre @ ?h @ ?r)) (length ?d) = Inr (Some (?d, length zd))"
    by (rule unpack_inflate_ok[OF z(1) zd _ pack(2,3) d(2)]) (simp add: pack(1) e)
  have off: "?off < 2 ^ 31" "?off < ?off'" using pack(3) by (simp_all add: pack(1) e encode_pack_header_def Let_def)
  have cur: "drop (?off + length ?h) pack = ?r @ zd @ post" by (simp add: pack(1) e)
  show ?thesis
  proof (cases it)
    case (Whole t b)
    have "base_type t" using uU obj by (auto simp: universe_def storable_def item_object_def Whole)
    then have "unpack_type (item_code it) = t" "item_code it \<noteq> 6" "item_code it \<noteq> 7"
      by (auto simp: item_code_def Whole base_type_def pack_type_of_def unpack_type_def)
    then show ?thesis
      using unpack_store_ok[OF u obj n off(2)] ent inf d(1) arg_cong[OF e, of length]
      by (auto simp: Whole unpack_plain_def item_object_def item_data_def item_ref_def place_def)
  next
    case (Ref_Delta x t b c)
    have x: "sha_key x" "length (oid_hash x) = 32" "(t, b) \<in> U"
      "held z mem db0 x (t, b) \<or> (t, b) \<in> snd ` set pl \<and> obj_name crypto (t, b) = Inr x"
      using it by (simp_all add: item_ok_def Ref_Delta)
    obtain db1 where f: "find_base z mem (Base_Oid x) (cache_of pl, db) = (Inr (Some (t, b)), db1)"
      "unpacked crypto z mem U db0 ?off pl db1"
      using find_named_base[OF u x(1,4)] by blast
    have r: "?r = oid_hash x" by (simp add: item_ref_def Ref_Delta)
    then have "take 32 (drop (?off + length ?h) pack) = oid_hash x" using cur x(2) by simp
    moreover have "\<not> length pack < ?off + length ?h + 32" using r x(2) by (simp add: pack(1) e)
    moreover have "\<lparr>oid_algo = HASH_SHA256, oid_hash = oid_hash x\<rparr> = x" using x(1) by (cases x) (simp add: sha_key_def)
    ultimately have "unpack_base pack 7 ?off (?off + length ?h) = Some (Base_Oid x, length (pre @ ?h @ ?r))"
      using r x(2) by (simp add: unpack_base_def add.assoc)
    from unpack_delta_ok[OF u this d(1) inf f _ x(3) _ U n off(2)] obj
    show ?thesis using ent arg_cong[OF e, of length]
      by (simp add: Ref_Delta item_code_def item_data_def item_object_def place_def add.assoc)
  next
    case (Ofs_Delta i c)
    have i: "i < length pl" using it by (simp add: item_ok_def Ofs_Delta)
    obtain b bs where o1: "ofs_code (?off - fst (pl ! i)) = b # bs"
      "\<And>s. unpack_ofs b (ucast (b AND 0x7F)) 1 (bs @ s) = (of_nat (?off - fst (pl ! i)), length (b # bs))"
      by (metis unpack_ofs_code)
    obtain t bd where tb: "snd (pl ! i) = (t, bd)" by fastforce
    have "?r = b # bs" by (simp add: item_ref_def Ofs_Delta o1(1))
    moreover from this have "pack ! (?off + length ?h) = b" "drop (?off + length ?h + 1) pack = bs @ zd @ post"
      by (simp_all add: pack(1) e nth_append)
    moreover have "\<not> length pack \<le> ?off + length ?h" using pack(1,2) by (auto simp: e)
    ultimately have "unpack_base pack 6 ?off (?off + length ?h) =
        Some (Base_Offset (of_nat ?off - of_nat (?off - fst (pl ! i))), length (pre @ ?h @ ?r))"
      using o1(2)[of "zd @ post"] by (simp add: unpack_base_def add.assoc)
    from unpack_delta_ok[OF u this d(1) inf find_offset_base[OF u i off(1), unfolded tb] u _ _ _ U n off(2)]
      unpacked_base(3)[OF u i off(1)] obj tb
    show ?thesis using ent arg_cong[OF e, of length]
      by (simp add: Ofs_Delta item_code_def item_data_def item_object_def place_def add.assoc)
  qed
qed

lemma layout_length: "length its \<le> length (layout z off pl its)"
proof (induction its arbitrary: off pl)
  case (Cons it its)
  have "1 \<le> length (item_bytes z off pl it)" by (simp add: item_bytes_def encode_pack_header_def Let_def)
  from add_mono[OF this Cons[of "off + length (item_bytes z off pl it)" "place off pl it"]] show ?case by simp
qed simp

lemma unpack_items:
  assumes "unpacked crypto z mem U db0 (length pre) pl db" "items_ok crypto z U (held z mem db0) (length pre) pl its"
    and z: "zlib_ok z" "\<forall>d. z_deflate z d \<noteq> None" "moderate U"
    and "pack = pre @ layout z (length pre) pl its @ h" "length h = 32" "length pack < 2 ^ 31"
    and "length pl + length its = n" "32 * n \<le> mem"
  shows "\<exists>db' off. unpack_loop (length its) crypto z mem n pack (length pre, cache_of pl, db) = Inr db' \<and>
    unpacked crypto z mem U db0 off (all_placed z (length pre) pl its) db'"
  using assms(1,2,6-10)
proof (induction its arbitrary: pre pl db)
  case (Cons it its)
  let ?e = "item_bytes z (length pre) pl it"
  have p: "pack = pre @ ?e @ (layout z (length (pre @ ?e)) (place (length pre) pl it) its @ h)"
    using Cons.prems(3) by simp
  have k: "item_ok crypto U (held z mem db0) pl it" "32 \<le> length (layout z (length (pre @ ?e)) (place (length pre) pl it) its @ h)"
    "length pl < n" using Cons.prems by simp_all
  obtain db1 where s: "unpack_object crypto z mem n pack (length pre, cache_of pl, db) =
      Inr (Some (length (pre @ ?e), cache_of (place (length pre) pl it), db1))"
    "unpacked crypto z mem U db0 (length (pre @ ?e)) (place (length pre) pl it) db1"
    using unpack_item[OF Cons.prems(1) k(1) z(1,2,3) p k(2) Cons.prems(5) k(3) Cons.prems(7)] by auto
  have "\<exists>db' off. unpack_loop (length its) crypto z mem n pack (length (pre @ ?e), cache_of (place (length pre) pl it), db1) = Inr db' \<and>
    unpacked crypto z mem U db0 off (all_placed z (length (pre @ ?e)) (place (length pre) pl it) its) db'"
    by (rule Cons.IH[OF s(2)]) (use Cons.prems p in \<open>simp_all add: place_def\<close>)
  then show ?case using s(1) by simp
qed auto

section \<open>Packing\<close>

lemma layout_whole: "layout z off pl (map (\<lambda>(t, d). Whole t d) objs) = concat (map (entry_of z) objs)"
  by (induction objs arbitrary: off pl)
    (auto simp: item_bytes_def item_code_def item_data_def item_ref_def entry_of_def)

lemma placed_whole: "map snd (all_placed z off pl (map (\<lambda>(t, d). Whole t d) objs)) = map snd pl @ objs"
  by (induction objs arbitrary: off pl) (auto simp: place_def item_object_def)

lemma whole_ok: "\<forall>p \<in> set objs. p \<in> U \<Longrightarrow> items_ok crypto z U known off pl (map (\<lambda>(t, d). Whole t d) objs)"
  by (induction objs arbitrary: off pl) (auto simp: item_ok_def item_object_def)

lemma index_create_ok:
  assumes "sha256_ok crypto" "pk_writing q"
  shows "\<exists>idx. fastgit_pack_index_create crypto q = Inr idx"
proof -
  have "fastgit_hash crypto HASH_SHA256 m \<noteq> Inl e" for m e
    using assms(1) unfolding sha256_ok_def by (metis sum.distinct(1))
  then show ?thesis using assms(2) by (auto simp: fastgit_pack_index_create_def Let_def split: sum.split)
qed

lemma close_file:
  assumes "sha256_ok crypto" "wrote crypto z objs p"
  shows "\<exists>h idx. fastgit_pack_close crypto p =
    Inr (PACK_MAGIC @ be32 2 @ be32 (of_nat (length objs)) @ concat (map (entry_of z) objs) @ h, idx) \<and> length h = 32"
proof -
  let ?f = "PACK_MAGIC @ be32 2 @ be32 (of_nat (length objs)) @ concat (map (entry_of z) objs)"
  have f: "memcpy_at 8 (be32 (pk_object_count p)) (pk_file p) = ?f"
    using assms(2) by (simp add: wrote_def memcpy_at_def PACK_MAGIC_def)
  have H: "\<exists>h. fastgit_hash crypto HASH_SHA256 m = Inr \<lparr>h_digest = h, h_algo = HASH_SHA256\<rparr> \<and> length h = 32" for m
    using assms(1) unfolding sha256_ok_def by blast
  obtain h where h: "fastgit_hash crypto HASH_SHA256 ?f = Inr \<lparr>h_digest = h, h_algo = HASH_SHA256\<rparr>" "length h = 32"
    using H by blast
  have "pk_writing (p\<lparr>pk_file := ?f @ h\<rparr>)" using assms(2) by (simp add: wrote_def)
  from index_create_ok[OF assms(1) this] obtain idx where "fastgit_pack_index_create crypto (p\<lparr>pk_file := ?f @ h\<rparr>) = Inr idx"
    by blast
  then show ?thesis using h unfolding fastgit_pack_close_def Let_def f by simp
qed

lemma pack_add_ok:
  assumes "sha256_ok crypto" "wrote crypto z objs p" "z_deflate z d \<noteq> None"
  shows "\<exists>x p'. fastgit_pack_add_object crypto z p t d = Inr (x, p') \<and> wrote crypto z (objs @ [(t, d)]) p'"
proof -
  obtain h where "oid_of_object crypto t d = Inr \<lparr>oid_algo = HASH_SHA256, oid_hash = h\<rparr>"
    using oid_of_object_ok[OF assms(1)] by blast
  moreover have "pk_writing p" using assms(2) by (simp add: wrote_def)
  ultimately obtain x p' where "fastgit_pack_add_object crypto z p t d = Inr (x, p')"
    using assms(3) by (auto simp: fastgit_pack_add_object_def Let_def)
  then show ?thesis using wrote_add[OF assms(2)] by blast
qed

text \<open>The objects that the database gives for the ids are packed.\<close>

lemma pack_all_ok:
  assumes z: "\<forall>d. z_deflate z d \<noteq> None"
  shows "odb_ok crypto z mem U db \<Longrightarrow> \<forall>x \<in> set xs. sha_key x \<Longrightarrow> wrote crypto z objs p \<Longrightarrow>
    \<exists>p' db' objs'. pack_all crypto z mem xs p db = Inr (p', db') \<and> wrote crypto z (objs @ objs') p' \<and>
      set objs' \<subseteq> U \<and> length objs' \<le> length xs \<and>
      (\<forall>x \<in> set xs. \<forall>v. held z mem db x v \<longrightarrow> v \<in> set objs' \<and> named crypto U x v)"
proof (induction xs arbitrary: db p objs)
  case (Cons x xs)
  have c: "sha256_ok crypto" and x: "sha_key x" using Cons.prems by (simp_all add: odb_ok_def)
  obtain r db1 where r: "fastgit_odb_read z mem x db = (r, db1)" by fastforce
  have g: "odb_get z mem db x = (bindr r (\<lambda>ob. Inr (content ob)), db1)" by (simp add: odb_get_def r)
  have ok1: "odb_ok crypto z mem U db1" "grown z mem db db1"
    using odbs.get_keeps[OF Cons.prems(1) x g] unfolding odbs.extends_def odbs.holds_def by auto
  show ?case
  proof (cases r)
    case (Inl e)
    have "e \<noteq> Undefined" using odb_read_defined[OF Cons.prems(1) x r] Inl by simp
    moreover have "\<not> held z mem db x v" for v using g Inl by (simp add: odbs.holds_def)
    moreover obtain p' db' objs' where i: "pack_all crypto z mem xs p db1 = Inr (p', db')" "wrote crypto z (objs @ objs') p'"
      "set objs' \<subseteq> U" "length objs' \<le> length xs" "\<forall>x \<in> set xs. \<forall>v. held z mem db1 x v \<longrightarrow> v \<in> set objs' \<and> named crypto U x v"
      using Cons.IH[OF ok1(1) _ Cons.prems(3)] Cons.prems(2) by auto
    ultimately show ?thesis
      using r Inl ok1(2) unfolding odbs.extends_def by (intro exI[of _ p'] exI[of _ db'] exI[of _ objs']) auto
  next
    case (Inr ob)
    have n: "named crypto U x (content ob)"
      using odb_get_ok[OF Cons.prems(1) x g] Inr by simp
    obtain y p1 where a: "fastgit_pack_add_object crypto z p (oo_type ob) (oo_data ob) = Inr (y, p1)"
      "wrote crypto z (objs @ [content ob]) p1"
      using pack_add_ok[OF c Cons.prems(3) z[rule_format], of "oo_type ob" "oo_data ob"] by (auto simp: content_def)
    obtain p' db' objs' where i: "pack_all crypto z mem xs p1 db1 = Inr (p', db')" "wrote crypto z ((objs @ [content ob]) @ objs') p'"
      "set objs' \<subseteq> U" "length objs' \<le> length xs" "\<forall>x \<in> set xs. \<forall>v. held z mem db1 x v \<longrightarrow> v \<in> set objs' \<and> named crypto U x v"
      using Cons.IH[OF ok1(1) _ a(2)] Cons.prems(2) by auto
    have "held z mem db x v \<Longrightarrow> v = content ob" for v using g Inr by (simp add: odbs.holds_def)
    then have "\<forall>w \<in> set (x # xs). \<forall>v. held z mem db w v \<longrightarrow> v \<in> set (content ob # objs') \<and> named crypto U w v"
      using i(5) n ok1(2) unfolding odbs.extends_def by auto
    moreover have "set (content ob # objs') \<subseteq> U" using i(3) n by (simp add: named_def)
    ultimately show ?thesis
      using i(1,2,4) r Inr a(1) by (intro exI[of _ p'] exI[of _ db'] exI[of _ "content ob # objs'"]) simp
  qed
qed auto

text \<open>The file that a database is packed into.\<close>

lemma pack_local_file:
  assumes "odb_ok crypto z mem U db" "\<forall>x \<in> set (fastgit_odb_iterator_new db). sha_key x" "\<forall>d. z_deflate z d \<noteq> None"
  shows "\<exists>objs h db'. pack_local_odb crypto z mem db =
      (let f = PACK_MAGIC @ be32 2 @ be32 (of_nat (length objs)) @ concat (map (entry_of z) objs) @ h
       in if mem < length f then Inl ENOMEM else Inr (f, db')) \<and> length h = 32 \<and>
    set objs \<subseteq> U \<and> length objs \<le> length (fastgit_odb_iterator_new db) \<and>
    (\<forall>x \<in> set (fastgit_odb_iterator_new db). \<forall>v. held z mem db x v \<longrightarrow> v \<in> set objs \<and> named crypto U x v)"
proof -
  have c: "sha256_ok crypto" using assms(1) by (simp add: odb_ok_def)
  obtain p db' objs where p: "pack_all crypto z mem (fastgit_odb_iterator_new db) fastgit_pack_create db = Inr (p, db')"
    "wrote crypto z objs p" "set objs \<subseteq> U" "length objs \<le> length (fastgit_odb_iterator_new db)"
    "\<forall>x \<in> set (fastgit_odb_iterator_new db). \<forall>v. held z mem db x v \<longrightarrow> v \<in> set objs \<and> named crypto U x v"
    using pack_all_ok[OF assms(3,1,2) wrote_create] by auto
  obtain h idx where "fastgit_pack_close crypto p =
      Inr (PACK_MAGIC @ be32 2 @ be32 (of_nat (length objs)) @ concat (map (entry_of z) objs) @ h, idx)" "length h = 32"
    using close_file[OF c p(2)] by blast
  then show ?thesis
    using p by (intro exI[of _ objs] exI[of _ h] exI[of _ db']) (simp add: pack_local_odb_def Let_def)
qed

section \<open>Properties\<close>

definition pack_of :: "zlib \<Rightarrow> item list \<Rightarrow> bytes \<Rightarrow> bytes" where
  "pack_of z its h = PACK_MAGIC @ be32 2 @ be32 (of_nat (length its)) @ layout z 12 [] its @ h"

lemma unpack_pack:
  assumes "odb_ok crypto z mem U db" "zlib_ok z" "\<forall>d. z_deflate z d \<noteq> None" "moderate U"
    and "items_ok crypto z U (held z mem db) 12 [] its" "length h = 32" "length (pack_of z its h) < 2 ^ 31"
    and "32 * length its \<le> mem"
  shows "\<exists>db'. unpack_pack_to_odb crypto z mem (pack_of z its h) db = Inr db' \<and> odb_ok crypto z mem U db' \<and>
    grown z mem db db' \<and>
    (\<forall>p \<in> set (map snd (all_placed z 12 [] its)). \<exists>x. obj_name crypto p = Inr x \<and> held z mem db' x p)"
proof -
  let ?pre = "PACK_MAGIC @ be32 2 @ be32 (of_nat (length its))" and ?pack = "pack_of z its h"
  have l: "length ?pre = 12" by (simp add: PACK_MAGIC_def)
  have "length its < 2 ^ 31" using layout_length[of its z 12 "[]"] assms(7) by (simp add: pack_of_def)
  then have n: "unat (of_nat (length its) :: u32) = length its" by (simp add: unat_of_nat)
  have g: "get32 (drop 8 ?pack) = Some (of_nat (length its), layout z 12 [] its @ h)" "\<not> length ?pack < 12"
    by (simp_all add: pack_of_def PACK_MAGIC_def)
  have "unpacked crypto z mem U db (length ?pre) [] db"
    using assms(1) odbs.extends_refl by (simp add: unpacked_def)
  from unpack_items[OF this _ assms(2-4) _ assms(6,7), where its = its and n = "length its"]
  obtain db' off where r: "unpack_loop (length its) crypto z mem (length its) ?pack (length ?pre, cache_of [], db) = Inr db'"
    "unpacked crypto z mem U db off (all_placed z (length ?pre) [] its) db'"
    using assms(5,8) unfolding l by (auto simp: pack_of_def)
  have "unpack_pack_to_odb crypto z mem ?pack db = Inr db'"
    using r(1) g n unfolding l by (simp add: unpack_pack_to_odb_def cache_of_def)
  then show ?thesis using r(2) unfolding l unpacked_def by fastforce
qed

text \<open>
  C15. Receiving a pack. For a pack of whole objects, deltas over objects that the database has or
  the pack has before (REF_DELTA, also in thin packs) and deltas over earlier entries (OFS_DELTA),
  written with the delta compressor and zlib, unpacking into a database in order succeeds; the
  database stays in order and keeps what it had, and every object of the pack is read from it under
  its name. The bounds keep every length within the 32-bit fields of zlib.
\<close>

theorem unpack_stores_objects:
  assumes "odb_ok crypto z mem U db" "zlib_ok z" "\<forall>d. z_deflate z d \<noteq> None" "moderate U"
    and "items_ok crypto z U (\<lambda>x p. sha_key x \<and> fst (odb_get z mem db x) = Inr p) 12 [] its"
    and "length h = 32" "length (pack_of z its h) < 2 ^ 31" "32 * length its \<le> mem"
  shows "\<exists>db'. unpack_pack_to_odb crypto z mem (pack_of z its h) db = Inr db' \<and> odb_ok crypto z mem U db' \<and>
    (\<forall>x p. sha_key x \<and> fst (odb_get z mem db x) = Inr p \<longrightarrow> fst (odb_get z mem db' x) = Inr p) \<and>
    (\<forall>p \<in> set (map snd (all_placed z 12 [] its)). \<exists>x. obj_name crypto p = Inr x \<and> fst (odb_get z mem db' x) = Inr p)"
proof -
  have "held z mem db = (\<lambda>x p. sha_key x \<and> fst (odb_get z mem db x) = Inr p)" by (intro ext) (rule odbs.holds_def)
  then show ?thesis
    using unpack_pack[OF assms(1-4) _ assms(6-8)] assms(5) unfolding odbs.extends_def odbs.holds_def by fastforce
qed

text \<open>A base and two versions of it.\<close>

definition toy_blob :: "nat \<Rightarrow> bytes" where
  "toy_blob n = map of_nat [1..<n]"

abbreviation blob_universe :: "(obj_type \<times> bytes) set" where
  "blob_universe \<equiv> {(BLOB, toy_blob 7), (BLOB, toy_blob 8), (BLOB, toy_blob 9)}"

definition toy_items :: "item list" where
  "toy_items = [Whole BLOB (toy_blob 7), Ref_Delta (toy_oid 13) BLOB (toy_blob 7) (toy_blob 8), Ofs_Delta 0 (toy_blob 9)]"

lemma blob_storable: "p \<in> blob_universe \<Longrightarrow> storable 10000 p"
  by (auto simp: storable_def base_type_def toy_blob_def)

lemma blob_text_length: "map (\<lambda>n. length (obj_text BLOB (toy_blob n))) [7, 8, 9] = [13, 14, 15]"
  by code_simp

lemma blob_names:
  "obj_name (Some toy_hash) (BLOB, toy_blob 7) = Inr (toy_oid 13)"
  "obj_name (Some toy_hash) (BLOB, toy_blob 8) = Inr (toy_oid 14)"
  "obj_name (Some toy_hash) (BLOB, toy_blob 9) = Inr (toy_oid 15)"
  using blob_text_length by (simp_all add: toy_name[OF blob_storable])

lemma blob_universe_ok: "universe (Some toy_hash) 10000 blob_universe"
  using blob_storable blob_names by (auto simp: universe_def inj_on_def)

lemma stuff_plain_ok: "zlib_ok stuff_zlib"
  using unstuff_stuff by (simp add: zlib_ok_def stuff_zlib_def)

lemma blob_db_ok: "odb_ok (Some toy_hash) stuff_zlib 10000 blob_universe (fastgit_odb_open empty_disk)"
  by (rule empty_ok[OF toy_params stuff_zlib_ok blob_universe_ok])

lemma size_groups_length: "unat w < 128 ^ k \<Longrightarrow> length (size_groups w) \<le> k"
proof (induction w arbitrary: k rule: size_groups.induct)
  case (1 w)
  show ?case
  proof (cases "w = 0")
    case False
    then obtain j where k: "k = Suc j" using "1.prems" by (cases k) (auto simp: unat_eq_0)
    have "unat (drop_bit 7 w) < 128 ^ j"
      using "1.prems" by (simp add: k drop_bit_eq_div unat_div_distrib less_mult_imp_div_less mult.commute)
    from "1.IH"[OF False refl refl this] False k show ?thesis by (subst size_groups.simps) (simp add: Let_def)
  qed (simp add: size_groups.simps)
qed

lemma item_bytes_length:
  "length (item_bytes z off pl it) \<le> 11 + length (item_ref off pl it) + length (the (z_deflate z (item_data pl it)))"
proof -
  have "length (size_groups w) \<le> 10" for w
    using size_groups_length[of w 10] unat_u64[of w] by simp
  then show ?thesis by (simp add: item_bytes_def encode_pack_header_def Let_def)
qed

lemma ofs_code_length: "length (ofs_code n) \<le> n + 1"
proof -
  have "length (ofs_high m) \<le> m" for m
  proof (induction m rule: ofs_high.induct)
    case (1 m)
    show ?case
    proof (cases "m = 0")
      case False
      have "(m - 1) div 128 \<le> m - 1" by (rule div_le_dividend)
      then show ?thesis using 1[OF False] False by (subst ofs_high.simps) simp
    qed (simp add: ofs_high.simps)
  qed
  from this[of "n div 128"] show ?thesis using div_le_dividend[of n 128] by (simp add: ofs_code_def)
qed

lemma toy_pack_length: "length (pack_of stuff_zlib toy_items (replicate 32 0)) < 2 ^ 31"
proof -
  let ?a = "Whole BLOB (toy_blob 7)" and ?b = "Ref_Delta (toy_oid 13) BLOB (toy_blob 7) (toy_blob 8)" and ?c = "Ofs_Delta 0 (toy_blob 9)"
  let ?la = "length (item_bytes stuff_zlib 12 [] ?a)"
  let ?pa = "place 12 [] ?a"
  let ?lb = "length (item_bytes stuff_zlib (12 + ?la) ?pa ?b)"
  let ?pb = "place (12 + ?la) ?pa ?b"
  have s: "length (the (z_deflate stuff_zlib d)) = 2 * length d + 1" for d by (simp add: stuff_zlib_def length_stuff)
  have "?la \<le> 100" using item_bytes_length[of stuff_zlib 12 "[]" ?a]
    unfolding s by (simp add: item_ref_def item_data_def toy_blob_def)
  moreover have "?lb \<le> 200" using item_bytes_length[of stuff_zlib "12 + ?la" ?pa ?b] compress_length[of "toy_blob 7" "toy_blob 8"]
    unfolding s by (simp add: item_ref_def item_data_def toy_blob_def)
  moreover have "length (item_bytes stuff_zlib (12 + ?la + ?lb) ?pb ?c) \<le> 200 + ?la + ?lb"
    using item_bytes_length[of stuff_zlib "12 + ?la + ?lb" ?pb ?c] compress_length[of "toy_blob 7" "toy_blob 9"]
      ofs_code_length[of "?la + ?lb"]
    unfolding s by (simp add: item_ref_def item_data_def toy_blob_def place_def item_object_def)
  ultimately show ?thesis by (simp add: pack_of_def toy_items_def PACK_MAGIC_def)
qed

theorem unpack_stores_objects_witness:
  "\<exists>db. unpack_pack_to_odb (Some toy_hash) stuff_zlib 10000 (pack_of stuff_zlib toy_items (replicate 32 0))
       (fastgit_odb_open empty_disk) = Inr db \<and>
     fst (odb_get stuff_zlib 10000 db (toy_oid 15)) = Inr (BLOB, toy_blob 9)"
proof -
  have U: "moderate blob_universe" by (simp add: moderate_def toy_blob_def)
  have its: "items_ok (Some toy_hash) stuff_zlib blob_universe known 12 [] toy_items" for known
    by (simp add: toy_items_def item_ok_def item_object_def place_def blob_names sha_key_def)
  have "(BLOB, toy_blob 9) \<in> set (map snd (all_placed stuff_zlib 12 [] toy_items))"
    by (simp add: toy_items_def place_def item_object_def)
  moreover have "\<forall>d. z_deflate stuff_zlib d \<noteq> None" by (simp add: stuff_zlib_def)
  moreover have "length toy_items = 3" by (simp add: toy_items_def)
  ultimately obtain db where db: "unpack_pack_to_odb (Some toy_hash) stuff_zlib 10000 (pack_of stuff_zlib toy_items (replicate 32 0))
       (fastgit_odb_open empty_disk) = Inr db"
    "\<exists>x. obj_name (Some toy_hash) (BLOB, toy_blob 9) = Inr x \<and> fst (odb_get stuff_zlib 10000 db x) = Inr (BLOB, toy_blob 9)"
    using unpack_stores_objects[OF blob_db_ok stuff_plain_ok _ U its _ toy_pack_length] by auto
  then show ?thesis using blob_names(3) by auto
qed

lemma pack_moved:
  assumes "odb_ok crypto z mem U src" "odb_ok crypto z mem U dst" "zlib_ok z" "\<forall>d. z_deflate z d \<noteq> None" "moderate U"
    and "\<forall>x \<in> set (fastgit_odb_iterator_new src). sha_key x" "32 * length (fastgit_odb_iterator_new src) \<le> mem"
  shows "pack_local_odb crypto z mem src = Inl ENOMEM \<or>
    (\<exists>f src'. pack_local_odb crypto z mem src = Inr (f, src') \<and>
      (length f < 2 ^ 31 \<longrightarrow> (\<exists>dst'. unpack_pack_to_odb crypto z mem f dst = Inr dst' \<and> odb_ok crypto z mem U dst' \<and>
        (\<forall>x p. sha_key x \<and> fst (odb_get z mem dst x) = Inr p \<longrightarrow> fst (odb_get z mem dst' x) = Inr p) \<and>
        (\<forall>x \<in> set (fastgit_odb_iterator_new src). \<forall>p.
           fst (odb_get z mem src x) = Inr p \<longrightarrow> fst (odb_get z mem dst' x) = Inr p))))"
proof (cases "pack_local_odb crypto z mem src = Inl ENOMEM")
  case False
  obtain objs h src' where f: "pack_local_odb crypto z mem src =
      Inr (PACK_MAGIC @ be32 2 @ be32 (of_nat (length objs)) @ concat (map (entry_of z) objs) @ h, src')"
    "length h = 32" "set objs \<subseteq> U" "length objs \<le> length (fastgit_odb_iterator_new src)"
    "\<forall>x \<in> set (fastgit_odb_iterator_new src). \<forall>v. held z mem src x v \<longrightarrow> v \<in> set objs \<and> named crypto U x v"
    using pack_local_file[OF assms(1,6,4)] False by (auto simp: Let_def split: if_splits)
  let ?its = "map (\<lambda>(t, d). Whole t d) objs"
  have e: "PACK_MAGIC @ be32 2 @ be32 (of_nat (length objs)) @ concat (map (entry_of z) objs) @ h = pack_of z ?its h"
    by (simp add: pack_of_def layout_whole)
  have ok: "items_ok crypto z U (held z mem dst) 12 [] ?its" using f(3) by (intro whole_ok) auto
  have "\<exists>dst'. unpack_pack_to_odb crypto z mem (pack_of z ?its h) dst = Inr dst' \<and> odb_ok crypto z mem U dst' \<and>
      grown z mem dst dst' \<and> (\<forall>x \<in> set (fastgit_odb_iterator_new src). \<forall>p. held z mem src x p \<longrightarrow> held z mem dst' x p)"
    if l: "length (pack_of z ?its h) < 2 ^ 31"
  proof -
    obtain dst' where d: "unpack_pack_to_odb crypto z mem (pack_of z ?its h) dst = Inr dst'" "odb_ok crypto z mem U dst'"
      "grown z mem dst dst'" "\<forall>p \<in> set objs. \<exists>x. obj_name crypto p = Inr x \<and> held z mem dst' x p"
      using unpack_pack[OF assms(2-5) ok f(2) l] f(4) assms(7) by (auto simp: placed_whole)
    then show ?thesis using f(5) by (fastforce simp: named_def)
  qed
  then show ?thesis
    using f(1) assms(6) unfolding e odbs.extends_def odbs.holds_def by fastforce
qed simp


text \<open>A database with one blob.\<close>

lemma blob_source:
  "\<exists>db. odb_ok (Some toy_hash) stuff_zlib 10000 blob_universe db \<and> fastgit_odb_iterator_new db = [toy_oid 13] \<and>
     fst (odb_get stuff_zlib 10000 db (toy_oid 13)) = Inr (BLOB, toy_blob 7)"
proof -
  obtain x zd db where w: "fastgit_odb_write (Some toy_hash) stuff_zlib BLOB (toy_blob 7) (fastgit_odb_open empty_disk) = (Inr x, db)"
    "odb_ok (Some toy_hash) stuff_zlib 10000 blob_universe db" "x = toy_oid 13"
    "oc_disk (odb_head db) = empty_disk\<lparr>d_loose := [(odb_object_path x, zd)]\<rparr>"
    using first_write[OF toy_params stuff_zlib_ok blob_universe_ok, of BLOB "toy_blob 7"] blob_names(1) by auto
  have "is_oid_name (odb_object_path (toy_oid 13)) = Some (toy_oid 13)"
    by (rule path_names) (simp_all add: sha_key_def)
  then have "fastgit_odb_iterator_new db = [toy_oid 13]"
    by (simp add: fastgit_odb_iterator_new_def w(3,4) empty_disk_def map_filter_simps)
  moreover have "fst (odb_get stuff_zlib 10000 db (toy_oid 13)) = Inr (BLOB, toy_blob 7)"
    using odbs.put_ok[OF blob_db_ok, of "(BLOB, toy_blob 7)"] w(1,3) by (auto simp: odb_put_def odbs.holds_def)
  ultimately show ?thesis using w(2) by blast
qed

lemma blob_packed:
  assumes src: "odb_ok (Some toy_hash) stuff_zlib 10000 blob_universe src" "fastgit_odb_iterator_new src = [toy_oid 13]"
  shows "\<exists>f src'. pack_local_odb (Some toy_hash) stuff_zlib 10000 src = Inr (f, src') \<and> length f < 200"
proof -
  have k: "\<forall>x \<in> set (fastgit_odb_iterator_new src). sha_key x" by (simp add: src(2) sha_key_def)
  have zd: "\<forall>d. z_deflate stuff_zlib d \<noteq> None" by (simp add: stuff_zlib_def)
  obtain objs h src' where f: "pack_local_odb (Some toy_hash) stuff_zlib 10000 src =
      (let f = PACK_MAGIC @ be32 2 @ be32 (of_nat (length objs)) @ concat (map (entry_of stuff_zlib) objs) @ h
       in if 10000 < length f then Inl ENOMEM else Inr (f, src'))" "length h = 32" "set objs \<subseteq> blob_universe" "length objs \<le> 1"
    using pack_local_file[OF src(1) k zd] src(2) by auto
  have "length (entry_of stuff_zlib p) \<le> 100" if "p \<in> blob_universe" for p
  proof -
    have "length (encode_pack_header c w) \<le> 11" for c w
      using size_groups_length[of "drop_bit 4 w" 10] unat_u64[of "drop_bit 4 w"] by (simp add: encode_pack_header_def Let_def)
    from this[of "pack_type_of (fst p)" "of_nat (length (snd p))"] that show ?thesis
      by (auto simp: entry_of_def stuff_zlib_def length_stuff toy_blob_def)
  qed
  then have "length (concat (map (entry_of stuff_zlib) objs)) \<le> 100"
    using f(3,4) by (cases objs) auto
  then show ?thesis using f(1,2) by (auto simp: Let_def PACK_MAGIC_def)
qed


end
