(* ===== verification/Remote.thy ===== *)
theory Remote
  imports Complex_Main PktLine
begin

unbundle bit_operations_syntax

text \<open>
  Remotes (\<^verbatim>\<open>src/network/protocol.c\<close>): the settings of a remote, its lookup in the configuration, the
  kinds of URL, and what guards its operations: retries with backoff and a budget, a circuit breaker,
  and load shedding.

  The clock is an argument (\<open>now\<close>, in milliseconds), and so is what rand gives, scaled to 0..1.
  A double is taken as the real number it stands for.
\<close>

section \<open>State\<close>

datatype pqc_algo = ML_DSA_44 | ML_DSA_65 | ML_DSA_87 | SLH_DSA_SHA2_128F | SLH_DSA_SHA2_128S | SLH_DSA_SHA2_192F
  | SLH_DSA_SHA2_256F | FALCON_512 | FALCON_1024

record pqc_config =
  pqc_primary :: pqc_algo
  pqc_secondary :: pqc_algo
  pqc_hybrid :: bool

record retry_policy =
  ry_max_retries :: u32
  ry_base_ms :: u32
  ry_max_ms :: u32
  ry_jitter_ratio :: real
  ry_budget_per_min :: u32

record circuit_breaker =
  cb_failure_threshold :: u32
  cb_success_threshold :: u32
  cb_open_ms :: u64
  cb_half_open_ms :: u64

record load_shed =
  ls_max_concurrent :: u32
  ls_queue_depth :: u32
  ls_shed_threshold_pct :: u32

record remote =
  rm_name :: bytes
  rm_url :: bytes
  rm_pqc_config :: pqc_config
  rm_retry :: retry_policy
  rm_cb :: circuit_breaker
  rm_ls :: load_shed
  rm_filter :: "filter_spec list"
  rm_budget_remaining :: u32
  rm_budget_reset_ms :: u64
  rm_cb_open_until_ms :: u64
  rm_cb_failures :: u32
  rm_cb_successes :: u32
  rm_ls_inflight :: u32
  rm_ls_queued :: u32

definition or_default :: "'a::len word \<Rightarrow> 'a word \<Rightarrow> 'a word" where
  "or_default x d = (if x \<noteq> 0 then x else d)"

section \<open>Retries\<close>

text \<open>Casting a double to uint64_t is undefined where the value does not fit.\<close>

definition fastgit_remote_backoff_ms :: "real \<Rightarrow> remote \<Rightarrow> u32 \<Rightarrow> u64 res" where
  "fastgit_remote_backoff_ms rnd r attempt =
     (let base = or_default (ucast (ry_base_ms (rm_retry r))) 100;
          cap = or_default (ucast (ry_max_ms (rm_retry r))) 30000;
          e = base * push_bit (if attempt < 10 then unat attempt else 10) 1;
          e = (if cap < e then cap else e);
          jitter = ry_jitter_ratio (rm_retry r)
      in if 0 < jitter then
           (let factor = 1 + jitter * (rnd * 2 - 1);
                factor = (if factor < 1 / 10 then 1 / 10 else factor);
                v = real (unat e) * factor
            in if 2 ^ 64 \<le> v then Inl Undefined
               else let e = of_nat (nat \<lfloor>v\<rfloor>) in Inr (if cap < e then cap else e))
         else Inr e)"

definition fastgit_remote_budget_consume :: "u64 \<Rightarrow> remote \<Rightarrow> bool \<times> remote" where
  "fastgit_remote_budget_consume now r =
     (if ry_budget_per_min (rm_retry r) = 0 then (True, r)
      else let r = (if rm_budget_reset_ms r \<le> now
               then r\<lparr>rm_budget_remaining := ry_budget_per_min (rm_retry r), rm_budget_reset_ms := now + 60000\<rparr> else r)
        in if rm_budget_remaining r = 0 then (False, r)
           else (True, r\<lparr>rm_budget_remaining := rm_budget_remaining r - 1\<rparr>))"

definition fastgit_error_is_retryable :: "fg_error \<Rightarrow> bool" where
  "fastgit_error_is_retryable err \<longleftrightarrow> err = EAGAIN \<or> err = EBUSY \<or> err = EIO"

section \<open>The circuit breaker\<close>

definition fastgit_remote_circuit_allow :: "u64 \<Rightarrow> remote \<Rightarrow> bool" where
  "fastgit_remote_circuit_allow now r \<longleftrightarrow> rm_cb_open_until_ms r = 0 \<or> \<not> now < rm_cb_open_until_ms r"

definition fastgit_remote_circuit_on_success :: "u64 \<Rightarrow> remote \<Rightarrow> remote" where
  "fastgit_remote_circuit_on_success now r =
     (if rm_cb_open_until_ms r \<noteq> 0 \<and> rm_cb_open_until_ms r \<le> now then
        let r = r\<lparr>rm_cb_successes := rm_cb_successes r + 1\<rparr>
        in if or_default (cb_success_threshold (rm_cb r)) 1 \<le> rm_cb_successes r
           then r\<lparr>rm_cb_open_until_ms := 0, rm_cb_failures := 0, rm_cb_successes := 0\<rparr> else r
      else if rm_cb_open_until_ms r = 0 then r\<lparr>rm_cb_failures := 0\<rparr>
      else r)"

definition open_circuit :: "u64 \<Rightarrow> remote \<Rightarrow> remote" where
  "open_circuit now r =
     r\<lparr>rm_cb_open_until_ms := now + or_default (cb_open_ms (rm_cb r)) 30000, rm_cb_successes := 0\<rparr>"

definition fastgit_remote_circuit_on_failure :: "u64 \<Rightarrow> remote \<Rightarrow> remote" where
  "fastgit_remote_circuit_on_failure now r =
     (if rm_cb_open_until_ms r \<noteq> 0 \<and> now < rm_cb_open_until_ms r then r
      else if rm_cb_open_until_ms r \<noteq> 0 \<and> rm_cb_open_until_ms r \<le> now then open_circuit now r
      else let r = r\<lparr>rm_cb_failures := rm_cb_failures r + 1\<rparr>
        in if or_default (cb_failure_threshold (rm_cb r)) 5 \<le> rm_cb_failures r then open_circuit now r else r)"

section \<open>Load shedding\<close>

definition fastgit_remote_load_acquire :: "remote \<Rightarrow> bool \<times> remote" where
  "fastgit_remote_load_acquire r =
     (let maxc = or_default (ls_max_concurrent (rm_ls r)) 64;
          qd = or_default (ls_queue_depth (rm_ls r)) 256;
          total = rm_ls_inflight r + rm_ls_queued r;
          shed_pct = or_default (ls_shed_threshold_pct (rm_ls r)) 90;
          shed_at = (maxc + qd) * shed_pct div 100
      in if shed_at \<le> total then (False, r)
         else if rm_ls_inflight r < maxc then (True, r\<lparr>rm_ls_inflight := rm_ls_inflight r + 1\<rparr>)
         else if rm_ls_queued r < qd then (True, r\<lparr>rm_ls_queued := rm_ls_queued r + 1\<rparr>)
         else (False, r))"

definition fastgit_remote_load_release :: "bool \<Rightarrow> remote \<Rightarrow> remote" where
  "fastgit_remote_load_release was_queued r =
     (if was_queued then (if rm_ls_queued r \<noteq> 0 then r\<lparr>rm_ls_queued := rm_ls_queued r - 1\<rparr> else r)
      else let r = (if rm_ls_inflight r \<noteq> 0 then r\<lparr>rm_ls_inflight := rm_ls_inflight r - 1\<rparr> else r)
        in if rm_ls_queued r \<noteq> 0
           then r\<lparr>rm_ls_queued := rm_ls_queued r - 1, rm_ls_inflight := rm_ls_inflight r + 1\<rparr> else r)"

text \<open>How the callers tell whether they were queued.\<close>

definition acquire_slot :: "remote \<Rightarrow> (bool \<times> remote) option" where
  "acquire_slot r =
     (case fastgit_remote_load_acquire r of
        (False, _) \<Rightarrow> None
      | (True, r') \<Rightarrow> Some (rm_ls_queued r' \<noteq> 0, r'))"

section \<open>Creating and configuring\<close>

definition fastgit_remote_create :: "u64 \<Rightarrow> bytes \<Rightarrow> bytes \<Rightarrow> remote" where
  "fastgit_remote_create now name url =
     \<lparr>rm_name = name, rm_url = url,
      rm_pqc_config = \<lparr>pqc_primary = ML_DSA_65, pqc_secondary = SLH_DSA_SHA2_128F, pqc_hybrid = True\<rparr>,
      rm_retry = \<lparr>ry_max_retries = 3, ry_base_ms = 100, ry_max_ms = 30000, ry_jitter_ratio = 1 / 5, ry_budget_per_min = 20\<rparr>,
      rm_cb = \<lparr>cb_failure_threshold = 5, cb_success_threshold = 2, cb_open_ms = 30000, cb_half_open_ms = 5000\<rparr>,
      rm_ls = \<lparr>ls_max_concurrent = 64, ls_queue_depth = 256, ls_shed_threshold_pct = 90\<rparr>,
      rm_filter = [], rm_budget_remaining = 20, rm_budget_reset_ms = now + 60000,
      rm_cb_open_until_ms = 0, rm_cb_failures = 0, rm_cb_successes = 0, rm_ls_inflight = 0, rm_ls_queued = 0\<rparr>"

text \<open>Lines of the configuration: blanks in front are skipped, the key and the value are trimmed.\<close>

definition blank :: "byte \<Rightarrow> bool" where
  "blank c \<longleftrightarrow> c = 32 \<or> c = 9"

definition trim_end :: "(byte \<Rightarrow> bool) \<Rightarrow> bytes \<Rightarrow> bytes" where
  "trim_end P s = (case s of [] \<Rightarrow> [] | c # r \<Rightarrow> c # rev (dropWhile P (rev r)))"

definition config_pair :: "bytes \<Rightarrow> (bytes \<times> bytes) option" where
  "config_pair p =
     (case split_at 61 p of
        None \<Rightarrow> None
      | Some (k, v) \<Rightarrow>
          Some (trim_end blank k, trim_end (\<lambda>c. c = 10 \<or> c = 13 \<or> blank c) (dropWhile blank v)))"

text \<open>The first \<^verbatim>\<open>url\<close> of a section whose line starts as wanted; \<open>in_section\<close> is a state of the loop.\<close>

fun config_url :: "bytes \<Rightarrow> bool \<Rightarrow> bytes list \<Rightarrow> bytes" where
  "config_url want_sec in_section [] = []"
| "config_url want_sec in_section (line # ls) =
     (let p = dropWhile blank line in
      if p \<noteq> [] \<and> hd p = 91 then config_url want_sec (take (length want_sec) p = want_sec) ls
      else if in_section then
        (case config_pair p of
           None \<Rightarrow> config_url want_sec in_section ls
         | Some (k, v) \<Rightarrow> if k = str ''url'' then bufn 4096 v else config_url want_sec in_section ls)
      else config_url want_sec in_section ls)"

definition fastgit_remote_lookup :: "u64 \<Rightarrow> repo \<Rightarrow> bytes \<Rightarrow> remote res" where
  "fastgit_remote_lookup now rp name =
     (case map_of (rp_files rp) (bufn 4096 (rp_gitdir rp @ str ''/config'')) of
        None \<Rightarrow> Inl ENOENT
      | Some f \<Rightarrow>
          let want_sec = bufn 256 (str ''[remote '' @ [34] @ name @ [34] @ str '']'');
              url = config_url want_sec False (fgets_lines 4096 f)
          in if url = [] then Inl ENOENT else Inr (fastgit_remote_create now name url))"

definition fastgit_remote_set_pqc_config :: "pqc_config \<Rightarrow> remote \<Rightarrow> remote" where
  "fastgit_remote_set_pqc_config config r = r\<lparr>rm_pqc_config := config\<rparr>"

definition fastgit_remote_set_retry_policy :: "u64 \<Rightarrow> retry_policy \<Rightarrow> remote \<Rightarrow> remote" where
  "fastgit_remote_set_retry_policy now policy r =
     r\<lparr>rm_retry := policy, rm_budget_remaining := ry_budget_per_min policy, rm_budget_reset_ms := now + 60000\<rparr>"

definition fastgit_remote_set_circuit_breaker :: "circuit_breaker \<Rightarrow> remote \<Rightarrow> remote" where
  "fastgit_remote_set_circuit_breaker cb r =
     r\<lparr>rm_cb := cb, rm_cb_open_until_ms := 0, rm_cb_failures := 0, rm_cb_successes := 0\<rparr>"

definition fastgit_remote_set_load_shed :: "load_shed \<Rightarrow> remote \<Rightarrow> remote" where
  "fastgit_remote_set_load_shed ls r = r\<lparr>rm_ls := ls\<rparr>"

definition fastgit_remote_set_filter :: "filter_spec list \<Rightarrow> remote \<Rightarrow> remote" where
  "fastgit_remote_set_filter fs r = r\<lparr>rm_filter := fs\<rparr>"

definition fastgit_filter_list_append :: "filter_spec list \<Rightarrow> filter_spec \<Rightarrow> filter_spec list" where
  "fastgit_filter_list_append list spec = list @ [spec]"

section \<open>URLs\<close>

definition is_http_url :: "bytes \<Rightarrow> bool" where
  "is_http_url url \<longleftrightarrow> starts ''http://'' url \<or> starts ''https://'' url"

definition is_ssh_url :: "bytes \<Rightarrow> bool" where
  "is_ssh_url url \<longleftrightarrow>
     \<not> is_http_url url \<and>
     (starts ''ssh://'' url \<or>
      \<not> (url \<noteq> [] \<and> (hd url = 47 \<or> hd url = 46)) \<and> \<not> starts ''file://'' url \<and>
      (case (split_at 58 url, split_at 47 url) of
         (Some (a, _), Some (b, _)) \<Rightarrow> length a < length b
       | (Some _, None) \<Rightarrow> True
       | (None, _) \<Rightarrow> False))"

definition is_file_url :: "bytes \<Rightarrow> bool" where
  "is_file_url url \<longleftrightarrow> starts ''file://'' url \<or> url \<noteq> [] \<and> hd url = 47"

definition file_path_from_url :: "bytes \<Rightarrow> bytes" where
  "file_path_from_url url = (if starts ''file://'' url then drop 7 url else url)"

end
