(* ===== verification/Http.thy ===== *)
theory Http
  imports Remote
begin

unbundle bit_operations_syntax

text \<open>
  The HTTP transport (\<^verbatim>\<open>src/network/smart_http.c\<close>) and the retries of its first request
  (\<^verbatim>\<open>do_http_info_refs_with_retry\<close> of \<^verbatim>\<open>protocol.c\<close>), as compiled with libcurl.

  libcurl, the clock, rand, sleeping and the callback for credentials are parameters, the fields of
  \<open>env\<close>, over an unknown state of the outside world: \<open>ev_perform\<close> is \<open>curl_easy_perform\<close> for the
  options set before it. Its reply has the header lines and the pieces of the body that it hands to
  the callbacks and the response code; \<open>rs_ok\<close> tells whether it returned CURLE_OK.
\<close>

section \<open>The outside world\<close>

record http_request =
  rq_url :: bytes
  rq_headers :: "bytes list"
  rq_body :: "bytes option"

record http_reply =
  rs_ok :: bool
  rs_headers :: "bytes list"
  rs_chunks :: "bytes list"
  rs_code :: int

datatype cred_type = CRED_USERPASS_PLAINTEXT | CRED_SSH_KEY | CRED_SSH_MEMORY | CRED_DEFAULT | CRED_SSH_INTERACTIVE
  | CRED_USERNAME | CRED_SSH_AGENT | CRED_TOKEN | CRED_PQC

record cred_data =
  cr_type :: cred_type
  cr_password :: "bytes option"
  cr_private_key :: "bytes option"
  cr_passphrase :: "bytes option"
  cr_token :: "bytes option"

record 'w env =
  ev_perform :: "http_request \<Rightarrow> 'w \<Rightarrow> http_reply \<times> 'w"
  ev_now :: "'w \<Rightarrow> u64 \<times> 'w"
  ev_sleep :: "u64 \<Rightarrow> 'w \<Rightarrow> 'w"
  ev_rand :: "'w \<Rightarrow> real \<times> 'w"
  ev_acquire :: "('w \<Rightarrow> cred_data option res \<times> 'w) option"

section \<open>The transport\<close>

record http =
  ht_url :: bytes
  ht_headers :: "bytes list"
  ht_token :: "bytes option"
  ht_token_expiry_ms :: u64
  ht_retry_after_ms :: u64
  ht_code :: int
  ht_response :: bytes

definition upload_headers :: "bytes list" where
  "upload_headers =
     [str ''Content-Type: application/x-git-upload-pack-request'', str ''Accept: application/x-git-upload-pack-result'']"

definition receive_headers :: "bytes list" where
  "receive_headers =
     [str ''Content-Type: application/x-git-receive-pack-request'', str ''Accept: application/x-git-receive-pack-result'']"

definition fastgit_http_transport_new :: "remote \<Rightarrow> http" where
  "fastgit_http_transport_new r =
     \<lparr>ht_url = rm_url r, ht_headers = upload_headers, ht_token = None, ht_token_expiry_ms = 0,
      ht_retry_after_ms = 0, ht_code = 0, ht_response = []\<rparr>"

text \<open>strtol in base 10, with its limits; the rest of the input comes back.\<close>

definition strtol10 :: "bytes \<Rightarrow> int \<times> bytes" where
  "strtol10 s =
     (let s1 = dropWhile isspace s;
          neg = (s1 \<noteq> [] \<and> hd s1 = 45);
          s2 = (if s1 \<noteq> [] \<and> (hd s1 = 45 \<or> hd s1 = 43) then tl s1 else s1);
          (v, r) = read_digits 10 0 s2
      in if r = s2 then (0, s)
         else (if neg then max (- (2 ^ 63)) (- int v) else min (2 ^ 63 - 1) (int v), r))"

definition parse_retry_after_ms :: "bytes \<Rightarrow> u64" where
  "parse_retry_after_ms val =
     (let v = dropWhile isspace val in
      if v = [] then 0
      else case strtol10 v of (secs, e) \<Rightarrow>
        if e \<noteq> v \<and> dropWhile isspace e = [] \<and> 0 \<le> secs then of_int secs * 1000 else 0)"

definition to_lower :: "byte \<Rightarrow> byte" where
  "to_lower c = (if 65 \<le> c \<and> c \<le> 90 then c + 32 else c)"

definition write_cb :: "http \<Rightarrow> bytes \<Rightarrow> http" where
  "write_cb t chunk = t\<lparr>ht_response := ht_response t @ chunk\<rparr>"

definition header_cb :: "http \<Rightarrow> bytes \<Rightarrow> http" where
  "header_cb t line =
     (let hdr = str ''Retry-After:''; hlen = length hdr in
      if hlen < length line \<and> map to_lower (take hlen line) = map to_lower hdr
      then t\<lparr>ht_retry_after_ms := parse_retry_after_ms (cstr (take 255 (chomp (drop hlen line))))\<rparr>
      else t)"

definition http_reset_buffers :: "http \<Rightarrow> http" where
  "http_reset_buffers t = t\<lparr>ht_response := [], ht_retry_after_ms := 0, ht_code := 0\<rparr>"

text \<open>One request: the callbacks run on what arrives.\<close>

definition http_perform :: "'w env \<Rightarrow> http_request \<Rightarrow> http \<Rightarrow> 'w \<Rightarrow> bool \<times> http \<times> 'w" where
  "http_perform env rq t w =
     (case ev_perform env rq w of
        (rs, w') \<Rightarrow>
          let t' = foldl write_cb (foldl header_cb (http_reset_buffers t) (rs_headers rs)) (rs_chunks rs)
          in (rs_ok rs, if rs_ok rs then t'\<lparr>ht_code := rs_code rs\<rparr> else t', w'))"

definition info_result :: "int \<Rightarrow> unit res" where
  "info_result code =
     (if code = 429 \<or> code = 503 then Inl EAGAIN
      else if code = 401 \<or> code = 403 then Inl EBUSY
      else if 500 \<le> code then Inl EAGAIN
      else if 400 \<le> code then Inl ERROR
      else if code < 200 \<or> 300 \<le> code then Inl ERROR
      else Inr ())"

definition fastgit_http_get_info_refs :: "'w env \<Rightarrow> bytes \<Rightarrow> http \<Rightarrow> 'w \<Rightarrow> unit res \<times> http \<times> 'w" where
  "fastgit_http_get_info_refs env service t w =
     (case http_perform env \<lparr>rq_url = bufn 4096 (ht_url t @ str ''/info/refs?service='' @ service),
             rq_headers = ht_headers t, rq_body = None\<rparr> t w of
        (ok, t', w') \<Rightarrow> (if ok then info_result (ht_code t') else Inl EIO, t', w'))"

definition post_result :: "int \<Rightarrow> unit res" where
  "post_result code =
     (if code = 429 \<or> code = 503 then Inl EAGAIN
      else if 500 \<le> code then Inl EAGAIN
      else if 400 \<le> code then Inl ERROR
      else Inr ())"

text \<open>A post has headers of its own, without the one that carries the token.\<close>

definition http_post :: "'w env \<Rightarrow> bytes \<Rightarrow> bytes list \<Rightarrow> bytes \<Rightarrow> http \<Rightarrow> 'w \<Rightarrow> unit res \<times> http \<times> 'w" where
  "http_post env service hdrs body t w =
     (case http_perform env \<lparr>rq_url = bufn 4096 (ht_url t @ [47] @ service), rq_headers = hdrs, rq_body = Some body\<rparr> t w of
        (ok, t', w') \<Rightarrow> (if ok then post_result (ht_code t') else Inl EIO, t', w'))"

definition fastgit_http_post_upload_pack :: "'w env \<Rightarrow> bytes \<Rightarrow> http \<Rightarrow> 'w \<Rightarrow> unit res \<times> http \<times> 'w" where
  "fastgit_http_post_upload_pack env body t w = http_post env (str ''git-upload-pack'') upload_headers body t w"

definition fastgit_http_post_receive_pack :: "'w env \<Rightarrow> bytes \<Rightarrow> http \<Rightarrow> 'w \<Rightarrow> unit res \<times> http \<times> 'w" where
  "fastgit_http_post_receive_pack env body t w = http_post env (str ''git-receive-pack'') receive_headers body t w"

section \<open>Tokens\<close>

definition fastgit_http_has_valid_token :: "'w env \<Rightarrow> http \<Rightarrow> 'w \<Rightarrow> bool \<times> 'w" where
  "fastgit_http_has_valid_token env t w =
     (if ht_token t = None then (False, w)
      else if ht_token_expiry_ms t = 0 then (True, w)
      else case ev_now env w of (now, w') \<Rightarrow> (now + 30000 < ht_token_expiry_ms t, w'))"

definition fastgit_http_set_token :: "bytes \<Rightarrow> u64 \<Rightarrow> http \<Rightarrow> http" where
  "fastgit_http_set_token token expiry_ms t =
     t\<lparr>ht_token := Some token, ht_token_expiry_ms := expiry_ms,
       ht_headers := upload_headers @ [bufn 8192 (str ''Authorization: Bearer '' @ token)]\<rparr>"

definition try_acquire_http_token :: "'w env \<Rightarrow> http \<Rightarrow> 'w \<Rightarrow> http \<times> 'w" where
  "try_acquire_http_token env t w =
     (case fastgit_http_has_valid_token env t w of
        (True, w1) \<Rightarrow> (t, w1)
      | (False, w1) \<Rightarrow>
          (case ev_acquire env of
             None \<Rightarrow> (t, w1)
           | Some acquire \<Rightarrow>
               (case acquire w1 of
                  (Inr (Some cred), w2) \<Rightarrow>
                    (case (cr_type cred, cr_token cred) of
                       (CRED_TOKEN, Some token) \<Rightarrow>
                         (case ev_now env w2 of (now, w3) \<Rightarrow> (fastgit_http_set_token token (now + 3600000) t, w3))
                     | _ \<Rightarrow> (t, w2))
                | (_, w2) \<Rightarrow> (t, w2))))"

section \<open>Retries\<close>

text \<open>rand is called only for jitter.\<close>

definition next_backoff :: "'w env \<Rightarrow> remote \<Rightarrow> u32 \<Rightarrow> 'w \<Rightarrow> u64 res \<times> 'w" where
  "next_backoff env r attempt w =
     (if 0 < ry_jitter_ratio (rm_retry r)
      then (case ev_rand env w of (rnd, w') \<Rightarrow> (fastgit_remote_backoff_ms rnd r attempt, w'))
      else (fastgit_remote_backoff_ms 0 r attempt, w))"

definition fastgit_remote_sleep_ms :: "'w env \<Rightarrow> u64 \<Rightarrow> 'w \<Rightarrow> 'w" where
  "fastgit_remote_sleep_ms env ms w = (if ms = 0 then w else ev_sleep env ms w)"

text \<open>\<open>err\<close> after a failed attempt: to give up with it, or to wait (\<open>Inr\<close>).\<close>

definition await_retry :: "'w env \<Rightarrow> u64 \<Rightarrow> fg_error \<Rightarrow> u32 \<Rightarrow> remote \<Rightarrow> 'w \<Rightarrow> unit res \<times> remote \<times> 'w" where
  "await_retry env retry_after err attempt r w =
     (case ev_now env w of
        (now, w1) \<Rightarrow>
          (case fastgit_remote_budget_consume now r of
             (False, r1) \<Rightarrow> (Inl err, r1, w1)
           | (True, r1) \<Rightarrow>
               if retry_after \<noteq> 0 then (Inr (), r1, fastgit_remote_sleep_ms env retry_after w1)
               else (case next_backoff env r1 attempt w1 of
                   (Inl e, w2) \<Rightarrow> (Inl e, r1, w2)
                 | (Inr ms, w2) \<Rightarrow> (Inr (), r1, fastgit_remote_sleep_ms env ms w2))))"

text \<open>One attempt.\<close>

definition http_attempt :: "'w env \<Rightarrow> http \<Rightarrow> 'w \<Rightarrow> unit res \<times> http \<times> 'w" where
  "http_attempt env t w =
     (case try_acquire_http_token env t w of
        (t1, w1) \<Rightarrow> fastgit_http_get_info_refs env (str ''git-upload-pack'') t1 w1)"

lemma next_attempt: "\<not> m < a \<Longrightarrow> a \<noteq> m \<Longrightarrow> unat m - unat (a + 1) < unat m - unat (a :: u32)"
proof -
  assume a: "\<not> m < a" "a \<noteq> m"
  then have "unat a < unat m" by (metis not_less_iff_gr_or_eq word_less_nat_alt)
  moreover from this have "unat (a + 1) = Suc (unat a)" using unat_u32[of m] by (simp add: unat_word_ariths)
  ultimately show ?thesis by simp
qed

function info_refs_loop :: "'w env \<Rightarrow> u32 \<Rightarrow> u32 \<Rightarrow> remote \<Rightarrow> http \<Rightarrow> 'w \<Rightarrow> unit res \<times> remote \<times> http \<times> 'w" where
  "info_refs_loop env max_retries attempt r t w =
     (if max_retries < attempt then (Inl EAGAIN, r, t, w)
      else case http_attempt env t w of
        (Inr u, t1, w1) \<Rightarrow> (Inr u, r, t1, w1)
      | (Inl err, t1, w1) \<Rightarrow>
          if \<not> fastgit_error_is_retryable err \<or> attempt = max_retries then (Inl err, r, t1, w1)
          else (case await_retry env (ht_retry_after_ms t1) err attempt r w1 of
              (Inl e, r2, w2) \<Rightarrow> (Inl e, r2, t1, w2)
            | (Inr _, r2, w2) \<Rightarrow> info_refs_loop env max_retries (attempt + 1) r2 t1 w2))"
  by pat_completeness auto
termination
  by (relation "measure (\<lambda>(env, max_retries, attempt, _). unat max_retries - unat attempt)") (auto simp: next_attempt)

declare info_refs_loop.simps [simp del]

definition do_http_info_refs_with_retry :: "'w env \<Rightarrow> remote \<Rightarrow> http \<Rightarrow> 'w \<Rightarrow> unit res \<times> remote \<times> http \<times> 'w" where
  "do_http_info_refs_with_retry env r t w = info_refs_loop env (ry_max_retries (rm_retry r)) 0 r t w"

text \<open>
  After a failed operation the callers wait again, once for every retry that the policy has, but do
  not retry. \<open>last\<close> is the error.
\<close>

function wait_loop :: "'w env \<Rightarrow> u32 \<Rightarrow> u32 \<Rightarrow> remote \<Rightarrow> 'w \<Rightarrow> unit res \<times> remote \<times> 'w" where
  "wait_loop env max_retries attempt r w =
     (if max_retries \<le> attempt then (Inr (), r, w)
      else case ev_now env w of
        (now, w1) \<Rightarrow>
          (case fastgit_remote_budget_consume now r of
             (False, r1) \<Rightarrow> (Inr (), r1, w1)
           | (True, r1) \<Rightarrow>
               (case next_backoff env r1 attempt w1 of
                  (Inl e, w2) \<Rightarrow> (Inl e, r1, w2)
                | (Inr ms, w2) \<Rightarrow> wait_loop env max_retries (attempt + 1) r1 (fastgit_remote_sleep_ms env ms w2))))"
  by pat_completeness auto
termination
  by (relation "measure (\<lambda>(env, max_retries, attempt, _). unat max_retries - unat attempt)") (auto simp: next_attempt)

declare wait_loop.simps [simp del]

end
