(* ===== verification/RemoteProps.thy ===== *)
theory RemoteProps
  imports Remote
begin

unbundle bit_operations_syntax

text \<open>
  What guards the operations of a remote: when the circuit breaker trips and recovers, for any history
  of results; the limits of load shedding under any interleaving of acquiring and releasing, and the
  slot that it loses; the bounds of the backoff.
\<close>

lemma or_default_pos: "d \<noteq> 0 \<Longrightarrow> 0 < unat (or_default x d)"
  by (simp add: or_default_def unat_gt_0)

section \<open>The circuit breaker\<close>

text \<open>Results of operations, with the time they are reported at.\<close>

definition report :: "remote \<Rightarrow> u64 \<times> bool \<Rightarrow> remote" where
  "report r e = (if snd e then fastgit_remote_circuit_on_success (fst e) r else fastgit_remote_circuit_on_failure (fst e) r)"

definition trip_limit :: "remote \<Rightarrow> nat" where
  "trip_limit r = unat (or_default (cb_failure_threshold (rm_cb r)) 5)"

definition open_time :: "remote \<Rightarrow> u64" where
  "open_time r = or_default (cb_open_ms (rm_cb r)) 30000"

definition recovery_limit :: "remote \<Rightarrow> nat" where
  "recovery_limit r = unat (or_default (cb_success_threshold (rm_cb r)) 1)"

text \<open>How many failures in a row a history ends with.\<close>

definition failures_at_end :: "(u64 \<times> bool) list \<Rightarrow> nat" where
  "failures_at_end es = length (takeWhile (\<lambda>e. \<not> snd e) (rev es))"

lemma failures_at_end_simps [simp]:
  "failures_at_end [] = 0"
  "failures_at_end (es @ [e]) = (if snd e then 0 else Suc (failures_at_end es))"
  by (simp_all add: failures_at_end_def)

lemma report_cb [simp]: "rm_cb (report r e) = rm_cb r"
  by (simp add: report_def fastgit_remote_circuit_on_success_def fastgit_remote_circuit_on_failure_def
      open_circuit_def Let_def)

lemma limits_report [simp]:
  "trip_limit (report r e) = trip_limit r" "open_time (report r e) = open_time r" "recovery_limit (report r e) = recovery_limit r"
  by (simp_all add: trip_limit_def open_time_def recovery_limit_def)

lemma limits_history [simp]:
  "trip_limit (foldl report r es) = trip_limit r" "open_time (foldl report r es) = open_time r"
  "recovery_limit (foldl report r es) = recovery_limit r"
  by (induction es arbitrary: r) simp_all

lemma trip_limit_pos: "0 < trip_limit r" and recovery_limit_pos: "0 < recovery_limit r"
  by (simp_all add: trip_limit_def recovery_limit_def or_default_pos)

lemma report_closed_failure:
  assumes "rm_cb_open_until_ms r = 0" "unat (rm_cb_failures r) < trip_limit r"
  shows "report r (t, False) =
    (if Suc (unat (rm_cb_failures r)) < trip_limit r then r\<lparr>rm_cb_failures := rm_cb_failures r + 1\<rparr>
     else open_circuit t (r\<lparr>rm_cb_failures := rm_cb_failures r + 1\<rparr>))"
proof -
  have "unat (or_default (cb_failure_threshold (rm_cb r)) 5) < 2 ^ 32" using unat_u32 by simp
  then have "unat (rm_cb_failures r + 1) = Suc (unat (rm_cb_failures r))"
    using assms(2) by (simp add: trip_limit_def unat_word_ariths)
  then show ?thesis
    using assms by (auto simp: report_def fastgit_remote_circuit_on_failure_def Let_def trip_limit_def word_le_nat_alt)
qed

text \<open>As long as no run of failures is long enough the circuit is closed and counts the current run.\<close>

lemma history_closed:
  assumes "rm_cb_open_until_ms r = 0" "rm_cb_failures r = 0" "\<forall>n \<le> length es. failures_at_end (take n es) < trip_limit r"
  shows "rm_cb_open_until_ms (foldl report r es) = 0 \<and> unat (rm_cb_failures (foldl report r es)) = failures_at_end es"
  using assms(3)
proof (induction es rule: rev_induct)
  case (snoc e es)
  have "\<forall>n \<le> length es. failures_at_end (take n es) < trip_limit r"
    using snoc.prems by (metis (no_types) le_SucI length_append_singleton take_append append_Nil2 take_0 diff_is_0_eq')
  note IH = snoc.IH[OF this]
  let ?r = "foldl report r es"
  show ?case
  proof (cases "snd e")
    case True
    then show ?thesis using IH by (simp add: report_def fastgit_remote_circuit_on_success_def)
  next
    case False
    then obtain t where e: "e = (t, False)" by (cases e) auto
    have "Suc (failures_at_end es) < trip_limit r" using spec[OF snoc.prems, of "Suc (length es)"] by (simp add: e)
    moreover have "unat (rm_cb_failures ?r + 1) = Suc (failures_at_end es)"
      using IH calculation unat_u32[of "or_default (cb_failure_threshold (rm_cb r)) 5"]
      by (simp add: trip_limit_def unat_word_ariths)
    ultimately show ?thesis using IH report_closed_failure[of ?r t] by (simp add: e)
  qed
qed (use assms in simp)

text \<open>
  C18. The circuit breaker trips on failures in a row, and on nothing else. From a closed circuit, for
  every history of results that has no run of \<open>failure_threshold\<close> failures before its last result:
  all requests are allowed afterwards exactly when the history does not end with such a run; when it
  does, requests are refused until \<open>open_ms\<close> after the last failure and allowed from then on.
\<close>

theorem circuit_trips:
  assumes "rm_cb_open_until_ms r = 0" "rm_cb_failures r = 0"
    and "\<forall>n < length es. failures_at_end (take n es) < trip_limit r"
    and "\<forall>e \<in> set es. unat (fst e) + unat (open_time r) < 2 ^ 64"
  shows "((\<forall>now. fastgit_remote_circuit_allow now (foldl report r es)) \<longleftrightarrow> failures_at_end es < trip_limit r) \<and>
    (trip_limit r \<le> failures_at_end es \<longrightarrow>
      (\<forall>now. fastgit_remote_circuit_allow now (foldl report r es) \<longleftrightarrow> fst (last es) + open_time r \<le> now))"
proof (cases "failures_at_end es < trip_limit r")
  case True
  then have "\<forall>n \<le> length es. failures_at_end (take n es) < trip_limit r" using assms(3) by (auto simp: le_less)
  from history_closed[OF assms(1,2) this] show ?thesis using True by (simp add: fastgit_remote_circuit_allow_def)
next
  case False
  then have "es \<noteq> []" using trip_limit_pos[of r] by auto
  then obtain fs e where es: "es = fs @ [e]" by (cases es rule: rev_cases) auto
  have lt: "\<forall>n \<le> length fs. failures_at_end (take n fs) < trip_limit r"
  proof (intro allI impI)
    fix n assume n: "n \<le> length fs"
    then show "failures_at_end (take n fs) < trip_limit r" using assms(3)[rule_format, of n] by (simp add: es)
  qed
  note c = history_closed[OF assms(1,2) lt]
  have fl: "failures_at_end fs < trip_limit r" using lt by auto
  then have "\<not> snd e" using False trip_limit_pos[of r] by (auto simp: es split: if_splits)
  then obtain t where e: "e = (t, False)" by (cases e) auto
  have "foldl report r es = open_circuit t ((foldl report r fs)\<lparr>rm_cb_failures := rm_cb_failures (foldl report r fs) + 1\<rparr>)"
    using report_closed_failure[of "foldl report r fs" t] c fl False by (simp add: es e)
  then have u: "rm_cb_open_until_ms (foldl report r es) = t + open_time r"
    using limits_history(2)[of r fs] by (simp add: open_circuit_def open_time_def)
  have "unat (t + open_time r) = unat t + unat (open_time r)"
    using assms(4) by (simp add: es e unat_word_ariths)
  moreover have "0 < unat (open_time r)" by (simp add: open_time_def or_default_pos)
  ultimately have nz: "t + open_time r \<noteq> 0" by (metis add_is_0 less_irrefl unat_0)
  have a: "fastgit_remote_circuit_allow now (foldl report r es) \<longleftrightarrow> t + open_time r \<le> now" for now
    using nz by (simp add: fastgit_remote_circuit_allow_def u not_less)
  have "\<exists>x. \<not> t + open_time r \<le> x" using nz by (intro exI[of _ 0]) simp
  then show ?thesis using False a by (simp add: es e)
qed

theorem circuit_trips_witness:
  "\<not> fastgit_remote_circuit_allow 1000 (foldl report (fastgit_remote_create 0 [] []) (replicate 5 (100, False))) \<and>
   fastgit_remote_circuit_allow 30100 (foldl report (fastgit_remote_create 0 [] []) (replicate 5 (100, False)))"
proof -
  let ?r = "fastgit_remote_create 0 [] []"
  have l: "trip_limit ?r = 5" "open_time ?r = 30000"
    by (simp_all add: fastgit_remote_create_def trip_limit_def open_time_def or_default_def)
  have "failures_at_end (replicate n (100, False)) = n" for n by (simp add: failures_at_end_def)
  then show ?thesis
    using circuit_trips[of ?r "replicate 5 (100, False)"] l
    by (simp add: fastgit_remote_create_def take_replicate)
qed

text \<open>From the deadline on the successes are counted until the circuit closes.\<close>

lemma recovery_counts:
  assumes "rm_cb_open_until_ms r = d" "d \<noteq> 0" "rm_cb_successes r = 0"
  shows "length es \<le> recovery_limit r \<and> (\<forall>e \<in> set es. d \<le> fst e \<and> snd e) \<longrightarrow>
    (if length es < recovery_limit r
     then rm_cb_open_until_ms (foldl report r es) = d \<and> unat (rm_cb_successes (foldl report r es)) = length es
     else rm_cb_open_until_ms (foldl report r es) = 0)"
proof (induction es rule: rev_induct)
  case Nil
  then show ?case using assms(1,3) recovery_limit_pos[of r] by simp
next
  case (snoc e es)
  let ?r = "foldl report r es"
  show ?case
  proof (intro impI)
    assume p: "length (es @ [e]) \<le> recovery_limit r \<and> (\<forall>e \<in> set (es @ [e]). d \<le> fst e \<and> snd e)"
    then have c: "rm_cb_open_until_ms ?r = d" "unat (rm_cb_successes ?r) = length es" "length es < recovery_limit r"
      using snoc.IH by simp_all
    have "unat (rm_cb_successes ?r + 1) = Suc (length es)"
      using c(2,3) unat_u32[of "or_default (cb_success_threshold (rm_cb r)) 1"]
      by (simp add: recovery_limit_def unat_word_ariths)
    moreover have "rm_cb ?r = rm_cb r" by (induction es arbitrary: r) simp_all
    ultimately show "if length (es @ [e]) < recovery_limit r
       then rm_cb_open_until_ms (foldl report r (es @ [e])) = d \<and> unat (rm_cb_successes (foldl report r (es @ [e]))) = length (es @ [e])
       else rm_cb_open_until_ms (foldl report r (es @ [e])) = 0"
      using p c(1) assms(2)
      by (auto simp: report_def fastgit_remote_circuit_on_success_def recovery_limit_def word_le_nat_alt Let_def)
  qed
qed



section \<open>Load shedding\<close>

text \<open>Operations of any number of users of the remote, one after the other.\<close>

inductive load_step :: "remote \<Rightarrow> remote \<Rightarrow> bool" where
  acquire: "fastgit_remote_load_acquire r = (ok, r') \<Longrightarrow> load_step r r'"
| release: "load_step r (fastgit_remote_load_release q r)"

inductive_cases load_stepE: "load_step r r'"

abbreviation load_run :: "remote \<Rightarrow> remote \<Rightarrow> bool" where
  "load_run \<equiv> load_step\<^sup>*\<^sup>*"

definition max_inflight :: "remote \<Rightarrow> u32" where
  "max_inflight r = or_default (ls_max_concurrent (rm_ls r)) 64"

definition max_queued :: "remote \<Rightarrow> u32" where
  "max_queued r = or_default (ls_queue_depth (rm_ls r)) 256"

definition load_ok :: "load_shed \<Rightarrow> remote \<Rightarrow> bool" where
  "load_ok ls r \<longleftrightarrow> rm_ls r = ls \<and> rm_ls_inflight r \<le> max_inflight r \<and> rm_ls_queued r \<le> max_queued r"

lemma max_inflight_nz [simp]: "max_inflight r \<noteq> 0"
  by (simp add: max_inflight_def or_default_def)

lemma step_up: "x < (m :: u32) \<Longrightarrow> x + 1 \<le> m"
  by (rule inc_le)

lemma step_down: "x \<noteq> 0 \<Longrightarrow> x \<le> (m :: u32) \<Longrightarrow> x - 1 \<le> m \<and> x - 1 < m"
  by (metis measure_unat not_less order.strict_trans2 order_less_imp_le unat_gt_0 word_less_nat_alt)

lemma load_step_ok: "load_step r r' \<Longrightarrow> load_ok ls r \<Longrightarrow> load_ok ls r'"
proof (induction rule: load_step.induct)
  case (acquire r ok r')
  then show ?case
    using step_up[of "rm_ls_inflight r" "max_inflight r"] step_up[of "rm_ls_queued r" "max_queued r"]
    by (auto simp: fastgit_remote_load_acquire_def load_ok_def Let_def max_inflight_def max_queued_def split: if_splits)
next
  case (release r q)
  then have i: "rm_ls_inflight r \<le> max_inflight r" "rm_ls_queued r \<le> max_queued r" and l: "rm_ls r = ls"
    by (simp_all add: load_ok_def)
  have z: "0 + 1 \<le> max_inflight r" by (rule step_up) (simp add: word_gt_0)
  show ?case
    using i l z step_down[OF _ i(1)] step_down[OF _ i(2)]
    by (auto simp: fastgit_remote_load_release_def load_ok_def Let_def max_inflight_def max_queued_def)
qed



text \<open>
  A slot is lost whenever a queued request was promoted. All slots are taken and nobody waits; a
  further request is queued; a running request ends, which promotes the queued one; the promoted
  request ends as a queued one. Two requests have ended since, but all slots are still taken.
\<close>

theorem load_slot_leaks:
  assumes "rm_ls_inflight r = max_inflight r" "rm_ls_queued r = 0" "acquire_slot r = Some (queued, r1)"
  shows "queued \<and> rm_ls_inflight (fastgit_remote_load_release queued (fastgit_remote_load_release False r1)) = max_inflight r \<and>
    rm_ls_queued (fastgit_remote_load_release queued (fastgit_remote_load_release False r1)) = 0"
proof -
  have "r1 = r\<lparr>rm_ls_queued := 1\<rparr>" "queued"
    using assms by (auto simp: acquire_slot_def fastgit_remote_load_acquire_def max_inflight_def Let_def split: if_splits)
  then show ?thesis using assms(1) by (simp add: fastgit_remote_load_release_def Let_def)
qed

theorem load_slot_leaks_witness:
  "\<exists>r1. acquire_slot ((fastgit_remote_create 0 [] [])\<lparr>rm_ls_inflight := 64\<rparr>) = Some (True, r1) \<and>
     rm_ls_inflight (fastgit_remote_load_release True (fastgit_remote_load_release False r1)) = 64"
proof -
  let ?r = "(fastgit_remote_create 0 [] [])\<lparr>rm_ls_inflight := 64\<rparr>"
  have m: "max_inflight ?r = 64" "rm_ls_queued ?r = 0" by (simp_all add: max_inflight_def fastgit_remote_create_def or_default_def)
  have "\<exists>r1. acquire_slot ?r = Some (True, r1)"
    by (simp add: acquire_slot_def fastgit_remote_load_acquire_def fastgit_remote_create_def or_default_def)
  then obtain r1 where "acquire_slot ?r = Some (True, r1)" by blast
  with load_slot_leaks[of ?r True r1] m show ?thesis by simp
qed

section \<open>Backoff\<close>

definition backoff_base :: "remote \<Rightarrow> u32 \<Rightarrow> nat" where
  "backoff_base r attempt =
     min (unat (or_default (ucast (ry_max_ms (rm_retry r)) :: u64) 30000))
       (unat (or_default (ucast (ry_base_ms (rm_retry r)) :: u64) 100) * 2 ^ min 10 (unat attempt))"

lemma default_small: "d < 2 ^ 32 \<Longrightarrow> unat (or_default (ucast (x :: u32) :: u64) d) < 2 ^ 32"
  using unat_u32[of x] by (simp add: or_default_def word_less_nat_alt unsigned_ucast_eq take_bit_nat_eq_self)

lemma backoff_unjittered:
  "unat (let base = or_default (ucast (ry_base_ms (rm_retry r))) 100; cap = or_default (ucast (ry_max_ms (rm_retry r))) 30000;
        e = base * push_bit (if attempt < 10 then unat attempt else 10) 1 in if cap < e then cap else (e :: u64)) =
   backoff_base r attempt"
proof -
  let ?b = "or_default (ucast (ry_base_ms (rm_retry r)) :: u64) 100"
  let ?k = "if attempt < 10 then unat attempt else 10"
  have k: "?k = min 10 (unat attempt)" by (simp add: word_less_nat_alt min_def)
  then have "(2::nat) ^ ?k \<le> 2 ^ 10" by (intro power_increasing) simp_all
  then have b: "unat ?b * 2 ^ ?k < 2 ^ 64" "(2::nat) ^ ?k < 2 ^ 64"
    using mult_strict_mono'[OF default_small[of 100 "ry_base_ms (rm_retry r)"], of "2 ^ ?k" "2 ^ 11"] by simp_all
  have "push_bit ?k 1 = (of_nat (2 ^ ?k) :: u64)" by (simp add: push_bit_eq_mult)
  then have "unat (push_bit ?k 1 :: u64) = 2 ^ ?k" using b(2) by (simp only: unat_of_nat) simp
  then have "unat (?b * push_bit ?k 1) = unat ?b * 2 ^ ?k" using b(1) by (simp only: unat_word_ariths) simp
  then show ?thesis unfolding k by (auto simp: backoff_base_def Let_def word_less_nat_alt min_def)
qed

definition backoff_cap :: "remote \<Rightarrow> nat" where
  "backoff_cap r = unat (or_default (ucast (ry_max_ms (rm_retry r)) :: u64) 30000)"

lemma backoff_core:
  assumes "0 \<le> rnd" "rnd \<le> 1" "ry_jitter_ratio (rm_retry r) \<le> 1"
  shows "\<exists>e. fastgit_remote_backoff_ms rnd r attempt = Inr e \<and> unat e \<le> backoff_cap r \<and>
    (ry_jitter_ratio (rm_retry r) \<le> 0 \<longrightarrow> unat e = backoff_base r attempt) \<and>
    backoff_base r attempt div 10 \<le> unat e \<and> unat e \<le> 2 * backoff_base r attempt"
proof -
  let ?j = "ry_jitter_ratio (rm_retry r)" and ?cap = "or_default (ucast (ry_max_ms (rm_retry r)) :: u64) 30000"
  define e0 :: u64 where "e0 = (let base = or_default (ucast (ry_base_ms (rm_retry r))) 100;
      cap = or_default (ucast (ry_max_ms (rm_retry r))) 30000;
      e = base * push_bit (if attempt < 10 then unat attempt else 10) 1 in if cap < e then cap else e)"
  have b: "unat e0 = backoff_base r attempt" unfolding e0_def by (rule backoff_unjittered)
  have c: "backoff_base r attempt \<le> backoff_cap r" "backoff_cap r < 2 ^ 32"
    using default_small[of 30000 "ry_max_ms (rm_retry r)"] by (simp_all add: backoff_base_def backoff_cap_def)
  define f where "f = (if 1 + ?j * (rnd * 2 - 1) < 1 / 10 then 1 / 10 else 1 + ?j * (rnd * 2 - 1))"
  have eq: "fastgit_remote_backoff_ms rnd r attempt =
    (if 0 < ?j then if 2 ^ 64 \<le> real (unat e0) * f then Inl Undefined
       else Inr (if ?cap < of_nat (nat \<lfloor>real (unat e0) * f\<rfloor>) then ?cap else of_nat (nat \<lfloor>real (unat e0) * f\<rfloor>))
     else Inr e0)"
    by (simp add: fastgit_remote_backoff_ms_def e0_def f_def Let_def)
  define n where "n = unat e0"
  note eq = eq[folded n_def] and b = b[folded n_def]
  show ?thesis
  proof (cases "0 < ?j")
    case True
    have "?j * (rnd * 2 - 1) \<le> ?j * 1" using True assms(2) by (intro mult_left_mono) simp_all
    then have "?j * (rnd * 2 - 1) \<le> 1" using assms(3) by simp
    then have f: "1 / 10 \<le> f" "f \<le> 2" by (simp_all add: f_def)
    let ?v = "real (n) * f"
    have v: "real (n) / 10 \<le> ?v" "?v \<le> 2 * real (n)"
      using f mult_left_mono[OF f(1), of "real (n)"] mult_left_mono[OF f(2), of "real (n)"] by simp_all
    have e32: "real (n) < 2 ^ 32" using b c by (metis le_less_trans of_nat_less_iff of_nat_numeral of_nat_power)
    then have lt: "?v < 2 ^ 64" using v(2) by simp
    have m: "n div 10 \<le> nat \<lfloor>?v\<rfloor>" "nat \<lfloor>?v\<rfloor> \<le> 2 * n"
    proof -
      have "int (n div 10) \<le> \<lfloor>real (n) / 10\<rfloor>" by (simp add: floor_divide_of_nat_eq[of _ 10, simplified])
      also have "\<dots> \<le> \<lfloor>?v\<rfloor>" using v(1) by (rule floor_mono)
      finally show "n div 10 \<le> nat \<lfloor>?v\<rfloor>" by simp
      have "\<lfloor>?v\<rfloor> \<le> \<lfloor>real (2 * n)\<rfloor>" using v(2) by (intro floor_mono) simp
      also have "\<dots> = int (2 * n)" by (rule floor_of_nat)
      finally show "nat \<lfloor>?v\<rfloor> \<le> 2 * n" by simp
    qed
    have "nat \<lfloor>?v\<rfloor> < 2 ^ 64" using m(2) b c by simp
    then have u: "unat (of_nat (nat \<lfloor>?v\<rfloor>) :: u64) = nat \<lfloor>?v\<rfloor>" by (simp add: unat_of_nat)
    have cap: "unat ?cap = backoff_cap r" by (simp add: backoff_cap_def)
    have "backoff_base r attempt div 10 \<le> backoff_cap r" "backoff_cap r \<le> 2 * backoff_base r attempt \<or> True"
      using c(1) by simp_all
    then show ?thesis
      using True lt m u cap b unfolding eq by (auto simp: word_less_nat_alt)
  next
    case False
    then show ?thesis using b c n_def by (simp add: eq)
  qed
qed

text \<open>
  C40. The time to wait before a retry is defined for every jitter ratio up to 1 and every random
  number. It is \<open>base_ms * 2 ^ attempt\<close> (the exponent up to 10) and at most \<open>max_ms\<close>; jitter neither
  exceeds \<open>max_ms\<close> nor doubles it, and leaves at least a tenth.
\<close>

theorem backoff_bounds:
  assumes "0 \<le> rnd" "rnd \<le> 1" "ry_jitter_ratio (rm_retry r) \<le> 1"
  shows "\<exists>e. fastgit_remote_backoff_ms rnd r attempt = Inr e \<and> unat e \<le> backoff_cap r \<and>
    (ry_jitter_ratio (rm_retry r) \<le> 0 \<longrightarrow> unat e = backoff_base r attempt) \<and>
    backoff_base r attempt div 10 \<le> unat e \<and> unat e \<le> 2 * backoff_base r attempt"
  using assms by (rule backoff_core)

theorem backoff_bounds_witness:
  "\<exists>e. fastgit_remote_backoff_ms (1 / 2) (fastgit_remote_create 0 [] []) 1 = Inr e \<and> unat e \<le> 400"
proof -
  let ?r = "fastgit_remote_create 0 [] []"
  have "backoff_base ?r 1 = 200" by (simp add: backoff_base_def fastgit_remote_create_def or_default_def)
  then show ?thesis using backoff_bounds[of "1 / 2" ?r 1] by (auto simp: fastgit_remote_create_def)
qed

end
