(* ===== verification/HttpProps.thy ===== *)
theory HttpProps
  imports Http RemoteProps
begin

unbundle bit_operations_syntax

text \<open>
  The retry loop of the first request of a fetch or push: it always returns, after a bounded number of
  requests, whatever the network does; failures that pass are absorbed within the policy.
\<close>

section \<open>Requests are bounded\<close>

text \<open>\<open>reqs\<close> counts the requests that have been performed.\<close>

definition counts_requests :: "'w env \<Rightarrow> ('w \<Rightarrow> nat) \<Rightarrow> bool" where
  "counts_requests env reqs \<longleftrightarrow>
     (\<forall>rq w. reqs (snd (ev_perform env rq w)) = Suc (reqs w)) \<and> (\<forall>w. reqs (snd (ev_now env w)) = reqs w) \<and>
     (\<forall>ms w. reqs (ev_sleep env ms w) = reqs w) \<and> (\<forall>w. reqs (snd (ev_rand env w)) = reqs w) \<and>
     (\<forall>acquire w. ev_acquire env = Some acquire \<longrightarrow> reqs (snd (acquire w)) = reqs w)"

lemma counts_sndD:
  assumes "counts_requests env reqs"
  shows "ev_perform env rq w = (rs, w') \<Longrightarrow> reqs w' = Suc (reqs w)"
    "ev_now env w = (now, w') \<Longrightarrow> reqs w' = reqs w"
    "ev_rand env w = (rnd, w') \<Longrightarrow> reqs w' = reqs w"
    "ev_acquire env = Some acquire \<Longrightarrow> acquire w = (c, w') \<Longrightarrow> reqs w' = reqs w"
    "reqs (ev_sleep env ms w) = reqs w"
  using assms unfolding counts_requests_def by (metis snd_conv)+

lemma token_reqs: "counts_requests env reqs \<Longrightarrow> try_acquire_http_token env t w = (t', w') \<Longrightarrow> reqs w' = reqs w"
  by (auto simp: try_acquire_http_token_def fastgit_http_has_valid_token_def counts_sndD
      split: if_splits option.splits sum.splits prod.splits bool.splits cred_type.splits)

lemma attempt_reqs:
  assumes "counts_requests env reqs" "http_attempt env t w = (res, t', w')"
  shows "reqs w' = Suc (reqs w)"
proof -
  obtain t1 w1 where a: "try_acquire_http_token env t w = (t1, w1)" by fastforce
  then obtain rq rs where "ev_perform env rq w1 = (rs, w')"
    using assms(2) by (auto simp: http_attempt_def fastgit_http_get_info_refs_def http_perform_def Let_def split: prod.splits)
  then show ?thesis using counts_sndD(1)[OF assms(1)] token_reqs[OF assms(1) a] by simp
qed

lemma await_reqs:
  assumes "counts_requests env reqs" "await_retry env ra err k r w = (res, r', w')"
  shows "reqs w' = reqs w"
  using assms(2) counts_sndD(2,3,5)[OF assms(1)]
  by (auto simp: await_retry_def next_backoff_def fastgit_remote_sleep_ms_def
      split: prod.splits sum.splits if_splits bool.splits)

lemma next_le: "k < m \<Longrightarrow> unat (k + 1) = Suc (unat (k :: u32)) \<and> k + 1 \<le> m"
proof -
  assume k: "k < m"
  then have "unat k < unat m" by (simp add: word_less_nat_alt)
  then have "unat (k + 1) = Suc (unat k)" using unat_u32[of m] by (simp add: unat_word_ariths)
  then show ?thesis using k by (simp add: step_up)
qed

lemma loop_reqs:
  "counts_requests env reqs \<Longrightarrow> info_refs_loop env m k r t w = (res, r', t', w') \<Longrightarrow> k \<le> m \<Longrightarrow>
    reqs w < reqs w' \<and> reqs w' \<le> reqs w + (unat m - unat k) + 1"
proof (induction env m k r t w arbitrary: res r' t' w' rule: info_refs_loop.induct)
  case (1 env m k r t w)
  obtain a t1 w1 where a: "http_attempt env t w = (a, t1, w1)" by (metis prod_cases3)
  have q: "reqs w1 = Suc (reqs w)" by (rule attempt_reqs[OF "1.prems"(1) a])
  have nm: "\<not> m < k" using "1.prems"(3) by simp
  have fin: "w' = w1 \<Longrightarrow> ?case" using q by simp
  show ?case
  proof (cases a)
    case (Inr u)
    then show ?thesis using "1.prems"(2) nm a fin by (subst (asm) info_refs_loop.simps) simp
  next
    case (Inl err)
    show ?thesis
    proof (cases "\<not> fastgit_error_is_retryable err \<or> k = m")
      case True
      then show ?thesis using "1.prems"(2) nm a Inl fin by (subst (asm) info_refs_loop.simps) auto
    next
      case False
      obtain b r2 w2 where b: "await_retry env (ht_retry_after_ms t1) err k r w1 = (b, r2, w2)" by (metis prod_cases3)
      have q2: "reqs w2 = Suc (reqs w)" using await_reqs[OF "1.prems"(1) b] q by simp
      show ?thesis
      proof (cases b)
        case (Inl e)
        then show ?thesis using "1.prems"(2) nm a \<open>a = Inl err\<close> False b q2
          by (subst (asm) info_refs_loop.simps) auto
      next
        case (Inr u)
        have l: "info_refs_loop env m (k + 1) r2 t1 w2 = (res, r', t', w')"
          using "1.prems"(2) nm a Inl False b Inr by (subst (asm) info_refs_loop.simps) simp
        have k: "k < m" using nm False by (metis not_less_iff_gr_or_eq)
        from "1.IH"[OF nm a[symmetric] Inl refl False b[symmetric] Inr refl "1.prems"(1) l] next_le[OF k] q2
        show ?thesis using k[unfolded word_less_nat_alt] by linarith
      qed
    qed
  qed
qed

text \<open>
  C26. The loop of retries always returns, and whatever the network, the clock and the credentials
  do, it performs at least one and at most \<open>max_retries + 1\<close> requests.
\<close>

theorem retries_bounded:
  assumes "counts_requests env reqs" "do_http_info_refs_with_retry env r t w = (res, r', t', w')"
  shows "reqs w < reqs w' \<and> reqs w' \<le> reqs w + unat (ry_max_retries (rm_retry r)) + 1"
  using loop_reqs[OF assms(1), of "ry_max_retries (rm_retry r)" 0] assms(2)
  by (simp add: do_http_info_refs_with_retry_def)

section \<open>Failures that pass\<close>

text \<open>A network that gives prepared replies; the clock moves by sleeping.\<close>

definition script_env :: "(http_reply list \<times> u64 \<times> nat) env" where
  "script_env =
     \<lparr>ev_perform = (\<lambda>rq (rs, c, n). (hd rs, tl rs, c, Suc n)), ev_now = (\<lambda>(rs, c, n). (c, rs, c, n)),
      ev_sleep = (\<lambda>ms (rs, c, n). (rs, c + ms, n)), ev_rand = (\<lambda>w. (1 / 2, w)), ev_acquire = None\<rparr>"

lemma script_counts: "counts_requests script_env (\<lambda>(rs, c, n). n)"
  by (simp add: counts_requests_def script_env_def)

definition reply_result :: "http_reply \<Rightarrow> unit res" where
  "reply_result rs = (if rs_ok rs then info_result (rs_code rs) else Inl EIO)"

definition transient :: "http_reply \<Rightarrow> bool" where
  "transient rs \<longleftrightarrow> (\<exists>e. reply_result rs = Inl e \<and> fastgit_error_is_retryable e)"

lemma write_keeps [simp]:
  "ht_token (foldl write_cb t cs) = ht_token t" "ht_response (foldl write_cb t cs) = ht_response t @ concat cs"
  by (induction cs arbitrary: t) (simp_all add: write_cb_def)

lemma header_keeps [simp]:
  "ht_token (foldl header_cb t hs) = ht_token t" "ht_response (foldl header_cb t hs) = ht_response t"
  by (induction hs arbitrary: t) (simp_all add: header_cb_def Let_def)

lemma script_attempt:
  assumes "ht_token t = None"
  shows "\<exists>t'. http_attempt script_env t (f # fs, c, n) = (reply_result f, t', fs, c, Suc n) \<and>
    ht_token t' = None \<and> (rs_ok f \<longrightarrow> ht_response t' = concat (rs_chunks f))"
  using assms
  by (simp add: http_attempt_def try_acquire_http_token_def fastgit_http_has_valid_token_def script_env_def
      fastgit_http_get_info_refs_def http_perform_def reply_result_def http_reset_buffers_def Let_def)

definition enough :: "remote \<Rightarrow> nat \<Rightarrow> bool" where
  "enough r n \<longleftrightarrow> ry_budget_per_min (rm_retry r) = 0 \<or>
     n \<le> unat (ry_budget_per_min (rm_retry r)) \<and> n \<le> unat (rm_budget_remaining r)"

lemma budget_enough:
  assumes "enough r (Suc n)"
  shows "\<exists>r'. fastgit_remote_budget_consume now r = (True, r') \<and> rm_retry r' = rm_retry r \<and> enough r' n"
proof -
  have "Suc n \<le> unat x \<Longrightarrow> x \<noteq> 0 \<and> n \<le> unat (x - 1)" for x :: u32
    by (cases "x = 0") (simp_all add: unat_minus_one)
  then show ?thesis using assms
    by (auto simp: enough_def fastgit_remote_budget_consume_def Let_def)
qed

lemma script_await:
  assumes "enough r (Suc m)" "ry_jitter_ratio (rm_retry r) \<le> 1"
  shows "\<exists>r' c'. await_retry script_env ra err k r (fs, c, n) = (Inr (), r', fs, c', n) \<and>
    rm_retry r' = rm_retry r \<and> enough r' m"
proof -
  obtain r' where r': "fastgit_remote_budget_consume c r = (True, r')" "rm_retry r' = rm_retry r" "enough r' m"
    using budget_enough[OF assms(1)] by blast
  have b: "\<exists>e. fastgit_remote_backoff_ms rnd r' k = Inr e" if "rnd \<in> {0, 1 / 2}" for rnd
    using backoff_core[of rnd r' k] that assms(2) r'(2) by auto
  have rand: "ev_rand script_env (fs, c, n) = (1 / 2, fs, c, n)" by (simp add: script_env_def)
  have "\<exists>e. next_backoff script_env r' k (fs, c, n) = (Inr e, fs, c, n)"
    using b[of 0] b[of "1 / 2"] by (cases "0 < ry_jitter_ratio (rm_retry r')") (auto simp: next_backoff_def rand)
  then obtain e where "next_backoff script_env r' k (fs, c, n) = (Inr e, fs, c, n)" by blast
  moreover have "fastgit_remote_sleep_ms script_env ms (fs, c, n) = (fs, if ms = 0 then c else c + ms, n)" for ms
    by (simp add: fastgit_remote_sleep_ms_def script_env_def)
  moreover have "ev_now script_env (fs, c, n) = (c, fs, c, n)" by (simp add: script_env_def)
  ultimately show ?thesis using r' by (simp add: await_retry_def)
qed

lemma script_loop:
  "\<forall>f \<in> set fails. transient f \<Longrightarrow> reply_result good = Inr () \<Longrightarrow> unat k + length fails \<le> unat m \<Longrightarrow>
   enough r (length fails) \<Longrightarrow> ry_jitter_ratio (rm_retry r) \<le> 1 \<Longrightarrow> ht_token t = None \<Longrightarrow>
   \<exists>r' t' c'. info_refs_loop script_env m k r t (fails @ good # rest, c, n) = (Inr (), r', t', rest, c', n + length fails + 1) \<and>
     ht_response t' = concat (rs_chunks good)"
proof (induction fails arbitrary: k r t c n)
  case Nil
  have "rs_ok good" using Nil.prems(2) by (auto simp: reply_result_def split: if_splits)
  moreover have "\<not> m < k" using Nil.prems(3) by (simp add: word_less_nat_alt)
  ultimately show ?case
    using script_attempt[OF Nil.prems(6), of good rest c n] Nil.prems(2) by (subst info_refs_loop.simps) auto
next
  case (Cons f fails)
  obtain e where e: "reply_result f = Inl e" "fastgit_error_is_retryable e" using Cons.prems(1) by (auto simp: transient_def)
  obtain t1 where a: "http_attempt script_env t (f # fails @ good # rest, c, n) = (Inl e, t1, fails @ good # rest, c, Suc n)"
    "ht_token t1 = None"
    using script_attempt[OF Cons.prems(6)] e(1) by metis
  obtain r2 c2 where b: "await_retry script_env (ht_retry_after_ms t1) e k r (fails @ good # rest, c, Suc n) = (Inr (), r2, fails @ good # rest, c2, Suc n)"
    "rm_retry r2 = rm_retry r" "enough r2 (length fails)"
    using script_await[OF _ Cons.prems(5)] Cons.prems(4) by (metis length_Cons)
  have k: "k < m" "k \<noteq> m" "\<not> m < k" using Cons.prems(3) by (auto simp: word_less_nat_alt)
  have "info_refs_loop script_env m k r t ((f # fails) @ good # rest, c, n) =
      info_refs_loop script_env m (k + 1) r2 t1 (fails @ good # rest, c2, Suc n)"
    using a(1) b(1) e(2) k by (subst info_refs_loop.simps) simp
  moreover have "unat (k + 1) + length fails \<le> unat m" using next_le[OF k(1)] Cons.prems(3) by simp
  ultimately show ?case
    using Cons.IH[of "k + 1" r2 t1 c2 "Suc n"] Cons.prems(1,2,5) a(2) b(2,3) by simp
qed

text \<open>
  C17. Failures that pass are absorbed: when the network gives at most \<open>max_retries\<close> replies that may
  be retried (no connection, 401, 403, 429, any 5xx), the budget covers them, and then a good reply
  comes, the request succeeds with the body of that reply after exactly these requests.
\<close>

theorem retries_absorb:
  assumes "\<forall>f \<in> set fails. transient f" "reply_result good = Inr ()"
    and "length fails \<le> unat (ry_max_retries (rm_retry r))" "enough r (length fails)" "ry_jitter_ratio (rm_retry r) \<le> 1"
  shows "\<exists>r' t' c. do_http_info_refs_with_retry script_env r (fastgit_http_transport_new r) (fails @ good # rest, now, 0) =
      (Inr (), r', t', rest, c, length fails + 1) \<and> ht_response t' = concat (rs_chunks good)"
  using script_loop[OF assms(1,2), of 0 "ry_max_retries (rm_retry r)" r "fastgit_http_transport_new r" rest now 0] assms(3-5)
  by (simp add: do_http_info_refs_with_retry_def fastgit_http_transport_new_def)

definition reply :: "int \<Rightarrow> bytes \<Rightarrow> http_reply" where
  "reply code body = \<lparr>rs_ok = True, rs_headers = [], rs_chunks = [body], rs_code = code\<rparr>"

theorem retries_absorb_witness:
  "\<exists>r' t' c. do_http_info_refs_with_retry script_env (fastgit_remote_create 0 [] [])
      (fastgit_http_transport_new (fastgit_remote_create 0 [] [])) ([reply 503 [], reply 429 [], reply 200 (str ''refs'')], 7, 0) =
      (Inr (), r', t', [], c, 3) \<and> ht_response t' = str ''refs''"
proof -
  have "transient (reply 503 [])" "transient (reply 429 [])" "reply_result (reply 200 (str ''refs'')) = Inr ()"
    by (simp_all add: transient_def reply_result_def reply_def info_result_def fastgit_error_is_retryable_def)
  moreover have "length [reply 503 [], reply 429 []] \<le> unat (ry_max_retries (rm_retry (fastgit_remote_create 0 [] [])))"
    "enough (fastgit_remote_create 0 [] []) (length [reply 503 [], reply 429 []])"
    "ry_jitter_ratio (rm_retry (fastgit_remote_create 0 [] [])) \<le> 1"
    by (simp_all add: fastgit_remote_create_def enough_def)
  ultimately show ?thesis
    using retries_absorb[of "[reply 503 [], reply 429 []]" "reply 200 (str ''refs'')" "fastgit_remote_create 0 [] []" "[]" 7]
    by (simp add: reply_def numeral_3_eq_3)
qed

theorem retries_bounded_witness:
  "snd (snd (snd (snd (snd (do_http_info_refs_with_retry script_env (fastgit_remote_create 0 [] [])
      (fastgit_http_transport_new (fastgit_remote_create 0 [] [])) (replicate 9 (reply 503 []), 7, 0)))))) \<le> 4"
proof -
  let ?x = "do_http_info_refs_with_retry script_env (fastgit_remote_create 0 [] [])
      (fastgit_http_transport_new (fastgit_remote_create 0 [] [])) (replicate 9 (reply 503 []), 7, 0)"
  obtain res r' t' w' where x: "?x = (res, r', t', w')" by (metis prod_cases4)
  show ?thesis
    using retries_bounded[OF script_counts x] x by (auto simp: fastgit_remote_create_def split: prod.splits)
qed

section \<open>Posts and tokens\<close>

lemma callbacks_keep_token:
  "write_cb (fastgit_http_set_token token expiry t) c = fastgit_http_set_token token expiry (write_cb t c)"
  "header_cb (fastgit_http_set_token token expiry t) c = fastgit_http_set_token token expiry (header_cb t c)"
  by (simp_all add: write_cb_def header_cb_def fastgit_http_set_token_def Let_def)

lemma foldl_commutes: "(\<And>u x. f (g u) x = g (f u x)) \<Longrightarrow> foldl f (g u) xs = g (foldl f u xs)"
  by (induction xs arbitrary: u) simp_all

text \<open>A token never travels with a post: request, answer and result are those of a transport without it.\<close>

lemma post_without_token:
  "fastgit_http_post_upload_pack env body (fastgit_http_set_token token expiry t) w =
   (case fastgit_http_post_upload_pack env body t w of (res, t', w') \<Rightarrow> (res, fastgit_http_set_token token expiry t', w'))"
proof -
  let ?s = "fastgit_http_set_token token expiry"
  have f: "foldl write_cb (?s u) cs = ?s (foldl write_cb u cs)" "foldl header_cb (?s u) hs = ?s (foldl header_cb u hs)" for u cs hs
    by (simp_all add: foldl_commutes[where g = ?s] callbacks_keep_token)
  have r: "http_reset_buffers (?s t) = ?s (http_reset_buffers t)" "(?s u)\<lparr>ht_code := c\<rparr> = ?s (u\<lparr>ht_code := c\<rparr>)"
    "ht_url (?s u) = ht_url u" "ht_code (?s u) = ht_code u" for u c
    by (simp_all add: http_reset_buffers_def fastgit_http_set_token_def)
  show ?thesis
    by (simp add: fastgit_http_post_upload_pack_def http_post_def http_perform_def Let_def f r split: prod.splits)
qed

end
