(* ===== verification/Worktree.thy ===== *)
theory Worktree
  imports IndexTree IndexIO Refs
begin

unbundle bit_operations_syntax

text \<open>
  The working tree (\<^verbatim>\<open>src/worktree/worktree.c\<close>): checkout of an index or a tree, status, diffs, and
  the commands for further working trees.

  The files of the working tree are an association list from full paths to nodes, in the order in
  which readdir gives them. Paths are taken as text, so different texts name different files. The
  process owns the files and is not the superuser; \<open>umask\<close> is its mask; symbolic links are left out.
  The index is an argument, because the repository shares it with the working tree; \<open>ds\<close> gives the
  object directories by their path (as in \<^theory_text>\<open>Index\<close>).
\<close>

section \<open>Files\<close>

datatype node = Reg u32 bytes | Dir

type_synonym work = "(bytes \<times> node) list"

definition dirname :: "bytes \<Rightarrow> bytes" where
  "dirname p = (case rsplit_at 47 p of None \<Rightarrow> [] | Some (d, b) \<Rightarrow> d)"

text \<open>The empty text stands for the root and for the current directory.\<close>

definition is_dir :: "work \<Rightarrow> bytes \<Rightarrow> bool" where
  "is_dir w p \<longleftrightarrow> p = [] \<or> map_of w p = Some Dir"

definition mkdir :: "work \<Rightarrow> bytes \<Rightarrow> work" where
  "mkdir w p = (if map_of w p = None \<and> p \<noteq> [] \<and> is_dir w (dirname p) then w @ [(p, Dir)] else w)"

definition put_node :: "bytes \<Rightarrow> node \<Rightarrow> work \<Rightarrow> work" where
  "put_node p n w = (if map_of w p = None then w @ [(p, n)] else map (\<lambda>(q, m). if q = p then (q, n) else (q, m)) w)"

text \<open>open with O_CREAT and O_TRUNC, write, close.\<close>

definition write_new :: "u32 \<Rightarrow> u32 \<Rightarrow> bytes \<Rightarrow> bytes \<Rightarrow> work \<Rightarrow> work option" where
  "write_new umask perm p d w =
     (case map_of w p of
        Some Dir \<Rightarrow> None
      | Some (Reg m c) \<Rightarrow> if m AND 0x80 = 0 then None else Some (put_node p (Reg m d) w)
      | None \<Rightarrow> if is_dir w (dirname p) then Some (put_node p (Reg (perm AND NOT umask) d) w) else None)"

text \<open>\<open>open\<close> for reading, \<open>fstat\<close> and \<open>read\<close>: \<open>None\<close> when it cannot be opened; reading a directory fails.\<close>

definition read_node :: "nat \<Rightarrow> bytes \<Rightarrow> work \<Rightarrow> bytes res option" where
  "read_node mem p w =
     (case map_of w p of
        None \<Rightarrow> None
      | Some Dir \<Rightarrow> Some (Inl EIO)
      | Some (Reg m d) \<Rightarrow>
          if m AND 0x100 = 0 then None else if mem < length d then Some (Inl ENOMEM) else Some (Inr d))"

definition mkdir_p :: "bytes \<Rightarrow> work \<Rightarrow> work" where
  "mkdir_p path w =
     (let tmp = bufn 4096 path
      in mkdir (foldl mkdir w (map (\<lambda>i. take i tmp) (filter (\<lambda>i. tmp ! i = 47) [1..<length tmp]))) tmp)"

section \<open>The working tree\<close>

record worktree =
  wt_path :: bytes
  wt_gitdir :: bytes
  wt_odb :: "odb option"

definition fastgit_worktree_new :: "bytes \<Rightarrow> worktree \<times> index" where
  "fastgit_worktree_new path =
     (\<lparr>wt_path = path, wt_gitdir = path @ str ''/.git'', wt_odb = None\<rparr>,
      fastgit_index_new\<lparr>ix_path := Some (bufn 4096 (path @ str ''/.git'' @ str ''/index''))\<rparr>)"

text \<open>\<open>file\<close> is what the index file holds.\<close>

definition fastgit_worktree_open :: "nat \<Rightarrow> fs \<Rightarrow> (nat \<times> bytes) option \<Rightarrow> bytes \<Rightarrow> (worktree \<times> index) res" where
  "fastgit_worktree_open mem ds file path =
     (let gitdir = path @ str ''/.git'';
          index_path = bufn 1024 (gitdir @ str ''/index'');
          wt = \<lparr>wt_path = path, wt_gitdir = gitdir,
                wt_odb = Some (fastgit_odb_open (ds (bufn 1024 (gitdir @ str ''/objects''))))\<rparr>
      in case fastgit_index_open mem index_path file of
           Inl e \<Rightarrow> if e = Undefined then Inl Undefined else Inr (wt, fastgit_index_new\<lparr>ix_path := Some index_path\<rparr>)
         | Inr ix \<Rightarrow> Inr (wt, ix))"

section \<open>Checkout\<close>

text \<open>The database of the working tree, if it has one, and its files.\<close>

type_synonym wt_state = "odb option \<times> work"

definition read_odb :: "zlib \<Rightarrow> nat \<Rightarrow> oid \<Rightarrow> odb option \<Rightarrow> odb_object res \<times> odb option" where
  "read_odb z mem x o1 =
     (case o1 of
        None \<Rightarrow> (Inl EINVAL, None)
      | Some db \<Rightarrow> (case fastgit_odb_read z mem x db of (r, db') \<Rightarrow> (r, Some db')))"

definition checkout_entry :: "zlib \<Rightarrow> nat \<Rightarrow> u32 \<Rightarrow> bytes \<Rightarrow> bytes \<Rightarrow> oid \<Rightarrow> u32 \<Rightarrow> wt_state \<Rightarrow> unit res \<times> wt_state" where
  "checkout_entry z mem umask root path x mode st =
     (case st of (o1, w) \<Rightarrow>
       let full = bufn 4096 (root @ [47] @ path) in
       (case read_odb z mem x o1 of
          (Inl e, o2) \<Rightarrow> (Inl e, o2, w)
        | (Inr ob, o2) \<Rightarrow>
            let w1 = (case rsplit_at 47 full of None \<Rightarrow> w | Some (d, b) \<Rightarrow> mkdir_p d w)
            in (case write_new umask (mode AND 0x1FF) full (oo_data ob) w1 of
                  None \<Rightarrow> (Inl EIO, o2, w1)
                | Some w2 \<Rightarrow> (Inr (), o2, w2))))"

text \<open>With \<open>force\<close> the errors of single files are passed over.\<close>

fun checkout_entries :: "zlib \<Rightarrow> nat \<Rightarrow> u32 \<Rightarrow> bytes \<Rightarrow> bool \<Rightarrow> index_entry list \<Rightarrow> wt_state \<Rightarrow> unit res \<times> wt_state" where
  "checkout_entries z mem umask root force [] st = (Inr (), st)"
| "checkout_entries z mem umask root force (e # es) st =
     (if ie_stage e \<noteq> STAGE_NORMAL then checkout_entries z mem umask root force es st
      else case checkout_entry z mem umask root (ie_path e) (ie_oid e) (ie_mode e) st of
          (Inl er, st') \<Rightarrow>
            if er = Undefined \<or> \<not> force then (Inl er, st') else checkout_entries z mem umask root force es st'
        | (Inr u, st') \<Rightarrow> checkout_entries z mem umask root force es st')"

definition fastgit_checkout_index :: "zlib \<Rightarrow> nat \<Rightarrow> u32 \<Rightarrow> worktree \<Rightarrow> index \<Rightarrow> bool \<Rightarrow> work \<Rightarrow> unit res \<times> wt_state" where
  "fastgit_checkout_index z mem umask wt ix force w =
     checkout_entries z mem umask (wt_path wt) force (ix_entries ix) (wt_odb wt, w)"

text \<open>Checking out HEAD checks out the index.\<close>

definition fastgit_checkout_head :: "zlib \<Rightarrow> nat \<Rightarrow> u32 \<Rightarrow> worktree \<Rightarrow> index option \<Rightarrow> bool \<Rightarrow> work \<Rightarrow> unit res \<times> wt_state" where
  "fastgit_checkout_head z mem umask wt ixo force w =
     (case ixo of
        None \<Rightarrow> (Inl EINVAL, wt_odb wt, w)
      | Some ix \<Rightarrow> checkout_entries z mem umask (wt_path wt) force (ix_entries ix) (wt_odb wt, w))"

text \<open>One item of a tree, and the rest; the mode is read up to where the digits end.\<close>

definition checkout_item :: "bytes \<Rightarrow> (tree_entry \<times> bytes) option" where
  "checkout_item s =
     (case split_at 32 s of
        None \<Rightarrow> None
      | Some (m, r) \<Rightarrow>
          (case split_at 0 r of
             None \<Rightarrow> None
           | Some (name, r2) \<Rightarrow>
               if length r2 < 32 then None
               else Some (\<lparr>te_oid = \<lparr>oid_algo = HASH_SHA256, oid_hash = take 32 r2\<rparr>, te_path = name,
                           te_mode = ucast (fst (strtoul 8 (cstr s)))\<rparr>, drop 32 r2)))"

definition S_ISDIR :: "u32 \<Rightarrow> bool" where
  "S_ISDIR mode \<longleftrightarrow> mode AND 0xF000 = 0x4000"

definition join_path :: "bytes \<Rightarrow> bytes \<Rightarrow> bytes" where
  "join_path pfx name = bufn 4096 (if pfx = [] then name else pfx @ [47] @ name)"

lemma checkout_item_length: "checkout_item s = Some (t, r) \<Longrightarrow> length r < length s"
  by (auto simp: checkout_item_def split: option.splits if_splits dest!: split_at_length) linarith

text \<open>
  \<open>n\<close> bounds the depth of the recursion; \<open>None\<close> means that the tree is deeper. \<open>checkout_items\<close> is the
  loop over the text of one tree.
\<close>

function checkout_tree_recursive ::
    "nat \<Rightarrow> zlib \<Rightarrow> nat \<Rightarrow> u32 \<Rightarrow> bytes \<Rightarrow> bool \<Rightarrow> oid \<Rightarrow> bytes \<Rightarrow> wt_state \<Rightarrow> (unit res \<times> wt_state) option"
  and checkout_items ::
    "nat \<Rightarrow> zlib \<Rightarrow> nat \<Rightarrow> u32 \<Rightarrow> bytes \<Rightarrow> bool \<Rightarrow> bytes \<Rightarrow> bytes \<Rightarrow> wt_state \<Rightarrow> (unit res \<times> wt_state) option" where
  "checkout_tree_recursive n z mem umask root force x pfx st =
     (case n of
        0 \<Rightarrow> None
      | Suc n' \<Rightarrow>
          (case read_odb z mem x (fst st) of
             (Inl e, o2) \<Rightarrow> Some (Inl e, o2, snd st)
           | (Inr ob, o2) \<Rightarrow>
               if oo_type ob \<noteq> TREE then Some (Inl EINVAL, o2, snd st)
               else checkout_items n' z mem umask root force (oo_data ob) pfx (o2, snd st)))"
| "checkout_items n z mem umask root force s pfx st =
     (if s = [] then Some (Inr (), st)
      else case checkout_item s of
        None \<Rightarrow> Some (Inl EINVAL, st)
      | Some (t, r) \<Rightarrow>
          (let full = join_path pfx (te_path t) in
           case (if S_ISDIR (te_mode t) then checkout_tree_recursive n z mem umask root force (te_oid t) full st
                 else Some (checkout_entry z mem umask root full (te_oid t) (te_mode t) st)) of
             None \<Rightarrow> None
           | Some (Inl e, st') \<Rightarrow>
               if e = Undefined \<or> \<not> force then Some (Inl e, st')
               else checkout_items n z mem umask root force r pfx st'
           | Some (Inr u, st') \<Rightarrow> checkout_items n z mem umask root force r pfx st'))"
  by pat_completeness auto
termination
  by (relation "measures [\<lambda>x. case x of Inl (n, _) \<Rightarrow> n | Inr (n, _) \<Rightarrow> n,
        \<lambda>x. case x of Inl _ \<Rightarrow> 0 | Inr (n, z, mem, umask, root, force, s, _) \<Rightarrow> Suc (length s)]")
    (auto dest!: checkout_item_length)

declare checkout_tree_recursive.simps [simp del] checkout_items.simps [simp del]

definition fastgit_checkout_tree ::
    "nat \<Rightarrow> zlib \<Rightarrow> nat \<Rightarrow> u32 \<Rightarrow> worktree \<Rightarrow> oid \<Rightarrow> bool \<Rightarrow> work \<Rightarrow> (unit res \<times> wt_state) option" where
  "fastgit_checkout_tree n z mem umask wt x force w =
     checkout_tree_recursive n z mem umask (wt_path wt) force x [] (wt_odb wt, w)"

section \<open>Status\<close>

datatype status = STATUS_CURRENT | INDEX_NEW | INDEX_MODIFIED | INDEX_DELETED | INDEX_RENAMED | INDEX_TYPECHANGE
  | WT_NEW | WT_MODIFIED | WT_DELETED | WT_RENAMED | WT_TYPECHANGE | STATUS_IGNORED | STATUS_CONFLICTED

record status_entry =
  se_path :: bytes
  se_index_status :: status
  se_worktree_status :: status
  se_index_oid :: oid
  se_worktree_oid :: oid
  se_index_mode :: u32
  se_worktree_mode :: u32

definition zero_oid :: oid where "zero_oid = \<lparr>oid_algo = 0, oid_hash = []\<rparr>"

definition deleted_entry :: "index_entry \<Rightarrow> status_entry" where
  "deleted_entry e =
     \<lparr>se_path = ie_path e, se_index_status = INDEX_MODIFIED, se_worktree_status = WT_DELETED,
      se_index_oid = ie_oid e, se_worktree_oid = zero_oid, se_index_mode = ie_mode e, se_worktree_mode = 0\<rparr>"

definition node_mode :: "node \<Rightarrow> u32" where
  "node_mode n = (case n of Reg m d \<Rightarrow> m AND 0x1FF | Dir \<Rightarrow> 0x1ED)"

text \<open>The results of the hash functions are not looked at; without a context there is ENOMEM.\<close>

definition status_compare_entry :: "evp option \<Rightarrow> nat \<Rightarrow> bytes \<Rightarrow> work \<Rightarrow> index_entry \<Rightarrow> status_entry res" where
  "status_compare_entry crypto mem root w e =
     (let full = bufn 4096 (root @ [47] @ ie_path e) in
      case map_of w full of
        None \<Rightarrow> Inr (deleted_entry e)
      | Some nd \<Rightarrow>
          (case read_node mem full w of
             None \<Rightarrow> Inr (deleted_entry e)
           | Some r \<Rightarrow>
               bindr r (\<lambda>data.
               bindr (case blob_oid crypto data of
                   Inl er \<Rightarrow> Inl (if er = ENOMEM then ENOMEM else Undefined) | Inr x \<Rightarrow> Inr x) (\<lambda>x.
                 let same = oid_eq (ie_oid e) x in
                 Inr \<lparr>se_path = ie_path e,
                      se_index_status = (if same then STATUS_CURRENT else INDEX_MODIFIED),
                      se_worktree_status = (if same then STATUS_CURRENT else WT_MODIFIED),
                      se_index_oid = ie_oid e, se_worktree_oid = x, se_index_mode = ie_mode e,
                      se_worktree_mode = node_mode nd\<rparr>))))"

text \<open>
  With at least 128 entries the comparisons run on a pool of threads; if one of them fails, or there
  is no pool, all are done again in order.
\<close>

definition status_tracked :: "evp option \<Rightarrow> nat \<Rightarrow> bool \<Rightarrow> bytes \<Rightarrow> work \<Rightarrow> index_entry list \<Rightarrow> status_entry list res" where
  "status_tracked crypto mem pool root w es =
     (let normal = filter (\<lambda>e. ie_stage e = STAGE_NORMAL) es;
          outs = map (status_compare_entry crypto mem root w) normal
      in if 128 \<le> length es \<and> normal \<noteq> [] \<and> pool \<and> (\<forall>r \<in> set outs. \<exists>x. r = Inr x) then Inr (good outs)
         else mapr (status_compare_entry crypto mem root w) normal)"

definition untracked_entry :: "bytes \<Rightarrow> node \<Rightarrow> status_entry" where
  "untracked_entry rel n =
     \<lparr>se_path = rel, se_index_status = STATUS_CURRENT, se_worktree_status = WT_NEW, se_index_oid = zero_oid,
      se_worktree_oid = zero_oid, se_index_mode = 0, se_worktree_mode = node_mode n\<rparr>"

text \<open>What readdir gives for a directory.\<close>

definition readdir :: "work \<Rightarrow> bytes \<Rightarrow> bytes list" where
  "readdir w dir = List.map_filter (\<lambda>(p, n).
     case rsplit_at 47 p of None \<Rightarrow> None | Some (d, name) \<Rightarrow> if d = dir \<and> name \<noteq> [] then Some name else None) w"

definition under :: "bytes \<Rightarrow> bytes \<Rightarrow> bytes" where
  "under root rel = bufn 4096 (if rel = [] then root else root @ [47] @ rel)"

text \<open>The entries of one directory: the directories to visit, the files that the index does not have.\<close>

fun scan_entries :: "work \<Rightarrow> bytes \<Rightarrow> bytes \<Rightarrow> bytes list \<Rightarrow> index \<Rightarrow> (bytes list \<times> status_entry list \<times> index) res" where
  "scan_entries w root rel [] ix = Inr ([], [], ix)"
| "scan_entries w root rel (name # ns) ix =
     (if rel = [] \<and> name = str ''.git'' then scan_entries w root rel ns ix
      else let child = join_path rel name in
        case map_of w (bufn 4096 (root @ [47] @ child)) of
          None \<Rightarrow> scan_entries w root rel ns ix
        | Some Dir \<Rightarrow> bindr (scan_entries w root rel ns ix) (\<lambda>(ds, us, ix'). Inr (child # ds, us, ix'))
        | Some (Reg m d) \<Rightarrow>
            bindr (fastgit_index_find ix child STAGE_NORMAL) (\<lambda>(found, ix1).
            bindr (scan_entries w root rel ns ix1) (\<lambda>(ds, us, ix').
              Inr (ds, (if found = None then untracked_entry child (Reg m d) # us else us), ix'))))"

text \<open>
  The directories still to visit are a stack. A path that does not fit its buffer is cut off, so the
  walk need not end when paths are that long.
\<close>

partial_function (option) scan_untracked ::
    "work \<Rightarrow> bytes \<Rightarrow> bytes list \<Rightarrow> status_entry list \<Rightarrow> index \<Rightarrow> (status_entry list \<times> index) res option" where
  "scan_untracked w root stack acc ix =
     (if stack = [] then Some (Inr (acc, ix))
      else let rel = last stack in
        if \<not> is_dir w (under root rel) then scan_untracked w root (butlast stack) acc ix
        else case scan_entries w root rel (readdir w (under root rel)) ix of
          Inl e \<Rightarrow> Some (Inl e)
        | Inr (ds, us, ix') \<Rightarrow> scan_untracked w root (butlast stack @ ds) (acc @ us) ix')"

definition fastgit_status ::
    "evp option \<Rightarrow> nat \<Rightarrow> bool \<Rightarrow> worktree \<Rightarrow> work \<Rightarrow> index option \<Rightarrow> (status_entry list \<times> index) res option" where
  "fastgit_status crypto mem pool wt w ixo =
     (case ixo of
        None \<Rightarrow> Some (Inl EINVAL)
      | Some ix \<Rightarrow>
          (case status_tracked crypto mem pool (wt_path wt) w (ix_entries ix) of
             Inl e \<Rightarrow> Some (Inl e)
           | Inr ts \<Rightarrow> scan_untracked w (wt_path wt) [[]] ts ix))"

section \<open>Diffs\<close>

definition diff_read_index_blob :: "zlib \<Rightarrow> nat \<Rightarrow> fs \<Rightarrow> worktree \<Rightarrow> oid \<Rightarrow> bytes res \<times> worktree" where
  "diff_read_index_blob z mem ds wt x =
     (case (case wt_odb wt of Some db \<Rightarrow> db
            | None \<Rightarrow> fastgit_odb_open (ds (bufn 4096 (wt_gitdir wt @ str ''/objects'')))) of
        db \<Rightarrow>
       (case fastgit_odb_read z mem x db of
          (r, db') \<Rightarrow>
            (bindr r (\<lambda>ob. if oo_type ob \<noteq> BLOB then Inl EINVAL else Inr (oo_data ob)),
             wt\<lparr>wt_odb := map_option (\<lambda>_. db') (wt_odb wt)\<rparr>)))"

definition diff_read_worktree_file :: "nat \<Rightarrow> worktree \<Rightarrow> work \<Rightarrow> bytes \<Rightarrow> bytes res" where
  "diff_read_worktree_file mem wt w rel =
     (case read_node mem (bufn 4096 (wt_path wt @ [47] @ rel)) w of None \<Rightarrow> Inl ENOENT | Some r \<Rightarrow> r)"

function text_lines :: "bytes \<Rightarrow> bytes list" where
  "text_lines s =
     (if s = [] then []
      else let l = takeWhile (\<lambda>c. c \<noteq> 10) s in l # text_lines (drop (length l + 1) s))"
  by pat_completeness auto
termination
  by (relation "measure length") auto

declare text_lines.simps [simp del]

definition count_lines :: "bytes \<Rightarrow> nat" where
  "count_lines s = length (filter (\<lambda>c. c = 10) s) + (if s \<noteq> [] \<and> last s \<noteq> 10 then 1 else 0)"

definition diff_emit_hunk :: "bytes \<Rightarrow> bytes \<Rightarrow> bytes" where
  "diff_emit_hunk old new =
     (let o1 = count_lines old; n1 = count_lines new in
      if o1 = 0 \<and> n1 = 0 then []
      else str ''@@ -1,'' @ dec (if o1 \<noteq> 0 then o1 else 1) @ str '' +1,'' @ dec (if n1 \<noteq> 0 then n1 else 1) @ str '' @@'' @ [10]
        @ concat (map (\<lambda>l. [45] @ l @ [10]) (text_lines old))
        @ concat (map (\<lambda>l. [43] @ l @ [10]) (text_lines new)))"

text \<open>
  The text is printed into a buffer of 512 bytes, but as many bytes are appended as it would take.
\<close>

definition diff_header :: "bytes \<Rightarrow> bytes res" where
  "diff_header txt =
     (if length txt < 512 then Inr txt else if length txt = 512 then Inr (take 511 txt @ [0]) else Inl Undefined)"

definition pad0 :: "nat \<Rightarrow> bytes \<Rightarrow> bytes" where
  "pad0 n s = replicate (n - length s) 48 @ s"

definition diff_entry :: "zlib \<Rightarrow> nat \<Rightarrow> fs \<Rightarrow> work \<Rightarrow> status_entry \<Rightarrow> worktree \<Rightarrow> bytes res \<times> worktree" where
  "diff_entry z mem ds w se wt =
     (let p = se_path se; short = (\<lambda>x. take 7 (hex_or_empty x));
          hdr = bindr (diff_header (str ''diff --git a/'' @ p @ str '' b/'' @ p @ [10])) (\<lambda>h1.
                bindr (diff_header (str ''index '' @ short (se_index_oid se) @ str ''..'' @ short (se_worktree_oid se) @ [32]
                         @ pad0 6 (oct (unat (se_index_mode se AND 0x1FF))) @ [10])) (\<lambda>h2.
                bindr (diff_header (str ''--- a/'' @ p @ [10] @ str ''+++ b/'' @ p @ [10])) (\<lambda>h3. Inr (h1 @ h2 @ h3))))
      in case hdr of
           Inl e \<Rightarrow> (Inl e, wt)
         | Inr h \<Rightarrow>
             (case diff_read_index_blob z mem ds wt (se_index_oid se) of
                (Inl e, wt') \<Rightarrow> (if e = Undefined then Inl e else Inr h, wt')
              | (Inr old, wt') \<Rightarrow>
                  (case diff_read_worktree_file mem wt' w p of
                     Inl e \<Rightarrow> (Inr h, wt')
                   | Inr new \<Rightarrow> (Inr (h @ diff_emit_hunk old new), wt'))))"

definition se_changed :: "status_entry \<Rightarrow> bool" where
  "se_changed se \<longleftrightarrow> se_index_status se \<noteq> STATUS_CURRENT \<or> se_worktree_status se \<noteq> STATUS_CURRENT"

fun diff_entries :: "zlib \<Rightarrow> nat \<Rightarrow> fs \<Rightarrow> work \<Rightarrow> bytes option \<Rightarrow> status_entry list \<Rightarrow> bytes \<Rightarrow> worktree \<Rightarrow> bytes res \<times> worktree" where
  "diff_entries z mem ds w path [] acc wt = (Inr acc, wt)"
| "diff_entries z mem ds w path (se # ses) acc wt =
     (if (\<exists>p. path = Some p \<and> se_path se \<noteq> p) \<or> \<not> se_changed se then diff_entries z mem ds w path ses acc wt
      else case diff_entry z mem ds w se wt of
        (Inl e, wt') \<Rightarrow> (Inl e, wt')
      | (Inr d, wt') \<Rightarrow> diff_entries z mem ds w path ses (acc @ d) wt')"

text \<open>
  Without changes the C string is NULL or empty; where a file has bytes 0 it ends early.
\<close>

definition fastgit_diff_worktree ::
    "evp option \<Rightarrow> zlib \<Rightarrow> nat \<Rightarrow> bool \<Rightarrow> fs \<Rightarrow> bytes option \<Rightarrow> worktree \<Rightarrow> work \<Rightarrow> index option \<Rightarrow>
      (bytes res \<times> worktree \<times> index option) option" where
  "fastgit_diff_worktree crypto z mem pool ds path wt w ixo =
     (case (case (path, ixo) of
              (Some p, Some ix) \<Rightarrow> bindr (fastgit_index_find ix p STAGE_NORMAL) (\<lambda>(eo, ix1). Inr (eo, Some ix1))
            | _ \<Rightarrow> Inr (None, ixo)) of
        Inl e \<Rightarrow> Some (Inl e, wt, ixo)
      | Inr (Some e, ixo1) \<Rightarrow>
          (case status_compare_entry crypto mem (wt_path wt) w e of
             Inl er \<Rightarrow> Some (Inl er, wt, ixo1)
           | Inr se \<Rightarrow>
               (case (if se_changed se then diff_entry z mem ds w se wt else (Inr [], wt)) of
                  (r, wt') \<Rightarrow> Some (r, wt', ixo1)))
      | Inr (None, ixo1) \<Rightarrow>
          (case fastgit_status crypto mem pool wt w ixo1 of
             None \<Rightarrow> None
           | Some (Inl er) \<Rightarrow> Some (Inl er, wt, ixo1)
           | Some (Inr (ses, ix2)) \<Rightarrow>
               (case diff_entries z mem ds w path ses [] wt of (r, wt') \<Rightarrow> Some (r, wt', Some ix2))))"

definition fastgit_diff_index :: "unit res" where "fastgit_diff_index = Inl EUNSUPPORTED"
definition fastgit_diff_trees :: "unit res" where "fastgit_diff_trees = Inl EUNSUPPORTED"

section \<open>Further working trees\<close>

definition wt_write_file :: "bytes \<Rightarrow> bytes \<Rightarrow> files \<Rightarrow> files" where
  "wt_write_file path d fs = put_file path d fs"

text \<open>Administrative files are those of the repository (as in \<^theory_text>\<open>Refs\<close>).\<close>

definition file_exists :: "files \<Rightarrow> bytes \<Rightarrow> bool" where
  "file_exists fs p \<longleftrightarrow> (\<exists>(q, c) \<in> set fs. q = p \<or> prefix (p @ [47]) q)"

definition head_content :: "bytes option \<Rightarrow> oid \<Rightarrow> bytes" where
  "head_content refspec x =
     (case refspec of
        Some r \<Rightarrow> if starts ''refs/heads/'' r \<or> starts ''refs/tags/'' r then bufn 1024 (str ''ref: '' @ r @ [10])
                  else hex_or_empty x @ [10]
      | None \<Rightarrow> hex_or_empty x @ [10])"

text \<open>
  \<open>git_dir\<close> is the value of GIT_DIR, \<open>cwd\<close> the current directory. The .git of the new tree is a file,
  so there is no index file, and the object directory opened below it is that of \<open>ds\<close>; the commit
  found for the reference is checked out as if it were a tree.
\<close>

definition fastgit_worktree_add ::
    "nat \<Rightarrow> zlib \<Rightarrow> nat \<Rightarrow> u32 \<Rightarrow> fs \<Rightarrow> bytes option \<Rightarrow> bytes \<Rightarrow> bytes \<Rightarrow> bytes option \<Rightarrow> repo \<times> odb \<times> work \<Rightarrow>
      (unit res \<times> repo \<times> odb \<times> work) option" where
  "fastgit_worktree_add n z mem umask ds git_dir cwd path refspec st =
     (case st of (rp, db, w) \<Rightarrow>
       let git_file = bufn 1024 (path @ str ''/.git'') in
       if file_exists (rp_files rp) git_file \<or> map_of w git_file \<noteq> None then Some (Inl EEXIST, rp, db, w)
       else case fastgit_rev_parse z mem rp (case refspec of Some r \<Rightarrow> r | None \<Rightarrow> str ''HEAD'') db of
         (Inl e, db1) \<Rightarrow> Some (Inl (if e = Undefined then Undefined else ENOENT), rp, db1, w)
       | (Inr x, db1) \<Rightarrow>
           if map_of w path = None \<and> map_of (mkdir w path) path = None then Some (Inl EIO, rp, db1, w)
           else
             let w1 = mkdir w path;
                 main_gitdir = bufn 1024 (case git_dir of None \<Rightarrow> cwd @ str ''/.git'' | Some g \<Rightarrow> g);
                 wt_dir = bufn 1024 (main_gitdir @ str ''/worktrees/'' @ path);
                 fs1 = wt_write_file git_file
                         (bufn 1024 (str ''gitdir: '' @ main_gitdir @ str ''/worktrees/'' @ path @ [10])) (rp_files rp);
                 fs2 = wt_write_file (bufn 1024 (wt_dir @ str ''/HEAD'')) (head_content refspec x) fs1;
                 fs3 = wt_write_file (bufn 1024 (wt_dir @ str ''/commondir'')) (str ''../..'') fs2;
                 rp1 = rp\<lparr>rp_files := fs3\<rparr>
             in (case fastgit_worktree_open mem ds None path of
                   Inl e \<Rightarrow> if e = Undefined then Some (Inl Undefined, rp1, db1, w1) else Some (Inr (), rp1, db1, w1)
                 | Inr (wt, ix) \<Rightarrow>
                     (case fastgit_checkout_tree n z mem umask wt x True w1 of
                        None \<Rightarrow> None
                      | Some (r, o2, w2) \<Rightarrow>
                          Some (if r = Inl Undefined then Inl Undefined else Inr (), rp1, db1, w2))))"

text \<open>\<open>system\<close> runs a command of the shell.\<close>

definition fastgit_worktree_remove :: "(bytes \<Rightarrow> 'w \<Rightarrow> bool \<times> 'w) \<Rightarrow> bytes \<Rightarrow> 'w \<Rightarrow> unit res \<times> 'w" where
  "fastgit_worktree_remove system path w =
     (case system (bufn 2048 (str ''rm -rf '' @ path)) w of (ok, w') \<Rightarrow> (if ok then Inr () else Inl EIO, w'))"

record worktree_info =
  wi_path :: bytes
  wi_gitdir :: bytes
  wi_head_ref :: bytes
  wi_is_bare :: bool
  wi_is_detached :: bool

definition fastgit_worktree_list :: "bytes \<Rightarrow> worktree_info list" where
  "fastgit_worktree_list cwd =
     [\<lparr>wi_path = cwd, wi_gitdir = str ''.git'', wi_head_ref = str ''refs/heads/main'', wi_is_bare = False, wi_is_detached = False\<rparr>]"

end
