(* ===== verification/WorktreeProps.thy ===== *)
theory WorktreeProps
  imports Worktree IndexTreeProps "HOL-Library.Multiset_Order"
begin

unbundle bit_operations_syntax

text \<open>
  What a checkout leaves in the working tree, and what status and diff then say of it.
\<close>

section \<open>Directories\<close>

definition above :: "bytes \<Rightarrow> bytes \<Rightarrow> bool" where
  "above q p \<longleftrightarrow> q \<noteq> [] \<and> prefix (q @ [47]) p"

lemma above_take: "above q p \<longleftrightarrow> (\<exists>i. 1 \<le> i \<and> i < length p \<and> p ! i = 47 \<and> q = take i p)"
proof
  assume a: "above q p"
  then obtain r where p: "p = q @ 47 # r" by (auto simp: above_def prefix_def)
  have "1 \<le> length q" using a by (cases q) (simp_all add: above_def)
  then show "\<exists>i. 1 \<le> i \<and> i < length p \<and> p ! i = 47 \<and> q = take i p"
    using p by (intro exI[of _ "length q"]) (simp add: nth_append)
next
  assume "\<exists>i. 1 \<le> i \<and> i < length p \<and> p ! i = 47 \<and> q = take i p"
  then obtain i where i: "1 \<le> i" "i < length p" "p ! i = 47" "q = take i p" by blast
  have "p = q @ 47 # drop (Suc i) p" using i id_take_nth_drop[of i p] by simp
  then show "above q p" using i by (auto simp: above_def prefix_def)
qed

lemma above_length: "above q p \<Longrightarrow> length q < length p"
  by (auto simp: above_take)

lemma above_ne: "above q p \<Longrightarrow> q \<noteq> []"
  by (simp add: above_def)

lemma above_trans: "above a b \<Longrightarrow> above b c \<Longrightarrow> above a c"
  by (auto simp: above_def prefix_def)

lemma rsplit_at_SomeD: "rsplit_at c s = Some (a, b) \<Longrightarrow> s = a @ c # b \<and> c \<notin> set b"
proof -
  assume "rsplit_at c s = Some (a, b)"
  then have "split_at c (rev s) = Some (rev b, rev a)" by (auto simp: rsplit_at_def)
  then show ?thesis using split_at_SomeD[of c "rev s" "rev b" "rev a"] by (metis append.assoc append_Cons append_Nil rev.simps(2) rev_append rev_rev_ident set_rev)
qed

lemma dirname_above: "dirname p = [] \<or> above (dirname p) p"
  by (auto simp: dirname_def above_def split: option.splits dest!: rsplit_at_SomeD)

lemma dirname_simps [simp]: "47 \<notin> set b \<Longrightarrow> dirname (a @ 47 # b) = a"
  using rsplit_at_append[of 47 b a] by (simp add: dirname_def)

lemma above_dirname: "above q p \<longleftrightarrow> q \<noteq> [] \<and> (q = dirname p \<or> above q (dirname p))"
proof (cases "rsplit_at 47 p")
  case None
  then have "47 \<notin> set p" by (simp add: rsplit_at_def split_at_None_iff)
  then show ?thesis using None by (auto simp: dirname_def above_def prefix_def)
next
  case (Some ab)
  then obtain a b where ab: "rsplit_at 47 p = Some (a, b)" by (cases ab) auto
  have p: "p = a @ 47 # b" "47 \<notin> set b" using rsplit_at_SomeD[OF ab] by simp_all
  have "prefix (q @ [47]) p \<longleftrightarrow> q = a \<or> prefix (q @ [47]) a"
  proof
    assume "prefix (q @ [47]) p"
    then obtain r where "q @ 47 # r = a @ 47 # b" using p by (auto simp: prefix_def)
    then obtain us where us: "q = a @ us \<and> us @ 47 # r = 47 # b \<or> q @ us = a \<and> 47 # r = us @ 47 # b"
      by (auto simp: append_eq_append_conv2)
    then show "q = a \<or> prefix (q @ [47]) a"
    proof
      assume "q = a @ us \<and> us @ 47 # r = 47 # b"
      then show ?thesis using p(2) by (cases us) auto
    next
      assume "q @ us = a \<and> 47 # r = us @ 47 # b"
      then show ?thesis by (cases us) (auto simp: prefix_def)
    qed
  qed (auto simp: p prefix_def)
  then show ?thesis by (auto simp: above_def p)
qed

lemma map_of_mkdir: "map_of (mkdir w p) q =
    (if q = p \<and> map_of w p = None \<and> p \<noteq> [] \<and> is_dir w (dirname p) then Some Dir else map_of w q)"
  by (auto simp: mkdir_def map_add_def split: option.splits)

definition no_file :: "(bytes \<rightharpoonup> node) \<Rightarrow> bytes \<Rightarrow> bool" where
  "no_file W q \<longleftrightarrow> (\<forall>m c. W q \<noteq> Some (Reg m c))"

lemma no_file_iff: "no_file W q \<longleftrightarrow> W q = None \<or> W q = Some Dir"
  unfolding no_file_def by (metis node.exhaust option.exhaust option.distinct(1) option.inject node.distinct(1))

lemma mkdir_dirs:
  assumes "\<forall>q. above q d \<longrightarrow> no_file (map_of w) q" "n \<le> length d"
  shows "map_of (foldl mkdir w (map (\<lambda>i. take i d) (filter (\<lambda>i. d ! i = 47) [1..<n]))) q =
    (if \<exists>i. 1 \<le> i \<and> i < n \<and> d ! i = 47 \<and> q = take i d then Some Dir else map_of w q)"
  using assms(2)
proof (induction n arbitrary: q)
  case (Suc n)
  let ?w = "foldl mkdir w (map (\<lambda>i. take i d) (filter (\<lambda>i. d ! i = 47) [1..<n]))"
  have IH: "map_of ?w q = (if \<exists>i. 1 \<le> i \<and> i < n \<and> d ! i = 47 \<and> q = take i d then Some Dir else map_of w q)" for q
    using Suc by simp
  show ?case
  proof (cases "1 \<le> n \<and> d ! n = 47")
    case False
    then have "(\<exists>i. 1 \<le> i \<and> i < Suc n \<and> d ! i = 47 \<and> q = take i d) \<longleftrightarrow> (\<exists>i. 1 \<le> i \<and> i < n \<and> d ! i = 47 \<and> q = take i d)"
      by (metis less_Suc_eq)
    then show ?thesis using IH[of q] False by (cases "1 \<le> n") auto
  next
    case True
    let ?p = "take n d"
    have ap: "above ?p d" unfolding above_take using True Suc.prems by auto
    have nf: "map_of ?w ?p = None \<or> map_of ?w ?p = Some Dir"
      using IH[of ?p] assms(1) ap by (auto simp: no_file_iff)
    have dir: "is_dir ?w (dirname ?p)"
    proof (cases "dirname ?p = []")
      case False
      then have "above (dirname ?p) ?p" using dirname_above by blast
      then obtain i where i: "1 \<le> i" "i < length ?p" "?p ! i = 47" "dirname ?p = take i ?p" by (auto simp: above_take)
      then have "i < n" by simp
      then have "\<exists>i. 1 \<le> i \<and> i < n \<and> d ! i = 47 \<and> dirname ?p = take i d"
        using i by (intro exI[of _ i]) (simp add: min_def)
      then show ?thesis using IH[of "dirname ?p"] by (simp add: is_dir_def)
    qed (simp add: is_dir_def)
    have ne: "?p \<noteq> []" using True Suc.prems by auto
    have m: "map_of (mkdir ?w ?p) q = (if q = ?p then Some Dir else map_of ?w q)"
      using nf dir ne by (auto simp: map_of_mkdir)
    have e: "foldl mkdir w (map (\<lambda>i. take i d) (filter (\<lambda>i. d ! i = 47) [1..<Suc n])) = mkdir ?w ?p"
      using True by simp
    have "(\<exists>i. 1 \<le> i \<and> i < Suc n \<and> d ! i = 47 \<and> q = take i d) \<longleftrightarrow>
        q = ?p \<or> (\<exists>i. 1 \<le> i \<and> i < n \<and> d ! i = 47 \<and> q = take i d)"
      using True less_Suc_eq by metis
    then show ?thesis unfolding e m IH[of q] by auto
  qed
qed simp

lemma mkdir_p_ok:
  assumes "\<forall>q. q = d \<or> above q d \<longrightarrow> no_file (map_of w) q" "d \<noteq> []" "length d < 4096"
  shows "map_of (mkdir_p d w) q = (if q = d \<or> above q d then Some Dir else map_of w q)"
proof -
  let ?w = "foldl mkdir w (map (\<lambda>i. take i d) (filter (\<lambda>i. d ! i = 47) [1..<length d]))"
  have w: "map_of ?w q = (if above q d then Some Dir else map_of w q)" for q
    using mkdir_dirs[of d w "length d" q] assms(1) by (auto simp: above_take)
  have "\<not> above d d" using above_length by blast
  then have d: "map_of ?w d = None \<or> map_of ?w d = Some Dir" using w[of d] assms(1) by (auto simp: no_file_iff)
  have "is_dir ?w (dirname d)" using dirname_above[of d] w[of "dirname d"] by (auto simp: is_dir_def)
  then have "map_of (mkdir ?w d) q = (if q = d then Some Dir else map_of ?w q)"
    using d assms(2) by (auto simp: map_of_mkdir)
  then show ?thesis using w[of q] assms(3) by (simp add: mkdir_p_def bufn_def)
qed

lemma map_of_put_node: "map_of (put_node p n w) = (map_of w)(p \<mapsto> n)"
proof (rule ext)
  fix q
  have "map_of (map (\<lambda>(q, m). if q = p then (q, n) else (q, m)) w) q = (if q = p then map_option (\<lambda>_. n) (map_of w q) else map_of w q)"
    by (induction w) auto
  then show "map_of (put_node p n w) q = ((map_of w)(p \<mapsto> n)) q"
    by (auto simp: put_node_def map_add_def split: option.splits)
qed

section \<open>Overlays\<close>

text \<open>The tree \<open>W\<close> with the files \<open>S\<close> and the directories above them.\<close>

definition overlay :: "(bytes \<rightharpoonup> node) \<Rightarrow> (bytes \<rightharpoonup> node) \<Rightarrow> bytes \<rightharpoonup> node" where
  "overlay W S q = (case S q of Some n \<Rightarrow> Some n | None \<Rightarrow> if \<exists>p \<in> dom S. above q p then Some Dir else W q)"

lemma overlay_empty [simp]: "overlay W Map.empty = W"
  by (rule ext) (simp add: overlay_def)

text \<open>The files of \<open>S\<close> can be put into \<open>W\<close>: all are new, no file is where a directory is needed.\<close>

definition fits :: "(bytes \<rightharpoonup> node) \<Rightarrow> bytes set \<Rightarrow> bool" where
  "fits W ps \<longleftrightarrow> (\<forall>p \<in> ps. p \<noteq> [] \<and> 47 \<in> set p \<and> length p < 4096 \<and> W p = None \<and>
     (\<forall>q. above q p \<longrightarrow> no_file W q \<and> q \<notin> ps))"

lemma fits_mono: "fits W ps \<Longrightarrow> qs \<subseteq> ps \<Longrightarrow> fits W qs"
  by (auto simp: fits_def)

lemma overlay_write:
  assumes f: "fits W (insert p (dom S))" and new: "p \<notin> dom S" and w: "map_of w = overlay W S"
    and d: "rsplit_at 47 p = Some (d, b)"
  shows "\<exists>w'. write_new umask perm p c (mkdir_p d w) = Some w' \<and> map_of w' = overlay W (S(p \<mapsto> Reg (perm AND NOT umask) c))"
proof -
  have p: "p = d @ 47 # b" "47 \<notin> set b" using rsplit_at_SomeD[OF d] by simp_all
  have dn: "dirname p = d" by (simp add: dirname_def d)
  have len: "length d < 4096" using f by (auto simp: fits_def p)
  have ab: "above q p \<longleftrightarrow> q \<noteq> [] \<and> (q = d \<or> above q d)" for q using above_dirname[of q p] dn by simp
  have nf: "no_file (map_of w) q" if "above q p" for q
    using f that above_trans[of q p] by (fastforce simp: w overlay_def fits_def no_file_iff dom_def split: option.splits)
  let ?w = "if d = [] then w else mkdir_p d w"
  have dd: "mkdir_p [] w = w" by (simp add: mkdir_p_def bufn_def mkdir_def)
  have W1: "map_of (mkdir_p d w) q = (if above q p then Some Dir else map_of w q)" for q
  proof (cases "d = []")
    case True
    have "\<not> above q p" unfolding ab using True by (auto simp: above_def)
    then show ?thesis using dd True by simp
  next
    case False
    have "above q p" if "q = d \<or> above q d" for q using that False above_ne[of q d] unfolding ab by auto
    then have "\<forall>q. q = d \<or> above q d \<longrightarrow> no_file (map_of w) q" using nf by blast
    then have "map_of (mkdir_p d w) q = (if q = d \<or> above q d then Some Dir else map_of w q)"
      using mkdir_p_ok[of d w q] False len by blast
    then show ?thesis unfolding ab using False above_ne[of q d] by (cases "q = []") auto
  qed
  have none: "map_of w p = None"
    unfolding w overlay_def using f new by (auto simp: fits_def split: option.splits)
  have "\<not> above p p" using above_length by blast
  then have none1: "map_of (mkdir_p d w) p = None" using W1[of p] none by simp
  have "is_dir (mkdir_p d w) (dirname p)"
    using W1[of d] by (cases "d = []") (simp_all add: is_dir_def dn ab)
  then have wr: "write_new umask perm p c (mkdir_p d w) = Some (put_node p (Reg (perm AND NOT umask) c) (mkdir_p d w))"
    using none1 by (simp add: write_new_def)
  moreover have "map_of (put_node p (Reg (perm AND NOT umask) c) (mkdir_p d w)) q = overlay W (S(p \<mapsto> Reg (perm AND NOT umask) c)) q" for q
  proof -
    have n: "S q = None" if "above q p" using f that by (auto simp: fits_def dom_def)
    have "q \<noteq> p" if "above q p'" "p' \<in> dom S" for p' using f that by (auto simp: fits_def)
    then show ?thesis using n W1[of q] by (auto simp: map_of_put_node w overlay_def split: option.splits)
  qed
  ultimately show ?thesis by blast
qed

section \<open>Checking out files\<close>

abbreviation (input) in_odb :: "zlib \<Rightarrow> nat \<Rightarrow> odb \<Rightarrow> oid \<Rightarrow> obj_type \<times> bytes \<Rightarrow> bool" where
  "in_odb z mem \<equiv> object_store.holds (odb_get z mem) sha_key"

lemma read_held:
  assumes "odb_ok crypto z mem U db" "in_odb z mem db x (t, d)"
  obtains ob db' where "fastgit_odb_read z mem x db = (Inr ob, db')" "oo_type ob = t" "oo_data ob = d"
    "odb_ok crypto z mem U db'" "grows z mem db db'"
proof -
  obtain db' where g: "odb_get z mem db x = (Inr (t, d), db')" "odb_ok crypto z mem U db'" "grows z mem db db'"
    by (rule odbs.get_ok[OF assms])
  then obtain ob where "fastgit_odb_read z mem x db = (Inr ob, db')" "oo_type ob = t" "oo_data ob = d"
    by (auto simp: odb_get_def content_def bindr_Inr_iff split: prod.splits)
  then show ?thesis using that g by blast
qed

text \<open>Where an entry goes, and what is written there; \<open>c\<close> is the content of a blob.\<close>

definition target :: "bytes \<Rightarrow> index_entry \<Rightarrow> bytes" where
  "target root e = root @ [47] @ ie_path e"

definition wt_node :: "u32 \<Rightarrow> (oid \<Rightarrow> bytes) \<Rightarrow> index_entry \<Rightarrow> node" where
  "wt_node umask c e = Reg ((ie_mode e AND 0x1FF) AND NOT umask) (c (ie_oid e))"

definition wt_files :: "u32 \<Rightarrow> (oid \<Rightarrow> bytes) \<Rightarrow> bytes \<Rightarrow> index_entry list \<Rightarrow> bytes \<rightharpoonup> node" where
  "wt_files umask c root es = map_of (map (\<lambda>e. (target root e, wt_node umask c e)) es)"

lemma dom_wt_files: "dom (wt_files umask c root es) = target root ` set es"
  by (simp add: wt_files_def dom_map_of_conv_image_fst image_image)

lemma wt_files_snoc:
  assumes "target root e \<notin> target root ` set es"
  shows "wt_files umask c root (es @ [e]) = (wt_files umask c root es)(target root e \<mapsto> wt_node umask c e)"
proof -
  have "wt_files umask c root es (target root e) = None"
    using assms dom_wt_files[of umask c root es] by blast
  then show ?thesis by (intro ext) (simp add: wt_files_def map_add_def split: option.splits)
qed

lemma wt_files_mset:
  assumes "distinct (map (target root) xs)" "mset xs = mset ys"
  shows "wt_files umask c root xs = wt_files umask c root ys"
proof -
  have s: "set xs = set ys" by (rule mset_eq_setD[OF assms(2)])
  have "mset (map (target root) xs) = mset (map (target root) ys)" by (simp add: assms(2))
  then have "distinct (map (target root) ys)" using assms(1) mset_eq_imp_distinct_iff by blast
  then show ?thesis unfolding wt_files_def
    using assms(1) s by (subst map_of_inject_set) (simp_all add: comp_def)
qed

text \<open>
  The state of a checkout under way: the entries \<open>acc\<close> are there, on top of \<open>W\<close>; nothing of the
  database \<open>db0\<close> is lost.
\<close>

definition wt_ok :: "evp option \<Rightarrow> zlib \<Rightarrow> nat \<Rightarrow> (obj_type \<times> bytes) set \<Rightarrow> odb \<Rightarrow> u32 \<Rightarrow> (oid \<Rightarrow> bytes) \<Rightarrow> bytes \<Rightarrow>
    (bytes \<rightharpoonup> node) \<Rightarrow> index_entry list \<Rightarrow> wt_state \<Rightarrow> bool" where
  "wt_ok crypto z mem U db0 umask c root W acc st \<longleftrightarrow>
     (\<exists>db. fst st = Some db \<and> odb_ok crypto z mem U db \<and> grows z mem db0 db) \<and>
     map_of (snd st) = overlay W (wt_files umask c root acc)"

text \<open>What a set of entries must be like to be checked out below \<open>root\<close> into \<open>W\<close>.\<close>

definition fit_entries :: "zlib \<Rightarrow> nat \<Rightarrow> odb \<Rightarrow> (oid \<Rightarrow> bytes) \<Rightarrow> bytes \<Rightarrow> (bytes \<rightharpoonup> node) \<Rightarrow> index_entry list \<Rightarrow> bool" where
  "fit_entries z mem db0 c root W es \<longleftrightarrow>
     distinct (map ie_path es) \<and> fits W (target root ` set es) \<and>
     (\<forall>e \<in> set es. ie_path e \<noteq> [] \<and> hd (ie_path e) \<noteq> 47 \<and> \<not> S_ISDIR (ie_mode e) \<and>
        in_odb z mem db0 (ie_oid e) (BLOB, c (ie_oid e)))"

lemma distinct_target: "distinct (map (target root) es) \<longleftrightarrow> distinct (map ie_path es)"
  by (simp add: distinct_map inj_on_def target_def)

lemma sub_mset_distinct:
  assumes "mset xs \<subseteq># mset ys" "distinct (map f ys)"
  shows "distinct (map f xs) \<and> set xs \<subseteq> set ys"
proof -
  obtain zs where "mset ys - mset xs = mset zs" using ex_mset[of "mset ys - mset xs"] by metis
  then have m: "mset ys = mset (xs @ zs)" using assms(1) by (metis mset_append subset_mset.add_diff_inverse)
  then have "mset (map f ys) = mset (map f (xs @ zs))" by simp
  then have "distinct (map f (xs @ zs))" using assms(2) mset_eq_imp_distinct_iff by blast
  then show ?thesis using mset_eq_setD[OF m] by auto
qed

lemma checkout_entry_ok:
  assumes f: "fit_entries z mem db0 c root W es" and e: "mset (acc @ [e]) \<subseteq># mset es"
    and st: "wt_ok crypto z mem U db0 umask c root W acc st"
  shows "\<exists>st'. checkout_entry z mem umask root (ie_path e) (ie_oid e) (ie_mode e) st = (Inr (), st') \<and>
    wt_ok crypto z mem U db0 umask c root W (acc @ [e]) st'"
proof -
  let ?p = "target root e" and ?S = "wt_files umask c root"
  obtain db w where s: "st = (Some db, w)" "odb_ok crypto z mem U db" "grows z mem db0 db" "map_of w = overlay W (?S acc)"
    using st by (cases st) (auto simp: wt_ok_def)
  have d: "distinct (map (target root) es)" using f by (simp add: fit_entries_def distinct_target)
  have es: "distinct (map (target root) (acc @ [e]))" "set (acc @ [e]) \<subseteq> set es"
    using sub_mset_distinct[OF e d] by blast+
  have new: "?p \<notin> dom (?S acc)" using es(1) by (auto simp: dom_wt_files)
  have ft: "fits W (insert ?p (dom (?S acc)))"
    using f es(2) by (auto simp: fit_entries_def dom_wt_files intro!: fits_mono[where ps = "target root ` set es"])
  have len: "length ?p < 4096" "47 \<in> set ?p" using ft by (simp_all add: fits_def)
  have "in_odb z mem db (ie_oid e) (BLOB, c (ie_oid e))"
    using f es(2) s(3) by (auto simp: fit_entries_def odbs.extends_def)
  then obtain ob db' where r: "fastgit_odb_read z mem (ie_oid e) db = (Inr ob, db')" "oo_data ob = c (ie_oid e)"
    "odb_ok crypto z mem U db'" "grows z mem db db'"
    using read_held[OF s(2)] by metis
  obtain dd b where sp: "rsplit_at 47 ?p = Some (dd, b)"
    using len(2) by (cases "rsplit_at 47 ?p") (auto simp: rsplit_at_def split_at_None_iff)
  obtain w' where w': "write_new umask (ie_mode e AND 0x1FF) ?p (c (ie_oid e)) (mkdir_p dd w) = Some w'"
    "map_of w' = overlay W ((?S acc)(?p \<mapsto> wt_node umask c e))"
    using overlay_write[OF ft new s(4) sp, of umask "ie_mode e AND 0x1FF" "c (ie_oid e)"] by (auto simp: wt_node_def)
  have "bufn 4096 (root @ [47] @ ie_path e) = ?p" using len(1) by (simp add: bufn_def target_def)
  then have "checkout_entry z mem umask root (ie_path e) (ie_oid e) (ie_mode e) st = (Inr (), Some db', w')"
    using r w'(1) sp by (simp add: checkout_entry_def s(1) read_odb_def)
  moreover have "?S (acc @ [e]) = (?S acc)(?p \<mapsto> wt_node umask c e)"
    using new by (intro wt_files_snoc) (simp add: dom_wt_files)
  ultimately show ?thesis
    using r(3) odbs.extends_trans[OF s(3) r(4)] w'(2) by (auto simp: wt_ok_def)
qed

section \<open>Checking out an index\<close>

lemma checkout_entries_ok:
  assumes f: "fit_entries z mem db0 c root W es"
  shows "mset (acc @ xs) \<subseteq># mset es \<Longrightarrow> \<forall>e \<in> set xs. ie_stage e = STAGE_NORMAL \<Longrightarrow>
    wt_ok crypto z mem U db0 umask c root W acc st \<Longrightarrow>
    \<exists>st'. checkout_entries z mem umask root force xs st = (Inr (), st') \<and>
      wt_ok crypto z mem U db0 umask c root W (acc @ xs) st'"
proof (induction xs arbitrary: acc st)
  case (Cons e xs)
  have "mset (acc @ [e]) \<subseteq># mset es" using Cons.prems(1) by (rule subset_mset.order_trans[rotated]) simp
  then obtain st1 where s: "checkout_entry z mem umask root (ie_path e) (ie_oid e) (ie_mode e) st = (Inr (), st1)"
    "wt_ok crypto z mem U db0 umask c root W (acc @ [e]) st1"
    using checkout_entry_ok[OF f _ Cons.prems(3)] by blast
  show ?case using Cons.IH[OF _ _ s(2)] Cons.prems s(1) by simp
qed simp

section \<open>Checking out a tree\<close>

lemma checkout_item_entry:
  assumes "item_ok t"
  shows "checkout_item (entry_bytes t @ r) = Some (t, r)"
proof -
  let ?m = "oct (unat (te_mode t))"
  have "c \<in> set ?m \<Longrightarrow> 48 \<le> c" for c using print_base_range[of 8 c "unat (te_mode t)"] by simp
  then have sp: "32 \<notin> set ?m" by fastforce
  have nf: "0 \<notin> set (te_path t)" "nul_free ?m"
    using assms print_base_nul_free[of 8 "unat (te_mode t)"] by (simp_all add: item_ok_def nul_free_def)
  then have "cstr (entry_bytes t @ r) = ?m @ 32 # te_path t"
    by (simp add: entry_bytes_def cstr_def nul_free_def takeWhile_append takeWhile_tail)
  moreover have "strtoul 8 (?m @ 32 # te_path t) = (of_nat (unat (te_mode t)), 32 # te_path t)"
    using strtoul_print[of 8 "32 # te_path t" "unat (te_mode t)"] unat_u32[of "te_mode t"] by (simp add: stops_def digit_val_def)
  moreover have "ucast (of_nat (unat (te_mode t)) :: u64) = te_mode t" by (simp, rule bit_word_eqI, simp add: bit_simps)
  moreover have "split_at 32 (entry_bytes t @ r) = Some (?m, te_path t @ 0 # oid_hash (te_oid t) @ r)"
    using sp by (simp add: entry_bytes_def)
  ultimately show ?thesis
    using assms nf by (cases t, cases "te_oid t") (simp add: checkout_item_def item_ok_def)
qed

text \<open>
  The loop over the items of a tree, when each of them adds its group of entries. \<open>ps\<close> pairs the
  items with their groups.
\<close>

definition item_step :: "nat \<Rightarrow> zlib \<Rightarrow> nat \<Rightarrow> u32 \<Rightarrow> bytes \<Rightarrow> bool \<Rightarrow> bytes \<Rightarrow> tree_entry \<Rightarrow> wt_state \<Rightarrow> (unit res \<times> wt_state) option" where
  "item_step n z mem umask root force pfx t st =
     (if S_ISDIR (te_mode t) then checkout_tree_recursive n z mem umask root force (te_oid t) (join_path pfx (te_path t)) st
      else Some (checkout_entry z mem umask root (join_path pfx (te_path t)) (te_oid t) (te_mode t) st))"

lemma checkout_items_step:
  assumes "item_ok t" "item_step n z mem umask root force pfx t st = Some (Inr (), st')"
  shows "checkout_items n z mem umask root force (entry_bytes t @ r) pfx st = checkout_items n z mem umask root force r pfx st'"
proof -
  have "entry_bytes t \<noteq> []" by (simp add: entry_bytes_def)
  then show ?thesis
    using checkout_item_entry[OF assms(1), of r] assms(2)
    by (subst checkout_items.simps) (simp add: item_step_def Let_def)
qed

lemma checkout_items_ok:
  assumes "\<And>t g acc st. (t, g) \<in> set ps \<Longrightarrow> mset acc + mset g \<subseteq># A \<Longrightarrow> R acc st \<Longrightarrow>
      \<exists>st' ord. item_step n z mem umask root force pfx t st = Some (Inr (), st') \<and> mset ord = mset g \<and> R (acc @ ord) st'"
    and "\<forall>(t, g) \<in> set ps. item_ok t"
    and "mset acc + (\<Sum>(t, g)\<leftarrow>ps. mset g) \<subseteq># A" "R acc st"
  shows "\<exists>st' ord. checkout_items n z mem umask root force (concat (map (\<lambda>p. entry_bytes (fst p)) ps)) pfx st = Some (Inr (), st') \<and>
    mset ord = (\<Sum>(t, g)\<leftarrow>ps. mset g) \<and> R (acc @ ord) st'"
  using assms
proof (induction ps arbitrary: acc st)
  case Nil
  then show ?case by (intro exI[of _ st] exI[of _ "[]"]) (subst checkout_items.simps, simp)
next
  case (Cons p ps)
  obtain t g where p: "p = (t, g)" by fastforce
  have "mset acc + mset g \<subseteq># A" using Cons.prems(3) by (rule subset_mset.order_trans[rotated]) (simp add: p)
  then obtain st1 o1 where s: "item_step n z mem umask root force pfx t st = Some (Inr (), st1)" "mset o1 = mset g" "R (acc @ o1) st1"
    using Cons.prems(1)[of t g acc st] Cons.prems(4) p by auto
  have "\<exists>st' ord. checkout_items n z mem umask root force (concat (map (\<lambda>p. entry_bytes (fst p)) ps)) pfx st1 = Some (Inr (), st') \<and>
      mset ord = (\<Sum>(t, g)\<leftarrow>ps. mset g) \<and> R ((acc @ o1) @ ord) st'"
    by (rule Cons.IH) (use Cons.prems s(2,3) p in \<open>auto simp: ac_simps\<close>)
  then obtain st2 o2 where r: "checkout_items n z mem umask root force (concat (map (\<lambda>p. entry_bytes (fst p)) ps)) pfx st1 = Some (Inr (), st2)"
    "mset o2 = (\<Sum>(t, g)\<leftarrow>ps. mset g)" "R ((acc @ o1) @ o2) st2" by blast
  have "item_ok t" using Cons.prems(2) p by simp
  then show ?case
    using r s(2) checkout_items_step[OF _ s(1)] p by (intro exI[of _ st2] exI[of _ "o1 @ o2"]) simp
qed

text \<open>The entries that an item of a directory stands for.\<close>

definition item_group :: "index_entry list \<Rightarrow> bytes \<Rightarrow> tree_entry \<Rightarrow> index_entry list" where
  "item_group es q t =
     (if te_mode t = TREE_MODE then files_under es (q @ te_path t @ [47])
      else filter (\<lambda>e. is_direct q e \<and> direct_of q e = t) es)"

lemma direct_of_inj:
  assumes "is_direct q e" "is_direct q e'" "direct_of q e = direct_of q e'"
  shows "ie_path e = ie_path e'"
  using assms by (auto simp: is_direct_def below_Some direct_of_def)

lemma filter_one: "distinct (map f es) \<Longrightarrow> e \<in> set es \<Longrightarrow> filter (\<lambda>e'. f e' = f e) es = [e]"
proof (induction es)
  case (Cons a es)
  have "filter (\<lambda>e'. f e' = f a) es = []" using Cons.prems(1) by (auto simp: filter_empty_conv) (metis image_eqI)
  moreover have "e \<in> set es \<Longrightarrow> f a \<noteq> f e" using Cons.prems(1) by force
  ultimately show ?case using Cons by auto
qed simp

lemma group_direct:
  assumes "distinct (map ie_path es)" "files_ok es" "e \<in> set es" "is_direct q e"
  shows "mset (item_group es q (direct_of q e)) = {#e#}"
proof -
  have "te_mode (direct_of q e) \<noteq> TREE_MODE" using assms(2,3) by (simp add: files_ok_def direct_of_def)
  moreover have "filter (\<lambda>e'. is_direct q e' \<and> direct_of q e' = direct_of q e) es = filter (\<lambda>e'. ie_path e' = ie_path e) es"
  proof (rule filter_cong[OF refl])
    fix e' assume "e' \<in> set es"
    moreover have "e' = e" if "ie_path e' = ie_path e" "e' \<in> set es"
      using assms(1,3) that by (metis distinct_map inj_onD)
    ultimately show "(is_direct q e' \<and> direct_of q e' = direct_of q e) = (ie_path e' = ie_path e)"
      using direct_of_inj assms(4) by metis
  qed
  ultimately show ?thesis using filter_one[OF assms(1,3)] by (simp add: item_group_def)
qed

lemma groups_sum:
  assumes "distinct (map ie_path es)" "files_ok es"
  shows "(\<Sum>t\<leftarrow>tree_entries crypto es q. mset (item_group es q t)) = mset (files_under es q)"
proof -
  let ?g = "\<lambda>t. mset (item_group es q t)"
  let ?dirs = "map (\<lambda>d. dir_entry (name_of crypto (tree_text crypto es (q @ d @ [47]))) d) (subdirs es q)"
  have "mset (tree_entries crypto es q) = mset (direct_files es q @ ?dirs)"
    by (simp add: tree_entries_def mset_add_all)
  then have "mset (map ?g (tree_entries crypto es q)) = mset (map ?g (direct_files es q @ ?dirs))"
    by (simp only: mset_map)
  then have "(\<Sum>t\<leftarrow>tree_entries crypto es q. ?g t) = (\<Sum>t\<leftarrow>direct_files es q @ ?dirs. ?g t)"
    by (simp only: sum_mset_sum_list[symmetric])
  also have "\<dots> = (\<Sum>e\<leftarrow>filter (is_direct q) es. ?g (direct_of q e)) + (\<Sum>d\<leftarrow>subdirs es q. mset (files_under es (q @ d @ [47])))"
    by (simp add: direct_files_of comp_def item_group_def dir_entry_def)
  also have "(\<Sum>e\<leftarrow>filter (is_direct q) es. ?g (direct_of q e)) = (\<Sum>e\<leftarrow>filter (is_direct q) es. {#e#})"
    by (intro arg_cong[where f = sum_list] map_cong refl group_direct[OF assms]) simp_all
  also have "\<dots> = mset (filter (is_direct q) es)" by (induction es) simp_all
  finally show ?thesis using files_split[of es q] by simp
qed

text \<open>The directory \<open>q\<close> of a tree as the prefix that checkout passes on.\<close>

definition dir_prefix :: "bytes \<Rightarrow> bytes \<Rightarrow> bool" where
  "dir_prefix q pfx \<longleftrightarrow> q = [] \<and> pfx = [] \<or> pfx \<noteq> [] \<and> q = pfx @ [47]"

lemma join_under: "dir_prefix q pfx \<Longrightarrow> length (q @ name) < 4096 \<Longrightarrow> join_path pfx name = q @ name"
  by (auto simp: dir_prefix_def join_path_def bufn_def)

lemma checkout_tree_ok:
  assumes f: "fit_entries z mem db0 c root W es" "files_ok es"
    and h: "\<forall>p \<in> set (dirs_below es q). holds_tree crypto z mem db0 (tree_text crypto es p)"
    and q: "dir_prefix q pfx" "longest es - length q < n"
    and acc: "mset acc + mset (files_under es q) \<subseteq># mset es" "wt_ok crypto z mem U db0 umask c root W acc st"
    and ok: "odb_ok crypto z mem U db0"
  shows "\<exists>st' ord. checkout_tree_recursive n z mem umask root force (name_of crypto (tree_text crypto es q)) pfx st = Some (Inr (), st') \<and>
    mset ord = mset (files_under es q) \<and> wt_ok crypto z mem U db0 umask c root W (acc @ ord) st'"
  using h q acc
proof (induction "longest es - length q" arbitrary: q pfx n acc st rule: less_induct)
  case less
  let ?ts = "tree_entries crypto es q"
  obtain k where n: "n = Suc k" using less.prems(3) by (cases n) simp_all
  obtain db w where st: "st = (Some db, w)" "odb_ok crypto z mem U db" "grows z mem db0 db"
    "map_of w = overlay W (wt_files umask c root acc)"
    using less.prems(5) by (cases st) (auto simp: wt_ok_def)
  have "holds_tree crypto z mem db (tree_text crypto es q)"
    using less.prems(1) below_self st(3) by (auto simp: odbs.extends_def)
  then obtain ob db1 where r: "fastgit_odb_read z mem (name_of crypto (tree_text crypto es q)) db = (Inr ob, db1)"
    "oo_type ob = TREE" "oo_data ob = tree_text crypto es q" "odb_ok crypto z mem U db1" "grows z mem db db1"
    by (rule read_held[OF st(2)])
  have st1: "wt_ok crypto z mem U db0 umask c root W acc (Some db1, w)"
    using r(4) odbs.extends_trans[OF st(3) r(5)] st(4) by (auto simp: wt_ok_def)
  have len: "length (ie_path e) < 4096" if "e \<in> set es" for e
    using f(1) that by (auto simp: fit_entries_def fits_def target_def)
  have step: "\<exists>st' ord. item_step k z mem umask root force pfx t st = Some (Inr (), st') \<and> mset ord = mset g \<and>
      wt_ok crypto z mem U db0 umask c root W (acc @ ord) st'"
    if t: "(t, g) \<in> set (map (\<lambda>t. (t, item_group es q t)) ?ts)" and a: "mset acc + mset g \<subseteq># mset es"
      and w: "wt_ok crypto z mem U db0 umask c root W acc st" for t g acc st
  proof -
    have g: "g = item_group es q t" "t \<in> set ?ts" using t by auto
    consider (plain) e where "e \<in> set es" "is_direct q e" "t = direct_of q e"
      | (sub) d where "d \<in> set (subdirs es q)" "t = dir_entry (name_of crypto (tree_text crypto es (q @ d @ [47]))) d"
      using g(2) unfolding set_tree_entries by auto
    then show ?thesis
    proof cases
      case plain
      have e: "mset g = {#e#}" using group_direct[of es e q] f plain g(1) by (simp add: fit_entries_def)
      have p: "q @ drop (length q) (ie_path e) = ie_path e" using plain(2) by (auto simp: is_direct_def below_Some)
      have "\<not> S_ISDIR (ie_mode e)" using f(1) plain(1) by (simp add: fit_entries_def)
      moreover have "join_path pfx (te_path t) = ie_path e"
        using join_under[OF less.prems(2), of "te_path t"] p len[OF plain(1)] plain(3) by (simp add: direct_of_def)
      moreover obtain st' where "checkout_entry z mem umask root (ie_path e) (ie_oid e) (ie_mode e) st = (Inr (), st')"
        "wt_ok crypto z mem U db0 umask c root W (acc @ [e]) st'"
        using checkout_entry_ok[OF f(1) _ w, of e] a e by auto
      ultimately show ?thesis using e plain(3) by (intro exI[of _ st'] exI[of _ "[e]"]) (simp add: item_step_def direct_of_def)
    next
      case sub
      let ?q = "q @ d @ [47]"
      obtain e r where er: "e \<in> set es" "ie_path e = q @ d @ 47 # r" using sub(1) next_dir_SomeD by (fastforce simp: set_subdirs)
      have "q @ d \<noteq> []" using f(1) er by (fastforce simp: fit_entries_def)
      moreover have j: "join_path pfx d = q @ d" using join_under[OF less.prems(2), of d] len[OF er(1)] er(2) by simp
      ultimately have dp: "dir_prefix ?q (q @ d)" by (simp add: dir_prefix_def)
      have gr: "mset g = mset (files_under es ?q)" using g(1) sub(2) by (simp add: item_group_def dir_entry_def)
      have sd: "S_ISDIR TREE_MODE" by (simp add: S_ISDIR_def TREE_MODE_def)
      have "\<forall>p \<in> set (dirs_below es ?q). holds_tree crypto z mem db0 (tree_text crypto es p)"
        using less.prems(1) sub(1) by (subst (asm) dirs_below.simps) auto
      then have "\<exists>st' ord. checkout_tree_recursive k z mem umask root force (name_of crypto (tree_text crypto es ?q)) (q @ d) st =
          Some (Inr (), st') \<and> mset ord = mset (files_under es ?q) \<and> wt_ok crypto z mem U db0 umask c root W (acc @ ord) st'"
        using longest_subdir[OF sub(1)] less.prems(3) n a gr by (intro less.hyps dp w) auto
      then show ?thesis using j gr sd sub(2) by (auto simp: item_step_def dir_entry_def)
    qed
  qed
  have items: "\<forall>(t, g) \<in> set (map (\<lambda>t. (t, item_group es q t)) ?ts). item_ok t"
    using tree_entries_ok[OF f(2) ok less.prems(1)] by auto
  have sum: "(\<Sum>(t, g)\<leftarrow>map (\<lambda>t. (t, item_group es q t)) ?ts. mset g) = mset (files_under es q)"
    using groups_sum[where crypto = crypto and es = es and q = q] f by (simp add: fit_entries_def comp_def case_prod_beta)
  obtain st' ord where it: "checkout_items k z mem umask root force
        (concat (map (\<lambda>p. entry_bytes (fst p)) (map (\<lambda>t. (t, item_group es q t)) ?ts))) pfx (Some db1, w) = Some (Inr (), st')"
    "mset ord = mset (files_under es q)" "wt_ok crypto z mem U db0 umask c root W (acc @ ord) st'"
    using checkout_items_ok[where R = "wt_ok crypto z mem U db0 umask c root W" and A = "mset es", OF step items _ st1]
      less.prems(4) unfolding sum by blast
  have "concat (map (\<lambda>p. entry_bytes (fst p)) (map (\<lambda>t. (t, item_group es q t)) ?ts)) = tree_text crypto es q"
    by (simp add: tree_text_entries comp_def)
  then have "checkout_tree_recursive n z mem umask root force (name_of crypto (tree_text crypto es q)) pfx st = Some (Inr (), st')"
    using it(1) r(1-3) st(1) by (subst checkout_tree_recursive.simps) (simp add: n read_odb_def)
  then show ?case using it(2,3) by blast
qed

section \<open>The scan for untracked files\<close>

text \<open>
  A tree of files below \<open>root\<close>: directories are there, names are not empty, nothing is called .git,
  and paths fit the buffers.
\<close>

definition work_ok :: "bytes \<Rightarrow> work \<Rightarrow> bool" where
  "work_ok root w \<longleftrightarrow> root \<noteq> [] \<and> length root < 4096 \<and> map_of w (root @ str ''/.git'') = None \<and>
     (\<forall>p n. map_of w p = Some n \<and> above root p \<longrightarrow>
        nul_free p \<and> length p < 4096 \<and> last p \<noteq> 47 \<and> (dirname p = root \<or> map_of w (dirname p) = Some Dir))"

definition rel_of :: "bytes \<Rightarrow> bytes \<Rightarrow> bytes" where
  "rel_of root p = drop (length root + 1) p"

text \<open>Directories to visit: the root (the empty text), or the path of a directory below it.\<close>

definition full_of :: "bytes \<Rightarrow> bytes \<Rightarrow> bytes" where
  "full_of root rel = (if rel = [] then root else root @ [47] @ rel)"

definition visit_ok :: "bytes \<Rightarrow> work \<Rightarrow> bytes \<Rightarrow> bool" where
  "visit_ok root w rel \<longleftrightarrow> is_dir w (full_of root rel) \<and> length (full_of root rel) < 4096"

lemma under_full: "visit_ok root w rel \<Longrightarrow> under root rel = full_of root rel"
  by (simp add: under_def full_of_def visit_ok_def bufn_def)

lemma set_readdir: "name \<in> set (readdir w d) \<longleftrightarrow> name \<noteq> [] \<and> 47 \<notin> set name \<and> map_of w (d @ 47 # name) \<noteq> None"
proof
  assume "name \<in> set (readdir w d)"
  then obtain p n where "(p, n) \<in> set w" "rsplit_at 47 p = Some (d, name)" "name \<noteq> []"
    by (auto simp: readdir_def List.map_filter_def split: option.splits if_splits)
  then show "name \<noteq> [] \<and> 47 \<notin> set name \<and> map_of w (d @ 47 # name) \<noteq> None"
    using rsplit_at_SomeD[of 47 p d name] by (force simp: map_of_eq_None_iff)
next
  assume n: "name \<noteq> [] \<and> 47 \<notin> set name \<and> map_of w (d @ 47 # name) \<noteq> None"
  then obtain nd where "(d @ 47 # name, nd) \<in> set w" by (auto dest: map_of_SomeD)
  moreover have "rsplit_at 47 (d @ 47 # name) = Some (d, name)" using rsplit_at_append[of 47 name d] n by simp
  ultimately show "name \<in> set (readdir w d)" using n
    by (force simp: readdir_def List.map_filter_def)
qed

lemma closed_above:
  assumes "work_ok root w"
  shows "map_of w p \<noteq> None \<Longrightarrow> above root q \<Longrightarrow> above q p \<Longrightarrow> map_of w q = Some Dir"
proof (induction "length p" arbitrary: p rule: less_induct)
  case less
  obtain n where p: "map_of w p = Some n" using less.prems(1) by blast
  have r: "above root p" by (rule above_trans[OF less.prems(2,3)])
  have d: "dirname p = root \<or> map_of w (dirname p) = Some Dir" using assms p r by (simp add: work_ok_def)
  have l: "\<not> above q root" using above_length[OF less.prems(2)] above_length by fastforce
  have ne: "q \<noteq> root" using above_length[OF less.prems(2)] by blast
  from less.prems(3) above_dirname[of q p] consider "q = dirname p" | "above q (dirname p)" by blast
  then show ?case
  proof cases
    case 1
    then show ?thesis using d ne by simp
  next
    case 2
    then have "map_of w (dirname p) = Some Dir" using d l by metis
    moreover have "length (dirname p) < length p" using dirname_above[of p] 2 above_length by (auto simp: above_def)
    ultimately show ?thesis using less.hyps less.prems(2) 2 by fastforce
  qed
qed

lemma child_facts:
  assumes w: "work_ok root w" and rel: "visit_ok root w rel" and n: "name \<in> set (readdir w (full_of root rel))"
  defines "p \<equiv> full_of root rel @ [47] @ name"
  shows "above root p" "length p < 4096" "nul_free (rel_of root p)" "root @ [47] @ rel_of root p = p"
    "join_path rel name = rel_of root p" "full_of root (rel_of root p) = p" "\<not> (rel = [] \<and> name = str ''.git'')"
    "length rel < length (rel_of root p)"
proof -
  obtain nd where nd: "map_of w p = Some nd" "name \<noteq> []" using n by (auto simp: set_readdir p_def)
  show a: "above root p" using w by (auto simp: above_def work_ok_def full_of_def p_def prefix_def)
  have wp: "nul_free p \<and> length p < 4096" using w nd(1) a by (auto simp: work_ok_def)
  then show l: "length p < 4096" by simp
  show r: "root @ [47] @ rel_of root p = p" by (simp add: rel_of_def p_def full_of_def)
  show "nul_free (rel_of root p)" using wp r by (metis nul_free_simps(3))
  show "join_path rel name = rel_of root p"
    using l by (cases "rel = []") (simp_all add: join_path_def bufn_def rel_of_def p_def full_of_def)
  show "full_of root (rel_of root p) = p" using nd(2) by (simp add: rel_of_def p_def full_of_def)
  show "\<not> (rel = [] \<and> name = str ''.git'')"
    using w nd(1) by (auto simp: work_ok_def p_def full_of_def str_def)
  show "length rel < length (rel_of root p)" using nd(2) by (simp add: rel_of_def p_def full_of_def)
qed

text \<open>The entries of status for the files below a directory that the index \<open>M\<close> does not have.\<close>

definition is_new :: "bytes \<Rightarrow> work \<Rightarrow> (ie_key \<rightharpoonup> index_entry) \<Rightarrow> bytes \<Rightarrow> bool" where
  "is_new root w M p \<longleftrightarrow> (\<exists>m d. map_of w p = Some (Reg m d)) \<and> M (rel_of root p, STAGE_NORMAL) = None"

definition new_entry :: "bytes \<Rightarrow> work \<Rightarrow> bytes \<Rightarrow> status_entry" where
  "new_entry root w p = untracked_entry (rel_of root p) (the (map_of w p))"

lemma scan_entries_ok:
  assumes w: "work_ok root w" and rel: "visit_ok root w rel"
  defines "pth \<equiv> \<lambda>name. full_of root rel @ [47] @ name"
  shows "\<forall>name \<in> set ns. name \<in> set (readdir w (full_of root rel)) \<Longrightarrow> index_ok ix \<Longrightarrow>
    \<exists>ix'. scan_entries w root rel ns ix =
        Inr (map (\<lambda>n. rel_of root (pth n)) (filter (\<lambda>n. map_of w (pth n) = Some Dir) ns),
          map (\<lambda>n. new_entry root w (pth n)) (filter (\<lambda>n. is_new root w (index_map ix) (pth n)) ns), ix') \<and>
      index_ok ix' \<and> index_map ix' = index_map ix"
proof (induction ns arbitrary: ix)
  case (Cons name ns)
  let ?p = "pth name"
  have n: "name \<in> set (readdir w (full_of root rel))" using Cons.prems(1) by simp
  note c = child_facts[OF w rel n, folded pth_def[THEN meta_eq_to_obj_eq, THEN fun_cong, of name]]
  obtain nd where nd: "map_of w ?p = Some nd" using n by (auto simp: set_readdir pth_def)
  have full: "bufn 4096 (root @ [47] @ rel_of root ?p) = ?p" using c(2,4) by (simp add: bufn_def)
  show ?case
  proof (cases nd)
    case Dir
    have "\<not> is_new root w (index_map ix) ?p" using nd Dir by (simp add: is_new_def)
    moreover obtain ix' where "scan_entries w root rel ns ix =
        Inr (map (\<lambda>n. rel_of root (pth n)) (filter (\<lambda>n. map_of w (pth n) = Some Dir) ns),
          map (\<lambda>n. new_entry root w (pth n)) (filter (\<lambda>n. is_new root w (index_map ix) (pth n)) ns), ix')"
      "index_ok ix'" "index_map ix' = index_map ix"
      using Cons.IH[OF _ Cons.prems(2)] Cons.prems(1) by auto
    ultimately show ?thesis using nd Dir c(5,7) full by (cases "rel = []") (simp_all add: Let_def)
  next
    case (Reg m d)
    obtain ix1 where f: "fastgit_index_find ix (rel_of root ?p) STAGE_NORMAL = Inr (index_map ix (rel_of root ?p, STAGE_NORMAL), ix1)"
      "index_ok ix1" "index_map ix1 = index_map ix"
      using index_find_ok[OF Cons.prems(2) c(3)] by blast
    moreover obtain ix' where "scan_entries w root rel ns ix1 =
        Inr (map (\<lambda>n. rel_of root (pth n)) (filter (\<lambda>n. map_of w (pth n) = Some Dir) ns),
          map (\<lambda>n. new_entry root w (pth n)) (filter (\<lambda>n. is_new root w (index_map ix1) (pth n)) ns), ix')"
      "index_ok ix'" "index_map ix' = index_map ix1"
      using Cons.IH[OF _ f(2)] Cons.prems(1) by auto
    moreover have "is_new root w (index_map ix) ?p \<longleftrightarrow> index_map ix (rel_of root ?p, STAGE_NORMAL) = None"
      using nd Reg by (simp add: is_new_def)
    ultimately show ?thesis using nd Reg c(5,7) full by (cases "rel = []") (simp_all add: Let_def new_entry_def)
  qed
qed simp

definition new_files :: "bytes \<Rightarrow> work \<Rightarrow> (ie_key \<rightharpoonup> index_entry) \<Rightarrow> bytes \<Rightarrow> status_entry set" where
  "new_files root w M d = new_entry root w ` {p. above d p \<and> is_new root w M p}"

lemma new_files_split:
  assumes w: "work_ok root w" and rel: "visit_ok root w rel"
  defines "pth \<equiv> \<lambda>name. full_of root rel @ [47] @ name"
  shows "new_files root w M (full_of root rel) =
    new_entry root w ` {p. is_new root w M p \<and> (\<exists>n \<in> set (readdir w (full_of root rel)). p = pth n)} \<union>
    (\<Union>n \<in> {n \<in> set (readdir w (full_of root rel)). map_of w (pth n) = Some Dir}. new_files root w M (pth n))"
proof -
  let ?d = "full_of root rel"
  have dne: "?d \<noteq> []" using w by (auto simp: work_ok_def full_of_def)
  have rd: "?d = root \<or> above root ?d" using w by (auto simp: work_ok_def full_of_def above_def)
  have "above ?d p \<longleftrightarrow> (\<exists>n \<in> set (readdir w ?d). p = pth n \<or> map_of w (pth n) = Some Dir \<and> above (pth n) p)"
    if p: "map_of w p \<noteq> None" for p
  proof
    assume a: "above ?d p"
    then obtain s where s: "p = ?d @ 47 # s" by (auto simp: above_def prefix_def)
    have rp: "above root p" using rd a above_trans[of root ?d p] by auto
    have last: "last p \<noteq> 47" using w p rp by (auto simp: work_ok_def)
    show "\<exists>n \<in> set (readdir w ?d). p = pth n \<or> map_of w (pth n) = Some Dir \<and> above (pth n) p"
    proof (cases "47 \<in> set s")
      case False
      then have "s \<in> set (readdir w ?d)" using s p last by (auto simp: set_readdir)
      then show ?thesis using s by (auto simp: pth_def)
    next
      case True
      then obtain n r where n: "s = n @ 47 # r" "47 \<notin> set n" by (meson split_list_first)
      have ap: "above (pth n) p" using s n(1) dne by (auto simp: above_def pth_def prefix_def)
      have "above root (pth n)" using rd dne w by (auto simp: above_def pth_def prefix_def work_ok_def)
      then have dir: "map_of w (pth n) = Some Dir" using closed_above[OF w p _ ap] by blast
      have "last (pth n) \<noteq> 47" using w dir \<open>above root (pth n)\<close> by (auto simp: work_ok_def)
      then have "n \<noteq> []" by (auto simp: pth_def)
      then have "n \<in> set (readdir w ?d)" using n(2) dir by (simp add: set_readdir pth_def)
      then show ?thesis using dir ap by blast
    qed
  next
    assume "\<exists>n \<in> set (readdir w ?d). p = pth n \<or> map_of w (pth n) = Some Dir \<and> above (pth n) p"
    moreover have "above ?d (pth n)" for n using dne by (auto simp: above_def pth_def)
    ultimately show "above ?d p" using above_trans by blast
  qed
  then have "above ?d p \<and> is_new root w M p \<longleftrightarrow>
      (\<exists>n \<in> set (readdir w ?d). p = pth n \<or> map_of w (pth n) = Some Dir \<and> above (pth n) p) \<and> is_new root w M p" for p
    by (auto simp: is_new_def)
  then show ?thesis unfolding new_files_def by auto
qed

text \<open>
  The walk ends although the stack may grow: a directory is replaced by others with longer paths, and
  no path is longer than the buffers.
\<close>

definition stack_size :: "bytes \<Rightarrow> bytes list \<Rightarrow> nat multiset" where
  "stack_size root stack = mset (map (\<lambda>rel. 4096 - length (full_of root rel)) stack)"

lemma stack_smaller:
  assumes "\<forall>c \<in> set ds. length (full_of root rel) < length (full_of root c) \<and> length (full_of root c) < 4096"
  shows "stack_size root (xs @ ds) < stack_size root (xs @ [rel])"
proof -
  have "mset (map (\<lambda>rel. 4096 - length (full_of root rel)) ds) < {#4096 - length (full_of root rel)#}"
    using assms by (intro ex_gt_imp_less_multiset) auto
  then show ?thesis by (simp add: stack_size_def)
qed

lemma scan_untracked_ok:
  assumes w: "work_ok root w"
  shows "\<forall>rel \<in> set stack. visit_ok root w rel \<Longrightarrow> index_ok ix \<Longrightarrow>
    \<exists>us ix'. scan_untracked w root stack acc ix = Some (Inr (acc @ us, ix')) \<and> index_ok ix' \<and> index_map ix' = index_map ix \<and>
      set us = (\<Union>rel \<in> set stack. new_files root w (index_map ix) (full_of root rel))"
proof (induction "stack_size root stack" arbitrary: stack acc ix rule: less_induct)
  case less
  show ?case
  proof (cases "stack = []")
    case True
    then show ?thesis using less.prems(2) by (subst scan_untracked.simps) simp
  next
    case False
    then obtain xs rel where st: "stack = xs @ [rel]" by (meson rev_exhaust)
    let ?d = "full_of root rel" and ?ns = "readdir w (full_of root rel)"
    let ?pth = "\<lambda>name. ?d @ [47] @ name"
    let ?ds = "map (\<lambda>n. rel_of root (?pth n)) (filter (\<lambda>n. map_of w (?pth n) = Some Dir) ?ns)"
    let ?us = "map (\<lambda>n. new_entry root w (?pth n)) (filter (\<lambda>n. is_new root w (index_map ix) (?pth n)) ?ns)"
    have rel: "visit_ok root w rel" using less.prems(1) st by simp
    then have dir: "is_dir w ?d" by (simp add: visit_ok_def)
    obtain ix1 where sc: "scan_entries w root rel ?ns ix = Inr (?ds, ?us, ix1)" "index_ok ix1" "index_map ix1 = index_map ix"
      using scan_entries_ok[OF w rel _ less.prems(2), of ?ns] by blast
    note c = child_facts[OF w rel]
    have ch: "visit_ok root w r \<and> length ?d < length (full_of root r) \<and> length (full_of root r) < 4096"
      if "r \<in> set ?ds" for r
      using that c(2,6) by (auto simp: visit_ok_def is_dir_def)
    have "stack_size root (xs @ ?ds) < stack_size root stack"
      unfolding st using ch by (intro stack_smaller) blast
    moreover have "\<forall>r \<in> set (xs @ ?ds). visit_ok root w r" using ch less.prems(1) st by auto
    ultimately obtain us ix2 where r: "scan_untracked w root (xs @ ?ds) (acc @ ?us) ix1 = Some (Inr ((acc @ ?us) @ us, ix2))"
      "index_ok ix2" "index_map ix2 = index_map ix1"
      "set us = (\<Union>rel \<in> set (xs @ ?ds). new_files root w (index_map ix1) (full_of root rel))"
      using less.hyps[of "xs @ ?ds" ix1 "acc @ ?us"] sc(2) by blast
    have "scan_untracked w root stack acc ix = scan_untracked w root (xs @ ?ds) (acc @ ?us) ix1"
      using sc(1) under_full[OF rel] dir False by (subst scan_untracked.simps) (simp add: st Let_def)
    moreover have "set (?us @ us) = (\<Union>rel \<in> set stack. new_files root w (index_map ix) (full_of root rel))"
    proof -
      have ds: "(\<Union>r \<in> set ?ds. new_files root w M (full_of root r)) =
          (\<Union>n \<in> {n \<in> set ?ns. map_of w (?pth n) = Some Dir}. new_files root w M (?pth n))" for M
        using c(6) by auto
      have us: "set ?us = new_entry root w ` {p. is_new root w (index_map ix) p \<and> (\<exists>n \<in> set ?ns. p = ?pth n)}" by auto
      have all: "(\<Union>rel \<in> set stack. new_files root w (index_map ix) (full_of root rel)) =
          (\<Union>rel \<in> set xs. new_files root w (index_map ix) (full_of root rel)) \<union> new_files root w (index_map ix) ?d"
        by (auto simp: st)
      show ?thesis unfolding all new_files_split[OF w rel] set_append r(4) us sc(3) UN_Un ds by (rule Un_left_commute)
    qed
    ultimately show ?thesis using r sc(3) by (intro exI[of _ "?us @ us"] exI[of _ ix2]) simp
  qed
qed

section \<open>Status\<close>

text \<open>Whether an entry is as it was: the file is there, can be read and has the content that the id names.\<close>

definition entry_clean :: "evp option \<Rightarrow> bytes \<Rightarrow> work \<Rightarrow> index_entry \<Rightarrow> bool" where
  "entry_clean crypto root w e \<longleftrightarrow>
     (\<exists>m d. map_of w (target root e) = Some (Reg m d) \<and> m AND 0x100 \<noteq> 0 \<and> blob_oid crypto d = Inr (ie_oid e))"

text \<open>Entries for which status does not fail: the path fits, no directory is in the way, files fit in memory.\<close>

definition comparable :: "nat \<Rightarrow> bytes \<Rightarrow> work \<Rightarrow> index_entry \<Rightarrow> bool" where
  "comparable mem root w e \<longleftrightarrow> length (target root e) < 4096 \<and>
     (case map_of w (target root e) of Some Dir \<Rightarrow> False | Some (Reg m d) \<Rightarrow> length d \<le> mem | None \<Rightarrow> True)"

lemma compare_ok:
  assumes "sha256_ok crypto" "comparable mem root w e"
  shows "\<exists>se. status_compare_entry crypto mem root w e = Inr se \<and> se_path se = ie_path e \<and>
    (se_changed se \<longleftrightarrow> \<not> entry_clean crypto root w e)"
proof -
  have full: "bufn 4096 (root @ [47] @ ie_path e) = target root e"
    unfolding target_def[symmetric] bufn_def using assms(2) by (simp add: comparable_def)
  have gone: "se_changed (deleted_entry e)" "se_path (deleted_entry e) = ie_path e"
    by (simp_all add: se_changed_def deleted_entry_def)
  show ?thesis
  proof (cases "map_of w (target root e)")
    case None
    then show ?thesis using gone unfolding status_compare_entry_def full by (simp add: entry_clean_def)
  next
    case (Some nd)
    then obtain m d where nd: "nd = Reg m d" "length d \<le> mem"
      using assms(2) by (cases nd) (simp_all add: comparable_def)
    obtain x where x: "blob_oid crypto d = Inr x" using blob_oid_hash[OF assms(1), of d] by blast
    show ?thesis
    proof (cases "m AND 0x100 = 0")
      case True
      then show ?thesis using gone Some nd unfolding status_compare_entry_def full by (simp add: entry_clean_def read_node_def)
    next
      case False
      then show ?thesis
        using Some nd x unfolding status_compare_entry_def full
        by (auto simp: entry_clean_def read_node_def se_changed_def Let_def)
    qed
  qed
qed

text \<open>The pool of threads changes nothing.\<close>

lemma status_tracked_ok:
  assumes "\<forall>e \<in> set es. ie_stage e = STAGE_NORMAL \<longrightarrow> status_compare_entry crypto mem root w e = Inr (g e)"
  shows "status_tracked crypto mem pool root w es = Inr (map g (filter (\<lambda>e. ie_stage e = STAGE_NORMAL) es))"
proof -
  let ?n = "filter (\<lambda>e. ie_stage e = STAGE_NORMAL) es"
  have m: "map (status_compare_entry crypto mem root w) ?n = map (\<lambda>e. Inr (g e)) ?n" using assms by simp
  have "good (map (\<lambda>e. Inr (g e)) xs) = map g xs" for xs by (induction xs) simp_all
  then show ?thesis
    using mapr_Inr[of ?n "status_compare_entry crypto mem root w" g] assms by (auto simp: status_tracked_def m Let_def)
qed

lemma status_core:
  assumes "sha256_ok crypto" "work_ok (wt_path wt) w" "is_dir w (wt_path wt)" "index_ok ix"
    and c: "\<forall>e \<in> set (ix_entries ix). ie_stage e = STAGE_NORMAL \<longrightarrow> comparable mem (wt_path wt) w e"
  shows "\<exists>ts us ix'. fastgit_status crypto mem pool wt w (Some ix) = Some (Inr (ts @ us, ix')) \<and>
    list_all2 (\<lambda>e se. se_path se = ie_path e \<and> (se_changed se \<longleftrightarrow> \<not> entry_clean crypto (wt_path wt) w e))
      (filter (\<lambda>e. ie_stage e = STAGE_NORMAL) (ix_entries ix)) ts \<and>
    set us = new_files (wt_path wt) w (index_map ix) (wt_path wt) \<and> index_ok ix' \<and> index_map ix' = index_map ix"
proof -
  let ?c = "status_compare_entry crypto mem (wt_path wt) w" and ?n = "filter (\<lambda>e. ie_stage e = STAGE_NORMAL) (ix_entries ix)"
  define g where "g e = projr (?c e)" for e
  have g: "?c e = Inr (g e) \<and> se_path (g e) = ie_path e \<and> (se_changed (g e) \<longleftrightarrow> \<not> entry_clean crypto (wt_path wt) w e)"
    if "e \<in> set ?n" for e
    using compare_ok[OF assms(1), of mem "wt_path wt" w e] c that by (auto simp: g_def)
  have t: "status_tracked crypto mem pool (wt_path wt) w (ix_entries ix) = Inr (map g ?n)"
    using g by (intro status_tracked_ok) auto
  have v: "\<forall>rel \<in> set [[]]. visit_ok (wt_path wt) w rel"
    using assms(2,3) by (simp add: visit_ok_def full_of_def work_ok_def)
  obtain us ix' where u: "scan_untracked w (wt_path wt) [[]] (map g ?n) ix = Some (Inr (map g ?n @ us, ix'))" "index_ok ix'"
    "index_map ix' = index_map ix" "set us = (\<Union>rel \<in> set [[]]. new_files (wt_path wt) w (index_map ix) (full_of (wt_path wt) rel))"
    using scan_untracked_ok[OF assms(2) v assms(4), of "map g ?n"] by metis
  have l: "list_all2 (\<lambda>e se. se_path se = ie_path e \<and> (se_changed se \<longleftrightarrow> \<not> entry_clean crypto (wt_path wt) w e)) ?n (map g ?n)"
    using g by (simp add: list_all2_map2 list_all2_same)
  have F: "fastgit_status crypto mem pool wt w (Some ix) = Some (Inr (map g ?n @ us, ix'))"
    by (simp add: fastgit_status_def t u(1))
  have S: "set us = new_files (wt_path wt) w (index_map ix) (wt_path wt)" using u(4) by (simp add: full_of_def)
  show ?thesis by (intro exI conjI, rule F, rule l, rule S, rule u(2), rule u(3))
qed

section \<open>Status after a checkout\<close>

definition clean_path :: "bytes \<Rightarrow> bool" where
  "clean_path p \<longleftrightarrow> nul_free p \<and> p \<noteq> [] \<and> hd p \<noteq> 47 \<and> last p \<noteq> 47 \<and> \<not> sublist [47, 47] p \<and>
     p \<noteq> str ''.git'' \<and> \<not> prefix (str ''.git/'') p"

text \<open>A directory with nothing in it.\<close>

definition empty_dir :: "bytes \<Rightarrow> (bytes \<rightharpoonup> node) \<Rightarrow> bool" where
  "empty_dir root W \<longleftrightarrow> root \<noteq> [] \<and> length root < 4096 \<and> nul_free root \<and> W root = Some Dir \<and>
     (\<forall>p. above root p \<longrightarrow> W p = None) \<and> (\<forall>q. above q root \<longrightarrow> W q = Some Dir)"

lemma overlay_cases:
  assumes "overlay W S p = Some n" "W p = None"
  obtains "S p = Some n" | t where "S p = None" "t \<in> dom S" "above p t" "n = Dir"
  using assms by (auto simp: overlay_def split: option.splits if_splits)

lemma overlay_above:
  assumes "fits W (dom S)" "t \<in> dom S" "above q t"
  shows "overlay W S q = Some Dir"
proof -
  have "q \<notin> dom S" using assms unfolding fits_def by blast
  then have "S q = None" by blast
  moreover have "\<exists>p \<in> dom S. above q p" using assms(2,3) by blast
  ultimately show ?thesis by (simp add: overlay_def)
qed

lemma overlay_dirname:
  assumes "fits W (dom S)" "above root p" "p \<in> dom S \<or> (\<exists>t \<in> dom S. above p t)"
  shows "dirname p = root \<or> overlay W S (dirname p) = Some Dir"
proof (cases "dirname p = root")
  case False
  then have "above root (dirname p)" using assms(2) above_dirname[of root p] by blast
  then have "dirname p \<noteq> []" using above_length[of root "dirname p"] by auto
  then have d: "above (dirname p) p" using dirname_above[of p] by blast
  obtain t where t: "t \<in> dom S" "p = t \<or> above p t" using assms(3) by blast
  then have "above (dirname p) t" using d above_trans[OF d] by auto
  then show ?thesis using overlay_above[OF assms(1) t(1)] by simp
qed simp

lemma checked_out_ok:
  assumes e: "empty_dir root W" and f: "fits W (target root ` set es)" and c: "\<forall>e \<in> set es. clean_path (ie_path e)"
    and w: "map_of w = overlay W (wt_files umask c1 root es)"
  shows "work_ok root w"
proof -
  let ?S = "wt_files umask c1 root es"
  have fs: "fits W (dom ?S)" by (simp add: dom_wt_files f)
  have none: "W p = None" if "above root p" for p using e that by (simp add: empty_dir_def)
  have below: "nul_free p \<and> length p < 4096 \<and> last p \<noteq> 47 \<and> (dirname p = root \<or> map_of w (dirname p) = Some Dir)"
    if p: "map_of w p = Some n" "above root p" for p n
  proof -
    have t: "p \<in> dom ?S \<or> (\<exists>t \<in> dom ?S. above p t)"
      using p(1) unfolding w by (elim overlay_cases) (use none[OF p(2)] in auto)
    then obtain x where x: "x \<in> set es" "p = target root x \<or> above p (target root x)" by (auto simp: dom_wt_files)
    have cp: "clean_path (ie_path x)" using c x(1) by blast
    have l: "length (target root x) < 4096" using f x(1) by (simp add: fits_def)
    have nf: "nul_free (target root x)" using e cp by (simp add: target_def empty_dir_def clean_path_def)
    obtain r where r: "p = root @ 47 # r" using p(2) by (auto simp: above_def prefix_def)
    have "nul_free p \<and> length p < 4096" using x(2) l nf by (auto simp: above_def prefix_def)
    moreover have "last p \<noteq> 47"
    proof (cases "p = target root x")
      case True
      then show ?thesis using cp by (simp add: target_def clean_path_def)
    next
      case False
      then obtain u where u: "ie_path x = r @ 47 # u" using x(2) r by (auto simp: above_def prefix_def target_def)
      have "r \<noteq> []" using cp u by (auto simp: clean_path_def)
      moreover have "last r \<noteq> 47"
      proof
        assume "last r = 47"
        then have "ie_path x = butlast r @ [47, 47] @ u" using u \<open>r \<noteq> []\<close> append_butlast_last_id[of r] by simp
        then show False using cp unfolding clean_path_def sublist_def by blast
      qed
      ultimately show ?thesis by (simp add: r)
    qed
    moreover have "dirname p = root \<or> map_of w (dirname p) = Some Dir"
      unfolding w by (rule overlay_dirname[OF fs p(2) t])
    ultimately show ?thesis by blast
  qed
  have "map_of w (root @ str ''/.git'') = None"
  proof (rule ccontr)
    assume "map_of w (root @ str ''/.git'') \<noteq> None"
    then obtain n where n: "overlay W ?S (root @ 47 # str ''.git'') = Some n" by (auto simp: w str_def)
    have a: "above root (root @ 47 # str ''.git'')" using e by (auto simp: above_def empty_dir_def)
    show False using n none[OF a]
    proof (cases rule: overlay_cases)
      case 1
      then have "root @ 47 # str ''.git'' \<in> target root ` set es" using dom_wt_files by blast
      then show ?thesis using c by (auto simp: target_def clean_path_def)
    next
      case (2 t)
      then obtain x where x: "x \<in> set es" "above (root @ 47 # str ''.git'') (target root x)" by (auto simp: dom_wt_files)
      then have "prefix (str ''.git/'') (ie_path x)" by (auto simp: above_def target_def str_def)
      then show ?thesis using c x(1) by (auto simp: clean_path_def)
    qed
  qed
  then show ?thesis using below e by (auto simp: work_ok_def empty_dir_def)
qed

text \<open>What is asked of an index whose files are to be checked out into an empty directory.\<close>

definition portable :: "bytes \<Rightarrow> index_entry list \<Rightarrow> bool" where
  "portable root es \<longleftrightarrow> distinct (map ie_path es) \<and> files_ok es \<and>
     (\<forall>e \<in> set es. ie_stage e = STAGE_NORMAL \<and> clean_path (ie_path e) \<and> length (target root e) < 4096 \<and>
        \<not> S_ISDIR (ie_mode e) \<and> ie_mode e AND 0x100 \<noteq> 0 \<and> (\<forall>e' \<in> set es. \<not> above (ie_path e) (ie_path e')))"

lemma portable_mset:
  assumes "portable root es" "mset es' = mset es"
  shows "portable root es'"
proof -
  have m: "mset (map ie_path es') = mset (map ie_path es)" by (simp add: assms(2))
  have "distinct (map ie_path es')" using assms(1) mset_eq_imp_distinct_iff[OF m] by (simp add: portable_def)
  then show ?thesis using assms(1) mset_eq_setD[OF assms(2)] by (simp add: portable_def files_ok_def)
qed

lemma portable_fits:
  assumes "portable root es" "empty_dir root W"
  shows "fits W (target root ` set es)"
proof -
  have r: "root \<noteq> []" "W root = Some Dir" "\<And>p. above root p \<Longrightarrow> W p = None" "\<And>q. above q root \<Longrightarrow> W q = Some Dir"
    using assms(2) by (simp_all add: empty_dir_def)
  have a: "above root (target root e)" for e using r(1) by (simp add: above_def target_def)
  have q: "no_file W q \<and> q \<notin> target root ` set es" if e: "e \<in> set es" and q: "above q (target root e)" for e q
  proof
    have "prefix (q @ [47]) (root @ [47]) \<or> prefix (root @ [47]) (q @ [47])"
      by (rule prefix_same_cases[where ys = "target root e"]) (use q a[of e] in \<open>simp_all add: above_def\<close>)
    then have "q = root \<or> above q root \<or> above root q" using above_ne[OF q] r(1) by (auto simp: above_def prefix_snoc)
    then show "no_file W q" using r(2-4) by (auto simp: no_file_iff)
    show "q \<notin> target root ` set es"
    proof
      assume "q \<in> target root ` set es"
      then obtain e' where "e' \<in> set es" "q = target root e'" by blast
      moreover from this have "above (ie_path e') (ie_path e)"
        using q assms(1) by (auto simp: above_def target_def portable_def clean_path_def)
      ultimately show False using assms(1) e by (auto simp: portable_def)
    qed
  qed
  have t: "target root e \<noteq> [] \<and> 47 \<in> set (target root e) \<and> length (target root e) < 4096 \<and> W (target root e) = None"
    if "e \<in> set es" for e
    using assms(1) that r(3)[OF a[of e]] by (simp add: portable_def) (simp add: target_def)
  show ?thesis unfolding fits_def
  proof
    fix p assume "p \<in> target root ` set es"
    then obtain e where e: "e \<in> set es" "p = target root e" by blast
    show "p \<noteq> [] \<and> 47 \<in> set p \<and> length p < 4096 \<and> W p = None \<and> (\<forall>q. above q p \<longrightarrow> no_file W q \<and> q \<notin> target root ` set es)"
      using t[OF e(1)] q[OF e(1)] unfolding e(2) by blast
  qed
qed

lemma write_reopened:
  assumes "odb_ok crypto z mem U (fastgit_odb_open dk)" "\<forall>q \<in> tree_dirs es. (TREE, tree_text crypto es q) \<in> U"
  shows "\<exists>db'. write_tree_recursive crypto z es [] (fastgit_odb_open dk) = (Inr (name_of crypto (tree_text crypto es [])), db') \<and>
    odb_ok crypto z mem U (fastgit_odb_open (oc_disk (odb_head db'))) \<and>
    grows z mem (fastgit_odb_open dk) (fastgit_odb_open (oc_disk (odb_head db'))) \<and>
    (\<forall>q \<in> set (dirs_below es []). holds_tree crypto z mem (fastgit_odb_open (oc_disk (odb_head db'))) (tree_text crypto es q))"
proof -
  obtain db' where w: "write_tree_recursive crypto z es [] (fastgit_odb_open dk) = (Inr (name_of crypto (tree_text crypto es [])), db')"
    "odb_durable crypto z mem U db'" "\<forall>q \<in> set (dirs_below es []). holds_tree crypto z mem db' (tree_text crypto es q)"
    "grows z mem (fastgit_odb_open dk) db'"
    using write_tree_ok[OF opened_durable[OF assms(1)] assms(2) root_dir] by blast
  have re: "odb_reopen db' = fastgit_odb_open (oc_disk (odb_head db'))" by (simp add: odb_reopen_def)
  have g: "grows z mem db' (odb_reopen db')" by (rule durable.reopened_extends[OF w(2)])
  have "odb_ok crypto z mem U (odb_reopen db')" using durable.reopened_ok[OF w(2)] by (simp add: odb_durable_def)
  moreover have "\<forall>q \<in> set (dirs_below es []). holds_tree crypto z mem (odb_reopen db') (tree_text crypto es q)"
    using w(3) g by (simp add: durable.extends_def)
  ultimately show ?thesis using w(1) odbs.extends_trans[OF w(4) g] unfolding re by blast
qed

lemma checkout_core:
  assumes p: "portable (wt_path wt) es" and d: "empty_dir (wt_path wt) (map_of w)" and o: "wt_odb wt = Some db"
    and db: "odb_ok crypto z mem U db" "\<forall>q \<in> set (dirs_below es []). holds_tree crypto z mem db (tree_text crypto es q)"
      "\<forall>e \<in> set es. in_odb z mem db (ie_oid e) (BLOB, c (ie_oid e))"
    and n: "longest es < n"
  shows "\<exists>db' w'. fastgit_checkout_tree n z mem umask wt (name_of crypto (tree_text crypto es [])) force w = Some (Inr (), Some db', w') \<and>
    map_of w' = overlay (map_of w) (wt_files umask c (wt_path wt) es)"
proof -
  let ?root = "wt_path wt"
  have f: "fit_entries z mem db c ?root (map_of w) es"
    using p db(3) portable_fits[OF p d] by (auto simp: fit_entries_def portable_def clean_path_def)
  have all: "files_under es [] = es" using p by (simp add: files_under_def filter_id_conv below_def portable_def)
  have st: "wt_ok crypto z mem U db umask c ?root (map_of w) [] (Some db, w)"
    using db(1) by (auto simp: wt_ok_def wt_files_def odbs.extends_refl)
  have "\<exists>st' ord. checkout_tree_recursive n z mem umask ?root force (name_of crypto (tree_text crypto es [])) [] (Some db, w) = Some (Inr (), st') \<and>
      mset ord = mset (files_under es []) \<and> wt_ok crypto z mem U db umask c ?root (map_of w) ([] @ ord) st'"
    by (rule checkout_tree_ok[OF f _ db(2) _ _ _ st db(1)]) (use p n in \<open>simp_all add: portable_def dir_prefix_def all\<close>)
  then obtain st' ord where r: "checkout_tree_recursive n z mem umask ?root force (name_of crypto (tree_text crypto es [])) [] (Some db, w) = Some (Inr (), st')"
    "mset ord = mset es" "wt_ok crypto z mem U db umask c ?root (map_of w) ([] @ ord) st'"
    unfolding all by blast
  have "wt_files umask c ?root ord = wt_files umask c ?root es"
    using p r(2) by (intro wt_files_mset[symmetric]) (simp_all add: portable_def distinct_target)
  moreover obtain db' w' where "st' = (Some db', w')" using r(3) by (cases st') (auto simp: wt_ok_def)
  ultimately show ?thesis using r by (auto simp: fastgit_checkout_tree_def o wt_ok_def)
qed

lemma mask_bit8: "m AND 0x100 = 0 \<longleftrightarrow> \<not> bit m 8" for m :: u32
  using and_exp_eq_0_iff_not_bit[of m 8] by simp

lemma readable_mode:
  assumes "umask AND 0x100 = 0" "m AND 0x100 \<noteq> 0"
  shows "((m AND 0x1FF) AND NOT umask) AND 0x100 \<noteq> (0 :: u32)"
proof -
  have "bit (0x1FF :: u32) 8" by simp
  then show ?thesis using assms unfolding mask_bit8 by (simp add: bit_simps)
qed

lemma checked_out_clean:
  assumes p: "portable (wt_path wt) (ix_entries ix)" and d: "empty_dir (wt_path wt) W" and ix: "index_ok ix"
    and db: "odb_ok crypto z mem U db" "\<forall>e \<in> set (ix_entries ix). in_odb z mem db (ie_oid e) (BLOB, c (ie_oid e))"
    and m: "umask AND 0x100 = 0" and w: "map_of w = overlay W (wt_files umask c (wt_path wt) (ix_entries ix))"
  shows "\<exists>ses ix'. fastgit_status crypto mem pool wt w (Some ix) = Some (Inr (ses, ix')) \<and>
    map se_path ses = map ie_path (ix_entries ix) \<and> (\<forall>se \<in> set ses. \<not> se_changed se)"
proof -
  let ?root = "wt_path wt" and ?es = "ix_entries ix"
  let ?S = "wt_files umask c ?root ?es"
  have f: "fits W (target ?root ` set ?es)" by (rule portable_fits[OF p d])
  have wok: "work_ok ?root w" by (rule checked_out_ok[OF d f _ w]) (use p in \<open>simp add: portable_def\<close>)
  have "?root \<noteq> target ?root e" for e by (simp add: target_def)
  then have "?S ?root = None" using dom_wt_files[of umask c ?root ?es] by blast
  then have root: "is_dir w ?root" using d by (simp add: is_dir_def w overlay_def empty_dir_def)
  have node: "map_of w (target ?root e) = Some (wt_node umask c e)" if "e \<in> set ?es" for e
  proof -
    have "distinct (map fst (map (\<lambda>e. (target ?root e, wt_node umask c e)) ?es))"
      using p by (simp add: portable_def comp_def distinct_target[unfolded comp_def])
    then have "?S (target ?root e) = Some (wt_node umask c e)" unfolding wt_files_def using that by (intro map_of_is_SomeI) auto
    then show ?thesis by (simp add: w overlay_def)
  qed
  have par: "sha256_ok crypto" "universe crypto mem U" using db(1) by (simp_all add: odb_ok_def)
  have ent: "comparable mem ?root w e \<and> entry_clean crypto ?root w e" if e: "e \<in> set ?es" for e
  proof -
    have u: "(BLOB, c (ie_oid e)) \<in> U" "obj_name crypto (BLOB, c (ie_oid e)) = Inr (ie_oid e)"
      using holds_named[OF db(1)] db(2) e by blast+
    then have s: "storable mem (BLOB, c (ie_oid e))" using par(2) by (simp add: universe_def)
    have "blob_oid crypto (c (ie_oid e)) = Inr (ie_oid e)" using blob_oid_name[OF par(1) s] u(2) by simp
    then show ?thesis
      using node[OF e] p e s readable_mode[OF m, of "ie_mode e"]
      by (simp add: comparable_def entry_clean_def wt_node_def portable_def storable_def)
  qed
  have nrm: "filter (\<lambda>e. ie_stage e = STAGE_NORMAL) ?es = ?es" using p by (simp add: portable_def filter_id_conv)
  have none: "new_files ?root w (index_map ix) ?root = {}"
  proof -
    have "\<not> is_new ?root w (index_map ix) q" if q: "above ?root q" for q
    proof
      assume n: "is_new ?root w (index_map ix) q"
      then obtain md dd where r: "overlay W ?S q = Some (Reg md dd)" by (auto simp: is_new_def w)
      have "W q = None" using d q by (simp add: empty_dir_def)
      from r this have "q \<in> dom ?S" by (cases rule: overlay_cases) auto
      then obtain e where e: "e \<in> set ?es" "q = target ?root e" by (auto simp: dom_wt_files)
      then have "ie_key e = (rel_of ?root q, STAGE_NORMAL)" using p by (simp add: ie_key_def rel_of_def target_def portable_def)
      then show False using n e(1) unfolding is_new_def index_map_None by blast
    qed
    then show ?thesis by (simp add: new_files_def)
  qed
  have cmp: "\<forall>e \<in> set ?es. ie_stage e = STAGE_NORMAL \<longrightarrow> comparable mem ?root w e" using ent by blast
  obtain ts us ix' where st: "fastgit_status crypto mem pool wt w (Some ix) = Some (Inr (ts @ us, ix'))"
    "list_all2 (\<lambda>e se. se_path se = ie_path e \<and> (se_changed se \<longleftrightarrow> \<not> entry_clean crypto ?root w e)) ?es ts"
    "set us = new_files ?root w (index_map ix) ?root"
    using status_core[OF par(1) wok root ix cmp, of pool, unfolded nrm] by blast
  have "us = []" using st(3) none by simp
  moreover have "map se_path ts = map ie_path ?es \<and> (\<forall>se \<in> set ts. \<not> se_changed se)"
    using st(2) ent[OF nth_mem] by (auto simp: list_all2_conv_all_nth in_set_conv_nth intro!: nth_equalityI)
  ultimately show ?thesis using st(1) by auto
qed

section \<open>Properties\<close>


definition demo_tree :: worktree where
  "demo_tree = \<lparr>wt_path = str ''/w'', wt_gitdir = str ''/w/.git'', wt_odb = None\<rparr>"

definition demo_work :: work where
  "demo_work = [(str ''/w'', Dir), (str ''/w/b'', Reg 0x1A4 [120])]"

lemma demo_work_above: "map_of demo_work p = Some n \<Longrightarrow> above (str ''/w'') p \<Longrightarrow> p = str ''/w/b'' \<and> n = Reg 0x1A4 [120]"
  by (auto simp: demo_work_def above_def str_def split: if_splits)


text \<open>
  C6. Adding, writing and checking out close the loop: for an index of plain files, readable by their
  owner, the trees are written; the id of the root, checked out into an empty directory, terminates
  and gives exactly the files of the index, with their contents and modes less the umask, and the
  directories above them; and status of the result reports every entry, none of them changed.
\<close>

theorem checkout_clean:
  assumes p: "portable (wt_path wt) (ix_entries ix)" "index_ok ix" "odb_path_from_index ix = Inr dir"
    and db: "odb_ok crypto z mem U (fastgit_odb_open (fs dir))"
      "\<forall>q \<in> tree_dirs (ix_entries ix). (TREE, tree_text crypto (ix_entries (sort_for_tree ix)) q) \<in> U"
      "\<forall>e \<in> set (ix_entries ix). in_odb z mem (fastgit_odb_open (fs dir)) (ie_oid e) (BLOB, c (ie_oid e))"
    and w: "empty_dir (wt_path wt) (map_of w)" "umask AND 0x100 = 0" "longest (ix_entries ix) < n" "ix_entries ix \<noteq> []"
  shows "\<exists>x ix1 fs1 db w' ses ix2. fastgit_index_write_tree crypto z (ix, fs) = (Inr x, ix1, fs1) \<and>
    fastgit_checkout_tree n z mem umask (wt\<lparr>wt_odb := Some (fastgit_odb_open (fs1 dir))\<rparr>) x force w = Some (Inr (), Some db, w') \<and>
    map_of w' = overlay (map_of w) (wt_files umask c (wt_path wt) (ix_entries ix)) \<and>
    fastgit_status crypto mem pool wt w' (Some ix) = Some (Inr (ses, ix2)) \<and>
    map se_path ses = map ie_path (ix_entries ix) \<and> (\<forall>se \<in> set ses. \<not> se_changed se)"
proof -
  let ?es = "ix_entries (sort_for_tree ix)" and ?root = "wt_path wt"
  have m: "mset ?es = mset (ix_entries ix)" by (rule sort_for_tree_facts(1))
  have s: "set ?es = set (ix_entries ix)" by (rule mset_eq_setD[OF m])
  have pe: "portable ?root ?es" by (rule portable_mset[OF p(1) m])
  have "\<forall>q \<in> tree_dirs ?es. (TREE, tree_text crypto ?es q) \<in> U" using db(2) by (simp add: tree_dirs_def s)
  then obtain db1 where wr: "write_tree_recursive crypto z ?es [] (fastgit_odb_open (fs dir)) = (Inr (name_of crypto (tree_text crypto ?es [])), db1)"
    "odb_ok crypto z mem U (fastgit_odb_open (oc_disk (odb_head db1)))"
    "grows z mem (fastgit_odb_open (fs dir)) (fastgit_odb_open (oc_disk (odb_head db1)))"
    "\<forall>q \<in> set (dirs_below ?es []). holds_tree crypto z mem (fastgit_odb_open (oc_disk (odb_head db1))) (tree_text crypto ?es q)"
    using write_reopened[OF db(1)] by blast
  let ?fs = "fs(dir := oc_disk (odb_head db1))"
  let ?wt = "wt\<lparr>wt_odb := Some (fastgit_odb_open (?fs dir))\<rparr>"
  have blobs: "\<forall>e \<in> set (ix_entries ix). in_odb z mem (fastgit_odb_open (oc_disk (odb_head db1))) (ie_oid e) (BLOB, c (ie_oid e))"
    using db(3) wr(3) by (simp add: odbs.extends_def)
  have wt: "fastgit_index_write_tree crypto z (ix, fs) = (Inr (name_of crypto (tree_text crypto ?es [])), sort_for_tree ix, ?fs)"
    using p(1,3) w(4) wr(1) by (simp add: fastgit_index_write_tree_def fastgit_index_has_conflicts_def portable_def Let_def)
  have "longest ?es < n" using w(3) by (simp add: longest_def s)
  then obtain db2 w' where co: "fastgit_checkout_tree n z mem umask ?wt (name_of crypto (tree_text crypto ?es [])) force w = Some (Inr (), Some db2, w')"
    "map_of w' = overlay (map_of w) (wt_files umask c ?root ?es)"
    using checkout_core[of ?wt ?es w "fastgit_odb_open (?fs dir)" crypto z mem U c n umask force] pe w(1) wr(2,4) blobs by (auto simp: s)
  have files: "wt_files umask c ?root ?es = wt_files umask c ?root (ix_entries ix)"
    using p(1) by (intro wt_files_mset[symmetric]) (simp_all add: m portable_def distinct_target)
  show ?thesis
    using wt co(1) co(2)[unfolded files] checked_out_clean[OF p(1) w(1) p(2) wr(2) blobs w(2) co(2)[unfolded files], of pool] by blast
qed

text \<open>The example: one empty file \<open>d/a\<close>, whose blob is in the database.\<close>

abbreviation demo_objects :: "(obj_type \<times> bytes) set" where
  "demo_objects \<equiv> {(TREE, d_text), (TREE, root_tree), (BLOB, [])}"

lemma demo_objects_ok: "universe (Some toy_hash) 10000 demo_objects"
  "obj_name (Some toy_hash) (BLOB, []) = Inr (toy_oid 7)"
proof -
  have b: "storable 10000 (BLOB, [])" by (simp add: storable_def base_type_def)
  have "length (obj_text BLOB []) = 7" by code_simp
  then show n: "obj_name (Some toy_hash) (BLOB, []) = Inr (toy_oid 7)" using toy_name[OF b] by simp
  show "universe (Some toy_hash) 10000 demo_objects"
    using demo_storable demo_names b n by (auto simp: universe_def inj_on_def)
qed

lemma demo_blob_stored:
  "\<exists>dk. odb_ok (Some toy_hash) stuff_zlib 10000 demo_objects (fastgit_odb_open dk) \<and>
    in_odb stuff_zlib 10000 (fastgit_odb_open dk) (toy_oid 7) (BLOB, [])"
proof -
  have e: "odb_durable (Some toy_hash) stuff_zlib 10000 demo_objects (fastgit_odb_open empty_disk)"
    by (rule opened_durable[OF empty_ok[OF toy_params stuff_zlib_ok demo_objects_ok(1)]])
  obtain k db where p: "odb_durable (Some toy_hash) stuff_zlib 10000 demo_objects db" "in_odb stuff_zlib 10000 db k (BLOB, [])"
    using durable.put_ok[OF e, of "(BLOB, [])"] by blast
  have "odb_ok (Some toy_hash) stuff_zlib 10000 demo_objects db" using p(1) by (simp add: odb_durable_def)
  then have "k = toy_oid 7" using holds_named[OF _ p(2)] demo_objects_ok(2) by fastforce
  moreover have "odb_ok (Some toy_hash) stuff_zlib 10000 demo_objects (odb_reopen db)"
    using durable.reopened_ok[OF p(1)] by (simp add: odb_durable_def)
  moreover have "in_odb stuff_zlib 10000 (odb_reopen db) k (BLOB, [])"
    using durable.reopened_extends[OF p(1)] p(2) by (simp add: durable.extends_def)
  ultimately show ?thesis by (auto simp: odb_reopen_def)
qed

lemma demo_index_sorted: "\<exists>ht. index_ok (demo_index\<lparr>ix_ht := ht\<rparr>)"
proof -
  have "entries_ok [demo_entry]" by (simp add: entries_ok_def demo_entry_def blank_entry_def str_def)
  then show ?thesis using rebuild_ok[of "[demo_entry]"] by (auto simp: index_ok_def demo_index_def)
qed

lemma demo_portable: "portable (str ''/w'') [demo_entry]"
  by (simp add: portable_def files_ok_def demo_entry_def blank_entry_def TREE_MODE_def STAGE_NORMAL_def
      target_def S_ISDIR_def clean_path_def above_def str_def sublist_Cons_right)

theorem checkout_clean_witness:
  "\<exists>ix fs x ix1 fs1 db w' ses ix2. ix_entries ix = [demo_entry] \<and>
    fastgit_index_write_tree (Some toy_hash) stuff_zlib (ix, fs) = (Inr x, ix1, fs1) \<and>
    fastgit_checkout_tree 4 stuff_zlib 10000 0x12 (demo_tree\<lparr>wt_odb := Some (fastgit_odb_open (fs1 (str ''/r/.git/objects'')))\<rparr>)
      x False [(str ''/w'', Dir)] = Some (Inr (), Some db, w') \<and>
    map_of w' (str ''/w/d/a'') = Some (Reg 0x1A4 []) \<and>
    fastgit_status (Some toy_hash) 10000 False demo_tree w' (Some ix) = Some (Inr (ses, ix2)) \<and>
    map se_path ses = [str ''d/a''] \<and> (\<forall>se \<in> set ses. \<not> se_changed se)"
proof -
  obtain dk where dk: "odb_ok (Some toy_hash) stuff_zlib 10000 demo_objects (fastgit_odb_open dk)"
    "in_odb stuff_zlib 10000 (fastgit_odb_open dk) (toy_oid 7) (BLOB, [])"
    using demo_blob_stored by blast
  obtain ht where ht: "index_ok (demo_index\<lparr>ix_ht := ht\<rparr>)" using demo_index_sorted by blast
  let ?ix = "demo_index\<lparr>ix_ht := ht\<rparr>" and ?d = "str ''/r/.git/objects''" and ?fs = "\<lambda>_ :: bytes. dk"
  have ix: "ix_entries ?ix = [demo_entry]" "ix_entries (sort_for_tree ?ix) = [demo_entry]"
    by (simp_all add: demo_index_def sort_for_tree_def)
  have wt: "wt_path demo_tree = str ''/w''" by (simp add: demo_tree_def)
  have dir: "odb_path_from_index ?ix = Inr ?d"
    by (simp add: demo_index_def odb_path_from_index_def str_def Let_def)
  have db: "odb_ok (Some toy_hash) stuff_zlib 10000 demo_objects (fastgit_odb_open (?fs ?d))"
    "\<forall>q \<in> tree_dirs [demo_entry]. (TREE, tree_text (Some toy_hash) [demo_entry] q) \<in> demo_objects"
    "\<forall>e \<in> set [demo_entry]. in_odb stuff_zlib 10000 (fastgit_odb_open (?fs ?d)) (ie_oid e) (BLOB, [])"
    using dk demo_in_universe by (auto simp: demo_entry_def blank_entry_def)
  have w: "empty_dir (str ''/w'') (map_of [(str ''/w'', Dir)])"
    by (auto simp: empty_dir_def above_def str_def Cons_eq_append_conv append_eq_Cons_conv prefix_def)
  have l: "longest [demo_entry] < 4" by (simp add: longest_def demo_entry_def blank_entry_def str_def)
  obtain x ix1 fs1 db2 w' ses ix2 where r: "fastgit_index_write_tree (Some toy_hash) stuff_zlib (?ix, ?fs) = (Inr x, ix1, fs1)"
    "fastgit_checkout_tree 4 stuff_zlib 10000 0x12 (demo_tree\<lparr>wt_odb := Some (fastgit_odb_open (fs1 ?d))\<rparr>)
      x False [(str ''/w'', Dir)] = Some (Inr (), Some db2, w')"
    "map_of w' = overlay (map_of [(str ''/w'', Dir)]) (wt_files 0x12 (\<lambda>_. []) (str ''/w'') [demo_entry])"
    "fastgit_status (Some toy_hash) 10000 False demo_tree w' (Some ?ix) = Some (Inr (ses, ix2))"
    "map se_path ses = [ie_path demo_entry]" "\<forall>se \<in> set ses. \<not> se_changed se"
    using checkout_clean[where wt = demo_tree and ix = ?ix and umask = "0x12" and n = "4" and force = False and pool = False,
      unfolded ix wt, OF demo_portable ht dir db w _ l] by fastforce
  have f: "map_of w' (str ''/w/d/a'') = Some (Reg 0x1A4 [])"
    by (simp add: r(3) overlay_def wt_files_def target_def wt_node_def demo_entry_def blank_entry_def str_def)
  have "ie_path demo_entry = str ''d/a''" by (simp add: demo_entry_def blank_entry_def)
  then have q: "map se_path ses = [str ''d/a'']" using r(5) by simp
  show ?thesis by (intro exI conjI, rule ix(1), rule r(1), rule r(2), rule f, rule r(4), rule q, rule r(6))
qed

end
