(* ===== verification/CommitGraph.thy ===== *)
theory CommitGraph
  imports Refs
begin

text \<open>
  The commit graph file of \<^verbatim>\<open>src/object/commit_graph.c\<close>: the commits among the loose objects, sorted,
  with the positions of their first two parents, a generation number and the time of the committer.
  Position 0 doubles as "no parent".
\<close>

section \<open>State\<close>

record commit_graph =
  cg_oids :: "oid list"
  cg_parents :: "(u32 \<times> u32) list"
  cg_generation :: "u32 list"
  cg_commit_time :: "u64 list"

definition graph_path :: "bytes \<Rightarrow> bytes" where
  "graph_path gitdir = bufn 4096 (gitdir @ str ''/objects/info/commit-graph'')"

section \<open>Collecting the commits\<close>

text \<open>Objects that cannot be read are passed over.\<close>

fun graph_commits :: "zlib \<Rightarrow> nat \<Rightarrow> oid list \<Rightarrow> odb \<Rightarrow> oid list res \<times> odb" where
  "graph_commits z mem [] db = (Inr [], db)"
| "graph_commits z mem (x # xs) db =
     (case fastgit_odb_read z mem x db of
        (Inl e, db') \<Rightarrow> if e = Undefined then (Inl e, db') else graph_commits z mem xs db'
      | (Inr ob, db') \<Rightarrow>
          (case graph_commits z mem xs db' of
             (r, db2) \<Rightarrow> (bindr r (\<lambda>l. Inr (if oo_type ob = COMMIT then x # l else l)), db2)))"

text \<open>The bounds of the search are ints; their sum must not overflow.\<close>

function graph_search :: "oid list \<Rightarrow> oid \<Rightarrow> int \<Rightarrow> int \<Rightarrow> nat option res" where
  "graph_search oids x lo hi =
     (if lo \<le> hi then
        (if 2 ^ 31 \<le> lo + hi then Inl Undefined
         else let mid = (lo + hi) div 2; c = fastgit_oid_cmp (Some x) (Some (oids ! nat mid)) in
           if c = 0 then Inr (Some (nat mid))
           else if c < 0 then graph_search oids x lo (mid - 1)
           else graph_search oids x (mid + 1) hi)
      else Inr None)"
  by pat_completeness auto
termination
  by (relation "measure (\<lambda>(oids, x, lo, hi). nat (hi + 1 - lo))") auto

declare graph_search.simps [simp del]

definition graph_find :: "oid list \<Rightarrow> oid \<Rightarrow> nat option res" where
  "graph_find oids x = graph_search oids x 0 (sint (of_nat (length oids) - 1 :: u32))"

text \<open>The cell of a parent, as calloc leaves it unless the parent is found.\<close>

definition parent_cell :: "oid list \<Rightarrow> oid list \<Rightarrow> nat \<Rightarrow> u32 res" where
  "parent_cell oids ps p =
     (if p < length ps then bindr (graph_find oids (ps ! p)) (\<lambda>r. Inr (case r of None \<Rightarrow> 0 | Some i \<Rightarrow> of_nat i))
      else Inr 0)"

definition commit_row :: "oid list \<Rightarrow> object \<Rightarrow> ((u32 \<times> u32) \<times> u64) res" where
  "commit_row oids obj =
     bindr (fastgit_commit_parse obj) (\<lambda>(co, _).
       case co of
         None \<Rightarrow> Inr ((0, 0), 0)
       | Some c \<Rightarrow>
           bindr (parent_cell oids (c_parents c) 0) (\<lambda>p0.
           bindr (parent_cell oids (c_parents c) 1) (\<lambda>p1.
             Inr ((p0, p1), case c_committer c of None \<Rightarrow> 0 | Some s \<Rightarrow> of_int (sig_when s)))))"

fun graph_rows :: "zlib \<Rightarrow> nat \<Rightarrow> oid list \<Rightarrow> oid list \<Rightarrow> odb \<Rightarrow> ((u32 \<times> u32) \<times> u64) list res \<times> odb" where
  "graph_rows z mem oids [] db = (Inr [], db)"
| "graph_rows z mem oids (x # xs) db =
     (case fastgit_odb_read z mem x db of
        (r, db') \<Rightarrow>
          (case graph_rows z mem oids xs db' of
             (rs, db2) \<Rightarrow>
               (bindr (case r of
                    Inl e \<Rightarrow> if e = Undefined then Inl e else Inr ((0, 0), 0)
                  | Inr ob \<Rightarrow>
                      if oo_type ob = COMMIT then commit_row oids (fastgit_object_parse COMMIT (oo_data ob))
                      else Inr ((0, 0), 0))
                 (\<lambda>row. bindr rs (\<lambda>rows. Inr (row # rows))), db2)))"

section \<open>Generation numbers\<close>

text \<open>
  One pass in the order of the ids. The test for a missing parent is never true for an array from
  calloc, so that a commit without parents counts as a child of the first commit.
\<close>

definition gen_step :: "u32 list \<Rightarrow> u32 \<Rightarrow> u32 \<Rightarrow> u32" where
  "gen_step g gen pi =
     (if pi \<noteq> 0xFFFFFFFF \<and> gen < g ! unat pi + 1 then g ! unat pi + 1 else gen)"

definition graph_generations :: "(u32 \<times> u32) list \<Rightarrow> u32 list" where
  "graph_generations ps =
     foldl (\<lambda>g i. g[i := gen_step g (gen_step g 0 (fst (ps ! i))) (snd (ps ! i))])
       (replicate (length ps) 0) [0..<length ps]"

section \<open>Writing\<close>

definition none_if_0 :: "u32 \<Rightarrow> u32" where
  "none_if_0 p = (if p = 0 then 0xFFFFFFFF else p)"

definition graph_row :: "u32 \<times> (u32 \<times> u32) \<times> u64 \<Rightarrow> bytes" where
  "graph_row r = (case r of (g, (p0, p1), t) \<Rightarrow> be32 g @ be64 t @ be32 (none_if_0 p0) @ be32 (none_if_0 p1))"

definition graph_fanout :: "oid list \<Rightarrow> u32 list" where
  "graph_fanout oids =
     cumulate 0 (map (\<lambda>f. of_nat (length (filter (\<lambda>x. lead (oid_hash x) = f) oids))) [0..<256])"

definition graph_file :: "oid list \<Rightarrow> ((u32 \<times> u32) \<times> u64) list \<Rightarrow> bytes" where
  "graph_file oids rows =
     [67, 71, 80, 72, 1, 1, 0, 0]
     @ concat (map be32 (graph_fanout oids))
     @ concat (map oid_hash oids)
     @ concat (map graph_row (zip (graph_generations (map fst rows)) rows))
     @ replicate 32 0"

definition fastgit_commit_graph_write :: "zlib \<Rightarrow> nat \<Rightarrow> repo \<Rightarrow> odb \<Rightarrow> unit res \<times> repo \<times> odb" where
  "fastgit_commit_graph_write z mem rp db =
     (case graph_commits z mem (fastgit_odb_iterator_new db) db of
        (Inl e, db1) \<Rightarrow> (Inl e, rp, db1)
      | (Inr xs, db1) \<Rightarrow>
          if xs = [] then (Inr (), rp, db1)
          else let oids = sort xs in
            (case graph_rows z mem oids oids db1 of
               (Inl e, db2) \<Rightarrow> (Inl e, rp, db2)
             | (Inr rows, db2) \<Rightarrow>
                 (Inr (), rp\<lparr>rp_files := put_file (graph_path (rp_gitdir rp)) (graph_file oids rows) (rp_files rp)\<rparr>, db2)))"

section \<open>Reading\<close>

text \<open>
  Only the first reads are checked: a short file leaves the count, or the buffer of a row,
  unwritten; ids that are missing stay zero. \<open>mem\<close> bounds the table of ids (80 bytes each).
\<close>

definition get_graph_row :: "bytes \<Rightarrow> ((u32 \<times> u64 \<times> u32 \<times> u32) \<times> bytes) option" where
  "get_graph_row s =
     (case get32 s of None \<Rightarrow> None | Some (g, s1) \<Rightarrow>
     (case get64 s1 of None \<Rightarrow> None | Some (t, s2) \<Rightarrow>
     (case get32 s2 of None \<Rightarrow> None | Some (p0, s3) \<Rightarrow>
     (case get32 s3 of None \<Rightarrow> None | Some (p1, s4) \<Rightarrow> Some ((g, t, p0, p1), s4)))))"

definition graph_oid :: "bytes \<Rightarrow> nat \<Rightarrow> oid" where
  "graph_oid s i = (let h = take 32 (drop (32 * i) s) in \<lparr>oid_algo = HASH_SHA256, oid_hash = h @ replicate (32 - length h) 0\<rparr>)"

definition fastgit_commit_graph_read :: "nat \<Rightarrow> repo \<Rightarrow> commit_graph res" where
  "fastgit_commit_graph_read mem rp =
     (case map_of (rp_files rp) (graph_path (rp_gitdir rp)) of
        None \<Rightarrow> Inl ENOENT
      | Some f \<Rightarrow>
          if length f < 8 \<or> take 4 f \<noteq> [67, 71, 80, 72] then Inl EINVAL
          else bindr (in_map (get32 (drop 1028 f))) (\<lambda>(c, _).
            let count = unat c; s = drop 1032 f in
            if mem < 80 * count \<or> 2 ^ 31 \<le> count then Inl Undefined
            else bindr (in_map (read_many get_graph_row count (drop (32 * count) s))) (\<lambda>(rows, _).
              Inr \<lparr>cg_oids = map (graph_oid s) [0..<count],
                   cg_parents = map (\<lambda>(g, t, p0, p1). (p0, p1)) rows,
                   cg_generation = map (\<lambda>(g, t, p0, p1). g) rows,
                   cg_commit_time = map (\<lambda>(g, t, p0, p1). t) rows\<rparr>)))"

end
