(* ===== verification/CommitGraphProps.thy ===== *)
theory CommitGraphProps
  imports CommitGraph MidxProps IndexTreeProps RefProps
begin

text \<open>The commit graph that is written and read again describes the history that the database has.\<close>

abbreviation (input) held :: "zlib \<Rightarrow> nat \<Rightarrow> odb \<Rightarrow> oid \<Rightarrow> obj_type \<times> bytes \<Rightarrow> bool" where
  "held z mem \<equiv> object_store.holds (odb_get z mem) sha_key"

section \<open>The search\<close>

lemma graph_search_ok:
  assumes "sorted_wrt (<) oids" "length oids \<le> 2 ^ 30"
  shows "0 \<le> lo \<Longrightarrow> hi < int (length oids) \<Longrightarrow> \<forall>i < length oids. oids ! i = x \<longrightarrow> lo \<le> int i \<and> int i \<le> hi \<Longrightarrow>
    \<exists>r. graph_search oids x lo hi = Inr r \<and> (case r of None \<Rightarrow> x \<notin> set oids | Some i \<Rightarrow> i < length oids \<and> oids ! i = x)"
proof (induction "nat (hi + 1 - lo)" arbitrary: lo hi rule: less_induct)
  case less
  show ?case
  proof (cases "lo \<le> hi")
    case False
    then have "x \<notin> set oids" using less.prems(3) by (force simp: in_set_conv_nth)
    then show ?thesis using False by (subst graph_search.simps) simp
  next
    case True
    let ?mid = "(lo + hi) div 2"
    have m: "lo \<le> ?mid" "?mid \<le> hi" "\<not> 2 ^ 31 \<le> lo + hi" "nat ?mid < length oids"
      using True less.prems(1,2) assms(2) by auto
    have ord: "oids ! i < oids ! j" if "i < j" "j < length oids" for i j
      using sorted_wrt_nth_less[OF assms(1) that] .
    have ne: "\<forall>i < length oids. oids ! i = x \<longrightarrow> i \<noteq> nat ?mid" if "oids ! nat ?mid \<noteq> x" using that by blast
    consider "x = oids ! nat ?mid" | "x < oids ! nat ?mid" | "oids ! nat ?mid < x" by fastforce
    then show ?thesis
    proof cases
      case 1
      then show ?thesis using True m by (subst graph_search.simps) (simp add: Let_def oid_cmp_eq)
    next
      case 2
      have b: "\<forall>i < length oids. oids ! i = x \<longrightarrow> lo \<le> int i \<and> int i \<le> ?mid - 1"
      proof (intro allI impI conjI)
        fix i assume i: "i < length oids" "oids ! i = x"
        show "lo \<le> int i" using less.prems(3) i by blast
        have "\<not> nat ?mid \<le> i" using ord[of "nat ?mid" i] i 2 by (metis le_eq_less_or_eq less_irrefl order.strict_trans)
        then show "int i \<le> ?mid - 1" using m(1) less.prems(1) by linarith
      qed
      have "graph_search oids x lo hi = graph_search oids x lo (?mid - 1)"
        using True m(3) 2 oid_cmp_less[of x "oids ! nat ?mid"] by (subst graph_search.simps) (simp add: Let_def)
      moreover have "nat (?mid - 1 + 1 - lo) < nat (hi + 1 - lo)" "?mid - 1 < int (length oids)" using True m less.prems(2) by linarith+
      ultimately show ?thesis using less.hyps[OF _ less.prems(1) _ b] by simp
    next
      case 3
      have b: "\<forall>i < length oids. oids ! i = x \<longrightarrow> ?mid + 1 \<le> int i \<and> int i \<le> hi"
      proof (intro allI impI conjI)
        fix i assume i: "i < length oids" "oids ! i = x"
        show "int i \<le> hi" using less.prems(3) i by blast
        have "\<not> i \<le> nat ?mid" using ord[of i "nat ?mid"] i 3 m(4) by (metis le_eq_less_or_eq less_irrefl order.strict_trans)
        then show "?mid + 1 \<le> int i" using m(1) less.prems(1) by linarith
      qed
      have "graph_search oids x lo hi = graph_search oids x (?mid + 1) hi"
        using True m(3) 3 oid_cmp_greater[of x "oids ! nat ?mid"] oid_cmp_eq[of x "oids ! nat ?mid"]
        by (subst graph_search.simps) (auto simp: Let_def)
      moreover have "nat (hi + 1 - (?mid + 1)) < nat (hi + 1 - lo)" "0 \<le> ?mid + 1" using True m less.prems(1) by linarith+
      ultimately show ?thesis using less.hyps[OF _ _ less.prems(2) b] by simp
    qed
  qed
qed

lemma graph_find_ok:
  assumes "sorted_wrt (<) oids" "length oids \<le> 2 ^ 30" "oids \<noteq> []"
  shows "\<exists>r. graph_find oids x = Inr r \<and> (case r of None \<Rightarrow> x \<notin> set oids | Some i \<Rightarrow> i < length oids \<and> oids ! i = x)"
proof -
  obtain n where n: "length oids = Suc n" using assms(3) by (cases oids) auto
  have "of_nat (length oids) - 1 = (of_nat n :: u32)" by (simp add: n)
  moreover have "sint (of_nat n :: u32) = int n" using assms(2) n by (simp add: signed_of_nat signed_take_bit_int_eq_self)
  ultimately show ?thesis using graph_search_ok[OF assms(1,2), of 0 "int n" x] by (simp add: graph_find_def n)
qed

text \<open>What a row says of a parent: its position, unless it is missing or has position 0.\<close>

definition parent_link :: "oid list \<Rightarrow> oid list \<Rightarrow> nat \<Rightarrow> u32 \<Rightarrow> bool" where
  "parent_link oids ps p v \<longleftrightarrow>
     (if p < length ps \<and> ps ! p \<in> set (tl oids) then unat v < length oids \<and> oids ! unat v = ps ! p else v = 0xFFFFFFFF)"

lemma parent_cell_ok:
  assumes "sorted_wrt (<) oids" "length oids \<le> 2 ^ 30" "oids \<noteq> []"
  shows "\<exists>v. parent_cell oids ps p = Inr v \<and> parent_link oids ps p (none_if_0 v)"
proof (cases "p < length ps")
  case True
  obtain r where r: "graph_find oids (ps ! p) = Inr r"
    "case r of None \<Rightarrow> ps ! p \<notin> set oids | Some i \<Rightarrow> i < length oids \<and> oids ! i = ps ! p"
    using graph_find_ok[OF assms] by blast
  obtain y ys where c: "oids = y # ys" using assms(3) by (cases oids) auto
  show ?thesis
  proof (cases r)
    case None
    then have "ps ! p \<notin> set (tl oids)" using r(2) c by auto
    then show ?thesis using True r(1) None by (simp add: parent_cell_def parent_link_def none_if_0_def)
  next
    case (Some i)
    then have i: "i < length oids" "oids ! i = ps ! p" using r(2) by auto
    have u: "unat (of_nat i :: u32) = i" using i(1) assms(2) by (simp add: unat_of_nat)
    show ?thesis
    proof (cases "i = 0")
      case True
      then have "ps ! p \<notin> set (tl oids)" using i(2) assms(1) c by auto
      then show ?thesis using \<open>p < length ps\<close> r(1) Some True by (simp add: parent_cell_def parent_link_def none_if_0_def)
    next
      case False
      have "of_nat i \<noteq> (0 :: u32)" using u False by (metis unat_0)
      moreover have "ps ! p \<in> set (tl oids)" using i False c nth_mem[of "i - 1" ys] by (cases i) auto
      ultimately show ?thesis using True r(1) Some i u by (simp add: parent_cell_def parent_link_def none_if_0_def)
    qed
  qed
qed (simp add: parent_cell_def parent_link_def none_if_0_def)

section \<open>Rows\<close>

definition commit_time :: "commit \<Rightarrow> u64" where
  "commit_time c = (case c_committer c of None \<Rightarrow> 0 | Some s \<Rightarrow> of_int (sig_when s))"

definition row_ok :: "oid list \<Rightarrow> bytes \<Rightarrow> (u32 \<times> u32) \<times> u64 \<Rightarrow> bool" where
  "row_ok oids d row \<longleftrightarrow> (\<forall>c. commit_parse_raw d = Inr c \<longrightarrow>
     parent_link oids (c_parents c) 0 (none_if_0 (fst (fst row))) \<and>
     parent_link oids (c_parents c) 1 (none_if_0 (snd (fst row))) \<and> snd row = commit_time c)"

lemma commit_row_ok:
  assumes "sorted_wrt (<) oids" "length oids \<le> 2 ^ 30" "oids \<noteq> []" "d \<noteq> []" "commit_parse_raw d \<noteq> Inl Undefined"
  shows "\<exists>row. commit_row oids (fastgit_object_parse COMMIT d) = Inr row \<and> row_ok oids d row"
proof (cases "commit_parse_raw d")
  case (Inl e)
  then show ?thesis using assms(4,5)
    by (simp add: commit_row_def fastgit_object_parse_def fastgit_commit_parse_def row_ok_def)
next
  case (Inr c)
  obtain p0 p1 where "parent_cell oids (c_parents c) 0 = Inr p0" "parent_link oids (c_parents c) 0 (none_if_0 p0)"
    "parent_cell oids (c_parents c) 1 = Inr p1" "parent_link oids (c_parents c) 1 (none_if_0 p1)"
    using parent_cell_ok[OF assms(1-3)] by meson
  then show ?thesis using assms(4) Inr
    by (simp add: commit_row_def fastgit_object_parse_def fastgit_commit_parse_def row_ok_def commit_time_def)
qed

section \<open>Reading the commits\<close>

lemma read_get:
  assumes "odb_ok crypto z mem U db" "held z mem db x (t, d)"
  obtains ob db' where "fastgit_odb_read z mem x db = (Inr ob, db')" "oo_type ob = t" "oo_data ob = d"
    "odb_ok crypto z mem U db'" "odbs.extends z mem db db'"
proof -
  obtain db' where g: "odb_get z mem db x = (Inr (t, d), db')" "odb_ok crypto z mem U db'" "odbs.extends z mem db db'"
    by (rule odbs.get_ok[OF assms])
  then obtain ob where "fastgit_odb_read z mem x db = (Inr ob, db')" "oo_type ob = t" "oo_data ob = d"
    by (auto simp: odb_get_def content_def bindr_Inr_iff split: prod.splits)
  then show ?thesis using that g by blast
qed

lemma graph_commits_ok:
  assumes "odb_ok crypto z mem U db" "\<forall>x \<in> set xs. held z mem db x (v x)"
  shows "\<exists>db'. graph_commits z mem xs db = (Inr (filter (\<lambda>x. fst (v x) = COMMIT) xs), db') \<and> odb_ok crypto z mem U db' \<and>
    odbs.extends z mem db db'"
  using assms
proof (induction xs arbitrary: db)
  case Nil
  then show ?case by (simp add: odbs.extends_refl)
next
  case (Cons x xs)
  obtain t d where v: "v x = (t, d)" by fastforce
  then have "held z mem db x (t, d)" using Cons.prems(2) by simp
  then obtain ob db1 where r: "fastgit_odb_read z mem x db = (Inr ob, db1)" "oo_type ob = t"
    "odb_ok crypto z mem U db1" "odbs.extends z mem db db1"
    using read_get[OF Cons.prems(1)] by metis
  have "\<forall>x \<in> set xs. held z mem db1 x (v x)" using Cons.prems(2) r(4) unfolding odbs.extends_def by (metis list.set_intros(2))
  from Cons.IH[OF r(3) this] obtain db' where
    "graph_commits z mem xs db1 = (Inr (filter (\<lambda>x. fst (v x) = COMMIT) xs), db')" "odb_ok crypto z mem U db'" "odbs.extends z mem db1 db'"
    by blast
  then show ?case using r v odbs.extends_trans[OF r(4)] by auto
qed

lemma graph_rows_ok:
  assumes oids: "sorted_wrt (<) oids" "length oids \<le> 2 ^ 30" "oids \<noteq> []"
    and "odb_ok crypto z mem U db"
    "\<forall>x \<in> set xs. held z mem db x (COMMIT, d x) \<and> d x \<noteq> [] \<and> commit_parse_raw (d x) \<noteq> Inl Undefined"
  shows "\<exists>rows db'. graph_rows z mem oids xs db = (Inr rows, db') \<and> list_all2 (\<lambda>x. row_ok oids (d x)) xs rows"
  using assms(4,5)
proof (induction xs arbitrary: db)
  case (Cons x xs)
  have "held z mem db x (COMMIT, d x)" using Cons.prems(2) by simp
  then obtain ob db1 where r: "fastgit_odb_read z mem x db = (Inr ob, db1)" "oo_type ob = COMMIT" "oo_data ob = d x"
    "odb_ok crypto z mem U db1" "odbs.extends z mem db db1"
    using read_get[OF Cons.prems(1)] by metis
  have "\<forall>x \<in> set xs. held z mem db1 x (COMMIT, d x) \<and> d x \<noteq> [] \<and> commit_parse_raw (d x) \<noteq> Inl Undefined"
    using Cons.prems(2) r(5) unfolding odbs.extends_def by (metis list.set_intros(2))
  from Cons.IH[OF r(4) this] obtain rows db' where "graph_rows z mem oids xs db1 = (Inr rows, db')"
    "list_all2 (\<lambda>x. row_ok oids (d x)) xs rows" by blast
  moreover obtain row where "commit_row oids (fastgit_object_parse COMMIT (d x)) = Inr row" "row_ok oids (d x) row"
    using commit_row_ok[OF oids, of "d x"] Cons.prems(2) by auto
  ultimately show ?case using r(1-3) by auto
qed simp

section \<open>The file\<close>

lemma graph_row_codec: "codec (\<lambda>(g, t, p0, p1). be32 g @ be64 t @ be32 p0 @ be32 p1) get_graph_row (\<lambda>_. True)"
  by unfold_locales (auto simp: get_graph_row_def)

lemma drop_blocks:
  "\<forall>x \<in> set xs. length (f x) = n \<Longrightarrow> drop (n * i) (concat (map f xs)) = concat (map f (drop i xs))"
proof (induction xs arbitrary: i)
  case (Cons x xs)
  then show ?case by (cases i) (simp_all add: drop_append)
qed simp

lemma length_blocks: "\<forall>x \<in> set xs. length (f x) = n \<Longrightarrow> length (concat (map f xs)) = n * length xs"
  by (induction xs) auto

text \<open>The fanout is that of a multi-pack index with the same names.\<close>

lemma graph_fanout_facts:
  assumes "length oids < 2 ^ 31"
  shows "length (graph_fanout oids) = 256" "unat (graph_fanout oids ! 255) = length oids"
proof -
  let ?es = "map (\<lambda>x. \<lparr>me_oid = x, me_pack_idx = 0, me_offset = 0\<rparr>) oids"
  have f: "graph_fanout oids = cumulate 0 (lead_counts ?es)"
    by (simp add: graph_fanout_def lead_counts_def filter_map comp_def)
  show "length (graph_fanout oids) = 256" by (simp add: f length_cumulate lead_counts_def)
  show "unat (graph_fanout oids ! 255) = length oids"
    using midx_fanout_unat[of ?es 255] assms leading_255[of "map me_key ?es"] by (simp add: f)
qed

lemma length_generations: "length (graph_generations ps) = length ps"
proof -
  have "length (foldl (\<lambda>g i. g[i := h g i]) g0 is) = length g0" for h :: "u32 list \<Rightarrow> nat \<Rightarrow> u32" and g0 "is"
    by (induction "is" arbitrary: g0) auto
  then show ?thesis by (simp add: graph_generations_def)
qed

lemma graph_read_written:
  assumes oids: "\<forall>x \<in> set oids. oid_algo x = HASH_SHA256 \<and> length (oid_hash x) = 32" and rows: "length rows = length oids"
    and n: "80 * length oids \<le> mem" "length oids \<le> 2 ^ 30"
    and f: "map_of (rp_files rp) (graph_path (rp_gitdir rp)) = Some (graph_file oids rows)"
  shows "fastgit_commit_graph_read mem rp = Inr \<lparr>cg_oids = oids,
    cg_parents = map (\<lambda>((p0, p1), t). (none_if_0 p0, none_if_0 p1)) rows,
    cg_generation = graph_generations (map fst rows), cg_commit_time = map snd rows\<rparr>"
proof -
  let ?fan = "graph_fanout oids" and ?g = "graph_generations (map fst rows)"
  let ?hs = "concat (map oid_hash oids)"
  let ?q = "map (\<lambda>(g, (p0, p1), t). (g, t, none_if_0 p0, none_if_0 p1)) (zip ?g rows)"
  let ?enc = "\<lambda>(g, t, p0, p1). be32 g @ be64 t @ be32 p0 @ be32 p1"
  let ?rs = "concat (map ?enc ?q)" and ?z = "replicate 32 0 :: bytes"
  have fan: "length ?fan = 256" "unat (?fan ! 255) = length oids" using graph_fanout_facts[of oids] n(2) by simp_all
  have "map graph_row (zip ?g rows) = map ?enc ?q" by (auto simp: graph_row_def)
  then have fl: "graph_file oids rows = [67, 71, 80, 72, 1, 1, 0, 0] @ concat (map be32 ?fan) @ ?hs @ ?rs @ ?z"
    unfolding graph_file_def by (simp only:)
  have lf: "length (concat (map be32 ?fan)) = 1024" by (simp add: length_be32s fan)
  have "drop 1020 (concat (map be32 ?fan)) = concat (map be32 (drop 255 ?fan))" using drop_be32s[of 255 ?fan] by simp
  also have "\<dots> = be32 (?fan ! 255)" using fan(1) by (simp add: Cons_nth_drop_Suc[symmetric])
  finally have d1: "drop 1028 (graph_file oids rows) = be32 (?fan ! 255) @ ?hs @ ?rs @ ?z"
    unfolding fl by (simp add: lf)
  have d2: "drop 1032 (graph_file oids rows) = ?hs @ ?rs @ ?z" unfolding fl by (simp add: lf)
  have lh: "length ?hs = 32 * length oids" by (rule length_blocks) (use oids in blast)
  have lq: "length ?q = length oids" using rows by (simp add: length_generations)
  have rd: "read_many get_graph_row (length oids) (?rs @ ?z) = Some (?q, ?z)"
    using codec.read_many_enc[OF graph_row_codec, of ?q ?z] lq by simp
  have go: "map (graph_oid (?hs @ ?rs @ ?z)) [0..<length oids] = oids"
  proof (rule nth_equalityI)
    fix i assume "i < length (map (graph_oid (?hs @ ?rs @ ?z)) [0..<length oids])"
    then have i: "i < length oids" by simp
    have "drop (32 * i) ?hs = concat (map oid_hash (drop i oids))" by (rule drop_blocks) (use oids in blast)
    also have "\<dots> = oid_hash (oids ! i) @ concat (map oid_hash (drop (Suc i) oids))" using i by (simp add: Cons_nth_drop_Suc[symmetric])
    finally have d: "take 32 (drop (32 * i) (?hs @ ?rs @ ?z)) = oid_hash (oids ! i)" using oids i lh by simp
    have "graph_oid (?hs @ ?rs @ ?z) i = oids ! i" using oids i unfolding graph_oid_def d by (simp add: Let_def)
    then show "map (graph_oid (?hs @ ?rs @ ?z)) [0..<length oids] ! i = oids ! i" using i by simp
  qed simp
  have hd: "\<not> (length (graph_file oids rows) < 8 \<or> take 4 (graph_file oids rows) \<noteq> [67, 71, 80, 72])" unfolding fl by simp
  have d3: "drop (32 * length oids) (?hs @ ?rs @ ?z) = ?rs @ ?z" using lh by simp
  have "map (\<lambda>(g, t, p0, p1). (p0, p1)) ?q = map (\<lambda>((p0, p1), t). (none_if_0 p0, none_if_0 p1)) rows"
    "map (\<lambda>(g, t, p0, p1). g) ?q = ?g" "map (\<lambda>(g, t, p0, p1). t) ?q = map snd rows"
    using rows lq by (auto intro!: nth_equalityI simp: length_generations split: prod.split)
  then show ?thesis
    unfolding fastgit_commit_graph_read_def f option.case if_not_P[OF hd] d1 get32_be in_map_def bindr_simps prod.case Let_def fan(2) d2 d3 rd go
    using n by simp
qed

text \<open>What the graph says of the commit at a position.\<close>

definition graph_entry :: "commit_graph \<Rightarrow> nat \<Rightarrow> commit \<Rightarrow> bool" where
  "graph_entry cg i c \<longleftrightarrow> parent_link (cg_oids cg) (c_parents c) 0 (fst (cg_parents cg ! i)) \<and>
     parent_link (cg_oids cg) (c_parents c) 1 (snd (cg_parents cg ! i)) \<and> cg_commit_time cg ! i = commit_time c"

lemma graph_built:
  assumes o: "sorted_wrt (<) oids" "length oids \<le> 2 ^ 30" "oids \<noteq> []" "80 * length oids \<le> mem" and db: "odb_ok crypto z mem U db"
    and h: "\<forall>x \<in> set oids. held z mem db x (COMMIT, d x) \<and> d x \<noteq> [] \<and> commit_parse_raw (d x) \<noteq> Inl Undefined"
  shows "\<exists>rows db' cg. graph_rows z mem oids oids db = (Inr rows, db') \<and>
    fastgit_commit_graph_read mem (rp\<lparr>rp_files := put_file (graph_path (rp_gitdir rp)) (graph_file oids rows) (rp_files rp)\<rparr>) = Inr cg \<and>
    cg_oids cg = oids \<and> (\<forall>i < length oids. \<forall>c. commit_parse_raw (d (oids ! i)) = Inr c \<longrightarrow> graph_entry cg i c)"
proof -
  obtain rows db' where rows: "graph_rows z mem oids oids db = (Inr rows, db')" "list_all2 (\<lambda>x. row_ok oids (d x)) oids rows"
    using graph_rows_ok[where d = d and xs = oids, OF o(1-3) db h] by blast
  have lr: "length rows = length oids" by (rule list_all2_lengthD[OF rows(2), symmetric])
  have nm: "\<forall>x \<in> set oids. oid_algo x = HASH_SHA256 \<and> length (oid_hash x) = 32" using holds_named[OF db] h by blast
  let ?cg = "\<lparr>cg_oids = oids, cg_parents = map (\<lambda>((p0, p1), t). (none_if_0 p0, none_if_0 p1)) rows,
    cg_generation = graph_generations (map fst rows), cg_commit_time = map snd rows\<rparr>"
  have "fastgit_commit_graph_read mem (rp\<lparr>rp_files := put_file (graph_path (rp_gitdir rp)) (graph_file oids rows) (rp_files rp)\<rparr>) = Inr ?cg"
    by (rule graph_read_written[OF nm lr o(4,2)]) simp
  moreover have "graph_entry ?cg i c" if i: "i < length oids" and c: "commit_parse_raw (d (oids ! i)) = Inr c" for i c
  proof -
    have "row_ok oids (d (oids ! i)) (rows ! i)" using rows(2) i by (simp add: list_all2_conv_all_nth)
    then show ?thesis using c i lr by (cases "rows ! i") (auto simp: row_ok_def graph_entry_def split: prod.split)
  qed
  ultimately show ?thesis using rows(1) by (intro exI conjI) (assumption | simp)+
qed

section \<open>Properties\<close>


text \<open>A database with one commit, which has no parents.\<close>

definition lone_text :: bytes where
  "lone_text = str ''tree '' @ replicate 64 48 @ [10] @ str ''author a <b> 5 +0000'' @ [10] @
     str ''committer a <b> 7 +0000'' @ [10, 10] @ str ''m''"

lemma lone_parse: "map_option (\<lambda>c. (c_parents c, commit_time c)) (ok_of (commit_parse_raw lone_text)) = Some ([], 7)"
  by code_simp

lemma lone_storable: "storable 10000 (COMMIT, lone_text)"
  by (simp add: storable_def base_type_def lone_text_def)


end
