(* ===== verification/Repository.thy ===== *)
theory Repository
  imports Worktree Merge Remote
begin

text \<open>
  Repositories (\<^verbatim>\<open>src/repository.c\<close>) and what works on a whole one: creating and opening, copying to
  and from another repository of the file system (\<^verbatim>\<open>fetch_via_file\<close>, \<^verbatim>\<open>push_via_file\<close> of
  \<^verbatim>\<open>src/network/protocol.c\<close>), merging and rebasing (\<^verbatim>\<open>src/merge\<close>).

  The host has the administrative directories and files, the object directories by path, and the
  nodes of working trees; \<open>hs_mtime\<close> gives the time stamps of files. The current directory is the
  empty path, and paths do not end in a slash.
\<close>

section \<open>The host\<close>

record host =
  hs_dirs :: "bytes list"
  hs_files :: files
  hs_disks :: fs
  hs_work :: work
  hs_mtime :: "bytes \<Rightarrow> nat"

definition dir_there :: "host \<Rightarrow> bytes \<Rightarrow> bool" where
  "dir_there h p \<longleftrightarrow> p \<in> set (hs_dirs h) \<or> is_dir (hs_work h) p"

definition path_there :: "host \<Rightarrow> bytes \<Rightarrow> bool" where
  "path_there h p \<longleftrightarrow> dir_there h p \<or> map_of (hs_files h) p \<noteq> None \<or> map_of (hs_work h) p \<noteq> None"

definition ensure_dir :: "bytes \<Rightarrow> host \<Rightarrow> host" where
  "ensure_dir p h = (if path_there h p \<or> \<not> dir_there h (dirname p) then h else h\<lparr>hs_dirs := hs_dirs h @ [p]\<rparr>)"

text \<open>A file that cannot be created is passed over.\<close>

definition make_file :: "bytes \<Rightarrow> bytes \<Rightarrow> host \<Rightarrow> host" where
  "make_file p d h = (if dir_there h (dirname p) then h\<lparr>hs_files := put_file p d (hs_files h)\<rparr> else h)"

section \<open>The repository\<close>

record repository =
  rs_path :: bytes
  rs_gitdir :: bytes
  rs_bare :: bool
  rs_odb :: odb
  rs_index :: "index option"
  rs_worktree :: "worktree option"

definition git_path :: "bytes \<Rightarrow> string \<Rightarrow> bytes" where
  "git_path g s = bufn 4096 (g @ str s)"

text \<open>An index that cannot be read is replaced by an empty one.\<close>

definition open_index :: "nat \<Rightarrow> host \<Rightarrow> bytes \<Rightarrow> index res" where
  "open_index mem h p =
     (case fastgit_index_open mem p (map_option (\<lambda>d. (hs_mtime h p, d)) (map_of (hs_files h) p)) of
        Inl e \<Rightarrow> if e = Undefined then Inl Undefined else Inr (fastgit_index_new\<lparr>ix_path := Some p\<rparr>)
      | Inr ix \<Rightarrow> Inr ix)"

definition init_dirs :: "string list" where
  "init_dirs = [''/objects'', ''/objects/pack'', ''/objects/info'', ''/refs'', ''/refs/heads'', ''/refs/tags'', ''/info'',
     ''/hooks'', ''/branches'']"

definition config_text :: "bool \<Rightarrow> bytes" where
  "config_text bare =
     str ''[core]'' @ [10, 9] @ str ''repositoryformatversion = 1'' @ [10, 9] @ str ''filemode = true'' @ [10, 9]
     @ str ''bare = '' @ (if bare then str ''true'' else str ''false'') @ [10, 9]
     @ str ''logallrefupdates = '' @ (if bare then str ''false'' else str ''true'') @ [10]
     @ str ''[extensions]'' @ [10, 9] @ str ''objectFormat = sha256'' @ [10]"

definition init_files :: "bool \<Rightarrow> (string \<times> bytes) list" where
  "init_files bare =
     [(''/HEAD'', str ''ref: refs/heads/main'' @ [10]),
      (''/config'', config_text bare),
      (''/description'', str ''Unnamed repository; edit this file '' @ [39] @ str ''description'' @ [39] @ str '' to name the repository.'' @ [10]),
      (''/info/exclude'', str ''# git ls-files --others --exclude-from=.git/info/exclude'' @ [10] @
         str ''# Lines that start with '' @ [39, 35, 39] @ str '' are comments.'' @ [10]),
      (''/packed-refs'', str ''# pack-refs with: peeled fully-peeled sorted'' @ [10])]"

definition init_layout :: "bytes \<Rightarrow> bytes \<Rightarrow> bool \<Rightarrow> host \<Rightarrow> host" where
  "init_layout path g bare h =
     (let h1 = ensure_dir g (if bare then h else h\<lparr>hs_work := mkdir (hs_work h) path\<rparr>);
          h2 = foldl (\<lambda>h s. ensure_dir (git_path g s) h) h1 init_dirs
      in foldl (\<lambda>h (s, d). make_file (git_path g s) d h) h2 (init_files bare))"

definition fastgit_repository_init :: "nat \<Rightarrow> bytes \<Rightarrow> bool \<Rightarrow> host \<Rightarrow> repository res \<times> host" where
  "fastgit_repository_init mem path bare h =
     (let g = (if bare then path else path @ str ''/.git''); h' = init_layout path g bare h in
      (bindr (open_index mem h' (git_path g ''/index'')) (\<lambda>ix.
         Inr \<lparr>rs_path = path, rs_gitdir = g, rs_bare = bare,
              rs_odb = fastgit_odb_new (hs_disks h' (git_path g ''/objects'')), rs_index = Some ix,
              rs_worktree = (if bare then None else Some (fst (fastgit_worktree_new path)))\<rparr>), h'))"

definition fastgit_repository_open :: "nat \<Rightarrow> bytes \<Rightarrow> host \<Rightarrow> repository res" where
  "fastgit_repository_open mem path h =
     bindr (if path_there h (path @ str ''/.git'') then Inr (path @ str ''/.git'', False)
            else if path_there h (git_path path ''/objects'') then Inr (path, True)
            else Inl ENOENT) (\<lambda>(g, bare).
     bindr (open_index mem h (git_path g ''/index'')) (\<lambda>ix.
     bindr (if bare then Inr None
            else let ip = bufn 1024 (path @ str ''/.git'' @ str ''/index'') in
              bindr (fastgit_worktree_open mem (hs_disks h) (map_option (\<lambda>d. (hs_mtime h ip, d)) (map_of (hs_files h) ip)) path)
                (\<lambda>(wt, _). Inr (Some wt))) (\<lambda>wt.
       Inr \<lparr>rs_path = path, rs_gitdir = g, rs_bare = bare, rs_odb = fastgit_odb_open (hs_disks h (git_path g ''/objects'')),
            rs_index = Some ix, rs_worktree = wt\<rparr>)))"

section \<open>References and objects of a repository\<close>

definition refs_of :: "repository \<Rightarrow> files \<Rightarrow> repo" where
  "refs_of r fs = \<lparr>rp_gitdir = rs_gitdir r, rp_files = fs\<rparr>"

definition update_ref :: "signature option \<Rightarrow> repository \<Rightarrow> bytes \<Rightarrow> oid \<Rightarrow> string \<Rightarrow> files \<Rightarrow> unit res \<times> files" where
  "update_ref sg r name x msg fs =
     (case fastgit_reference_update sg name x (Some (str msg)) (refs_of r fs) of (e, rp) \<Rightarrow> (e, rp_files rp))"

text \<open>A handle has no copy of its directory: it sees what is there when it is used.\<close>

definition odb_attach :: "disk \<Rightarrow> odb \<Rightarrow> odb" where
  "odb_attach dk db = (case db of Odb c bs \<Rightarrow> Odb (c\<lparr>oc_disk := dk\<rparr>) bs)"

definition objects_dir :: "repository \<Rightarrow> bytes" where
  "objects_dir r = git_path (rs_gitdir r) ''/objects''"

definition odb_of :: "repository \<Rightarrow> host \<Rightarrow> odb" where
  "odb_of r h = odb_attach (hs_disks h (objects_dir r)) (rs_odb r)"

definition set_odb :: "odb \<Rightarrow> repository \<Rightarrow> host \<Rightarrow> repository \<times> host" where
  "set_odb db r h = (r\<lparr>rs_odb := db\<rparr>, h\<lparr>hs_disks := (hs_disks h)(objects_dir r := oc_disk (odb_head db))\<rparr>)"

section \<open>Fetching from the file system\<close>

text \<open>The loose objects of the source that can be read and that the destination does not have.\<close>

fun copy_objects :: "evp option \<Rightarrow> zlib \<Rightarrow> nat \<Rightarrow> oid list \<Rightarrow> odb \<Rightarrow> odb \<Rightarrow> odb res" where
  "copy_objects crypto z mem [] src dst = Inr dst"
| "copy_objects crypto z mem (x # xs) src dst =
     (case fastgit_odb_read z mem x src of
        (Inl e, src') \<Rightarrow> if e = Undefined then Inl e else copy_objects crypto z mem xs src' dst
      | (Inr ob, src') \<Rightarrow>
          (case fastgit_odb_read z mem x dst of
             (Inr _, dst') \<Rightarrow> copy_objects crypto z mem xs src' dst'
           | (Inl e, dst') \<Rightarrow>
               if e = Undefined then Inl e
               else (case fastgit_odb_write crypto z (oo_type ob) (oo_data ob) dst' of
                   (r, dst2) \<Rightarrow> if r = Inl Undefined then Inl Undefined else copy_objects crypto z mem xs src' dst2)))"

text \<open>A branch of \<open>src\<close> becomes the same branch of \<open>dst\<close>.\<close>

definition copy_ref :: "signature option \<Rightarrow> string \<Rightarrow> repository \<Rightarrow> repository \<Rightarrow> files \<Rightarrow> bytes \<Rightarrow> files" where
  "copy_ref sg msg src dst fs n =
     (case fastgit_reference_lookup (refs_of src fs) n of
        Inl e \<Rightarrow> fs
      | Inr x \<Rightarrow> snd (update_ref sg dst n x msg fs))"

definition copy_heads :: "signature option \<Rightarrow> string \<Rightarrow> repository \<Rightarrow> repository \<Rightarrow> files \<Rightarrow> files" where
  "copy_heads sg msg src dst fs =
     foldl (copy_ref sg msg src dst) fs (fastgit_reference_list (Some (str ''refs/heads/'')) (refs_of src fs))"

text \<open>The branch that HEAD names; HEAD is looked for below the path, not below the git directory.\<close>

definition copy_head :: "signature option \<Rightarrow> repository \<Rightarrow> bytes \<Rightarrow> repository \<Rightarrow> files \<Rightarrow> files" where
  "copy_head sg src remote_path dst fs =
     (case fastgit_reference_lookup (refs_of src fs) (str ''HEAD'') of
        Inl e \<Rightarrow> fs
      | Inr _ \<Rightarrow>
          (case map_of fs (bufn 1024 (remote_path @ str ''/HEAD'')) of
             None \<Rightarrow> fs
           | Some c \<Rightarrow>
               (case fgets_raw 1024 c of
                  None \<Rightarrow> fs
                | Some (l, _) \<Rightarrow>
                    if starts ''ref:'' (cstr l)
                    then copy_ref sg ''fetch file://'' src dst fs (chomp (dropWhile (\<lambda>b. b = 32 \<or> b = 9) (drop 4 (cstr l))))
                    else fs)))"

definition fetch_via_file ::
    "evp option \<Rightarrow> zlib \<Rightarrow> nat \<Rightarrow> signature option \<Rightarrow> bytes \<Rightarrow> repository \<Rightarrow> host \<Rightarrow> unit res \<times> repository \<times> host" where
  "fetch_via_file crypto z mem sg remote_path r h =
     (case fastgit_repository_open mem remote_path h of
        Inl e \<Rightarrow> (Inl e, r, h)
      | Inr src \<Rightarrow>
          (case copy_objects crypto z mem (fastgit_odb_iterator_new (rs_odb src)) (rs_odb src) (odb_of r h) of
             Inl e \<Rightarrow> (Inl e, r, h)
           | Inr db \<Rightarrow>
               (case set_odb db r h of (r', h') \<Rightarrow>
                  (Inr (), r', h'\<lparr>hs_files :=
                     copy_head sg src remote_path r (copy_heads sg ''fetch file://'' src r (hs_files h'))\<rparr>))))"

section \<open>Pushing to the file system\<close>

text \<open>Here the destination is asked first.\<close>

fun push_objects :: "evp option \<Rightarrow> zlib \<Rightarrow> nat \<Rightarrow> oid list \<Rightarrow> odb \<Rightarrow> odb \<Rightarrow> (odb \<times> odb) res" where
  "push_objects crypto z mem [] src dst = Inr (src, dst)"
| "push_objects crypto z mem (x # xs) src dst =
     (case fastgit_odb_read z mem x dst of
        (Inr _, dst') \<Rightarrow> push_objects crypto z mem xs src dst'
      | (Inl e, dst') \<Rightarrow>
          if e = Undefined then Inl e
          else (case fastgit_odb_read z mem x src of
              (Inl e, src') \<Rightarrow> if e = Undefined then Inl e else push_objects crypto z mem xs src' dst'
            | (Inr ob, src') \<Rightarrow>
                (case fastgit_odb_write crypto z (oo_type ob) (oo_data ob) dst' of
                   (r, dst2) \<Rightarrow> if r = Inl Undefined then Inl Undefined else push_objects crypto z mem xs src' dst2)))"

definition push_via_file ::
    "evp option \<Rightarrow> zlib \<Rightarrow> nat \<Rightarrow> signature option \<Rightarrow> bytes \<Rightarrow> repository \<Rightarrow> host \<Rightarrow> unit res \<times> repository \<times> host" where
  "push_via_file crypto z mem sg remote_path r h =
     (case fastgit_repository_open mem remote_path h of
        Inl e \<Rightarrow> (Inl e, r, h)
      | Inr dst \<Rightarrow>
          (case push_objects crypto z mem (fastgit_odb_iterator_new (odb_of r h)) (odb_of r h) (rs_odb dst) of
             Inl e \<Rightarrow> (Inl e, r, h)
           | Inr (src', dst') \<Rightarrow>
               (case set_odb src' r h of (r', h1) \<Rightarrow>
               (case set_odb dst' dst h1 of (_, h2) \<Rightarrow>
                  (Inr (), r', h2\<lparr>hs_files := copy_heads sg ''push file://'' r dst (hs_files h2)\<rparr>)))))"

end
