(* ===== verification/FastForward.thy ===== *)
theory FastForward
  imports Repository
begin

text \<open>
  Merging and rebasing (\<^verbatim>\<open>fastgit_merge\<close> of \<^verbatim>\<open>src/merge/merge.c\<close>, \<^verbatim>\<open>fastgit_rebase\<close> of
  \<^verbatim>\<open>src/merge/rebase.c\<close>): both only move HEAD forward, reading the tree of the new commit into the
  index and checking it out. \<open>None\<close> means that a walk does not end, or that a tree is deeper than \<open>n\<close>.
\<close>

section \<open>Trees into the index and the working tree\<close>

type_synonym 'a op = "repository \<times> host \<Rightarrow> ('a res \<times> repository \<times> host) option"

definition save_index :: "evp option \<Rightarrow> index \<Rightarrow> repository \<times> host \<Rightarrow> unit res \<times> repository \<times> host" where
  "save_index crypto ix st =
     (case st of (r, h) \<Rightarrow>
       case fastgit_index_write crypto ix of
         Inl e \<Rightarrow> (Inl e, r\<lparr>rs_index := Some ix\<rparr>, h)
       | Inr (ix2, file) \<Rightarrow>
           (Inr (), r\<lparr>rs_index := Some ix2\<rparr>,
            h\<lparr>hs_files := (case ix_path ix2 of None \<Rightarrow> hs_files h | Some p \<Rightarrow> put_file p file (hs_files h))\<rparr>))"

text \<open>Reading a tree into the index and writing the index file.\<close>

definition index_from_tree :: "evp option \<Rightarrow> zlib \<Rightarrow> nat \<Rightarrow> oid \<Rightarrow> index \<Rightarrow> unit op" where
  "index_from_tree crypto z mem tree ix st =
     (case st of (r, h) \<Rightarrow>
       case fastgit_index_read_tree z mem tree (ix, hs_disks h) of
         None \<Rightarrow> None
       | Some (Inl e, ix1) \<Rightarrow> Some (Inl e, r\<lparr>rs_index := Some ix1\<rparr>, h)
       | Some (Inr _, ix1) \<Rightarrow> Some (save_index crypto ix1 (r, h)))"

definition worktree_of :: "worktree \<Rightarrow> host \<Rightarrow> worktree" where
  "worktree_of wt h = wt\<lparr>wt_odb := map_option (odb_attach (hs_disks h (bufn 1024 (wt_gitdir wt @ str ''/objects'')))) (wt_odb wt)\<rparr>"

definition checkout_op :: "nat \<Rightarrow> zlib \<Rightarrow> nat \<Rightarrow> u32 \<Rightarrow> oid \<Rightarrow> bool \<Rightarrow> worktree \<Rightarrow> unit op" where
  "checkout_op n z mem umask tree force wt st =
     (case st of (r, h) \<Rightarrow>
       case fastgit_checkout_tree n z mem umask (worktree_of wt h) tree force (hs_work h) of
         None \<Rightarrow> None
       | Some (e, db, w) \<Rightarrow> Some (e, r\<lparr>rs_worktree := Some (wt\<lparr>wt_odb := db\<rparr>)\<rparr>, h\<lparr>hs_work := w\<rparr>))"

definition move_head :: "signature option \<Rightarrow> oid \<Rightarrow> string \<Rightarrow> unit op" where
  "move_head sg x msg st =
     (case st of (r, h) \<Rightarrow>
       case update_ref sg r (str ''HEAD'') x msg (hs_files h) of (e, fs) \<Rightarrow> Some (e, r, h\<lparr>hs_files := fs\<rparr>))"

text \<open>The commit, and what its reading leaves of the database.\<close>

definition commit_of :: "zlib \<Rightarrow> nat \<Rightarrow> oid \<Rightarrow> odb \<Rightarrow> commit option res \<times> odb" where
  "commit_of z mem x db =
     (case fastgit_object_lookup z mem x db of
        (Inl e, db') \<Rightarrow> (Inl e, db')
      | (Inr obj, db') \<Rightarrow> (bindr (fastgit_commit_parse obj) (\<lambda>(c, _). Inr c), db'))"

section \<open>Merge\<close>

text \<open>Here what the checkout says does not matter.\<close>

definition merge_forward :: "nat \<Rightarrow> evp option \<Rightarrow> zlib \<Rightarrow> nat \<Rightarrow> u32 \<Rightarrow> signature option \<Rightarrow> oid \<Rightarrow> unit op" where
  "merge_forward n crypto z mem umask sg their st =
     (case st of (r, h) \<Rightarrow>
       case commit_of z mem their (odb_of r h) of (co, db) \<Rightarrow>
       case set_odb db r h of (r1, h1) \<Rightarrow>
       (case co of
          Inl e \<Rightarrow> Some (Inl e, r1, h1)
        | Inr None \<Rightarrow> Some (Inl EINVAL, r1, h1)
        | Inr (Some c) \<Rightarrow>
            (case (case rs_index r1 of None \<Rightarrow> Some (Inr (), r1, h1) | Some ix \<Rightarrow> index_from_tree crypto z mem (c_tree c) ix (r1, h1)) of
               None \<Rightarrow> None
             | Some (Inl e, r2, h2) \<Rightarrow> Some (Inl e, r2, h2)
             | Some (Inr _, r2, h2) \<Rightarrow>
                 (case (case rs_worktree r2 of None \<Rightarrow> Some (Inr (), r2, h2)
                        | Some wt \<Rightarrow> checkout_op n z mem umask (c_tree c) False wt (r2, h2)) of
                    None \<Rightarrow> None
                  | Some (e, r3, h3) \<Rightarrow>
                      if e = Inl Undefined then Some (e, r3, h3)
                      else move_head sg their ''merge (fast-forward)'' (r3, h3)))))"

definition fastgit_merge :: "nat \<Rightarrow> evp option \<Rightarrow> zlib \<Rightarrow> nat \<Rightarrow> u32 \<Rightarrow> signature option \<Rightarrow> oid \<Rightarrow> unit op" where
  "fastgit_merge n crypto z mem umask sg their st =
     (case st of (r, h) \<Rightarrow>
       let look = commit_parents z mem in
       case fastgit_rev_parse_single (refs_of r (hs_files h)) (str ''HEAD'') of
         Inl e \<Rightarrow> if e = ENOENT then move_head sg their ''merge (unborn)'' (r, h) else Some (Inl e, r, h)
       | Inr hd_oid \<Rightarrow>
           if oid_eq hd_oid their then Some (Inr (), r, h)
           else (case is_ancestor look hd_oid their (odb_of r h) of
               None \<Rightarrow> None
             | Some (Inl e, db) \<Rightarrow> Some (Inl e, set_odb db r h)
             | Some (Inr True, db) \<Rightarrow> merge_forward n crypto z mem umask sg their (set_odb db r h)
             | Some (Inr False, db) \<Rightarrow>
                 (case is_ancestor look their hd_oid db of
                    None \<Rightarrow> None
                  | Some (Inl e, db2) \<Rightarrow> Some (Inl e, set_odb db2 r h)
                  | Some (Inr b, db2) \<Rightarrow> Some (if b then Inr () else Inl EUNSUPPORTED, set_odb db2 r h))))"

section \<open>Rebase\<close>

text \<open>Here an error of the checkout ends the operation, after the index has been written.\<close>

definition rebase_forward :: "nat \<Rightarrow> evp option \<Rightarrow> zlib \<Rightarrow> nat \<Rightarrow> u32 \<Rightarrow> signature option \<Rightarrow> oid \<Rightarrow> unit op" where
  "rebase_forward n crypto z mem umask sg upstream st =
     (case st of (r, h) \<Rightarrow>
       case commit_of z mem upstream (odb_of r h) of (co, db) \<Rightarrow>
       case set_odb db r h of (r1, h1) \<Rightarrow>
       (case co of
          Inl e \<Rightarrow> Some (Inl (if e = Undefined then Undefined else ENOENT), r1, h1)
        | Inr None \<Rightarrow> Some (Inl EINVAL, r1, h1)
        | Inr (Some c) \<Rightarrow>
            (case rs_index r1 of
               None \<Rightarrow> Some (Inl EINVAL, r1, h1)
             | Some ix \<Rightarrow>
                 (case index_from_tree crypto z mem (c_tree c) ix (r1, h1) of
                    None \<Rightarrow> None
                  | Some (Inl e, r2, h2) \<Rightarrow> Some (Inl e, r2, h2)
                  | Some (Inr _, r2, h2) \<Rightarrow>
                      (case (case rs_worktree r2 of None \<Rightarrow> Some (Inl EINVAL, r2, h2)
                             | Some wt \<Rightarrow> checkout_op n z mem umask (c_tree c) False wt (r2, h2)) of
                         None \<Rightarrow> None
                       | Some (Inl e, r3, h3) \<Rightarrow> Some (Inl e, r3, h3)
                       | Some (Inr _, r3, h3) \<Rightarrow> move_head sg upstream ''rebase: fast-forward'' (r3, h3))))))"

definition fastgit_rebase :: "nat \<Rightarrow> evp option \<Rightarrow> zlib \<Rightarrow> nat \<Rightarrow> u32 \<Rightarrow> signature option \<Rightarrow> oid \<Rightarrow> unit op" where
  "fastgit_rebase n crypto z mem umask sg upstream st =
     (case st of (r, h) \<Rightarrow>
       let look = commit_parents z mem in
       case fastgit_rev_parse z mem (refs_of r (hs_files h)) (str ''HEAD'') (odb_of r h) of (head, db0) \<Rightarrow>
       (case head of
         Inl e \<Rightarrow> if e = ENOENT then move_head sg upstream ''rebase: onto'' (set_odb db0 r h) else Some (Inl e, set_odb db0 r h)
       | Inr hd_oid \<Rightarrow>
           if rebase_oid_equal hd_oid upstream then Some (Inr (), set_odb db0 r h)
           else (case rebase_is_ancestor look hd_oid upstream db0 of
               (Inl e, db) \<Rightarrow> Some (Inl e, set_odb db r h)
             | (Inr True, db) \<Rightarrow> rebase_forward n crypto z mem umask sg upstream (set_odb db r h)
             | (Inr False, db) \<Rightarrow>
                 (case rebase_is_ancestor look upstream hd_oid db of
                    (Inl e, db2) \<Rightarrow> Some (Inl e, set_odb db2 r h)
                  | (Inr b, db2) \<Rightarrow> Some (if b then Inr () else Inl EUNSUPPORTED, set_odb db2 r h)))))"

text \<open>The operations of an interactive rebase do nothing.\<close>

definition fastgit_rebase_interactive :: "(unit list \<times> nat) res" where
  "fastgit_rebase_interactive = Inr ([], 0)"

definition fastgit_rebase_continue :: "unit res" where "fastgit_rebase_continue = Inr ()"
definition fastgit_rebase_abort :: "unit res" where "fastgit_rebase_abort = Inr ()"
definition fastgit_rebase_skip :: "unit res" where "fastgit_rebase_skip = Inr ()"

definition fastgit_merge_commit :: "unit res" where "fastgit_merge_commit = Inl EUNSUPPORTED"

section \<open>Options\<close>

text \<open>Strategies are numbered as in the header.\<close>

record merge_options =
  mo_strategy :: nat
  mo_no_commit :: bool
  mo_no_ff :: bool
  mo_ff_only :: bool
  mo_squash :: bool
  mo_message :: "bytes option"
  mo_author :: "signature option"
  mo_rename_threshold :: int
  mo_find_renames :: bool
  mo_xopts :: "bytes list"

definition fastgit_merge_options_init :: "nat \<Rightarrow> merge_options" where
  "fastgit_merge_options_init strategy =
     \<lparr>mo_strategy = strategy, mo_no_commit = False, mo_no_ff = False, mo_ff_only = False, mo_squash = False,
      mo_message = None, mo_author = None, mo_rename_threshold = 50, mo_find_renames = True, mo_xopts = []\<rparr>"

record rebase_options =
  ro_type :: nat
  ro_upstream :: oid
  ro_onto :: oid
  ro_autosquash :: bool
  ro_update_refs :: bool
  ro_exec :: "bytes list"
  ro_strategy :: "bytes option"
  ro_strategy_options :: "bytes list"

definition fastgit_rebase_options_init :: "nat \<Rightarrow> rebase_options" where
  "fastgit_rebase_options_init t =
     \<lparr>ro_type = t, ro_upstream = zero_oid, ro_onto = zero_oid, ro_autosquash = True, ro_update_refs = False,
      ro_exec = [], ro_strategy = None, ro_strategy_options = []\<rparr>"

end
