(* ===== verification/Ssh.thy ===== *)
theory Ssh
  imports Http
begin

text \<open>
  The SSH transport (\<^verbatim>\<open>src/network/ssh.c\<close>) and its part of \<^verbatim>\<open>protocol.c\<close>, as compiled with libssh.
  libssh is a parameter: the fields of \<open>ssh_env\<close> are its calls, over the state of the outside world.
\<close>

section \<open>The library\<close>

text \<open>
  \<open>sh_try_key\<close> imports a private key and offers it; \<open>sh_read n\<close> gives at most \<open>n\<close> bytes, none at the
  end of the stream, \<open>None\<close> for an error; \<open>sh_write\<close> gives the count of bytes written, or a negative number.
\<close>

record 'w ssh_env =
  sh_new :: "'w \<Rightarrow> bool \<times> 'w"
  sh_connect :: "bytes \<Rightarrow> bytes option \<Rightarrow> int \<Rightarrow> 'w \<Rightarrow> bool \<times> 'w"
  sh_try_key :: "bytes \<Rightarrow> bytes option \<Rightarrow> 'w \<Rightarrow> bool \<times> 'w"
  sh_auto :: "'w \<Rightarrow> bool \<times> 'w"
  sh_password :: "bytes \<Rightarrow> 'w \<Rightarrow> bool \<times> 'w"
  sh_none :: "'w \<Rightarrow> bool \<times> 'w"
  sh_disconnect :: "'w \<Rightarrow> 'w"
  sh_open :: "'w \<Rightarrow> bool \<times> 'w"
  sh_exec :: "bytes \<Rightarrow> 'w \<Rightarrow> bool \<times> 'w"
  sh_close :: "'w \<Rightarrow> 'w"
  sh_read :: "nat \<Rightarrow> 'w \<Rightarrow> bytes option \<times> 'w"
  sh_write :: "bytes \<Rightarrow> 'w \<Rightarrow> int \<times> 'w"

section \<open>URLs\<close>

record ssh_target =
  sg_host :: bytes
  sg_user :: "bytes option"
  sg_port :: int
  sg_path :: bytes

definition ssh_url_target :: "bytes \<Rightarrow> ssh_target res" where
  "ssh_url_target p =
     (let slash = split_at 47 p;
          (user, host_start) =
            (case split_at 64 p of
               Some (u, r) \<Rightarrow> if (case slash of None \<Rightarrow> True | Some (b, _) \<Rightarrow> length u < length b) then (Some u, r) else (None, p)
             | None \<Rightarrow> (None, p));
          host_part =
            (case slash of
               None \<Rightarrow> host_start
             | Some (b, _) \<Rightarrow> take (length b - (length p - length host_start)) host_start);
          path = (case slash of None \<Rightarrow> [47] | Some (_, r) \<Rightarrow> 47 # r)
      in case split_at 58 host_part of
           None \<Rightarrow> Inr \<lparr>sg_host = host_part, sg_user = user, sg_port = 22, sg_path = path\<rparr>
         | Some (h, _) \<Rightarrow>
             bindr (atoi (drop (length h + 1) host_start)) (\<lambda>port.
               Inr \<lparr>sg_host = h, sg_user = user, sg_port = (if port \<le> 0 then 22 else port), sg_path = path\<rparr>))"

definition scp_target :: "bytes \<Rightarrow> ssh_target" where
  "scp_target url =
     (case split_at 58 url of
        None \<Rightarrow> \<lparr>sg_host = url, sg_user = None, sg_port = 22, sg_path = [47]\<rparr>
      | Some (a, path) \<Rightarrow>
          (case split_at 64 a of
             None \<Rightarrow> \<lparr>sg_host = a, sg_user = None, sg_port = 22, sg_path = path\<rparr>
           | Some (u, h) \<Rightarrow> \<lparr>sg_host = h, sg_user = Some u, sg_port = 22, sg_path = path\<rparr>))"

definition parse_ssh_url :: "bytes \<Rightarrow> ssh_target res" where
  "parse_ssh_url url = (if starts ''ssh://'' url then ssh_url_target (drop 6 url) else Inr (scp_target url))"

section \<open>The transport\<close>

record ssh =
  st_target :: ssh_target
  st_connected :: bool
  st_channel :: bool

definition fastgit_ssh_transport_new :: "'w ssh_env \<Rightarrow> remote \<Rightarrow> 'w \<Rightarrow> ssh res \<times> 'w" where
  "fastgit_ssh_transport_new sv r w =
     (case parse_ssh_url (rm_url r) of
        Inl e \<Rightarrow> (Inl e, w)
      | Inr tg \<Rightarrow>
          (case sh_new sv w of
             (ok, w') \<Rightarrow> (if ok then Inr \<lparr>st_target = tg, st_connected = False, st_channel = False\<rparr> else Inl EIO, w')))"

text \<open>The ways to authenticate, in order, until one succeeds.\<close>

fun first_success :: "('w \<Rightarrow> bool \<times> 'w) list \<Rightarrow> 'w \<Rightarrow> bool \<times> 'w" where
  "first_success [] w = (False, w)"
| "first_success (f # fs) w = (case f w of (ok, w') \<Rightarrow> if ok then (True, w') else first_success fs w')"

definition ssh_methods :: "'w ssh_env \<Rightarrow> cred_data option \<Rightarrow> ('w \<Rightarrow> bool \<times> 'w) list" where
  "ssh_methods sv cred =
     (case cred of
        Some c \<Rightarrow> (case (cr_type c, cr_private_key c) of (CRED_SSH_KEY, Some k) \<Rightarrow> [sh_try_key sv k (cr_passphrase c)] | _ \<Rightarrow> [])
      | None \<Rightarrow> [])
     @ [sh_auto sv]
     @ (case cred of Some c \<Rightarrow> (case cr_password c of Some p \<Rightarrow> [sh_password sv p] | None \<Rightarrow> []) | None \<Rightarrow> [])
     @ [sh_none sv]"

definition fastgit_ssh_connect :: "'w ssh_env \<Rightarrow> cred_data option \<Rightarrow> ssh \<Rightarrow> 'w \<Rightarrow> unit res \<times> ssh \<times> 'w" where
  "fastgit_ssh_connect sv cred t w =
     (if st_connected t then (Inr (), t, w)
      else case sh_connect sv (sg_host (st_target t)) (sg_user (st_target t)) (sg_port (st_target t)) w of
        (False, w1) \<Rightarrow> (Inl EIO, t, w1)
      | (True, w1) \<Rightarrow>
          (case first_success (ssh_methods sv cred) w1 of
             (True, w2) \<Rightarrow> (Inr (), t\<lparr>st_connected := True\<rparr>, w2)
           | (False, w2) \<Rightarrow> (Inl EBUSY, t, sh_disconnect sv w2)))"

text \<open>The command that the server's shell gets: the first slash of the path is dropped.\<close>

definition ssh_command :: "bytes \<Rightarrow> bytes \<Rightarrow> bytes" where
  "ssh_command git_cmd path =
     bufn 4096 (git_cmd @ [32, 39] @ (if path \<noteq> [] \<and> hd path = 47 then tl path else path) @ [39])"

definition fastgit_ssh_exec_upload_pack :: "'w ssh_env \<Rightarrow> bytes \<Rightarrow> ssh \<Rightarrow> 'w \<Rightarrow> unit res \<times> ssh \<times> 'w" where
  "fastgit_ssh_exec_upload_pack sv git_cmd t w =
     (if \<not> st_connected t then (Inl EIO, t, w)
      else let w1 = (if st_channel t then sh_close sv w else w); t1 = t\<lparr>st_channel := False\<rparr> in
        case sh_open sv w1 of
          (False, w2) \<Rightarrow> (Inl EIO, t1, w2)
        | (True, w2) \<Rightarrow>
            (case sh_exec sv (ssh_command git_cmd (sg_path (st_target t))) w2 of
               (False, w3) \<Rightarrow> (Inl EIO, t1, sh_close sv w3)
             | (True, w3) \<Rightarrow> (Inr (), t1\<lparr>st_channel := True\<rparr>, w3)))"

definition fastgit_ssh_channel_read :: "'w ssh_env \<Rightarrow> nat \<Rightarrow> ssh \<Rightarrow> 'w \<Rightarrow> bytes res \<times> 'w" where
  "fastgit_ssh_channel_read sv n t w =
     (if \<not> st_channel t then (Inl EIO, w)
      else case sh_read sv (n mod 2 ^ 32) w of
        (None, w') \<Rightarrow> (Inl EIO, w')
      | (Some d, w') \<Rightarrow> (Inr d, w'))"

definition fastgit_ssh_channel_write :: "'w ssh_env \<Rightarrow> bytes \<Rightarrow> ssh \<Rightarrow> 'w \<Rightarrow> unit res \<times> 'w" where
  "fastgit_ssh_channel_write sv d t w =
     (if \<not> st_channel t then (Inl EIO, w)
      else case sh_write sv (take (length d mod 2 ^ 32) d) w of
        (k, w') \<Rightarrow> (if k < 0 \<or> k \<noteq> int (length d) then Inl EIO else Inr (), w'))"

section \<open>Requests\<close>

definition ssh_connect_with_cred :: "'w env \<Rightarrow> 'w ssh_env \<Rightarrow> ssh \<Rightarrow> 'w \<Rightarrow> unit res \<times> ssh \<times> 'w" where
  "ssh_connect_with_cred env sv t w =
     (case ev_acquire env of
        None \<Rightarrow> fastgit_ssh_connect sv None t w
      | Some acquire \<Rightarrow>
          (case acquire w of
             (r, w1) \<Rightarrow> fastgit_ssh_connect sv (case r of Inr c \<Rightarrow> c | Inl _ \<Rightarrow> None) t w1))"

text \<open>
  Everything up to the end of the stream, which need not come: the loop waits for as long as the
  server keeps the stream open. \<open>mem\<close> bounds the buffer.
\<close>

partial_function (option) ssh_read_loop :: "'w ssh_env \<Rightarrow> nat \<Rightarrow> ssh \<Rightarrow> nat \<Rightarrow> bytes \<Rightarrow> 'w \<Rightarrow> (bytes res \<times> 'w) option" where
  "ssh_read_loop sv mem t cap buf w =
     (let cap' = (if cap < length buf + 4096 then cap * 2 else cap) in
      if mem < cap' then Some (Inl ENOMEM, w)
      else case fastgit_ssh_channel_read sv (cap' - length buf - 1) t w of
        (Inl e, w') \<Rightarrow> Some (Inl e, w')
      | (Inr d, w') \<Rightarrow> if d = [] then Some (Inr buf, w') else ssh_read_loop sv mem t cap' (buf @ d) w')"

definition ssh_read_all :: "'w ssh_env \<Rightarrow> nat \<Rightarrow> ssh \<Rightarrow> 'w \<Rightarrow> (bytes res \<times> 'w) option" where
  "ssh_read_all sv mem t w = ssh_read_loop sv mem t 8192 [] w"

definition ssh_attempt :: "'w env \<Rightarrow> 'w ssh_env \<Rightarrow> nat \<Rightarrow> ssh \<Rightarrow> 'w \<Rightarrow> (bytes res \<times> ssh \<times> 'w) option" where
  "ssh_attempt env sv mem t w =
     (case ssh_connect_with_cred env sv t w of
        (Inl e, t1, w1) \<Rightarrow> Some (Inl e, t1, w1)
      | (Inr _, t1, w1) \<Rightarrow>
          (case fastgit_ssh_exec_upload_pack sv (str ''git-upload-pack'') t1 w1 of
             (Inl e, t2, w2) \<Rightarrow> Some (Inl e, t2, w2)
           | (Inr _, t2, w2) \<Rightarrow> map_option (\<lambda>(r, w3). (r, t2, w3)) (ssh_read_all sv mem t2 w2)))"

function ssh_refs_loop ::
    "'w env \<Rightarrow> 'w ssh_env \<Rightarrow> nat \<Rightarrow> u32 \<Rightarrow> u32 \<Rightarrow> remote \<Rightarrow> ssh \<Rightarrow> 'w \<Rightarrow> (bytes res \<times> remote \<times> ssh \<times> 'w) option" where
  "ssh_refs_loop env sv mem max_retries attempt r t w =
     (if max_retries < attempt then Some (Inl EAGAIN, r, t, w)
      else case ssh_attempt env sv mem t w of
        None \<Rightarrow> None
      | Some (Inr d, t1, w1) \<Rightarrow> Some (Inr d, r, t1, w1)
      | Some (Inl err, t1, w1) \<Rightarrow>
          if \<not> fastgit_error_is_retryable err \<or> attempt = max_retries then Some (Inl err, r, t1, w1)
          else (case await_retry env 0 err attempt r w1 of
              (Inl e, r2, w2) \<Rightarrow> Some (Inl e, r2, t1, w2)
            | (Inr _, r2, w2) \<Rightarrow> ssh_refs_loop env sv mem max_retries (attempt + 1) r2 t1 w2))"
  by pat_completeness auto
termination
  by (relation "measure (\<lambda>(env, sv, mem, max_retries, attempt, _). unat max_retries - unat attempt)") (auto simp: next_attempt)

declare ssh_refs_loop.simps [simp del]

definition do_ssh_info_refs_with_retry ::
    "'w env \<Rightarrow> 'w ssh_env \<Rightarrow> nat \<Rightarrow> remote \<Rightarrow> ssh \<Rightarrow> 'w \<Rightarrow> (bytes res \<times> remote \<times> ssh \<times> 'w) option" where
  "do_ssh_info_refs_with_retry env sv mem r t w = ssh_refs_loop env sv mem (ry_max_retries (rm_retry r)) 0 r t w"

end
