(* ===== verification/Fetch.thy ===== *)
theory Fetch
  imports FastForward Ssh Unpack
begin

text \<open>
  Fetching, pushing, listing and cloning (\<^verbatim>\<open>src/network/protocol.c\<close>, \<^verbatim>\<open>fastgit_clone\<close> of
  \<^verbatim>\<open>src/repository.c\<close>): the transports, packet lines and packs put together, behind the circuit
  breaker and load shedding of the remote. \<open>None\<close> is an operation that does not end.
\<close>

section \<open>Receiving objects\<close>

definition store_pack :: "evp option \<Rightarrow> zlib \<Rightarrow> nat \<Rightarrow> bytes \<Rightarrow> repository \<Rightarrow> host \<Rightarrow> unit res \<times> repository \<times> host" where
  "store_pack crypto z mem response r h =
     (case extract_pack_from_response response of
        Inl e \<Rightarrow> (Inl EIO, r, h)
      | Inr pack \<Rightarrow>
          (case unpack_pack_to_odb crypto z mem pack (odb_of r h) of
             Inl e \<Rightarrow> (Inl e, r, h)
           | Inr db \<Rightarrow> (case set_odb db r h of (r', h') \<Rightarrow> (Inr (), r', h'))))"

text \<open>The request for what an advertisement offers; \<open>None\<close> when there is nothing to ask for.\<close>

definition fetch_request :: "bytes \<Rightarrow> repository \<Rightarrow> host \<Rightarrow> remote \<Rightarrow> bytes option res" where
  "fetch_request advert r h rm =
     (let refs = fastgit_pktline_parse_refs advert in
      if refs = [] then Inr None
      else build_fetch_request refs (fastgit_odb_iterator_new (odb_of r h)) (rm_filter rm))"

definition fetch_via_http ::
    "'w env \<Rightarrow> evp option \<Rightarrow> zlib \<Rightarrow> nat \<Rightarrow> repository \<Rightarrow> host \<Rightarrow> remote \<Rightarrow> 'w \<Rightarrow> unit res \<times> repository \<times> host \<times> remote \<times> 'w" where
  "fetch_via_http env crypto z mem r h rm w =
     (case do_http_info_refs_with_retry env rm (fastgit_http_transport_new rm) w of
        (Inl e, rm1, t1, w1) \<Rightarrow> (Inl e, r, h, rm1, w1)
      | (Inr _, rm1, t1, w1) \<Rightarrow>
          (case fetch_request (ht_response t1) r h rm1 of
             Inl e \<Rightarrow> (Inl e, r, h, rm1, w1)
           | Inr None \<Rightarrow> (Inr (), r, h, rm1, w1)
           | Inr (Some req) \<Rightarrow>
               (case fastgit_http_post_upload_pack env req t1 w1 of
                  (Inl e, t2, w2) \<Rightarrow> (Inl e, r, h, rm1, w2)
                | (Inr _, t2, w2) \<Rightarrow>
                    (case store_pack crypto z mem (ht_response t2) r h of (e, r', h') \<Rightarrow> (e, r', h', rm1, w2)))))"

definition fetch_via_ssh ::
    "'w env \<Rightarrow> 'w ssh_env \<Rightarrow> evp option \<Rightarrow> zlib \<Rightarrow> nat \<Rightarrow> repository \<Rightarrow> host \<Rightarrow> remote \<Rightarrow> 'w \<Rightarrow>
      (unit res \<times> repository \<times> host \<times> remote \<times> 'w) option" where
  "fetch_via_ssh env sv crypto z mem r h rm w =
     (case fastgit_ssh_transport_new sv rm w of
        (Inl e, w1) \<Rightarrow> Some (Inl e, r, h, rm, w1)
      | (Inr t, w1) \<Rightarrow>
          (case do_ssh_info_refs_with_retry env sv mem rm t w1 of
             None \<Rightarrow> None
           | Some (Inl e, rm1, t1, w2) \<Rightarrow> Some (Inl e, r, h, rm1, w2)
           | Some (Inr advert, rm1, t1, w2) \<Rightarrow>
               (case fetch_request advert r h rm1 of
                  Inl e \<Rightarrow> Some (Inl e, r, h, rm1, w2)
                | Inr None \<Rightarrow> Some (Inr (), r, h, rm1, w2)
                | Inr (Some req) \<Rightarrow>
                    (case fastgit_ssh_channel_write sv req t1 w2 of
                       (Inl e, w3) \<Rightarrow> Some (Inl e, r, h, rm1, w3)
                     | (Inr _, w3) \<Rightarrow>
                         (case ssh_read_all sv mem t1 w3 of
                            None \<Rightarrow> None
                          | Some (Inl e, w4) \<Rightarrow> Some (Inl e, r, h, rm1, w4)
                          | Some (Inr response, w4) \<Rightarrow>
                              (case store_pack crypto z mem response r h of (e, r', h') \<Rightarrow> Some (e, r', h', rm1, w4)))))))"

section \<open>Around every operation\<close>

text \<open>Admission: the circuit must be closed and a slot free. The flag tells whether the caller was queued.\<close>

definition admit :: "'w env \<Rightarrow> remote \<Rightarrow> 'w \<Rightarrow> (bool \<times> remote) option \<times> 'w" where
  "admit env rm w =
     (case ev_now env w of
        (now, w1) \<Rightarrow> (if fastgit_remote_circuit_allow now rm then acquire_slot rm else None, w1))"

text \<open>After an error that could be retried: the waits. A wait that is undefined replaces the result.\<close>

definition settle_waits :: "'w env \<Rightarrow> unit res \<Rightarrow> remote \<Rightarrow> 'w \<Rightarrow> unit res \<times> remote \<times> 'w" where
  "settle_waits env outcome rm w =
     (case outcome of
        Inr _ \<Rightarrow> (outcome, rm, w)
      | Inl err \<Rightarrow>
          if fastgit_error_is_retryable err
          then (case wait_loop env (ry_max_retries (rm_retry rm)) 0 rm w of
              (Inl e, rm1, w1) \<Rightarrow> (Inl e, rm1, w1)
            | (Inr _, rm1, w1) \<Rightarrow> (outcome, rm1, w1))
          else (outcome, rm, w))"

text \<open>The circuit is told how it went, the slot is given back.\<close>

definition record_outcome :: "'w env \<Rightarrow> unit res \<Rightarrow> bool \<Rightarrow> remote \<Rightarrow> 'w \<Rightarrow> remote \<times> 'w" where
  "record_outcome env outcome queued rm w =
     (case (case outcome of
              Inr _ \<Rightarrow>
                if rm_cb_open_until_ms rm = 0 then (fastgit_remote_circuit_on_success 0 rm, w)
                else (case ev_now env w of (now, w1) \<Rightarrow> (fastgit_remote_circuit_on_success now rm, w1))
            | Inl err \<Rightarrow>
                if fastgit_error_is_retryable err
                then (case ev_now env w of (now, w1) \<Rightarrow> (fastgit_remote_circuit_on_failure now rm, w1))
                else (rm, w)) of
        (rm1, w1) \<Rightarrow> (fastgit_remote_load_release queued rm1, w1))"

section \<open>Fetch\<close>

definition fetch_body ::
    "'w env \<Rightarrow> 'w ssh_env \<Rightarrow> evp option \<Rightarrow> zlib \<Rightarrow> nat \<Rightarrow> signature option \<Rightarrow> repository \<Rightarrow> host \<Rightarrow> remote \<Rightarrow> 'w \<Rightarrow>
      (unit res \<times> repository \<times> host \<times> remote \<times> 'w) option" where
  "fetch_body env sv crypto z mem sg r h rm w =
     (if is_file_url (rm_url rm) then
        (case fetch_via_file crypto z mem sg (file_path_from_url (rm_url rm)) r h of (e, r', h') \<Rightarrow> Some (e, r', h', rm, w))
      else if is_http_url (rm_url rm) then Some (fetch_via_http env crypto z mem r h rm w)
      else if is_ssh_url (rm_url rm) then fetch_via_ssh env sv crypto z mem r h rm w
      else Some (Inl EUNSUPPORTED, r, h, rm, w))"

definition fastgit_fetch_internal ::
    "'w env \<Rightarrow> 'w ssh_env \<Rightarrow> evp option \<Rightarrow> zlib \<Rightarrow> nat \<Rightarrow> signature option \<Rightarrow> repository \<Rightarrow> host \<Rightarrow> remote \<Rightarrow> 'w \<Rightarrow>
      (unit res \<times> repository \<times> host \<times> remote \<times> 'w) option" where
  "fastgit_fetch_internal env sv crypto z mem sg r h rm w =
     (case admit env rm w of
        (None, w1) \<Rightarrow> Some (Inl EBUSY, r, h, rm, w1)
      | (Some (queued, rm1), w1) \<Rightarrow>
          (case fetch_body env sv crypto z mem sg r h rm1 w1 of
             None \<Rightarrow> None
           | Some (outcome, r', h', rm2, w2) \<Rightarrow>
               (case settle_waits env outcome rm2 w2 of
                  (outcome', rm3, w3) \<Rightarrow>
                    (case record_outcome env outcome' queued rm3 w3 of (rm4, w4) \<Rightarrow> Some (outcome', r', h', rm4, w4)))))"

text \<open>A remote that the configuration does not have is taken as its own URL.\<close>

definition remote_for :: "'w env \<Rightarrow> repository \<Rightarrow> host \<Rightarrow> bytes \<Rightarrow> 'w \<Rightarrow> remote \<times> 'w" where
  "remote_for env r h name w =
     (case ev_now env w of
        (now, w1) \<Rightarrow>
          ((case fastgit_remote_lookup now (refs_of r (hs_files h)) name of
              Inl e \<Rightarrow> fastgit_remote_create now name name | Inr rm \<Rightarrow> rm), w1))"

definition fastgit_fetch ::
    "'w env \<Rightarrow> 'w ssh_env \<Rightarrow> evp option \<Rightarrow> zlib \<Rightarrow> nat \<Rightarrow> signature option \<Rightarrow> bytes \<Rightarrow> repository \<Rightarrow> host \<Rightarrow> 'w \<Rightarrow>
      (unit res \<times> repository \<times> host \<times> 'w) option" where
  "fastgit_fetch env sv crypto z mem sg name r h w =
     (case remote_for env r h name w of
        (rm, w1) \<Rightarrow> map_option (\<lambda>(e, r', h', _, w2). (e, r', h', w2)) (fastgit_fetch_internal env sv crypto z mem sg r h rm w1))"

definition fastgit_fetch_remote ::
    "'w env \<Rightarrow> 'w ssh_env \<Rightarrow> evp option \<Rightarrow> zlib \<Rightarrow> nat \<Rightarrow> signature option \<Rightarrow> remote \<Rightarrow> repository \<Rightarrow> host \<Rightarrow> 'w \<Rightarrow>
      (unit res \<times> repository \<times> host \<times> remote \<times> 'w) option" where
  "fastgit_fetch_remote env sv crypto z mem sg rm r h w = fastgit_fetch_internal env sv crypto z mem sg r h rm w"

section \<open>Push\<close>

text \<open>The request of a push to what an advertisement shows.\<close>

definition push_request :: "evp option \<Rightarrow> zlib \<Rightarrow> nat \<Rightarrow> bytes \<Rightarrow> repository \<Rightarrow> host \<Rightarrow> bytes option res \<times> repository \<times> host" where
  "push_request crypto z mem advert r h =
     (case pack_local_odb crypto z mem (odb_of r h) of
        Inl e \<Rightarrow> (Inl (if e = Undefined then Undefined else EIO), r, h)
      | Inr (pack, db) \<Rightarrow>
          (case set_odb db r h of (r', h') \<Rightarrow>
             (build_receive_pack_request (refs_of r' (hs_files h')) (fastgit_pktline_parse_refs advert) pack, r', h')))"

definition push_via_http ::
    "'w env \<Rightarrow> evp option \<Rightarrow> zlib \<Rightarrow> nat \<Rightarrow> repository \<Rightarrow> host \<Rightarrow> remote \<Rightarrow> 'w \<Rightarrow> unit res \<times> repository \<times> host \<times> remote \<times> 'w" where
  "push_via_http env crypto z mem r h rm w =
     (case do_http_info_refs_with_retry env rm (fastgit_http_transport_new rm) w of
        (Inl e, rm1, t1, w1) \<Rightarrow> (Inl e, r, h, rm1, w1)
      | (Inr _, rm1, t1, w1) \<Rightarrow>
          (case push_request crypto z mem (ht_response t1) r h of
             (Inl e, r', h') \<Rightarrow> (Inl e, r', h', rm1, w1)
           | (Inr None, r', h') \<Rightarrow> (Inl EIO, r', h', rm1, w1)
           | (Inr (Some req), r', h') \<Rightarrow>
               (case fastgit_http_post_receive_pack env req t1 w1 of (e, t2, w2) \<Rightarrow> (e, r', h', rm1, w2))))"

definition push_via_ssh ::
    "'w env \<Rightarrow> 'w ssh_env \<Rightarrow> evp option \<Rightarrow> zlib \<Rightarrow> nat \<Rightarrow> repository \<Rightarrow> host \<Rightarrow> remote \<Rightarrow> 'w \<Rightarrow>
      (unit res \<times> repository \<times> host \<times> remote \<times> 'w) option" where
  "push_via_ssh env sv crypto z mem r h rm w =
     (case fastgit_ssh_transport_new sv rm w of
        (Inl e, w1) \<Rightarrow> Some (Inl e, r, h, rm, w1)
      | (Inr t, w1) \<Rightarrow>
          (case ssh_connect_with_cred env sv t w1 of
             (Inl e, t1, w2) \<Rightarrow> Some (Inl e, r, h, rm, w2)
           | (Inr _, t1, w2) \<Rightarrow>
               (case fastgit_ssh_exec_upload_pack sv (str ''git-receive-pack'') t1 w2 of
                  (Inl e, t2, w3) \<Rightarrow> Some (Inl e, r, h, rm, w3)
                | (Inr _, t2, w3) \<Rightarrow>
                    (case ssh_read_all sv mem t2 w3 of
                       None \<Rightarrow> None
                     | Some (Inl e, w4) \<Rightarrow> Some (Inl e, r, h, rm, w4)
                     | Some (Inr advert, w4) \<Rightarrow>
                         (case push_request crypto z mem advert r h of
                            (Inl e, r', h') \<Rightarrow> Some (Inl e, r', h', rm, w4)
                          | (Inr None, r', h') \<Rightarrow> Some (Inl EIO, r', h', rm, w4)
                          | (Inr (Some req), r', h') \<Rightarrow>
                              (case fastgit_ssh_channel_write sv req t2 w4 of
                                 (Inl e, w5) \<Rightarrow> Some (Inl e, r', h', rm, w5)
                               | (Inr _, w5) \<Rightarrow>
                                   map_option (\<lambda>(e, w6). (bindr e (\<lambda>_. Inr ()), r', h', rm, w6)) (ssh_read_all sv mem t2 w5)))))))"

definition push_body ::
    "'w env \<Rightarrow> 'w ssh_env \<Rightarrow> evp option \<Rightarrow> zlib \<Rightarrow> nat \<Rightarrow> signature option \<Rightarrow> repository \<Rightarrow> host \<Rightarrow> remote \<Rightarrow> 'w \<Rightarrow>
      (unit res \<times> repository \<times> host \<times> remote \<times> 'w) option" where
  "push_body env sv crypto z mem sg r h rm w =
     (if is_file_url (rm_url rm) then
        (case push_via_file crypto z mem sg (file_path_from_url (rm_url rm)) r h of (e, r', h') \<Rightarrow> Some (e, r', h', rm, w))
      else if is_http_url (rm_url rm) then Some (push_via_http env crypto z mem r h rm w)
      else if is_ssh_url (rm_url rm) then push_via_ssh env sv crypto z mem r h rm w
      else Some (Inl EUNSUPPORTED, r, h, rm, w))"

definition fastgit_push ::
    "'w env \<Rightarrow> 'w ssh_env \<Rightarrow> evp option \<Rightarrow> zlib \<Rightarrow> nat \<Rightarrow> signature option \<Rightarrow> bytes \<Rightarrow> repository \<Rightarrow> host \<Rightarrow> 'w \<Rightarrow>
      (unit res \<times> repository \<times> host \<times> 'w) option" where
  "fastgit_push env sv crypto z mem sg name r h w =
     (case remote_for env r h name w of
        (rm, w0) \<Rightarrow>
     (case admit env rm w0 of
        (None, w1) \<Rightarrow> Some (Inl EBUSY, r, h, w1)
      | (Some (queued, rm1), w1) \<Rightarrow>
          (case push_body env sv crypto z mem sg r h rm1 w1 of
             None \<Rightarrow> None
           | Some (outcome, r', h', rm2, w2) \<Rightarrow>
               (case settle_waits env outcome rm2 w2 of
                  (outcome', rm3, w3) \<Rightarrow>
                    (case record_outcome env outcome' queued rm3 w3 of (_, w4) \<Rightarrow> Some (outcome', r', h', w4))))))"

section \<open>Listing\<close>

definition remote_advert ::
    "'w env \<Rightarrow> 'w ssh_env \<Rightarrow> nat \<Rightarrow> remote \<Rightarrow> 'w \<Rightarrow> (bytes res \<times> remote \<times> 'w) option" where
  "remote_advert env sv mem rm w =
     (if is_http_url (rm_url rm) then
        (case do_http_info_refs_with_retry env rm (fastgit_http_transport_new rm) w of
           (e, rm1, t1, w1) \<Rightarrow> Some (bindr e (\<lambda>_. Inr (ht_response t1)), rm1, w1))
      else if is_ssh_url (rm_url rm) then
        (case fastgit_ssh_transport_new sv rm w of
           (Inl e, w1) \<Rightarrow> Some (Inl e, rm, w1)
         | (Inr t, w1) \<Rightarrow>
             map_option (\<lambda>(e, rm1, t1, w2). (e, rm1, w2)) (do_ssh_info_refs_with_retry env sv mem rm t w1))
      else Some (Inl EUNSUPPORTED, rm, w))"

definition fastgit_remote_ls ::
    "'w env \<Rightarrow> 'w ssh_env \<Rightarrow> nat \<Rightarrow> remote \<Rightarrow> 'w \<Rightarrow> (remote_ref list res \<times> remote \<times> 'w) option" where
  "fastgit_remote_ls env sv mem rm w =
     (case admit env rm w of
        (None, w1) \<Rightarrow> Some (Inl EBUSY, rm, w1)
      | (Some (queued, rm1), w1) \<Rightarrow>
          (case remote_advert env sv mem rm1 w1 of
             None \<Rightarrow> None
           | Some (e, rm2, w2) \<Rightarrow>
               (case record_outcome env (bindr e (\<lambda>_. Inr ())) queued rm2 w2 of
                  (rm3, w3) \<Rightarrow> Some (bindr e (\<lambda>advert. Inr (fastgit_pktline_parse_refs advert)), rm3, w3))))"

section \<open>Clone\<close>

definition is_local_source :: "host \<Rightarrow> bytes \<Rightarrow> bool" where
  "is_local_source h url \<longleftrightarrow>
     starts ''file://'' url \<or> (url \<noteq> [] \<and> hd url = 47) \<or> starts ''./'' url \<or> starts ''../'' url \<or> path_there h url"

text \<open>The index is written whether or not the tree could be read.\<close>

definition clone_index :: "evp option \<Rightarrow> zlib \<Rightarrow> nat \<Rightarrow> oid \<Rightarrow> index \<Rightarrow> unit op" where
  "clone_index crypto z mem tree ix st =
     (case st of (r, h) \<Rightarrow>
       case fastgit_index_read_tree z mem tree (ix, hs_disks h) of
         None \<Rightarrow> None
       | Some (e, ix1) \<Rightarrow>
           if e = Inl Undefined then Some (e, r\<lparr>rs_index := Some ix1\<rparr>, h) else Some (save_index crypto ix1 (r, h)))"

text \<open>What follows a fetch that succeeded: errors here do not change the result, which is that of the fetch.\<close>

definition clone_checkout :: "nat \<Rightarrow> evp option \<Rightarrow> zlib \<Rightarrow> nat \<Rightarrow> u32 \<Rightarrow> bytes \<Rightarrow> unit op" where
  "clone_checkout n crypto z mem umask want st =
     (case st of (r, h) \<Rightarrow>
       case fastgit_rev_parse z mem (refs_of r (hs_files h)) want (odb_of r h) of
         (Inl e, db) \<Rightarrow> Some (if e = Undefined then Inl e else Inr (), set_odb db r h)
       | (Inr x, db) \<Rightarrow>
           (case fastgit_object_lookup z mem x db of
              (Inl e, db1) \<Rightarrow> Some (if e = Undefined then Inl e else Inr (), set_odb db1 r h)
            | (Inr obj, db1) \<Rightarrow>
                (case set_odb db1 r h of (r1, h1) \<Rightarrow>
                 (case (if o_type obj = COMMIT then bindr (fastgit_commit_parse obj) (\<lambda>(c, _). Inr c) else Inr None) of
                    Inl e \<Rightarrow> Some (Inl e, r1, h1)
                  | Inr c \<Rightarrow>
                      let tree = (case c of None \<Rightarrow> x | Some cm \<Rightarrow> c_tree cm) in
                      (case (case rs_index r1 of None \<Rightarrow> Some (Inr (), r1, h1) | Some ix \<Rightarrow> clone_index crypto z mem tree ix (r1, h1)) of
                         None \<Rightarrow> None
                       | Some (e2, r2, h2) \<Rightarrow>
                           if e2 = Inl Undefined then Some (e2, r2, h2)
                           else (case rs_worktree r2 of
                               None \<Rightarrow> Some (Inr (), r2, h2)
                             | Some wt \<Rightarrow>
                                 map_option (\<lambda>(e3, st3). (if e3 = Inl Undefined then e3 else Inr (), st3))
                                   (checkout_op n z mem umask tree True wt (r2, h2))))))))"

definition fastgit_clone ::
    "nat \<Rightarrow> 'w env \<Rightarrow> 'w ssh_env \<Rightarrow> evp option \<Rightarrow> zlib \<Rightarrow> nat \<Rightarrow> u32 \<Rightarrow> signature option \<Rightarrow> bytes \<Rightarrow> bytes \<Rightarrow> bytes option \<Rightarrow>
      host \<Rightarrow> 'w \<Rightarrow> (unit res \<times> host \<times> 'w) option" where
  "fastgit_clone n env sv crypto z mem umask sg url path ref h w =
     (if \<not> is_local_source h url then Some (Inl EUNSUPPORTED, h, w)
      else let src = (if starts ''file://'' url then drop 7 url else url) in
        case fastgit_repository_init mem path False h of
          (Inl e, h1) \<Rightarrow> Some (Inl e, h1, w)
        | (Inr _, h1) \<Rightarrow>
            (case fastgit_repository_open mem path h1 of
               Inl e \<Rightarrow> Some (Inl e, h1, w)
             | Inr r \<Rightarrow>
                 (case fastgit_fetch env sv crypto z mem sg (bufn 4096 (str ''file://'' @ src)) r h1 w of
                    None \<Rightarrow> None
                  | Some (Inl e, r2, h2, w2) \<Rightarrow> Some (Inl e, h2, w2)
                  | Some (Inr _, r2, h2, w2) \<Rightarrow>
                      map_option (\<lambda>(e, r3, h3). (e, h3, w2))
                        (clone_checkout n crypto z mem umask (case ref of None \<Rightarrow> str ''HEAD'' | Some s \<Rightarrow> s) (r2, h2)))))"

text \<open>The depth is not looked at.\<close>

definition fastgit_fetch_shallow ::
    "'w env \<Rightarrow> 'w ssh_env \<Rightarrow> evp option \<Rightarrow> zlib \<Rightarrow> nat \<Rightarrow> signature option \<Rightarrow> bytes \<Rightarrow> int \<Rightarrow> repository \<Rightarrow> host \<Rightarrow> 'w \<Rightarrow>
      (unit res \<times> repository \<times> host \<times> 'w) option" where
  "fastgit_fetch_shallow env sv crypto z mem sg name depth r h w = fastgit_fetch env sv crypto z mem sg name r h w"

definition fastgit_clone_shallow ::
    "nat \<Rightarrow> 'w env \<Rightarrow> 'w ssh_env \<Rightarrow> evp option \<Rightarrow> zlib \<Rightarrow> nat \<Rightarrow> u32 \<Rightarrow> signature option \<Rightarrow> bytes \<Rightarrow> bytes \<Rightarrow> bytes option \<Rightarrow> int \<Rightarrow>
      host \<Rightarrow> 'w \<Rightarrow> (unit res \<times> host \<times> 'w) option" where
  "fastgit_clone_shallow n env sv crypto z mem umask sg url path ref depth h w =
     fastgit_clone n env sv crypto z mem umask sg url path ref h w"

end
