(* ===== verification/FetchProps.thy ===== *)
theory FetchProps
  imports Fetch UnpackProps HttpProps PktLineProps RefProps OdbDisk
begin

text \<open>
  Fetching, end to end: from another repository of the file system, with its branches; over HTTP from
  a server that fails for a while before it answers; and what a failing server leaves behind.
\<close>

section \<open>Objects\<close>

lemma odb_of_set [simp]: "odb_of (fst (set_odb db r h)) (snd (set_odb db r h)) = db"
  by (cases db) (simp add: set_odb_def odb_of_def odb_attach_def objects_dir_def)

lemma odb_of_files [simp]: "odb_of r (h\<lparr>hs_files := fs\<rparr>) = odb_of r h"
  by (simp add: odb_of_def)

lemma set_odb_keeps [simp]:
  "hs_files (snd (set_odb db r h)) = hs_files h" "rs_gitdir (fst (set_odb db r h)) = rs_gitdir r"
  by (simp_all add: set_odb_def)

text \<open>Everything readable of \<open>src\<close> is copied to where it is not yet, and what was there stays.\<close>

lemma copy_objects_ok:
  "odb_ok crypto z mem U src \<Longrightarrow> odb_ok crypto z mem U dst \<Longrightarrow> \<forall>x \<in> set xs. sha_key x \<Longrightarrow>
   \<exists>dst'. copy_objects crypto z mem xs src dst = Inr dst' \<and> odb_ok crypto z mem U dst' \<and> grown z mem dst dst' \<and>
     (\<forall>x \<in> set xs. \<forall>p. held z mem src x p \<longrightarrow> held z mem dst' x p)"
proof (induction xs arbitrary: src dst)
  case Nil
  then show ?case by (simp add: odbs.extends_refl)
next
  case (Cons x xs)
  have x: "sha_key x" and xs: "\<forall>x \<in> set xs. sha_key x" using Cons.prems(3) by simp_all
  have U: "universe crypto mem U" using Cons.prems(1) by (simp add: odb_ok_def)
  obtain r src' where r: "fastgit_odb_read z mem x src = (r, src')" by fastforce
  have gs: "odb_get z mem src x = (bindr r (\<lambda>ob. Inr (content ob)), src')" by (simp add: odb_get_def r)
  have s: "odb_ok crypto z mem U src'" "grown z mem src src'"
    using odbs.get_keeps[OF Cons.prems(1) x gs] unfolding odbs.extends_def odbs.holds_def by auto
  text \<open>Once the first object is where it belongs, the others follow.\<close>
  have rest: ?case
    if e: "copy_objects crypto z mem (x # xs) src dst = copy_objects crypto z mem xs src' d" and d: "odb_ok crypto z mem U d"
      "grown z mem dst d" and h: "\<And>p. held z mem src x p \<Longrightarrow> held z mem d x p" for d
  proof -
    obtain d' where i: "copy_objects crypto z mem xs src' d = Inr d'" "odb_ok crypto z mem U d'" "grown z mem d d'"
      "\<forall>x \<in> set xs. \<forall>p. held z mem src' x p \<longrightarrow> held z mem d' x p"
      using Cons.IH[OF s(1) d(1) xs] by blast
    have "held z mem d' y p" if "y \<in> set (x # xs)" "held z mem src y p" for y p
      using that i(3,4) s(2) h unfolding odbs.extends_def by (metis set_ConsD)
    then show ?thesis using e i(1,2) odbs.extends_trans[OF d(2) i(3)] by auto
  qed
  show ?case
  proof (cases r)
    case (Inl e)
    have "e \<noteq> Undefined" using odb_read_defined[OF Cons.prems(1) x r] Inl by simp
    moreover have "\<not> held z mem src x p" for p using gs Inl by (simp add: odbs.holds_def)
    ultimately show ?thesis using r Inl Cons.prems(2) odbs.extends_refl by (intro rest[of dst]) auto
  next
    case (Inr ob)
    have n: "named crypto U x (content ob)" using odb_get_ok[OF Cons.prems(1) x gs] Inr by simp
    have only: "held z mem src x p \<Longrightarrow> p = content ob" for p using gs Inr by (simp add: odbs.holds_def)
    obtain q d1 where q: "fastgit_odb_read z mem x dst = (q, d1)" by fastforce
    have gd: "odb_get z mem dst x = (bindr q (\<lambda>ob. Inr (content ob)), d1)" by (simp add: odb_get_def q)
    have d1: "odb_ok crypto z mem U d1" "grown z mem dst d1"
      using odbs.get_keeps[OF Cons.prems(2) x gd] unfolding odbs.extends_def odbs.holds_def by auto
    show ?thesis
    proof (cases q)
      case (Inr ob2)
      have "named crypto U x (content ob2)" using odb_get_ok[OF Cons.prems(2) x gd] Inr by simp
      then have "content ob2 = content ob" by (rule named_unique[OF U _ n])
      then have "held z mem dst x (content ob)" using gd Inr x by (simp add: odbs.holds_def)
      then have "held z mem d1 x (content ob)" using d1(2) unfolding odbs.extends_def by blast
      then show ?thesis using r q \<open>r = Inr ob\<close> Inr d1 only by (intro rest[of d1]) auto
    next
      case (Inl e)
      have e: "e \<noteq> Undefined" using odb_read_defined[OF Cons.prems(2) x q] Inl by simp
      have u: "content ob \<in> U" using n by (simp add: named_def)
      obtain k d2 where p: "odb_put crypto z d1 (content ob) = (Inr k, d2)" "odb_ok crypto z mem U d2"
        "held z mem d2 k (content ob)" "grown z mem d1 d2"
        by (rule odbs.put_ok[OF d1(1) u])
      have w: "fastgit_odb_write crypto z (oo_type ob) (oo_data ob) d1 = (Inr k, d2)"
        using p(1) by (simp add: odb_put_def content_def)
      have "k = x" using odb_write_ok[OF d1(1), of "oo_type ob" "oo_data ob"] u n w by (auto simp: content_def named_def)
      then show ?thesis
        using r q Inr Inl e w p(2,3) only odbs.extends_trans[OF d1(2) p(4)] \<open>r = Inr ob\<close> by (intro rest[of d2]) auto
    qed
  qed
qed

section \<open>Branches\<close>

text \<open>A lookup reads only files of the repository.\<close>

lemma resolve_frame:
  assumes "\<And>q. prefix (g @ [47]) q \<Longrightarrow> map_of fs' q = map_of fs q" "length g < 4095"
  shows "prefix (g @ [47]) path \<Longrightarrow>
    resolve_ref n \<lparr>rp_gitdir = g, rp_files = fs'\<rparr> name path = resolve_ref n \<lparr>rp_gitdir = g, rp_files = fs\<rparr> name path"
proof (induction n arbitrary: path)
  case (Suc n)
  have b: "prefix (g @ [47]) (bufn 4096 (g @ [47] @ s))" for s
    using assms(2) by (auto simp: bufn_def take_Cons')
  have r: "read_ref_file fs' path 256 = read_ref_file fs path 256" using assms(1)[OF Suc.prems] by (simp add: read_ref_file_def)
  have "str ''/packed-refs'' = [47] @ str ''packed-refs''" by (simp add: str_def)
  then have p: "lookup_packed \<lparr>rp_gitdir = g, rp_files = fs'\<rparr> name e = lookup_packed \<lparr>rp_gitdir = g, rp_files = fs\<rparr> name e" for e
    using assms(1)[OF b] by (simp add: lookup_packed_def packed_refs_def)
  show ?case using r p assms(1)[OF Suc.prems] Suc.IH[OF b] by (simp split: sum.splits option.splits)
qed simp

lemma lookup_frame:
  assumes "\<And>q. prefix (g @ [47]) q \<Longrightarrow> map_of fs' q = map_of fs q" "length g < 4095"
  shows "fastgit_reference_lookup \<lparr>rp_gitdir = g, rp_files = fs'\<rparr> n = fastgit_reference_lookup \<lparr>rp_gitdir = g, rp_files = fs\<rparr> n"
proof -
  have "prefix (g @ [47]) (ref_path_for_name g n 4096)"
    using assms(2) by (auto simp: ref_path_for_name_def bufn_def take_Cons' str_def)
  from resolve_frame[OF assms this] show ?thesis by (simp only: fastgit_reference_lookup_def repo.simps)
qed

lemma from_hex_plain: "fastgit_oid_from_hex s = Inr x \<Longrightarrow> oid_plain x"
  by (cases "hex_to_bytes s") (auto simp: fastgit_oid_from_hex_def oid_plain_def length_hex_to_bytes split: if_splits)

lemma lookup_plain: "fastgit_reference_lookup rp n = Inr x \<Longrightarrow> oid_plain x"
proof -
  have "resolve_ref k rp n p = Inr x \<Longrightarrow> oid_plain x" for k p
    by (induction k arbitrary: p)
      (auto simp: lookup_packed_def split: sum.splits if_splits option.splits prod.splits dest: from_hex_plain)
  then show "fastgit_reference_lookup rp n = Inr x \<Longrightarrow> oid_plain x" by (simp add: fastgit_reference_lookup_def del: resolve_ref.simps)
qed


text \<open>The file of a branch, and the log that is written with it.\<close>

abbreviation branch_file :: "repository \<Rightarrow> bytes \<Rightarrow> bytes" where
  "branch_file r n \<equiv> rs_gitdir r @ [47] @ n"

abbreviation branch_log :: "repository \<Rightarrow> bytes \<Rightarrow> bytes" where
  "branch_log r n \<equiv> rs_gitdir r @ str ''/logs/'' @ n"

text \<open>Names that fit into the buffers.\<close>

definition branch_ok :: "repository \<Rightarrow> bytes \<Rightarrow> bool" where
  "branch_ok r n \<longleftrightarrow> starts ''refs/'' n \<and> ref_fits (refs_of r []) n"

lemma branch_paths:
  assumes "branch_ok r n"
  shows "ref_path (refs_of r fs) n = branch_file r n" "log_path (refs_of r fs) n = branch_log r n"
    "ref_fits (refs_of r fs) n" "effective_name (refs_of r fs) n = n"
proof -
  obtain m where n: "n = 114 # m" using assms starts_refs by (auto simp: branch_ok_def)
  show "ref_path (refs_of r fs) n = branch_file r n" "log_path (refs_of r fs) n = branch_log r n"
    "ref_fits (refs_of r fs) n"
    using assms by (simp_all add: branch_ok_def refs_of_def ref_fits_def ref_path_for_name_def full_name_def bufn_id)
  show "effective_name (refs_of r fs) n = n" using n by (simp add: effective_name_def str_def)
qed

lemma copy_ref_files:
  assumes "branch_ok dst n"
  shows "(\<forall>e. fastgit_reference_lookup (refs_of src fs) n = Inl e \<longrightarrow> copy_ref sg msg src dst fs n = fs) \<and>
    (\<forall>x. fastgit_reference_lookup (refs_of src fs) n = Inr x \<longrightarrow>
      (\<forall>q. q \<noteq> branch_log dst n \<longrightarrow> map_of (copy_ref sg msg src dst fs n) q =
        (if q = branch_file dst n then Some (hex_or_empty x @ [10]) else map_of fs q)))"
proof -
  note b = branch_paths[OF assms, of fs]
  show ?thesis
  proof (cases "fastgit_reference_lookup (refs_of src fs) n")
    case (Inr x)
    obtain rp' where c: "fastgit_reference_create sg n x True (Some (str msg)) (refs_of dst fs) = (Inr (), rp')"
      "\<forall>q. q \<noteq> branch_log dst n \<longrightarrow> map_of (rp_files rp') q =
        (if q = branch_file dst n then Some (hex_or_empty x @ [10]) else map_of (rp_files (refs_of dst fs)) q)"
      using ref_written[OF b(3), unfolded b(4), OF b(3), of True sg x "Some (str msg)", unfolded b] by blast
    have "copy_ref sg msg src dst fs n = rp_files rp'"
      using Inr c(1) by (simp add: copy_ref_def update_ref_def fastgit_reference_update_def)
    moreover have "rp_files (refs_of dst fs) = fs" by (simp add: refs_of_def)
    ultimately show ?thesis using Inr c(2) by simp
  qed (simp add: copy_ref_def)
qed

text \<open>The two repositories are in directories of their own.\<close>

definition apart :: "repository \<Rightarrow> repository \<Rightarrow> bool" where
  "apart a b \<longleftrightarrow> (\<forall>q. prefix (rs_gitdir a @ [47]) q \<longrightarrow> \<not> prefix (rs_gitdir b @ [47]) q)"

lemma apart_iff: "apart a b \<longleftrightarrow> \<not> prefix (rs_gitdir a @ [47]) (rs_gitdir b @ [47]) \<and> \<not> prefix (rs_gitdir b @ [47]) (rs_gitdir a @ [47])"
proof
  assume "apart a b"
  then show "\<not> prefix (rs_gitdir a @ [47]) (rs_gitdir b @ [47]) \<and> \<not> prefix (rs_gitdir b @ [47]) (rs_gitdir a @ [47])"
    unfolding apart_def using prefix_order.order_refl by blast
next
  assume "\<not> prefix (rs_gitdir a @ [47]) (rs_gitdir b @ [47]) \<and> \<not> prefix (rs_gitdir b @ [47]) (rs_gitdir a @ [47])"
  then show "apart a b" unfolding apart_def using prefix_same_cases by blast
qed

lemma branch_names: "branch_ok r m \<Longrightarrow> branch_ok r n \<Longrightarrow> branch_file r m \<noteq> branch_log r n"
  using starts_refs[of m] by (auto simp: branch_ok_def str_def)

lemma copy_refs_files:
  assumes "apart src dst" "length (rs_gitdir src) < 4095" "\<forall>n \<in> set ns. branch_ok dst n"
  shows "(\<forall>q. q \<notin> branch_file dst ` set ns \<and> q \<notin> branch_log dst ` set ns \<longrightarrow> map_of (foldl (copy_ref sg msg src dst) fs ns) q = map_of fs q) \<and>
    (\<forall>n \<in> set ns. \<forall>x. fastgit_reference_lookup (refs_of src fs) n = Inr x \<longrightarrow>
      map_of (foldl (copy_ref sg msg src dst) fs ns) (branch_file dst n) = Some (hex_or_empty x @ [10]))"
  using assms(3)
proof (induction ns rule: rev_induct)
  case (snoc n ns)
  let ?fs = "foldl (copy_ref sg msg src dst) fs ns"
  have n: "branch_ok dst n" and ns: "\<forall>n \<in> set ns. branch_ok dst n" using snoc.prems by simp_all
  have same: "map_of ?fs q = map_of fs q" if "q \<notin> branch_file dst ` set ns" "q \<notin> branch_log dst ` set ns" for q
    using snoc.IH ns that by blast
  have fr: "map_of ?fs q = map_of fs q" if "prefix (rs_gitdir src @ [47]) q" for q
    using that assms(1) by (intro same) (auto simp: apart_def str_def)
  have l: "fastgit_reference_lookup (refs_of src ?fs) m = fastgit_reference_lookup (refs_of src fs) m" for m
    unfolding refs_of_def by (rule lookup_frame[OF fr assms(2)])
  note c = copy_ref_files[OF n, of src ?fs sg msg]
  show ?case
  proof (cases "fastgit_reference_lookup (refs_of src fs) n")
    case (Inl e)
    then show ?thesis using c l snoc.IH ns by auto
  next
    case (Inr x)
    have f: "map_of (copy_ref sg msg src dst ?fs n) q = (if q = branch_file dst n then Some (hex_or_empty x @ [10]) else map_of ?fs q)"
      if "q \<noteq> branch_log dst n" for q using c l Inr that by auto
    have "map_of (copy_ref sg msg src dst ?fs n) (branch_file dst m) = Some (hex_or_empty y @ [10])"
      if "m \<in> set (ns @ [n])" "fastgit_reference_lookup (refs_of src fs) m = Inr y" for m y
      using that snoc.IH ns Inr snoc.prems branch_names[OF _ n, of m] by (cases "m = n") (auto simp: f)
    then show ?thesis using f same by auto
  qed
qed simp


text \<open>What the file HEAD may say, if there is one: the name of a branch that is listed.\<close>

definition head_listed :: "bytes list \<Rightarrow> bytes option \<Rightarrow> bool" where
  "head_listed ns c \<longleftrightarrow> c = None \<or> (\<exists>t \<in> set ns. c = Some (str ''ref: '' @ t @ [10]) \<and> nul_free t \<and> 10 \<notin> set t \<and> 13 \<notin> set t)"

lemma copy_head_files:
  assumes "head_listed ns (map_of fs (bufn 1024 (path @ str ''/HEAD'')))" "\<forall>n \<in> set ns. branch_ok dst n"
  shows "\<exists>ts. set ts \<subseteq> set ns \<and> copy_head sg src path dst fs = foldl (copy_ref sg ''fetch file://'' src dst) fs ts"
proof (cases "map_of fs (bufn 1024 (path @ str ''/HEAD''))")
  case None
  then show ?thesis by (intro exI[of _ "[]"]) (simp add: copy_head_def split: sum.splits)
next
  case (Some c)
  then obtain t where t: "t \<in> set ns" "c = str ''ref: '' @ t @ [10]" "nul_free t" "10 \<notin> set t" "13 \<notin> set t"
    using assms(1) by (auto simp: head_listed_def)
  then obtain t' where t': "t = 114 # t'" "length t < 500"
    using assms(2) starts_refs by (force simp: branch_ok_def ref_fits_def)
  have la: "last t \<noteq> 10" "last t \<noteq> 13" using t(4,5) t'(1) last_in_set[of t] by auto
  have g: "fgets_raw 1024 c = Some (c, [])"
    using fgets_line[of "str ''ref: '' @ t" 1024 "[]"] t(2,4) t'(2) by (simp add: str_def)
  have c: "cstr c = c" using t(2,3) by (intro cstr_id) (simp add: str_def nul_free_def)
  have s: "starts ''ref:'' c" using t(2) by (simp add: starts_def str_def)
  have d: "chomp (dropWhile (\<lambda>b. b = 32 \<or> b = 9) (drop 4 c)) = t"
    using chomp_line[of t] la t(2) t'(1) by (simp add: str_def)
  show ?thesis
  proof (cases "fastgit_reference_lookup (refs_of src fs) (str ''HEAD'')")
    case (Inl e)
    then show ?thesis by (intro exI[of _ "[]"]) (simp add: copy_head_def)
  next
    case (Inr x)
    then show ?thesis using Some g c s d t(1) by (intro exI[of _ "[t]"]) (simp add: copy_head_def)
  qed
qed



text \<open>A bare repository \<open>/a\<close> with one branch and one blob, an empty repository \<open>/b\<close>.\<close>

definition branch_m :: bytes where "branch_m = str ''refs/heads/m''"

definition two_hosts :: "disk \<Rightarrow> host" where
  "two_hosts dk = \<lparr>hs_dirs = [str ''/a/objects''],
     hs_files = [(str ''/a/HEAD'', str ''ref: '' @ branch_m @ [10]), (str ''/a/refs/heads/m'', hex_or_empty (toy_oid 13) @ [10])],
     hs_disks = (\<lambda>_. empty_disk)(str ''/a/objects'' := dk), hs_work = [], hs_mtime = \<lambda>_. 0\<rparr>"

definition bare_at :: "bytes \<Rightarrow> disk \<Rightarrow> repository" where
  "bare_at p dk = \<lparr>rs_path = p, rs_gitdir = p, rs_bare = True, rs_odb = fastgit_odb_open dk,
     rs_index = Some (fastgit_index_new\<lparr>ix_path := Some (p @ str ''/index'')\<rparr>), rs_worktree = None\<rparr>"

lemma blob_disk:
  "\<exists>dk. odb_ok (Some toy_hash) stuff_zlib 10000 blob_universe (fastgit_odb_open dk) \<and>
     fastgit_odb_iterator_new (fastgit_odb_open dk) = [toy_oid 13] \<and>
     fst (odb_get stuff_zlib 10000 (fastgit_odb_open dk) (toy_oid 13)) = Inr (BLOB, toy_blob 7)"
proof -
  obtain x zd db where w: "fastgit_odb_write (Some toy_hash) stuff_zlib BLOB (toy_blob 7) (fastgit_odb_open empty_disk) = (Inr x, db)"
    "x = toy_oid 13" "oc_disk (odb_head db) = empty_disk\<lparr>d_loose := [(odb_object_path x, zd)]\<rparr>"
    using first_write[OF toy_params stuff_zlib_ok blob_universe_ok, of BLOB "toy_blob 7"] blob_names(1) by auto
  let ?dk = "oc_disk (odb_head db)"
  obtain k s where s: "odb_put (Some toy_hash) stuff_zlib (fastgit_odb_open empty_disk) (BLOB, toy_blob 7) = (Inr k, s)"
    "odb_durable (Some toy_hash) stuff_zlib 10000 blob_universe s" "fst (odb_get stuff_zlib 10000 s k) = Inr (BLOB, toy_blob 7)"
    using durable.put_get[OF opened_durable[OF blob_db_ok], of "(BLOB, toy_blob 7)"] by auto
  have "s = db" "k = toy_oid 13" using s(1) w(1,2) by (simp_all add: odb_put_def)
  then have "odb_durable (Some toy_hash) stuff_zlib 10000 blob_universe (odb_reopen db)"
    "fst (odb_get stuff_zlib 10000 (odb_reopen db) (toy_oid 13)) = Inr (BLOB, toy_blob 7)"
    using durable.reopen_keeps[OF s(2)] s(3) by (simp_all add: sha_key_def)
  moreover have "is_oid_name (odb_object_path (toy_oid 13)) = Some (toy_oid 13)"
    by (rule path_names) (simp_all add: sha_key_def)
  then have "fastgit_odb_iterator_new (fastgit_odb_open ?dk) = [toy_oid 13]"
    by (simp add: fastgit_odb_iterator_new_def fastgit_odb_open_def fastgit_odb_new_def w(2,3) empty_disk_def map_filter_simps)
  ultimately show ?thesis by (auto simp: odb_reopen_def odb_durable_def)
qed

lemma two_hosts_facts:
  "fastgit_repository_open 10000 (str ''/a'') (two_hosts dk) = Inr (bare_at (str ''/a'') dk)"
  "odb_of (bare_at (str ''/b'') empty_disk) (two_hosts dk) = fastgit_odb_open empty_disk"
  "fastgit_reference_list (Some (str ''refs/heads/'')) (refs_of (bare_at (str ''/a'') dk) (hs_files (two_hosts dk))) = [branch_m]"
  subgoal by (simp add: fastgit_repository_open_def two_hosts_def path_there_def dir_there_def bare_at_def str_def git_path_def bufn_id is_dir_def open_index_def fastgit_index_open_def fastgit_index_read_def)
  subgoal by (simp add: odb_of_def odb_attach_def fastgit_odb_open_def fastgit_odb_new_def bare_at_def two_hosts_def objects_dir_def git_path_def bufn_def str_def)
  subgoal by code_simp
  done



section \<open>Remotes during a fetch\<close>

text \<open>Requests and waits change nothing of a remote but its budget of retries.\<close>

definition budget_moved :: "remote \<Rightarrow> remote \<Rightarrow> bool" where
  "budget_moved r r' \<longleftrightarrow> (\<exists>b t. r' = r\<lparr>rm_budget_remaining := b, rm_budget_reset_ms := t\<rparr>)"

lemma budget_moved_refl [simp, intro]: "budget_moved r r"
  unfolding budget_moved_def by (rule exI[of _ "rm_budget_remaining r"], rule exI[of _ "rm_budget_reset_ms r"]) simp

lemma budget_moved_trans: "budget_moved r s \<Longrightarrow> budget_moved s t \<Longrightarrow> budget_moved r t"
  unfolding budget_moved_def by (elim exE, intro exI) simp

lemma consume_moved: "fastgit_remote_budget_consume now r = (ok, r') \<Longrightarrow> budget_moved r r'"
  unfolding fastgit_remote_budget_consume_def budget_moved_def
  by (cases r) (auto simp: Let_def split: if_splits)

lemma await_moved: "await_retry env ra err k r w = (res, r', w') \<Longrightarrow> budget_moved r r'"
  by (auto simp: await_retry_def split: prod.splits bool.splits sum.splits if_splits dest: consume_moved)

lemma info_loop_moved: "info_refs_loop env m k r t w = (res, r', t', w') \<Longrightarrow> budget_moved r r'"
proof (induction env m k r t w arbitrary: res r' t' w' rule: info_refs_loop.induct)
  case (1 env m k r t w)
  show ?case
    using "1.prems"
    by (subst (asm) info_refs_loop.simps)
      (auto split: if_splits prod.splits sum.splits dest: await_moved intro: budget_moved_trans[OF await_moved "1.IH"])
qed

lemma wait_loop_moved: "wait_loop env m k r w = (res, r', w') \<Longrightarrow> budget_moved r r'"
proof (induction env m k r w arbitrary: res r' w' rule: wait_loop.induct)
  case (1 env m k r w)
  show ?case
    using "1.prems"
    by (subst (asm) wait_loop.simps)
      (auto split: if_splits prod.splits sum.splits bool.splits dest: consume_moved intro: budget_moved_trans[OF consume_moved "1.IH"])
qed

lemma settle_moved: "settle_waits env outcome rm w = (outcome', rm', w') \<Longrightarrow> budget_moved rm rm' \<and> (isl outcome' = isl outcome)"
  by (auto simp: settle_waits_def split: sum.splits if_splits prod.splits dest: wait_loop_moved)

section \<open>Failures\<close>

lemma store_pack_whole:
  "store_pack crypto z mem resp r h = (e, r', h') \<Longrightarrow> hs_files h' = hs_files h \<and> (isl e \<longrightarrow> r' = r \<and> h' = h)"
  by (auto simp: store_pack_def set_odb_def split: sum.splits)

lemma fetch_http_whole:
  "fetch_via_http env crypto z mem r h rm w = (e, r', h', rm', w') \<Longrightarrow>
   hs_files h' = hs_files h \<and> (isl e \<longrightarrow> r' = r \<and> h' = h) \<and> budget_moved rm rm'"
  by (auto simp: fetch_via_http_def do_http_info_refs_with_retry_def split: prod.splits sum.splits option.splits
      dest: info_loop_moved store_pack_whole)


lemma http_not_file: "is_http_url url \<Longrightarrow> \<not> is_file_url url"
  by (cases url) (auto simp: is_http_url_def is_file_url_def starts_def str_def)

lemma slot_taken:
  assumes "fst (fastgit_remote_load_acquire rm)" "rm_ls_inflight rm < max_inflight rm" "rm_ls_queued rm = 0"
  shows "acquire_slot rm = Some (False, rm\<lparr>rm_ls_inflight := rm_ls_inflight rm + 1\<rparr>)"
  using assms by (auto simp: acquire_slot_def fastgit_remote_load_acquire_def max_inflight_def Let_def split: if_splits)

lemma slot_returned:
  assumes "rm_ls_inflight r = k + 1" "k < (m :: u32)" "rm_ls_queued r = 0"
  shows "fastgit_remote_load_release False r = r\<lparr>rm_ls_inflight := k\<rparr>"
proof -
  have "k + 1 \<noteq> 0" using next_le[OF assms(2)] by (metis nat.distinct(1) unat_0)
  then show ?thesis using assms by (simp add: fastgit_remote_load_release_def Let_def)
qed

text \<open>What the circuit breaker is told at the end of an operation.\<close>

definition accounted :: "unit res \<Rightarrow> u64 \<Rightarrow> remote \<Rightarrow> remote" where
  "accounted outcome now rm =
     (case outcome of
        Inr _ \<Rightarrow> fastgit_remote_circuit_on_success now rm
      | Inl e \<Rightarrow> if fastgit_error_is_retryable e then fastgit_remote_circuit_on_failure now rm else rm)"

lemma accounted_moved:
  assumes "budget_moved (rm\<lparr>rm_ls_inflight := rm_ls_inflight rm + 1\<rparr>) rm2" "rm_ls_inflight rm < max_inflight rm" "rm_ls_queued rm = 0"
  shows "budget_moved (accounted outcome now rm) (fastgit_remote_load_release False (accounted outcome now rm2))"
proof -
  obtain b t where rm2: "rm2 = rm\<lparr>rm_ls_inflight := rm_ls_inflight rm + 1, rm_budget_remaining := b, rm_budget_reset_ms := t\<rparr>"
    using assms(1) by (auto simp: budget_moved_def)
  have a: "accounted outcome now rm2 =
      (accounted outcome now rm)\<lparr>rm_ls_inflight := rm_ls_inflight rm + 1, rm_budget_remaining := b, rm_budget_reset_ms := t\<rparr>"
    by (cases rm) (simp add: rm2 accounted_def fastgit_remote_circuit_on_success_def fastgit_remote_circuit_on_failure_def
        open_circuit_def Let_def split: sum.split)
  have k: "rm_ls_inflight (accounted outcome now rm) = rm_ls_inflight rm" "rm_ls_queued (accounted outcome now rm) = rm_ls_queued rm"
    by (simp_all add: accounted_def fastgit_remote_circuit_on_success_def fastgit_remote_circuit_on_failure_def
        open_circuit_def Let_def split: sum.split)
  have "fastgit_remote_load_release False (accounted outcome now rm2) =
      (accounted outcome now rm)\<lparr>rm_ls_inflight := rm_ls_inflight rm, rm_budget_remaining := b, rm_budget_reset_ms := t\<rparr>"
    by (subst slot_returned[OF _ assms(2)]) (simp_all add: a k assms(3))
  then show ?thesis unfolding budget_moved_def k(1)[symmetric] by (intro exI) simp
qed

lemma fetch_accounted:
  assumes "is_http_url (rm_url rm)" "rm_cb_open_until_ms rm = 0"
    and "fst (fastgit_remote_load_acquire rm)" "rm_ls_inflight rm < max_inflight rm" "rm_ls_queued rm = 0"
  shows "\<exists>outcome r' h' rm' w'. fastgit_fetch_internal env sv crypto z mem sg r h rm w = Some (outcome, r', h', rm', w') \<and>
    hs_files h' = hs_files h \<and> (isl outcome \<longrightarrow> r' = r \<and> h' = h) \<and>
    (\<exists>now. budget_moved (accounted outcome now rm) rm' \<and>
      (\<forall>e. outcome = Inl e \<and> fastgit_error_is_retryable e \<longrightarrow> (\<exists>w0. ev_now env w0 = (now, w'))))"
proof -
  let ?rm1 = "rm\<lparr>rm_ls_inflight := rm_ls_inflight rm + 1\<rparr>"
  obtain now w1 where now: "ev_now env w = (now, w1)" by fastforce
  have ad: "admit env rm w = (Some (False, ?rm1), w1)"
    using now slot_taken[OF assms(3-5)] assms(2) by (simp add: admit_def fastgit_remote_circuit_allow_def)
  obtain e1 r' h' rm2 w2 where f: "fetch_via_http env crypto z mem r h ?rm1 w1 = (e1, r', h', rm2, w2)"
    by (metis prod_cases5)
  have b: "fetch_body env sv crypto z mem sg r h ?rm1 w1 = Some (e1, r', h', rm2, w2)"
    using f assms(1) http_not_file[OF assms(1)] by (simp add: fetch_body_def)
  obtain outcome rm3 w3 where s: "settle_waits env e1 rm2 w2 = (outcome, rm3, w3)" by (metis prod_cases3)
  have m: "budget_moved ?rm1 rm3" "isl outcome = isl e1"
    using fetch_http_whole[OF f] settle_moved[OF s] budget_moved_trans by blast+
  have o: "rm_cb_open_until_ms rm3 = 0" using m(1) assms(2) by (auto simp: budget_moved_def)
  obtain t w4 where r: "record_outcome env outcome False rm3 w3 = (fastgit_remote_load_release False (accounted outcome t rm3), w4)"
    "\<forall>e. outcome = Inl e \<and> fastgit_error_is_retryable e \<longrightarrow> ev_now env w3 = (t, w4)"
  proof (cases outcome)
    case (Inl e)
    obtain t w4 where "ev_now env w3 = (t, w4)" by fastforce
    then show ?thesis using that Inl
      by (cases "fastgit_error_is_retryable e") (auto simp: record_outcome_def accounted_def)
  next
    case (Inr u)
    then show ?thesis using that[of 0] o by (simp add: record_outcome_def accounted_def)
  qed
  have "budget_moved (accounted outcome t rm) (fastgit_remote_load_release False (accounted outcome t rm3))"
    by (rule accounted_moved[OF m(1) assms(4,5)])
  moreover have "fastgit_fetch_internal env sv crypto z mem sg r h rm w =
      Some (outcome, r', h', fastgit_remote_load_release False (accounted outcome t rm3), w4)"
    using ad b s r(1) by (simp add: fastgit_fetch_internal_def)
  ultimately show ?thesis using fetch_http_whole[OF f] m(2) r(2) by blast
qed


text \<open>A library for SSH that fails in everything.\<close>

definition no_ssh :: "'w ssh_env" where
  "no_ssh = \<lparr>sh_new = \<lambda>w. (False, w), sh_connect = \<lambda>h u p w. (False, w), sh_try_key = \<lambda>k p w. (False, w), sh_auto = \<lambda>w. (False, w),
     sh_password = \<lambda>p w. (False, w), sh_none = \<lambda>w. (False, w), sh_disconnect = \<lambda>w. w, sh_open = \<lambda>w. (False, w),
     sh_exec = \<lambda>c w. (False, w), sh_close = \<lambda>w. w, sh_read = \<lambda>n w. (None, w), sh_write = \<lambda>d w. (- 1, w)\<rparr>"



section \<open>A fetch over HTTP that succeeds\<close>

lemma append_all: "foldl pktline_append b ps = b @ concat (map fastgit_pktline_encode ps)"
  by (induction ps arbitrary: b) (simp_all add: pktline_append_def)

lemma oid_text_ok: "length (oid_hash x) \<le> 64 \<Longrightarrow> oid_text x = Inr (bytes_to_hex (oid_hash x))"
  by (simp add: oid_text_def fastgit_oid_to_hex_def)

lemma request_built:
  assumes "refs \<noteq> []" "\<forall>r \<in> set refs. ref_ok r" "\<forall>x \<in> set ids. oid_plain x" "length (concat (map filter_text fs)) < 2048"
  shows "\<exists>req. build_fetch_request refs ids fs = Inr (Some req)"
proof -
  obtain r rs where r: "refs = r # rs" using assms(1) by (cases refs) auto
  have o: "oid_text (rr_oid r) = Inr (bytes_to_hex (oid_hash (rr_oid r)))" if "ref_ok r" for r
    using that by (intro oid_text_ok) (auto simp: ref_ok_def)
  have m: "\<exists>ls. mapr (\<lambda>r. bindr (oid_text (rr_oid r)) (\<lambda>h. Inr (str ''want '' @ h @ [10]))) rs = Inr ls"
    using mapr_Inr[of rs "\<lambda>r. bindr (oid_text (rr_oid r)) (\<lambda>h. Inr (str ''want '' @ h @ [10]))"
        "\<lambda>r. str ''want '' @ bytes_to_hex (oid_hash (rr_oid r)) @ [10]"] assms(2) r o by auto
  then obtain w ls where w: "want_lines fs refs = Inr (w # ls)" "length w < 2048"
    using assms(2,4) r o by (auto simp: want_lines_def filter_str_def Let_def bufn_def)
  have h: "bindr (oid_text x) (\<lambda>h. Inr (bufn 256 (str ''have '' @ h @ [10]))) =
      Inr (bufn 256 (str ''have '' @ bytes_to_hex (oid_hash x) @ [10]))" if "x \<in> set (take 32 ids)" for x
    using assms(3) that oid_text_ok[of x] by (auto simp: oid_plain_def dest: in_set_takeD)
  have "foldl pktline_append [] (map Some (w # ls)) \<noteq> []"
    using w(2) encode_frame[of w] frame_length[of w] by (auto simp: append_all frame_ok_def pktline_append_def)
  moreover have "\<exists>hs. mapr (\<lambda>x. bindr (oid_text x) (\<lambda>h. Inr (bufn 256 (str ''have '' @ h @ [10])))) (take 32 ids) = Inr hs"
    by (rule exI, rule mapr_Inr[where g = "\<lambda>x. bufn 256 (str ''have '' @ bytes_to_hex (oid_hash x) @ [10])"]) (rule h)
  ultimately show ?thesis using w(1) by (auto simp: build_fetch_request_def Let_def)
qed

lemma listed_plain: "x \<in> set (fastgit_odb_iterator_new db) \<Longrightarrow> oid_plain x"
  by (auto simp: fastgit_odb_iterator_new_def is_oid_name_def List.map_filter_def split: sum.splits dest: from_hex_plain)

lemma script_post:
  assumes "rs_ok p"
  shows "\<exists>t'. fastgit_http_post_upload_pack script_env req t (p # ps, c, n) = (post_result (rs_code p), t', ps, c, Suc n) \<and>
    ht_response t' = concat (rs_chunks p)"
  using assms by (simp add: fastgit_http_post_upload_pack_def http_post_def http_perform_def script_env_def http_reset_buffers_def Let_def)

lemma packed_length:
  assumes "odb_ok crypto z mem U src" "\<forall>x \<in> set (fastgit_odb_iterator_new src). sha_key x" "\<forall>d. z_deflate z d \<noteq> None"
    and "pack_local_odb crypto z mem src = Inr (f, src')"
  shows "12 \<le> length f"
  using pack_local_file[OF assms(1-3)] assms(4) by (auto simp: Let_def PACK_MAGIC_def split: if_splits)

text \<open>What a server answers that has the references and sends the pack in side-band packets.\<close>

definition serves :: "remote_ref list \<Rightarrow> bytes \<Rightarrow> http_reply \<Rightarrow> http_reply \<Rightarrow> bool" where
  "serves refs f advert post \<longleftrightarrow> reply_result advert = Inr () \<and> rs_ok post \<and> post_result (rs_code post) = Inr () \<and>
     refs \<noteq> [] \<and> (\<forall>r \<in> set refs. ref_ok r) \<and>
     (\<exists>service caps. length service \<le> 1000 \<and> length caps \<le> 60000 \<and> concat (rs_chunks advert) = advertisement service caps refs) \<and>
     (\<exists>ps. (\<forall>(c, d) \<in> set ps. c \<in> {1, 2, 3} \<and> length d \<le> 65515) \<and> f = concat (map snd (filter (\<lambda>(c, d). c = 1) ps)) \<and>
       concat (rs_chunks post) = frame (str ''NAK'' @ [10]) @ sideband ps @ flush)"

text \<open>
  C9. A fetch over HTTP, end to end. The network fails for a while within the policy of retries, then
  the server advertises its references, takes the request and answers with the pack of its loose
  objects in side-band packets, cut anywhere and mixed with progress messages. Then the fetch
  succeeds after exactly these requests: every loose object that the server can read is read here
  under the same name, what was here stays, the database stays in order; but no reference is made.
\<close>

theorem fetch_http_transfers:
  assumes rm: "is_http_url (rm_url rm)" "rm_cb_open_until_ms rm = 0" "fst (fastgit_remote_load_acquire rm)"
      "rm_ls_inflight rm < max_inflight rm" "rm_ls_queued rm = 0"
    and net: "\<forall>f \<in> set fails. transient f" "length fails \<le> unat (ry_max_retries (rm_retry rm))" "enough rm (length fails)"
      "ry_jitter_ratio (rm_retry rm) \<le> 1" "length (concat (map filter_text (rm_filter rm))) < 2048"
    and srv: "odb_ok crypto z mem U server" "\<forall>x \<in> set (fastgit_odb_iterator_new server). sha_key x"
      "32 * length (fastgit_odb_iterator_new server) \<le> mem" "pack_local_odb crypto z mem server = Inr (f, server')"
      "length f < 2 ^ 31" "serves refs f advert post"
    and loc: "odb_ok crypto z mem U (odb_of r h)" "zlib_ok z" "\<forall>d. z_deflate z d \<noteq> None" "moderate U"
  shows "\<exists>r' h' rm' c. fastgit_fetch_internal script_env sv crypto z mem sg r h rm (fails @ advert # post # rest, now, 0) =
      Some (Inr (), r', h', rm', rest, c, length fails + 2) \<and> odb_ok crypto z mem U (odb_of r' h') \<and>
    (\<forall>x p. sha_key x \<and> fst (odb_get z mem (odb_of r h) x) = Inr p \<longrightarrow> fst (odb_get z mem (odb_of r' h') x) = Inr p) \<and>
    (\<forall>x \<in> set (fastgit_odb_iterator_new server). \<forall>p.
      fst (odb_get z mem server x) = Inr p \<longrightarrow> fst (odb_get z mem (odb_of r' h') x) = Inr p) \<and>
    hs_files h' = hs_files h"
proof -
  let ?rm1 = "rm\<lparr>rm_ls_inflight := rm_ls_inflight rm + 1\<rparr>" and ?w = "(fails @ advert # post # rest, now, 0)"
  obtain service caps where adv: "length service \<le> 1000" "length caps \<le> 60000" "concat (rs_chunks advert) = advertisement service caps refs"
    using srv(6) by (auto simp: serves_def)
  obtain ps where ps: "\<forall>(c, d) \<in> set ps. c \<in> {1, 2, 3} \<and> length d \<le> 65515" "f = concat (map snd (filter (\<lambda>(c, d). c = 1) ps))"
    "concat (rs_chunks post) = frame (str ''NAK'' @ [10]) @ sideband ps @ flush"
    using srv(6) by (auto simp: serves_def)
  have s: "reply_result advert = Inr ()" "rs_ok post" "post_result (rs_code post) = Inr ()" "refs \<noteq> []" "\<forall>r \<in> set refs. ref_ok r"
    using srv(6) by (simp_all add: serves_def)
  have ad: "admit script_env rm ?w = (Some (False, ?rm1), ?w)"
    using slot_taken[OF rm(3-5)] rm(2) by (simp add: admit_def fastgit_remote_circuit_allow_def script_env_def)
  obtain rm2 t c where l: "info_refs_loop script_env (ry_max_retries (rm_retry rm)) 0 ?rm1 (fastgit_http_transport_new ?rm1) ?w =
      (Inr (), rm2, t, post # rest, c, length fails + 1)" "ht_response t = advertisement service caps refs"
    using script_loop[OF net(1) s(1), of 0 "ry_max_retries (rm_retry rm)" ?rm1 "fastgit_http_transport_new ?rm1" "post # rest" now 0]
      net(2-4) adv(3) by (auto simp: fastgit_http_transport_new_def enough_def)
  have "rm_filter rm2 = rm_filter rm" using info_loop_moved[OF l(1)] by (auto simp: budget_moved_def)
  then obtain req where req: "fetch_request (ht_response t) r h rm2 = Inr (Some req)"
    using request_built[OF s(4,5), of "fastgit_odb_iterator_new (odb_of r h)" "rm_filter rm"] listed_plain net(5) s(4)
    by (auto simp: fetch_request_def l(2) advertisement_parsed[OF s(5) adv(1,2)])
  obtain t2 where post: "fastgit_http_post_upload_pack script_env req t (post # rest, c, length fails + 1) =
      (Inr (), t2, rest, c, length fails + 2)" "ht_response t2 = frame (str ''NAK'' @ [10]) @ sideband ps @ flush"
    using script_post[OF s(2), of req t rest c "length fails + 1"] s(3) ps(3) by auto
  have x: "extract_pack_from_response (ht_response t2) = Inr f"
    using response_pack[OF ps(1,2) packed_length[OF srv(1,2) loc(3) srv(4)]] post(2) by simp
  obtain dst where d: "unpack_pack_to_odb crypto z mem f (odb_of r h) = Inr dst" "odb_ok crypto z mem U dst"
    "\<forall>x p. sha_key x \<and> fst (odb_get z mem (odb_of r h) x) = Inr p \<longrightarrow> fst (odb_get z mem dst x) = Inr p"
    "\<forall>x \<in> set (fastgit_odb_iterator_new server). \<forall>p. fst (odb_get z mem server x) = Inr p \<longrightarrow> fst (odb_get z mem dst x) = Inr p"
    using pack_moved[OF srv(1) loc(1-4) srv(2,3)] srv(4,5) by auto
  obtain r1 h1 where st: "set_odb dst r h = (r1, h1)" by fastforce
  have o: "odb_of r1 h1 = dst" "hs_files h1 = hs_files h" using odb_of_set[of dst r h] set_odb_keeps[of dst r h] unfolding st by simp_all
  have f: "fetch_via_http script_env crypto z mem r h ?rm1 ?w = (Inr (), r1, h1, rm2, rest, c, length fails + 2)"
    using l(1) req post(1) x d(1) st by (simp add: fetch_via_http_def do_http_info_refs_with_retry_def store_pack_def)
  then have b: "fetch_body script_env sv crypto z mem sg r h ?rm1 ?w = Some (Inr (), r1, h1, rm2, rest, c, length fails + 2)"
    using rm(1) http_not_file[OF rm(1)] by (simp add: fetch_body_def)
  have "rm_cb_open_until_ms rm2 = 0" using info_loop_moved[OF l(1)] rm(2) by (auto simp: budget_moved_def)
  then have "record_outcome script_env (Inr ()) False rm2 (rest, c, length fails + 2) =
      (fastgit_remote_load_release False (fastgit_remote_circuit_on_success 0 rm2), rest, c, length fails + 2)"
    by (simp add: record_outcome_def)
  then have "fastgit_fetch_internal script_env sv crypto z mem sg r h rm ?w = Some (Inr (), r1, h1,
      fastgit_remote_load_release False (fastgit_remote_circuit_on_success 0 rm2), rest, c, length fails + 2)"
    using ad b by (simp add: fastgit_fetch_internal_def settle_waits_def)
  then show ?thesis using d(2-4) o by blast
qed


theorem fetch_http_transfers_witness:
  "\<exists>advert post r' h' rm' c. fastgit_fetch_internal script_env no_ssh (Some toy_hash) stuff_zlib 10000 None (bare_at (str ''/b'') empty_disk)
      (two_hosts empty_disk) (fastgit_remote_create 0 [] (str ''http://h/r'')) ([reply 503 [], advert, post], 7, 0) =
      Some (Inr (), r', h', rm', [], c, 3) \<and>
    fst (odb_get stuff_zlib 10000 (odb_of r' h') (toy_oid 13)) = Inr (BLOB, toy_blob 7)"
proof -
  let ?rm = "fastgit_remote_create 0 [] (str ''http://h/r'')" and ?ref = "\<lparr>rr_name = branch_m, rr_oid = toy_oid 13\<rparr>"
  obtain dk where dk: "odb_ok (Some toy_hash) stuff_zlib 10000 blob_universe (fastgit_odb_open dk)"
    "fastgit_odb_iterator_new (fastgit_odb_open dk) = [toy_oid 13]"
    "fst (odb_get stuff_zlib 10000 (fastgit_odb_open dk) (toy_oid 13)) = Inr (BLOB, toy_blob 7)"
    using blob_disk by blast
  obtain f src' where f: "pack_local_odb (Some toy_hash) stuff_zlib 10000 (fastgit_odb_open dk) = Inr (f, src')" "length f < 200"
    using blob_packed[OF dk(1,2)] by blast
  let ?good = "reply 200 (advertisement (str ''git-upload-pack'') [] [?ref])"
  let ?post = "reply 200 (frame (str ''NAK'' @ [10]) @ sideband [(1, f)] @ flush)"
  have srv: "serves [?ref] f ?good ?post"
    unfolding serves_def
    using f(2) by (intro conjI exI[of _ "str ''git-upload-pack''"] exI[of _ "[]"] exI[of _ "[(1, f)]"])
      (simp_all add: reply_def reply_result_def info_result_def post_result_def ref_ok_def infer_algo_def branch_m_def str_def nul_free_def)
  have rm: "is_http_url (rm_url ?rm)" "rm_cb_open_until_ms ?rm = 0" "fst (fastgit_remote_load_acquire ?rm)"
    "rm_ls_inflight ?rm < max_inflight ?rm" "rm_ls_queued ?rm = 0"
    by (simp_all add: fastgit_remote_create_def is_http_url_def starts_def str_def fastgit_remote_load_acquire_def
        max_inflight_def or_default_def Let_def)
  have net: "\<forall>f \<in> set [reply 503 []]. transient f" "length [reply 503 []] \<le> unat (ry_max_retries (rm_retry ?rm))"
    "enough ?rm (length [reply 503 []])" "ry_jitter_ratio (rm_retry ?rm) \<le> 1" "length (concat (map filter_text (rm_filter ?rm))) < 2048"
    by (simp_all add: transient_def reply_result_def reply_def info_result_def fastgit_error_is_retryable_def
        fastgit_remote_create_def enough_def)
  have U: "moderate blob_universe" by (simp add: moderate_def toy_blob_def)
  have zd: "\<forall>d. z_deflate stuff_zlib d \<noteq> None" by (simp add: stuff_zlib_def)
  have k: "\<forall>x \<in> set (fastgit_odb_iterator_new (fastgit_odb_open dk)). sha_key x" by (simp add: dk(2) sha_key_def)
  have l: "odb_ok (Some toy_hash) stuff_zlib 10000 blob_universe (odb_of (bare_at (str ''/b'') empty_disk) (two_hosts empty_disk))"
    unfolding two_hosts_facts(2) by (rule blob_db_ok)
  have n: "32 * length (fastgit_odb_iterator_new (fastgit_odb_open dk)) \<le> 10000" "length f < 2 ^ 31" using dk(2) f(2) by simp_all
  from fetch_http_transfers[OF rm net dk(1) k n(1) f(1) n(2) srv l stuff_plain_ok zd U, of no_ssh None "[]" 7] dk(2,3)
  obtain r' h' rm' c where "fastgit_fetch_internal script_env no_ssh (Some toy_hash) stuff_zlib 10000 None (bare_at (str ''/b'') empty_disk)
      (two_hosts empty_disk) ?rm ([reply 503 []] @ ?good # ?post # [], 7, 0) = Some (Inr (), r', h', rm', [], c, length [reply 503 []] + 2)"
    "fst (odb_get stuff_zlib 10000 (odb_of r' h') (toy_oid 13)) = Inr (BLOB, toy_blob 7)"
    by auto
  moreover have "[reply 503 []] @ ?good # ?post # [] = [reply 503 [], ?good, ?post]" "length [reply 503 []] + 2 = 3" by simp_all
  ultimately show ?thesis by metis
qed


section \<open>Fetches that fail in a row\<close>

text \<open>\<open>n\<close> fetches, each of which fails in a way that could be retried; anything may happen in the outside world in between.\<close>

inductive failing_fetches ::
    "'w env \<Rightarrow> 'w ssh_env \<Rightarrow> evp option \<Rightarrow> zlib \<Rightarrow> nat \<Rightarrow> signature option \<Rightarrow> nat \<Rightarrow>
      repository \<times> host \<times> remote \<Rightarrow> repository \<times> host \<times> remote \<Rightarrow> 'w \<Rightarrow> bool"
  for env sv crypto z mem sg where
  none: "failing_fetches env sv crypto z mem sg 0 s s w"
| more: "failing_fetches env sv crypto z mem sg n s (r, h, rm) w0 \<Longrightarrow>
    fastgit_fetch_internal env sv crypto z mem sg r h rm w = Some (Inl e, r', h', rm', w') \<Longrightarrow> fastgit_error_is_retryable e \<Longrightarrow>
    failing_fetches env sv crypto z mem sg (Suc n) s (r', h', rm') w'"

definition idle :: "remote \<Rightarrow> bool" where
  "idle rm \<longleftrightarrow> is_http_url (rm_url rm) \<and> fst (fastgit_remote_load_acquire rm) \<and> rm_ls_inflight rm < max_inflight rm \<and> rm_ls_queued rm = 0"

text \<open>How the remote looks after \<open>n\<close> failures since the circuit was closed, the last one ending in \<open>w\<close>.\<close>

definition after_failures :: "'w env \<Rightarrow> nat \<Rightarrow> remote \<Rightarrow> remote \<Rightarrow> 'w \<Rightarrow> bool" where
  "after_failures env n rm rm' w \<longleftrightarrow> idle rm' \<and> rm_cb rm' = rm_cb rm \<and>
     (if n < trip_limit rm then rm_cb_open_until_ms rm' = 0 \<and> unat (rm_cb_failures rm') = n
      else \<exists>t w0. rm_cb_open_until_ms rm' = t + open_time rm \<and> ev_now env w0 = (t, w))"

lemma idle_cong:
  assumes "rm_url s = rm_url r" "rm_ls s = rm_ls r" "rm_ls_inflight s = rm_ls_inflight r" "rm_ls_queued s = rm_ls_queued r"
  shows "idle s = idle r"
  using assms by (simp add: idle_def fastgit_remote_load_acquire_def max_inflight_def Let_def)

lemma failure_counted:
  assumes "after_failures env n rm rmn w0" "n < trip_limit rm" "fastgit_error_is_retryable e"
    and "fastgit_fetch_internal env sv crypto z mem sg r h rmn w = Some (Inl e, r', h', rm', w')"
  shows "r' = r \<and> h' = h \<and> after_failures env (Suc n) rm rm' w'"
proof -
  have rmn: "idle rmn" "rm_cb rmn = rm_cb rm" "rm_cb_open_until_ms rmn = 0" "unat (rm_cb_failures rmn) = n"
    using assms(1,2) by (auto simp: after_failures_def)
  have lim: "trip_limit rmn = trip_limit rm" "open_time rmn = open_time rm" by (simp_all add: trip_limit_def open_time_def rmn(2))
  obtain now where f: "r' = r" "h' = h" "budget_moved (accounted (Inl e) now rmn) rm'" "\<exists>w0. ev_now env w0 = (now, w')"
    using fetch_accounted[of rmn env sv crypto z mem sg r h w] rmn(1,3) assms(3,4) by (auto simp: idle_def)
  let ?up = "rmn\<lparr>rm_cb_failures := rm_cb_failures rmn + 1\<rparr>"
  have "accounted (Inl e) now rmn = report rmn (now, False)" by (simp add: accounted_def report_def assms(3))
  also have "report rmn (now, False) = (if Suc n < trip_limit rm then ?up else open_circuit now ?up)"
    using report_closed_failure[OF rmn(3)] assms(2) rmn(4) lim(1) by simp
  finally have a: "accounted (Inl e) now rmn = (if Suc n < trip_limit rm then ?up else open_circuit now ?up)" .
  obtain b t where
    rm': "rm' = (if Suc n < trip_limit rm then ?up else open_circuit now ?up)\<lparr>rm_budget_remaining := b, rm_budget_reset_ms := t\<rparr>"
    using f(3) unfolding a budget_moved_def by blast
  have "idle rm'" using rmn(1) by (subst idle_cong[of rm' rmn]) (simp_all add: rm' open_circuit_def)
  moreover have "rm_cb rm' = rm_cb rm" by (simp add: rm' open_circuit_def rmn(2))
  moreover have "rm_cb_open_until_ms rm' = 0 \<and> unat (rm_cb_failures rm') = Suc n" if "Suc n < trip_limit rm"
  proof -
    have "trip_limit rm < 2 ^ 32" using unat_u32 by (simp add: trip_limit_def)
    then show ?thesis using that rmn(3,4) by (simp add: rm' unat_word_ariths)
  qed
  moreover have "rm_cb_open_until_ms rm' = now + open_time rm" if "\<not> Suc n < trip_limit rm"
    using that lim(2) by (simp add: rm' open_circuit_def open_time_def)
  ultimately show ?thesis using f(1,2,4) unfolding after_failures_def by (cases "Suc n < trip_limit rm") auto
qed

lemma failures_counted:
  "failing_fetches env sv crypto z mem sg n (r0, h0, rm) t w \<Longrightarrow> idle rm \<Longrightarrow> rm_cb_open_until_ms rm = 0 \<Longrightarrow>
   rm_cb_failures rm = 0 \<Longrightarrow> n \<le> trip_limit rm \<Longrightarrow> \<exists>rm'. t = (r0, h0, rm') \<and> after_failures env n rm rm' w"
proof (induction n "(r0, h0, rm)" t w rule: failing_fetches.induct)
  case (none w)
  then show ?case using trip_limit_pos[of rm] by (simp add: after_failures_def)
next
  case (more n r h rmn w0 w e r' h' rm' w')
  then have "r = r0" "h = h0" "after_failures env n rm rmn w0" by simp_all
  then show ?case using failure_counted[OF _ _ more.hyps(4,3)] more.prems(4) by simp
qed

text \<open>
  C12. A server that is down is left alone. From an idle remote with a closed circuit, when as many
  fetches in a row as the failure threshold fail in a way that could be retried, the repository and
  the host are as before, the last fetch ends with a reading \<open>t\<close> of the clock, and until the opening
  time after \<open>t\<close> has passed every further fetch is refused at once as busy: the clock is all that is
  asked, and nothing changes.
\<close>

theorem fetch_circuit_opens:
  assumes "failing_fetches env sv crypto z mem sg (trip_limit rm) (r0, h0, rm) (r, h, rm') w'"
    and "idle rm" "rm_cb_open_until_ms rm = 0" "rm_cb_failures rm = 0"
  shows "r = r0 \<and> h = h0 \<and> (\<exists>t w0. ev_now env w0 = (t, w') \<and> (\<forall>w. fst (ev_now env w) < t + open_time rm \<longrightarrow>
    fastgit_fetch_internal env sv crypto z mem sg r h rm' w = Some (Inl EBUSY, r, h, rm', snd (ev_now env w))))"
proof -
  have f: "r = r0" "h = h0" "after_failures env (trip_limit rm) rm rm' w'" using failures_counted[OF assms] by simp_all
  then obtain t w0 where t: "rm_cb_open_until_ms rm' = t + open_time rm" "ev_now env w0 = (t, w')" by (auto simp: after_failures_def)
  have "fastgit_fetch_internal env sv crypto z mem sg r h rm' w = Some (Inl EBUSY, r, h, rm', snd (ev_now env w))"
    if "fst (ev_now env w) < t + open_time rm" for w
  proof -
    have "t + open_time rm \<noteq> 0" using that by (metis word_not_simps(1))
    then show ?thesis using that t(1)
      by (cases "ev_now env w") (simp add: fastgit_fetch_internal_def admit_def fastgit_remote_circuit_allow_def)
  qed
  then show ?thesis using f t(2) by blast
qed


text \<open>A remote that is asked once per fetch and trips after one failure.\<close>

definition touchy :: remote where
  "touchy = (fastgit_remote_create 0 [] (str ''http://h/r''))\<lparr>rm_retry :=
     \<lparr>ry_max_retries = 0, ry_base_ms = 100, ry_max_ms = 30000, ry_jitter_ratio = 0, ry_budget_per_min = 20\<rparr>,
     rm_cb := \<lparr>cb_failure_threshold = 1, cb_success_threshold = 2, cb_open_ms = 500, cb_half_open_ms = 5000\<rparr>\<rparr>"

lemma touchy_fails:
  "\<exists>rm' w'. fastgit_fetch_internal script_env sv crypto z mem sg r h touchy (reply 503 [] # rs, c, n) = Some (Inl EAGAIN, r, h, rm', w')"
proof -
  let ?rm1 = "touchy\<lparr>rm_ls_inflight := 1\<rparr>"
  have ad: "admit script_env touchy (reply 503 [] # rs, c, n) = (Some (False, ?rm1), reply 503 [] # rs, c, n)"
    by (simp add: admit_def script_env_def fastgit_remote_circuit_allow_def acquire_slot_def fastgit_remote_load_acquire_def
        touchy_def fastgit_remote_create_def or_default_def Let_def)
  obtain t where "http_attempt script_env (fastgit_http_transport_new ?rm1) (reply 503 [] # rs, c, n) =
      (reply_result (reply 503 []), t, rs, c, Suc n)"
    using script_attempt[of "fastgit_http_transport_new ?rm1" "reply 503 []" rs c n] by (auto simp: fastgit_http_transport_new_def)
  moreover have "reply_result (reply 503 []) = Inl EAGAIN" by (simp add: reply_result_def reply_def info_result_def)
  ultimately have "info_refs_loop script_env 0 0 ?rm1 (fastgit_http_transport_new ?rm1) (reply 503 [] # rs, c, n) =
      (Inl EAGAIN, ?rm1, t, rs, c, Suc n)"
    by (subst info_refs_loop.simps) simp
  then have "fetch_via_http script_env crypto z mem r h ?rm1 (reply 503 [] # rs, c, n) = (Inl EAGAIN, r, h, ?rm1, rs, c, Suc n)"
    by (simp add: fetch_via_http_def do_http_info_refs_with_retry_def touchy_def fastgit_remote_create_def)
  moreover have "is_http_url (rm_url ?rm1)" by (simp add: touchy_def fastgit_remote_create_def is_http_url_def starts_def str_def)
  ultimately have "fetch_body script_env sv crypto z mem sg r h ?rm1 (reply 503 [] # rs, c, n) = Some (Inl EAGAIN, r, h, ?rm1, rs, c, Suc n)"
    using http_not_file by (simp add: fetch_body_def)
  moreover have "wait_loop script_env 0 0 ?rm1 (rs, c, Suc n) = (Inr (), ?rm1, rs, c, Suc n)"
    by (subst wait_loop.simps) simp
  moreover have "ry_max_retries (rm_retry ?rm1) = 0" by (simp add: touchy_def)
  ultimately show ?thesis
    using ad by (simp add: fastgit_fetch_internal_def settle_waits_def fastgit_error_is_retryable_def split: prod.split)
      (metis prod_cases4)
qed

theorem fetch_circuit_opens_witness:
  "\<exists>rm' w' t w0. let fetch = fastgit_fetch_internal script_env no_ssh None stuff_zlib 10000 None (bare_at (str ''/b'') empty_disk) (two_hosts empty_disk)
     in fetch touchy ([reply 503 []], 7, 0) = Some (Inl EAGAIN, bare_at (str ''/b'') empty_disk, two_hosts empty_disk, rm', w') \<and>
     ev_now script_env w0 = (t, w') \<and> (\<forall>w. fst (ev_now script_env w) < t + 500 \<longrightarrow>
       fetch rm' w = Some (Inl EBUSY, bare_at (str ''/b'') empty_disk, two_hosts empty_disk, rm', snd (ev_now script_env w)))"
proof -
  let ?r = "bare_at (str ''/b'') empty_disk" and ?h = "two_hosts empty_disk"
  obtain rm' w' where f: "fastgit_fetch_internal script_env no_ssh None stuff_zlib 10000 None ?r ?h touchy ([reply 503 []], 7, 0) =
      Some (Inl EAGAIN, ?r, ?h, rm', w')"
    using touchy_fails by blast
  have "fastgit_error_is_retryable EAGAIN" by (simp add: fastgit_error_is_retryable_def)
  then have run: "failing_fetches script_env no_ssh None stuff_zlib 10000 None (Suc 0) (?r, ?h, touchy) (?r, ?h, rm') w'"
    by (rule failing_fetches.more[OF failing_fetches.none f])
  have l: "trip_limit touchy = Suc 0" "open_time touchy = 500" by (simp_all add: trip_limit_def open_time_def touchy_def or_default_def)
  have i: "idle touchy" "rm_cb_open_until_ms touchy = 0" "rm_cb_failures touchy = 0"
    by (simp_all add: idle_def touchy_def fastgit_remote_create_def is_http_url_def starts_def str_def fastgit_remote_load_acquire_def
        max_inflight_def or_default_def Let_def)
  from fetch_circuit_opens[OF run[folded l(1)] i, unfolded l(2)] show ?thesis unfolding Let_def using f by blast
qed

end
