(* ===== verification/Spec2Isabelle.thy ===== *)
theory Spec2Isabelle
  imports Hash ObjectIO Delta PackProps MidxProps OdbProps IndexTreeProps ThreadPool RefProps MergeProps PktLineProps UnpackProps HttpProps WorktreeProps CommitGraphProps FetchProps
begin

text \<open>
  fastgit is a reimplementation of git in C: content-addressed objects, a database that stores them
  loose or packed, an index (staging area), references, merging and rebasing, remotes, and a thread
  pool for bulk work. This library models the logic of those parts and proves what makes them
  correct. Paths are relative to \<^verbatim>\<open>src/\<close>.

  \<^bold>\<open>Conventions.\<close> A byte is an 8-bit word, a file or buffer a list of bytes, a C string a list of bytes
  without 0; machine integers keep their width wherever the code's arithmetic can wrap. An operation
  that can fail returns \<open>fg_error + 'a\<close> (\<open>'a res\<close>): \<open>Inl\<close> holds the error code of the source, or
  \<open>Undefined\<close> where C gives no meaning (a read outside a buffer, a shift by the width, a pointer of the
  wrong type), so that a theorem that a result is \<open>Inr\<close> also says that no such thing happens. Small
  allocations succeed; one whose size comes from the input succeeds up to the bound \<open>mem\<close>, which is a
  parameter. Null checks on handles are in the types. zlib (\<open>zlib\<close>) and the digests of the crypto
  library (\<open>crypto :: evp option\<close>, \<open>None\<close> for the portable build) are parameters; what is assumed of them
  (\<open>zlib_ok\<close>, \<open>zlib_fast_ok\<close>, \<open>sha256_ok\<close>) is that inflating undoes deflating and that a digest has its
  length. The file system is a map from paths to contents; the clock, the length of a file list and the
  like are arguments. The branch for POSIX systems is the one modelled.

  \<^bold>\<open>Theories, from the bottom up.\<close>

  \<^item> \<^verbatim>\<open>Prelude\<close>: error codes, results (\<open>bindr\<close>, \<open>mapr\<close>), C strings, number printing and \<open>strtoul\<close>, big-endian
    words, binary search, \<open>read_all\<close> and the collections shared by the rest. \<^verbatim>\<open>Codec\<close>: the locale
    \<open>codec\<close> (a decoder that undoes an encoder and hands back the rest) and its lemmas for lists of fields,
    interpreted for big-endian words and tree entries.
  \<^item> \<^verbatim>\<open>Sha2\<close> (\<^verbatim>\<open>src/hash/sha256.c\<close>, \<^verbatim>\<open>src/hash/sha384.c\<close>), \<^verbatim>\<open>Keccak\<close> (\<^verbatim>\<open>src/hash/sha3.c\<close>), \<^verbatim>\<open>Hash\<close>
    (\<^verbatim>\<open>src/hash/hash.c\<close>): the portable digests and the front end. The locale \<open>hash_stream\<close> (feeding in
    pieces equals feeding at once) is interpreted for both families. SHA-256 is
    compared with a specification after FIPS 180-4.
  \<^item> \<^verbatim>\<open>Objects\<close> (\<^verbatim>\<open>src/object/object.c\<close>, \<^verbatim>\<open>src/object/blob.c\<close>), \<^verbatim>\<open>Trees\<close> (\<^verbatim>\<open>src/object/tree.c\<close>), \<^verbatim>\<open>Commits\<close>
    (\<^verbatim>\<open>src/object/commit.c\<close>, \<^verbatim>\<open>src/object/tag.c\<close>), \<^verbatim>\<open>ObjectIO\<close> (serialising, hashing and parsing of any object):
    names, their order and hex text, large-file pointers, trees as sorted finite maps, commits, tags
    and signatures, sizes against the text written, round trips.
  \<^item> \<^verbatim>\<open>Delta\<close> (\<^verbatim>\<open>src/pack/delta.c\<close> and the interpreter in \<^verbatim>\<open>src/pack/packfile.c\<close>): compression with its hash
    chains, both interpreters (locale \<open>delta_reader\<close>), the round trip and the guard that wraps.
  \<^item> \<^verbatim>\<open>Pack\<close>, \<^verbatim>\<open>PackWrite\<close>, \<^verbatim>\<open>Fanout\<close>, \<^verbatim>\<open>PackProps\<close> (\<^verbatim>\<open>src/pack/packfile.c\<close>): reading entries with their deltas,
    writing packs, sequentially and in a batch, the index file with its fanout, opening both.
    \<^verbatim>\<open>Midx\<close>, \<^verbatim>\<open>MidxProps\<close> (\<^verbatim>\<open>src/pack/midx.c\<close>): the multi-pack index.
  \<^item> \<^verbatim>\<open>Odb\<close>, \<^verbatim>\<open>OdbProps\<close> (\<^verbatim>\<open>src/odb/odb.c\<close>): the handle with its cache, counters and alternates over the disk.
    The locale \<open>object_store\<close> states what a store promises (what is put is readable, nothing readable
    is lost, the invariant is kept); it is interpreted on \<open>fastgit_odb_write\<close> and \<open>fastgit_odb_read\<close>
    with the invariant \<open>odb_ok\<close>, and what the index and merging need of the database rests on it.
    \<^verbatim>\<open>OdbDisk\<close> extends the locale to \<open>durable_store\<close> (a reopened store keeps what it held) and interprets it.
  \<^item> \<^verbatim>\<open>HTable\<close>, \<^verbatim>\<open>Index\<close>, \<^verbatim>\<open>IndexProps\<close>, \<^verbatim>\<open>IndexIO\<close> (\<^verbatim>\<open>src/index/index.c\<close>, \<^verbatim>\<open>src/index/entry.c\<close>): the table of slots,
    adding, removing, finding and conflicts, shown to implement a map from (path, stage) to entries
    while the invariant \<open>index_ok\<close> holds, and the file format. \<^verbatim>\<open>IndexTree\<close>, \<^verbatim>\<open>IndexTreeProps\<close>: writing the trees of an
    index and filling an index from a tree; the text of a directory is given as a pure function of the
    entries (\<open>tree_text\<close>), the writer stores it for every directory and the reader inverts it.
  \<^item> \<^verbatim>\<open>Ring\<close>, \<^verbatim>\<open>ThreadPool\<close> (\<^verbatim>\<open>src/platform/platform.c\<close>): the bounded queue (locale \<open>fifo\<close>) and the pool as a step
    relation of workers and client; the locks are what makes each step atomic, sleeping and
    signalling are steps of their own.
  \<^item> \<^verbatim>\<open>Refs\<close>, \<^verbatim>\<open>RefProps\<close> (\<^verbatim>\<open>src/repository.c\<close>): references as files, the symbolic HEAD, packed references,
    reflog, revisions. \<^verbatim>\<open>Merge\<close>, \<^verbatim>\<open>MergeProps\<close> (\<^verbatim>\<open>src/merge/merge.c\<close>, \<^verbatim>\<open>src/merge/rebase.c\<close>): merge analysis by the
    bounded ancestor search (locale \<open>history\<close>, interpreted on commits read from the database) and
    the steps of a rebase.

  \<^bold>\<open>Bounds and fuel.\<close> Loops over input shrink it and are total functions. The following of references is
  bounded by the source (8 levels); the ancestor search by its arrays (256 entries), and
  \<open>history_fits\<close> is the condition under which they do not cut anything off. A loop that might not end
  (the ancestor search, delta chains) is a \<open>partial_function\<close> or carries the depth of the source, and
  its theorem says that it returns.

  \<^bold>\<open>Not modelled.\<close> Directory walks, permission bits, memory mapping and time stamps beyond their
  results; the OpenSSL calls behind the digests and post-quantum signatures; curl and libssh; the
  command line; SIMD detection and the asynchronous I/O contexts, which only call the system.
\<close>

end
